(* ===== verification/Memhook_Prelude.thy ===== *)
theory Memhook_Prelude
  imports Main "HOL-Library.Word" "HOL-Library.Multiset" "HOL-Library.Monad_Syntax"
begin

text \<open>
  Shared vocabulary of the development: the machine types of an x86-64 build of
  memhook, the naive byte layout of integers in memory, and generic facts on keyed
  lists, options and words that the components use.

  \<^item> \<open>u8\<close>, \<open>u16\<close>, \<open>u32\<close>, \<open>u64\<close> are the fixed-width unsigned types;
    \<open>addr\<close> is \<^verbatim>\<open>uintptr_t\<close>, \<open>usize\<close> is \<^verbatim>\<open>std::size_t\<close>, both 64 bit.
  \<^item> \<open>time\<close> is the tick count of a \<^verbatim>\<open>chrono::system_clock::time_point\<close>, a signed
    64-bit number of nanoseconds; \<open>int64_ok\<close> is its range.
  \<^item> Undefined behaviour of the C++ code (a read past the end of a buffer, a call
    through a null pointer) is the value \<open>None\<close> of an \<open>option\<close>.
\<close>

unbundle bit_operations_syntax

type_synonym u8 = "8 word"
type_synonym u16 = "16 word"
type_synonym u32 = "32 word"
type_synonym u64 = "64 word"
type_synonym addr = u64
type_synonym usize = u64
type_synonym time = int

text \<open>The configuration of the build: the functions of the C library that \<^verbatim>\<open>CMake\<close> has found.\<close>

record build_config =
  HAVE_CFREE :: bool
  HAVE_ALIGNED_ALLOC :: bool
  HAVE_VALLOC :: bool
  HAVE_PVALLOC :: bool
  HAVE_DLVSYM :: bool

text \<open>A configuration for examples, of a C library without \<^verbatim>\<open>cfree\<close>.\<close>

definition demo_cfg :: build_config where
  "demo_cfg = \<lparr>HAVE_CFREE = False, HAVE_ALIGNED_ALLOC = True, HAVE_VALLOC = True, HAVE_PVALLOC = True,
     HAVE_DLVSYM = True\<rparr>"

named_theorems roundtrips \<open>reading back what was written\<close>
named_theorems bytelens \<open>number of bytes an encoding occupies\<close>

definition int64_ok :: "int \<Rightarrow> bool" where
  "int64_ok t \<longleftrightarrow> - (2 ^ 63) \<le> t \<and> t < 2 ^ 63"

lemma sint_word_of_int64 [simp]: "int64_ok t \<Longrightarrow> sint (word_of_int t :: u64) = t"
  unfolding int64_ok_def
  by (simp add: signed_of_int signed_take_bit_int_eq_self)

text \<open>
  The value of a time or a difference of times as it is stored: an overflow, which C++ leaves
  undefined, wraps around as the machine's arithmetic does.
\<close>

definition wrap64 :: "int \<Rightarrow> int" where
  "wrap64 t = sint (word_of_int t :: u64)"

lemma wrap64_id: "int64_ok t \<Longrightarrow> wrap64 t = t"
  by (simp add: wrap64_def)

lemma wrap64_range [simp]: "- 9223372036854775808 \<le> t \<Longrightarrow> t < 9223372036854775808 \<Longrightarrow> wrap64 t = t"
  by (rule wrap64_id) (simp add: int64_ok_def)

text \<open>Times of a clock that counts from the epoch: their differences do not overflow.\<close>

definition clock_time :: "time \<Rightarrow> bool" where
  "clock_time t \<longleftrightarrow> 0 \<le> t \<and> t < 2 ^ 63"

lemma clock_diff: "clock_time a \<Longrightarrow> clock_time b \<Longrightarrow> wrap64 (a - b) = a - b"
  by (rule wrap64_id) (auto simp: clock_time_def int64_ok_def)

text \<open>Little-endian byte images of natural numbers, and their inverse.\<close>

fun le_bytes :: "nat \<Rightarrow> nat \<Rightarrow> u8 list" where
  "le_bytes 0 x = []"
| "le_bytes (Suc n) x = word_of_nat x # le_bytes n (x div 256)"

fun le_val :: "u8 list \<Rightarrow> nat" where
  "le_val [] = 0"
| "le_val (b # bs) = unat b + 256 * le_val bs"

lemma unat_u8_less: "unat (b :: u8) < 256"
  using unsigned_less [where ?'a = nat, of b] by simp

lemma length_le_bytes [simp]: "length (le_bytes n x) = n"
  by (induction n x rule: le_bytes.induct) auto

lemma le_val_le_bytes: "le_val (le_bytes n x) = x mod 256 ^ n"
  by (induction n x rule: le_bytes.induct)
    (auto simp: unat_of_nat mod_mult2_eq)

lemma le_val_bound: "le_val bs < 256 ^ length bs"
proof (induction bs)
  case (Cons b bs)
  have "unat b < 256" by (rule unat_u8_less)
  with Cons show ?case by simp
qed simp

lemma le_bytes_le_val: "length bs = n \<Longrightarrow> le_bytes n (le_val bs) = bs"
proof (induction bs arbitrary: n)
  case (Cons b bs)
  have "unat b < 256" by (rule unat_u8_less)
  moreover have "(word_of_nat (unat b + 256 * le_val bs) :: u8) = b"
    using unat_u8_less [of b] unfolding word_unat_eq_iff unat_of_nat by simp
  ultimately show ?case using Cons by auto
qed simp

text \<open>The low and the high bits of a word as numbers.\<close>

lemma unat_nat: "unat w = nat (uint w)"
  by simp

lemma uint_low_bits: "uint (x AND mask n :: 'a::len word) = uint x mod 2 ^ n"
  unfolding take_bit_eq_mask [symmetric] unsigned_take_bit_eq by (rule take_bit_eq_mod)

lemma uint_high_bits: "uint (drop_bit n x :: 'a::len word) = uint x div 2 ^ n"
  unfolding drop_bit_eq_div [symmetric] by (rule bit_eqI) (auto simp: bit_simps dest: bit_imp_le_length)

text \<open>Keyed lists.\<close>

lemma find_eq_None_iff: "List.find P xs = None \<longleftrightarrow> (\<forall>x\<in>set xs. \<not> P x)"
  by (auto simp: find_None_iff)

lemma find_SomeD: "List.find P xs = Some x \<Longrightarrow> x \<in> set xs \<and> P x"
  by (auto simp: find_Some_iff)

lemma find_append:
  "List.find P (xs @ ys) = (case List.find P xs of None \<Rightarrow> List.find P ys | Some x \<Rightarrow> Some x)"
  by (induction xs) auto

lemma find_distinct_key:
  "distinct (map k xs) \<Longrightarrow> x \<in> set xs \<Longrightarrow> List.find (\<lambda>y. k y = k x) xs = Some x"
  by (induction xs) (auto simp: rev_image_eqI)

lemma distinct_key_eq:
  "distinct (map k xs) \<Longrightarrow> x \<in> set xs \<Longrightarrow> y \<in> set xs \<Longrightarrow> k x = k y \<Longrightarrow> x = y"
  by (metis distinct_map inj_onD)

end
