(* ===== verification/Traceinfo.thy ===== *)
theory Traceinfo
  imports Memhook_Prelude
begin

text \<open>
  The records that travel through the whole program: a resolved stack frame
  (\<^verbatim>\<open>include/memhook/callstack.h\<close>), the header of an allocation record, its compact
  stack frame and the record kept in the storage (\<^verbatim>\<open>include/memhook/traceinfo.h\<close>), and
  the record of the engine's local cache (\<^verbatim>\<open>Engine::TraceInfo\<close> of
  \<^verbatim>\<open>src/memhook/engine.h\<close>). The \<^verbatim>\<open>Builder\<close> functor of \<^verbatim>\<open>BasicTraceInfo\<close> forgets the
  two strings of a frame.
\<close>

record CallStackInfoItem =
  shl_path :: string
  procname :: string
  shl_addr :: addr
  ip :: addr
  sp :: addr
  offp :: addr

type_synonym CallStackInfo = "CallStackInfoItem list"

definition new_CallStackInfoItem :: CallStackInfoItem where
  "new_CallStackInfoItem =
     \<lparr>shl_path = [], procname = [], shl_addr = 0, ip = 0, sp = 0, offp = 0\<rparr>"

record TraceInfoBase =
  address :: addr
  memsize :: usize
  timestamp :: time

definition new_TraceInfoBase :: TraceInfoBase where
  "new_TraceInfoBase = \<lparr>address = 0, memsize = 0, timestamp = 0\<rparr>"

record TraceInfoCallStackItem =
  t_shl_addr :: addr
  t_ip :: addr
  t_sp :: addr
  t_offp :: addr

record BasicTraceInfo = TraceInfoBase +
  callstack :: "TraceInfoCallStackItem list"

record EngineTraceInfo = TraceInfoBase +
  e_callstack :: CallStackInfo

definition Builder :: "CallStackInfoItem \<Rightarrow> TraceInfoCallStackItem" where
  "Builder item = \<lparr>t_shl_addr = shl_addr item, t_ip = ip item, t_sp = sp item, t_offp = offp item\<rparr>"

definition new_BasicTraceInfo ::
    "addr \<Rightarrow> usize \<Rightarrow> time \<Rightarrow> CallStackInfo \<Rightarrow> BasicTraceInfo" where
  "new_BasicTraceInfo a n t cs =
     \<lparr>address = a, memsize = n, timestamp = t, callstack = map Builder cs\<rparr>"

definition new_EngineTraceInfo :: "addr \<Rightarrow> usize \<Rightarrow> time \<Rightarrow> EngineTraceInfo" where
  "new_EngineTraceInfo a n t = \<lparr>address = a, memsize = n, timestamp = t, e_callstack = []\<rparr>"

lemma new_BasicTraceInfo_sel [simp]:
  "address (new_BasicTraceInfo a n t cs) = a"
  "memsize (new_BasicTraceInfo a n t cs) = n"
  "timestamp (new_BasicTraceInfo a n t cs) = t"
  "callstack (new_BasicTraceInfo a n t cs) = map Builder cs"
  by (simp_all add: new_BasicTraceInfo_def)

lemma new_EngineTraceInfo_sel [simp]:
  "address (new_EngineTraceInfo a n t) = a"
  "memsize (new_EngineTraceInfo a n t) = n"
  "timestamp (new_EngineTraceInfo a n t) = t"
  "e_callstack (new_EngineTraceInfo a n t) = []"
  by (simp_all add: new_EngineTraceInfo_def)

lemma Builder_sel [simp]:
  "t_shl_addr (Builder i) = shl_addr i" "t_ip (Builder i) = ip i"
  "t_sp (Builder i) = sp i" "t_offp (Builder i) = offp i"
  by (simp_all add: Builder_def)

end
