(* ===== verification/Byteswap.thy ===== *)
theory Byteswap
  imports Memhook_Prelude
begin

text \<open>
  Byte order conversion, \<^verbatim>\<open>include/memhook/byteswap.h\<close>. The build picks one of the
  compiler's or the C library's byte swaps; all of them reverse the bytes of a word.
  Only the 16-bit fallback \<^verbatim>\<open>bswap_detail::builtin_bswap16\<close> is written out in the
  header, with shifts. \<open>be\<close> is the build's \<^verbatim>\<open>SYSTEM_BIG_ENDIAN\<close>: it decides both how the
  machine lays an integer out in memory (\<open>store\<close>, \<open>load\<close>) and whether \<^verbatim>\<open>hton\<close> swaps.
\<close>

definition store :: "bool \<Rightarrow> nat \<Rightarrow> nat \<Rightarrow> u8 list" where
  "store be n x = (if be then rev (le_bytes n x) else le_bytes n x)"

definition load :: "bool \<Rightarrow> u8 list \<Rightarrow> nat" where
  "load be bs = le_val (if be then rev bs else bs)"

definition builtin_bswap16 :: "u16 \<Rightarrow> u16" where
  "builtin_bswap16 a = (push_bit 8 a) OR (drop_bit 8 a)"

definition BYTESWAP_16 :: "u16 \<Rightarrow> u16" where
  "BYTESWAP_16 x = word_of_nat (le_val (rev (le_bytes 2 (unat x))))"

definition BYTESWAP_32 :: "u32 \<Rightarrow> u32" where
  "BYTESWAP_32 x = word_of_nat (le_val (rev (le_bytes 4 (unat x))))"

definition BYTESWAP_64 :: "u64 \<Rightarrow> u64" where
  "BYTESWAP_64 x = word_of_nat (le_val (rev (le_bytes 8 (unat x))))"

definition hton_16 :: "bool \<Rightarrow> u16 \<Rightarrow> u16" where
  "hton_16 be x = (if be then x else BYTESWAP_16 x)"

definition ntoh_16 :: "bool \<Rightarrow> u16 \<Rightarrow> u16" where
  "ntoh_16 be x = (if be then x else BYTESWAP_16 x)"

definition hton_32 :: "bool \<Rightarrow> u32 \<Rightarrow> u32" where
  "hton_32 be x = (if be then x else BYTESWAP_32 x)"

definition ntoh_32 :: "bool \<Rightarrow> u32 \<Rightarrow> u32" where
  "ntoh_32 be x = (if be then x else BYTESWAP_32 x)"

definition hton_64 :: "bool \<Rightarrow> u64 \<Rightarrow> u64" where
  "hton_64 be x = (if be then x else BYTESWAP_64 x)"

definition ntoh_64 :: "bool \<Rightarrow> u64 \<Rightarrow> u64" where
  "ntoh_64 be x = (if be then x else BYTESWAP_64 x)"

text \<open>The abstract wire format: most significant byte first.\<close>

definition be_bytes :: "nat \<Rightarrow> nat \<Rightarrow> u8 list" where
  "be_bytes n x = rev (le_bytes n x)"

definition be_val :: "u8 list \<Rightarrow> nat" where
  "be_val bs = le_val (rev bs)"

lemma length_be_bytes [simp, bytelens]: "length (be_bytes n x) = n"
  by (simp add: be_bytes_def)

lemma be_val_be_bytes: "be_val (be_bytes n x) = x mod 256 ^ n"
  by (simp add: be_val_def be_bytes_def le_val_le_bytes)

lemma be_val_u32 [simp, roundtrips]: "word_of_nat (be_val (be_bytes 4 (unat x))) = (x :: u32)"
  using unsigned_less [where ?'a = nat, of x] by (simp add: be_val_be_bytes)

lemma be_val_u64 [simp, roundtrips]: "word_of_nat (be_val (be_bytes 8 (unat x))) = (x :: u64)"
  using unsigned_less [where ?'a = nat, of x] by (simp add: be_val_be_bytes)

lemma unat_bytes_word:
  assumes "length bs = n" "8 * n = LENGTH('a::len)"
  shows "unat (word_of_nat (le_val bs) :: 'a word) = le_val bs"
proof -
  have "le_val bs < 256 ^ n" using le_val_bound [of bs] assms(1) by simp
  also have "(256::nat) ^ n = 2 ^ LENGTH('a)"
    by (simp add: power_mult flip: assms(2))
  finally show ?thesis by (simp add: unat_of_nat)
qed

lemma BYTESWAP_32_invol: "BYTESWAP_32 (BYTESWAP_32 x) = x"
proof -
  have "unat (BYTESWAP_32 x) = le_val (rev (le_bytes 4 (unat x)))"
    unfolding BYTESWAP_32_def by (rule unat_bytes_word [of _ 4]) auto
  then show ?thesis
    unfolding BYTESWAP_32_def [of "BYTESWAP_32 x"]
    by (simp add: le_bytes_le_val flip: be_bytes_def be_val_def)
qed

lemma BYTESWAP_64_invol: "BYTESWAP_64 (BYTESWAP_64 x) = x"
proof -
  have "unat (BYTESWAP_64 x) = le_val (rev (le_bytes 8 (unat x)))"
    unfolding BYTESWAP_64_def by (rule unat_bytes_word [of _ 8]) auto
  then show ?thesis
    unfolding BYTESWAP_64_def [of "BYTESWAP_64 x"]
    by (simp add: le_bytes_le_val flip: be_bytes_def be_val_def)
qed

lemma BYTESWAP_16_arith: "BYTESWAP_16 a = word_of_nat (unat a div 256) + word_of_nat (256 * unat a)"
proof -
  have "le_val (rev (le_bytes 2 (unat a))) = unat a div 256 mod 256 + 256 * (unat a mod 256)"
    by (simp add: numeral_2_eq_2 unat_of_nat unsigned_ucast_eq take_bit_eq_mod)
  moreover have "unat a div 256 < 256"
    using unsigned_less [where ?'a = nat, of a] by (simp add: less_mult_imp_div_less)
  moreover have "(word_of_nat (256 * (unat a mod 256)) :: u16) = word_of_nat (256 * unat a)"
    unfolding word_unat_eq_iff unat_of_nat using mod_mult_mult1 [of 256 "unat a" 256]
    by simp
  ultimately show ?thesis by (simp add: BYTESWAP_16_def)
qed

lemma builtin_bswap16_arith:
  "builtin_bswap16 a = word_of_nat (unat a div 256) + word_of_nat (256 * unat a)"
proof -
  have "unat a div 256 < 2 ^ 16"
    using unsigned_less [where ?'a = nat, of a] by (simp add: div_less_dividend less_mult_imp_div_less)
  then have "drop_bit 8 a = word_of_nat (unat a div 256)"
    unfolding word_unat_eq_iff unat_of_nat unat_drop_bit_eq
    by (simp add: drop_bit_eq_div)
  moreover have "push_bit 8 a = word_of_nat (256 * unat a)"
    by (simp add: push_bit_eq_mult mult.commute)
  moreover have "push_bit 8 a AND drop_bit 8 a = 0"
    by (rule bit_word_eqI) (auto simp: bit_simps dest: bit_imp_le_length)
  ultimately show ?thesis
    by (simp add: builtin_bswap16_def disjunctive_add_eq_or add.commute)
qed

lemma store_hton_16: "store be 2 (unat (hton_16 be x)) = be_bytes 2 (unat x)"
proof -
  have "unat (BYTESWAP_16 x) = le_val (rev (le_bytes 2 (unat x)))"
    unfolding BYTESWAP_16_def by (rule unat_bytes_word [of _ 2]) auto
  then show ?thesis by (simp add: store_def hton_16_def be_bytes_def le_bytes_le_val)
qed

lemma store_hton_32: "store be 4 (unat (hton_32 be x)) = be_bytes 4 (unat x)"
proof -
  have "unat (BYTESWAP_32 x) = le_val (rev (le_bytes 4 (unat x)))"
    unfolding BYTESWAP_32_def by (rule unat_bytes_word [of _ 4]) auto
  then show ?thesis by (simp add: store_def hton_32_def be_bytes_def le_bytes_le_val)
qed

lemma store_hton_64: "store be 8 (unat (hton_64 be x)) = be_bytes 8 (unat x)"
proof -
  have "unat (BYTESWAP_64 x) = le_val (rev (le_bytes 8 (unat x)))"
    unfolding BYTESWAP_64_def by (rule unat_bytes_word [of _ 8]) auto
  then show ?thesis by (simp add: store_def hton_64_def be_bytes_def le_bytes_le_val)
qed

lemma ntoh_32_load: "length bs = 4 \<Longrightarrow> ntoh_32 be (word_of_nat (load be bs)) = word_of_nat (be_val bs)"
  by (auto simp: ntoh_32_def load_def be_val_def BYTESWAP_32_def unat_bytes_word [of _ 4] le_bytes_le_val)

lemma ntoh_64_load: "length bs = 8 \<Longrightarrow> ntoh_64 be (word_of_nat (load be bs)) = word_of_nat (be_val bs)"
  by (auto simp: ntoh_64_def load_def be_val_def BYTESWAP_64_def unat_bytes_word [of _ 8] le_bytes_le_val)

text \<open>
  The shift form of the 16-bit swap, written out in the header as the fallback, is the
  byte reversal that the other alternatives of the same macro provide.
\<close>

theorem bswap16_fallback_equiv: "builtin_bswap16 a = BYTESWAP_16 a"
  by (simp add: BYTESWAP_16_arith builtin_bswap16_arith)

end
