(* ===== verification/Serialization.thy ===== *)
theory Serialization
  imports Traceinfo Byteswap
begin

text \<open>
  The wire codec, \<^verbatim>\<open>include/memhook/serialization.h\<close>.

  \<^verbatim>\<open>WriterImpl<ClassT>\<close> walks over a value and hands every integer and every string to
  \<^verbatim>\<open>ClassT::Call\<close>; its two instances are \<^verbatim>\<open>SizeOf\<close> (adds up bytes) and \<^verbatim>\<open>BufferWriter\<close>
  (copies bytes into a buffer). The template parameter is the record \<open>writer\<close> of the
  \<open>Call\<close> overloads; the visitor's state is the type parameter \<open>'s\<close>. \<^verbatim>\<open>BufferReader\<close> is
  a function from the remaining bytes to a value and the bytes after it. It checks no
  bound in the source: \<open>None\<close> stands for a read past the end of the buffer.

  \<open>enc_writer\<close> is the abstract format. The locale \<open>writer_sim\<close> carries a relation
  between two visitors from the primitive calls to every composite; it is interpreted
  for both instances, and the round trip is proved against the abstract format.
\<close>

subsection \<open>Visitors\<close>

record 's writer =
  Call_u32 :: "u32 \<Rightarrow> 's \<Rightarrow> 's"
  Call_u64 :: "u64 \<Rightarrow> 's \<Rightarrow> 's"
  Call_string :: "string \<Rightarrow> 's \<Rightarrow> 's"

definition CallSeq :: "'s writer \<Rightarrow> ('a \<Rightarrow> 's \<Rightarrow> 's) \<Rightarrow> 'a list \<Rightarrow> 's \<Rightarrow> 's" where
  "CallSeq c f xs s = fold f xs (Call_u32 c (word_of_nat (length xs)) s)"

definition w_enum :: "'s writer \<Rightarrow> u32 \<Rightarrow> 's \<Rightarrow> 's" where
  "w_enum c v = Call_u32 c v"

definition w_pair :: "('a \<Rightarrow> 's \<Rightarrow> 's) \<Rightarrow> ('b \<Rightarrow> 's \<Rightarrow> 's) \<Rightarrow> 'a \<times> 'b \<Rightarrow> 's \<Rightarrow> 's" where
  "w_pair f g p s = g (snd p) (f (fst p) s)"

definition w_time_point :: "'s writer \<Rightarrow> time \<Rightarrow> 's \<Rightarrow> 's" where
  "w_time_point c t = Call_u64 c (word_of_int t)"

text \<open>Fusion sequences: the adapted members in declaration order.\<close>

definition w_TraceInfoBase :: "'s writer \<Rightarrow> TraceInfoBase \<Rightarrow> 's \<Rightarrow> 's" where
  "w_TraceInfoBase c v s =
     w_time_point c (timestamp v) (Call_u64 c (memsize v) (Call_u64 c (address v) s))"

definition w_CallStackInfoItem :: "'s writer \<Rightarrow> CallStackInfoItem \<Rightarrow> 's \<Rightarrow> 's" where
  "w_CallStackInfoItem c v s =
     Call_u64 c (offp v) (Call_u64 c (sp v) (Call_u64 c (ip v) (Call_u64 c (shl_addr v)
       (Call_string c (procname v) (Call_string c (shl_path v) s)))))"

definition w_CallStackInfo :: "'s writer \<Rightarrow> CallStackInfo \<Rightarrow> 's \<Rightarrow> 's" where
  "w_CallStackInfo c = CallSeq c (w_CallStackInfoItem c)"

definition w_TraceInfoCallStackItem :: "'s writer \<Rightarrow> TraceInfoCallStackItem \<Rightarrow> 's \<Rightarrow> 's" where
  "w_TraceInfoCallStackItem c v s =
     Call_u64 c (t_offp v) (Call_u64 c (t_sp v) (Call_u64 c (t_ip v) (Call_u64 c (t_shl_addr v) s)))"

definition w_BasicTraceInfo :: "'s writer \<Rightarrow> BasicTraceInfo \<Rightarrow> 's \<Rightarrow> 's" where
  "w_BasicTraceInfo c v s =
     CallSeq c (w_TraceInfoCallStackItem c) (callstack v)
       (w_time_point c (timestamp v) (Call_u64 c (memsize v) (Call_u64 c (address v) s)))"

definition w_SymbolTable :: "'s writer \<Rightarrow> (addr \<times> string) list \<Rightarrow> 's \<Rightarrow> 's" where
  "w_SymbolTable c = CallSeq c (w_pair (Call_u64 c) (Call_string c))"

subsection \<open>SizeOf\<close>

definition SizeOf :: "usize writer" where
  "SizeOf = \<lparr>Call_u32 = (\<lambda>v size. size + 4), Call_u64 = (\<lambda>v size. size + 8),
     Call_string = (\<lambda>v size. (size + 4) + ucast (word_of_nat (length v) :: u32))\<rparr>"

subsection \<open>BufferWriter\<close>

text \<open>
  An asio \<^verbatim>\<open>mutable_buffer\<close> is a window on memory: the bytes and the current start of
  the window. \<^verbatim>\<open>buffer_copy\<close> copies as many bytes as fit, \<^verbatim>\<open>buf + n\<close> moves the start and
  stops at the end.
\<close>

record mutable_buffer =
  mb_mem :: "u8 list"
  mb_pos :: nat

definition mb_size :: "mutable_buffer \<Rightarrow> nat" where
  "mb_size b = length (mb_mem b) - mb_pos b"

definition buffer_copy :: "u8 list \<Rightarrow> mutable_buffer \<Rightarrow> mutable_buffer" where
  "buffer_copy src b =
     (let n = min (length src) (mb_size b)
      in b\<lparr>mb_mem := take (mb_pos b) (mb_mem b) @ take n src @ drop (mb_pos b + n) (mb_mem b)\<rparr>)"

definition buffer_plus :: "mutable_buffer \<Rightarrow> nat \<Rightarrow> mutable_buffer" where
  "buffer_plus b n = b\<lparr>mb_pos := mb_pos b + min n (mb_size b)\<rparr>"

definition bytes_of_string :: "string \<Rightarrow> u8 list" where
  "bytes_of_string s = map (\<lambda>c. word_of_nat (of_char c)) s"

definition string_of_bytes :: "u8 list \<Rightarrow> string" where
  "string_of_bytes bs = map (\<lambda>b. char_of (unat b)) bs"

definition bw_u32 :: "bool \<Rightarrow> u32 \<Rightarrow> mutable_buffer \<Rightarrow> mutable_buffer" where
  "bw_u32 be v b = buffer_plus (buffer_copy (store be 4 (unat (hton_32 be v))) b) 4"

definition bw_u64 :: "bool \<Rightarrow> u64 \<Rightarrow> mutable_buffer \<Rightarrow> mutable_buffer" where
  "bw_u64 be v b = buffer_plus (buffer_copy (store be 8 (unat (hton_64 be v))) b) 8"

definition bw_string :: "bool \<Rightarrow> string \<Rightarrow> mutable_buffer \<Rightarrow> mutable_buffer" where
  "bw_string be v b =
     (let size = (word_of_nat (length v) :: u32); b' = bw_u32 be size b
      in if size \<noteq> 0
         then buffer_plus (buffer_copy (take (unat size) (bytes_of_string v)) b') (unat size)
         else b')"

definition BufferWriter :: "bool \<Rightarrow> mutable_buffer writer" where
  "BufferWriter be = \<lparr>Call_u32 = bw_u32 be, Call_u64 = bw_u64 be, Call_string = bw_string be\<rparr>"

subsection \<open>BufferReader\<close>

type_synonym 'a reader = "u8 list \<Rightarrow> ('a \<times> u8 list) option"

definition r_u32 :: "bool \<Rightarrow> u32 reader" where
  "r_u32 be buf =
     (if length buf < 4 then None
      else Some (ntoh_32 be (word_of_nat (load be (take 4 buf))), drop 4 buf))"

definition r_u64 :: "bool \<Rightarrow> u64 reader" where
  "r_u64 be buf =
     (if length buf < 8 then None
      else Some (ntoh_64 be (word_of_nat (load be (take 8 buf))), drop 8 buf))"

definition r_string :: "bool \<Rightarrow> string reader" where
  "r_string be buf =
     do { (size, buf) \<leftarrow> r_u32 be buf;
          if length buf < unat size then None
          else Some (string_of_bytes (take (unat size) buf), drop (unat size) buf) }"

fun r_loop :: "nat \<Rightarrow> 'a reader \<Rightarrow> ('a \<Rightarrow> 'c \<Rightarrow> 'c) \<Rightarrow> 'c \<Rightarrow> u8 list \<Rightarrow> ('c \<times> u8 list) option" where
  "r_loop 0 f ins seq buf = Some (seq, buf)"
| "r_loop (Suc n) f ins seq buf =
     do { (val, buf) \<leftarrow> f buf; r_loop n f ins (ins val seq) buf }"

definition r_CallSeq :: "bool \<Rightarrow> 'a reader \<Rightarrow> ('a \<Rightarrow> 'c \<Rightarrow> 'c) \<Rightarrow> 'c \<Rightarrow> 'c reader" where
  "r_CallSeq be f ins emp buf =
     do { (size, buf) \<leftarrow> r_u32 be buf; r_loop (unat size) f ins emp buf }"

definition push_back :: "'a \<Rightarrow> 'a list \<Rightarrow> 'a list" where
  "push_back x xs = xs @ [x]"

definition r_enum :: "bool \<Rightarrow> u32 reader" where
  "r_enum be = r_u32 be"

definition r_pair :: "'a reader \<Rightarrow> 'b reader \<Rightarrow> ('a \<times> 'b) reader" where
  "r_pair f g buf = do { (a, buf) \<leftarrow> f buf; (b, buf) \<leftarrow> g buf; Some ((a, b), buf) }"

definition r_time_point :: "bool \<Rightarrow> time reader" where
  "r_time_point be buf = do { (rep, buf) \<leftarrow> r_u64 be buf; Some (sint rep, buf) }"

definition r_TraceInfoBase :: "bool \<Rightarrow> TraceInfoBase reader" where
  "r_TraceInfoBase be buf =
     do { (a, buf) \<leftarrow> r_u64 be buf; (n, buf) \<leftarrow> r_u64 be buf; (t, buf) \<leftarrow> r_time_point be buf;
          Some (\<lparr>address = a, memsize = n, timestamp = t\<rparr>, buf) }"

definition r_CallStackInfoItem :: "bool \<Rightarrow> CallStackInfoItem reader" where
  "r_CallStackInfoItem be buf =
     do { (path, buf) \<leftarrow> r_string be buf; (name, buf) \<leftarrow> r_string be buf;
          (sa, buf) \<leftarrow> r_u64 be buf; (i, buf) \<leftarrow> r_u64 be buf;
          (s, buf) \<leftarrow> r_u64 be buf; (off, buf) \<leftarrow> r_u64 be buf;
          Some (\<lparr>shl_path = path, procname = name, shl_addr = sa, ip = i, sp = s, offp = off\<rparr>, buf) }"

definition r_CallStackInfo :: "bool \<Rightarrow> CallStackInfo reader" where
  "r_CallStackInfo be = r_CallSeq be (r_CallStackInfoItem be) push_back []"

definition r_TraceInfoCallStackItem :: "bool \<Rightarrow> TraceInfoCallStackItem reader" where
  "r_TraceInfoCallStackItem be buf =
     do { (sa, buf) \<leftarrow> r_u64 be buf; (i, buf) \<leftarrow> r_u64 be buf;
          (s, buf) \<leftarrow> r_u64 be buf; (off, buf) \<leftarrow> r_u64 be buf;
          Some (\<lparr>t_shl_addr = sa, t_ip = i, t_sp = s, t_offp = off\<rparr>, buf) }"

definition r_BasicTraceInfo :: "bool \<Rightarrow> BasicTraceInfo reader" where
  "r_BasicTraceInfo be buf =
     do { (a, buf) \<leftarrow> r_u64 be buf; (n, buf) \<leftarrow> r_u64 be buf; (t, buf) \<leftarrow> r_time_point be buf;
          (cs, buf) \<leftarrow> r_CallSeq be (r_TraceInfoCallStackItem be) push_back [] buf;
          Some (\<lparr>address = a, memsize = n, timestamp = t, callstack = cs\<rparr>, buf) }"

subsection \<open>The abstract format\<close>

definition enc_string :: "string \<Rightarrow> u8 list" where
  "enc_string v =
     (let size = (word_of_nat (length v) :: u32)
      in be_bytes 4 (unat size) @ take (unat size) (bytes_of_string v))"

definition enc_writer :: "u8 list writer" where
  "enc_writer = \<lparr>Call_u32 = (\<lambda>v out. out @ be_bytes 4 (unat v)),
     Call_u64 = (\<lambda>v out. out @ be_bytes 8 (unat v)), Call_string = (\<lambda>v out. out @ enc_string v)\<rparr>"

lemma enc_writer_sel [simp]:
  "Call_u32 enc_writer v out = out @ be_bytes 4 (unat v)"
  "Call_u64 enc_writer w out = out @ be_bytes 8 (unat w)"
  "Call_string enc_writer x out = out @ enc_string x"
  by (simp_all add: enc_writer_def)

lemma length_bytes_of_string [simp]: "length (bytes_of_string s) = length s"
  by (simp add: bytes_of_string_def)

lemma bytes_of_string_Nil [simp]: "bytes_of_string [] = []"
  by (simp add: bytes_of_string_def)

lemma string_of_bytes_of_string [simp]: "string_of_bytes (bytes_of_string s) = s"
proof -
  have "char_of (unat (word_of_nat (of_char c) :: u8)) = c" for c :: char
    by (simp add: unat_of_nat)
  then show ?thesis by (simp add: string_of_bytes_def bytes_of_string_def comp_def)
qed

lemma take_bytes_of_string [simp]: "take n (bytes_of_string s) = bytes_of_string (take n s)"
  by (simp add: bytes_of_string_def take_map)

lemma unat_size_le: "unat (word_of_nat n :: u32) \<le> n"
  by (simp add: unat_of_nat)

lemma unat_size_eq [simp]: "n < 2 ^ 32 \<Longrightarrow> unat (word_of_nat n :: u32) = n"
  by (simp add: unat_of_nat)

lemma length_enc_string [bytelens]: "length (enc_string v) = 4 + unat (word_of_nat (length v) :: u32)"
  using unat_size_le [of "length v"] by (simp add: enc_string_def Let_def min_def)

subsection \<open>Relating two visitors\<close>

locale writer_sim =
  fixes c1 :: "'s writer" and c2 :: "'t writer" and R :: "'s \<Rightarrow> 't \<Rightarrow> bool"
  assumes sim_u32: "R s t \<Longrightarrow> R (Call_u32 c1 v s) (Call_u32 c2 v t)"
    and sim_u64: "R s t \<Longrightarrow> R (Call_u64 c1 w s) (Call_u64 c2 w t)"
    and sim_string: "R s t \<Longrightarrow> R (Call_string c1 x s) (Call_string c2 x t)"
begin

lemma sim_fold:
  assumes "\<And>x s t. R s t \<Longrightarrow> R (f x s) (g x t)" and "R s t"
  shows "R (fold f xs s) (fold g xs t)"
  using assms(2) by (induction xs arbitrary: s t) (auto intro: assms(1))

lemma sim_seq:
  assumes "\<And>x s t. R s t \<Longrightarrow> R (f x s) (g x t)" and "R s t"
  shows "R (CallSeq c1 f xs s) (CallSeq c2 g xs t)"
  unfolding CallSeq_def using assms by (intro sim_fold sim_u32)

lemma sim_enum: "R s t \<Longrightarrow> R (w_enum c1 v s) (w_enum c2 v t)"
  by (simp add: w_enum_def sim_u32)

lemma sim_TraceInfoBase: "R s t \<Longrightarrow> R (w_TraceInfoBase c1 v s) (w_TraceInfoBase c2 v t)"
  by (simp add: w_TraceInfoBase_def w_time_point_def sim_u64)

lemma sim_CallStackInfo: "R s t \<Longrightarrow> R (w_CallStackInfo c1 v s) (w_CallStackInfo c2 v t)"
  unfolding w_CallStackInfo_def w_CallStackInfoItem_def
  by (intro sim_seq sim_u64 sim_string)

lemma sim_BasicTraceInfo: "R s t \<Longrightarrow> R (w_BasicTraceInfo c1 v s) (w_BasicTraceInfo c2 v t)"
  unfolding w_BasicTraceInfo_def w_TraceInfoCallStackItem_def w_time_point_def
  by (intro sim_seq sim_u64)

lemma sim_SymbolTable: "R s t \<Longrightarrow> R (w_SymbolTable c1 v s) (w_SymbolTable c2 v t)"
  unfolding w_SymbolTable_def w_pair_def by (intro sim_seq sim_u64 sim_string)

end

text \<open>\<^verbatim>\<open>SizeOf\<close> counts the bytes of the abstract format, modulo \<open>2 ^ 64\<close>.\<close>

definition size_rel :: "usize \<Rightarrow> u8 list \<Rightarrow> bool" where
  "size_rel n out \<longleftrightarrow> n = word_of_nat (length out)"

interpretation sizeof: writer_sim SizeOf enc_writer size_rel
  by unfold_locales (simp_all add: SizeOf_def size_rel_def bytelens unsigned_ucast_eq)

text \<open>
  \<^verbatim>\<open>BufferWriter\<close> overwrites the buffer \<open>m\<close> from its start with the abstract format, as
  far as it fits.
\<close>

definition bw_rel :: "u8 list \<Rightarrow> mutable_buffer \<Rightarrow> u8 list \<Rightarrow> bool" where
  "bw_rel m b out \<longleftrightarrow> mb_pos b = min (length m) (length out) \<and>
     mb_mem b = take (length m) out @ drop (length out) m"

lemma bw_rel_copy:
  assumes "bw_rel m b out"
  shows "bw_rel m (buffer_plus (buffer_copy src b) (length src)) (out @ src)"
proof (cases "length m \<le> length out")
  case True
  with assms show ?thesis
    by (simp add: bw_rel_def buffer_plus_def buffer_copy_def mb_size_def Let_def)
next
  case False
  define k where "k = length m - length out"
  with False have m: "length m = length out + k" by simp
  from assms m show ?thesis
    by (auto simp: bw_rel_def buffer_plus_def buffer_copy_def mb_size_def Let_def min_def)
qed

interpretation bufwriter: writer_sim "BufferWriter be" enc_writer "bw_rel m" for be m
proof unfold_locales
  fix s t v
  assume R: "bw_rel m s t"
  show u32: "bw_rel m (Call_u32 (BufferWriter be) v s) (Call_u32 enc_writer v t)" for v
    using bw_rel_copy [OF R, of "be_bytes 4 (unat v)"]
    by (simp add: BufferWriter_def bw_u32_def store_hton_32)
  show "bw_rel m (Call_u64 (BufferWriter be) w s) (Call_u64 enc_writer w t)" for w
    using bw_rel_copy [OF R, of "be_bytes 8 (unat w)"]
    by (simp add: BufferWriter_def bw_u64_def store_hton_64)
  fix x :: string
  let ?size = "word_of_nat (length x) :: u32"
  have "bw_rel m (bw_u32 be ?size s) (t @ be_bytes 4 (unat ?size))"
    using u32 [of ?size] by (simp add: BufferWriter_def)
  from bw_rel_copy [OF this, of "take (unat ?size) (bytes_of_string x)"] this
  show "bw_rel m (Call_string (BufferWriter be) x s) (Call_string enc_writer x t)"
    using unat_size_le [of "length x"]
    by (auto simp: BufferWriter_def bw_string_def enc_string_def Let_def min_absorb2)
qed

subsection \<open>Reading back\<close>

text \<open>
  A write function that only appends is determined by what it writes to the empty
  output; a sequence is its count and the concatenation of its elements.
\<close>

definition appends :: "('a \<Rightarrow> u8 list \<Rightarrow> u8 list) \<Rightarrow> bool" where
  "appends w \<longleftrightarrow> (\<forall>v s. w v s = s @ w v [])"

lemma fold_appends: "appends w \<Longrightarrow> fold w xs s = s @ concat (map (\<lambda>x. w x []) xs)"
proof (induction xs arbitrary: s)
  case (Cons x xs)
  have "w x s = s @ w x []" using Cons.prems unfolding appends_def by blast
  with Cons show ?case by simp
qed simp

lemma CallSeq_appends: "appends w \<Longrightarrow> CallSeq enc_writer w xs s =
    s @ be_bytes 4 (unat (word_of_nat (length xs) :: u32)) @ concat (map (\<lambda>x. w x []) xs)"
  by (simp add: CallSeq_def fold_appends)

lemma appends_TraceInfoBase: "appends (w_TraceInfoBase enc_writer)"
  by (simp add: appends_def w_TraceInfoBase_def w_time_point_def)

lemma appends_CallStackInfoItem: "appends (w_CallStackInfoItem enc_writer)"
  by (simp add: appends_def w_CallStackInfoItem_def)

lemma appends_CallStackInfo: "appends (w_CallStackInfo enc_writer)"
  unfolding appends_def w_CallStackInfo_def
  by (simp add: CallSeq_appends appends_CallStackInfoItem)

lemma appends_TraceInfoCallStackItem: "appends (w_TraceInfoCallStackItem enc_writer)"
  by (simp add: appends_def w_TraceInfoCallStackItem_def)

lemma appends_BasicTraceInfo: "appends (w_BasicTraceInfo enc_writer)"
  unfolding appends_def w_BasicTraceInfo_def w_time_point_def
  by (simp add: CallSeq_appends appends_TraceInfoCallStackItem)

lemma appends_symbol: "appends (w_pair (Call_u64 enc_writer) (Call_string enc_writer))"
  by (simp add: appends_def w_pair_def)

lemma appends_SymbolTable: "appends (w_SymbolTable enc_writer)"
  unfolding appends_def w_SymbolTable_def by (simp add: CallSeq_appends appends_symbol)

definition decodes :: "'a reader \<Rightarrow> ('a \<Rightarrow> u8 list \<Rightarrow> u8 list) \<Rightarrow> ('a \<Rightarrow> bool) \<Rightarrow> bool" where
  "decodes r w ok \<longleftrightarrow> (\<forall>v rest. ok v \<longrightarrow> r (w v [] @ rest) = Some (v, rest))"

lemma decodesD: "decodes r w ok \<Longrightarrow> ok v \<Longrightarrow> r (w v [] @ rest) = Some (v, rest)"
  by (simp add: decodes_def)

lemma r_u32_be [simp, roundtrips]: "r_u32 be (be_bytes 4 (unat v) @ rest) = Some (v, rest)"
  by (simp add: r_u32_def ntoh_32_load)

lemma r_u32_count [simp]:
  "n < 2 ^ 32 \<Longrightarrow> r_u32 be (be_bytes 4 n @ rest) = Some (word_of_nat n, rest)"
  using r_u32_be [of be "word_of_nat n" rest] by simp

lemma r_u64_be [simp, roundtrips]: "r_u64 be (be_bytes 8 (unat v) @ rest) = Some (v, rest)"
  by (simp add: r_u64_def ntoh_64_load)

lemma r_string_enc [simp, roundtrips]:
  "length v < 2 ^ 32 \<Longrightarrow> r_string be (enc_string v @ rest) = Some (v, rest)"
  by (simp add: r_string_def enc_string_def Let_def)

lemma r_time_point_be [simp, roundtrips]:
  "int64_ok t \<Longrightarrow> r_time_point be (be_bytes 8 (unat (word_of_int t :: u64)) @ rest) = Some (t, rest)"
  by (simp add: r_time_point_def)

definition str_ok :: "string \<Rightarrow> bool" where
  "str_ok v \<longleftrightarrow> length v < 2 ^ 32"

definition item_ok :: "CallStackInfoItem \<Rightarrow> bool" where
  "item_ok v \<longleftrightarrow> str_ok (shl_path v) \<and> str_ok (procname v)"

definition callstack_ok :: "CallStackInfo \<Rightarrow> bool" where
  "callstack_ok cs \<longleftrightarrow> length cs < 2 ^ 32 \<and> list_all item_ok cs"

lemma decodes_TraceInfoBase:
  "decodes (r_TraceInfoBase be) (w_TraceInfoBase enc_writer) (\<lambda>v. int64_ok (timestamp v))"
  by (simp add: decodes_def r_TraceInfoBase_def w_TraceInfoBase_def w_time_point_def)

lemma decodes_CallStackInfoItem:
  "decodes (r_CallStackInfoItem be) (w_CallStackInfoItem enc_writer) item_ok"
  by (simp add: decodes_def r_CallStackInfoItem_def w_CallStackInfoItem_def item_ok_def str_ok_def)

lemma r_loop_concat:
  assumes "decodes r w ok" "list_all ok xs"
  shows "r_loop (length xs) r ins acc (concat (map (\<lambda>x. w x []) xs) @ rest) = Some (fold ins xs acc, rest)"
  using assms(2) by (induction xs arbitrary: acc) (auto simp: decodesD [OF assms(1)])

lemma fold_push_back [simp]: "fold push_back xs acc = acc @ xs"
  by (induction xs arbitrary: acc) (auto simp: push_back_def)

lemma decodes_CallSeq:
  assumes "decodes r w ok" "appends w"
  shows "decodes (r_CallSeq be r push_back []) (CallSeq enc_writer w)
           (\<lambda>xs. length xs < 2 ^ 32 \<and> list_all ok xs)"
  unfolding decodes_def
  by (simp add: CallSeq_appends assms(2) r_CallSeq_def r_loop_concat [OF assms(1)])

lemma decodes_CallStackInfo:
  "decodes (r_CallStackInfo be) (w_CallStackInfo enc_writer) callstack_ok"
  using decodes_CallSeq [OF decodes_CallStackInfoItem appends_CallStackInfoItem, of be be]
  by (simp add: r_CallStackInfo_def w_CallStackInfo_def callstack_ok_def [abs_def])

end
