(* ===== verification/Network.thy ===== *)
theory Network
  imports Serialization
begin

text \<open>
  The messages between the hooked process and \<^verbatim>\<open>memdb\<close>, \<^verbatim>\<open>include/memhook/network.h\<close>,
  with their serialisation through the three entry points \<^verbatim>\<open>GetSize\<close>, \<^verbatim>\<open>Write\<close> and
  \<^verbatim>\<open>Read\<close>. An enum value on the wire is any 32-bit word (the reader casts it without a
  check), so the enum types are \<open>u32\<close> with named constants. \<open>enc_NetRequest\<close> is the
  abstract encoding; the buffer writer and the size visitor are related to it through
  the interpretations of \<open>writer_sim\<close>.
\<close>

type_synonym NetReqType = u32
type_synonym NetResType = u32

definition kNetReqUnknown :: NetReqType where "kNetReqUnknown = 0"
definition kNetReqAdd :: NetReqType where "kNetReqAdd = 0xfd1a73e7"
definition kNetReqRemove :: NetReqType where "kNetReqRemove = 0x68801d30"
definition kNetReqUpdateSize :: NetReqType where "kNetReqUpdateSize = 0x23ac73f5"
definition kNetReqFetch :: NetReqType where "kNetReqFetch = 0x82e96343"
definition kNetReqFetchEnd :: NetReqType where "kNetReqFetchEnd = 0x02ad0248"
definition kNetReqEnd :: NetReqType where "kNetReqEnd = 0x00fc33b1"
definition kNetReqClear :: NetReqType where "kNetReqClear = 0xe5b1f106"
definition kNetReqNewStorage :: NetReqType where "kNetReqNewStorage = 0x8f3948da"

definition kNetResUnknown :: NetResType where "kNetResUnknown = 0"
definition kNetResEnd :: NetResType where "kNetResEnd = 0x00fc33b1"
definition kNetResMoreDataAvailable :: NetResType where "kNetResMoreDataAvailable = 0x45011baa"

lemmas net_req_types =
  kNetReqUnknown_def kNetReqAdd_def kNetReqRemove_def kNetReqUpdateSize_def kNetReqFetch_def
  kNetReqFetchEnd_def kNetReqEnd_def kNetReqClear_def kNetReqNewStorage_def

record NetProtoOutbound =
  o_size :: usize

definition sizeof_NetProtoOutbound :: nat where
  "sizeof_NetProtoOutbound = 8"

record NetRequest =
  r_type :: NetReqType
  r_traceinfo :: TraceInfoBase
  r_callstack :: CallStackInfo

definition new_NetRequest ::
    "NetReqType \<Rightarrow> addr \<Rightarrow> usize \<Rightarrow> time \<Rightarrow> CallStackInfo \<Rightarrow> NetRequest" where
  "new_NetRequest ty a n t cs =
     \<lparr>r_type = ty, r_traceinfo = \<lparr>address = a, memsize = n, timestamp = t\<rparr>, r_callstack = cs\<rparr>"

record NetResponse =
  q_req_type :: NetReqType
  q_response :: NetResType
  q_traceinfo :: "BasicTraceInfo list"
  q_symtab :: "(addr \<times> string) list"
  q_shltab :: "(addr \<times> string) list"

definition w_NetProtoOutbound :: "'s writer \<Rightarrow> NetProtoOutbound \<Rightarrow> 's \<Rightarrow> 's" where
  "w_NetProtoOutbound c v s = Call_u64 c (o_size v) s"

definition w_NetRequest :: "'s writer \<Rightarrow> NetRequest \<Rightarrow> 's \<Rightarrow> 's" where
  "w_NetRequest c v s =
     w_CallStackInfo c (r_callstack v) (w_TraceInfoBase c (r_traceinfo v) (w_enum c (r_type v) s))"

definition w_NetResponse :: "'s writer \<Rightarrow> NetResponse \<Rightarrow> 's \<Rightarrow> 's" where
  "w_NetResponse c v s =
     w_SymbolTable c (q_shltab v) (w_SymbolTable c (q_symtab v)
       (CallSeq c (w_BasicTraceInfo c) (q_traceinfo v)
         (w_enum c (q_response v) (w_enum c (q_req_type v) s))))"

definition r_NetProtoOutbound :: "bool \<Rightarrow> NetProtoOutbound reader" where
  "r_NetProtoOutbound be buf = do { (n, buf) \<leftarrow> r_u64 be buf; Some (\<lparr>o_size = n\<rparr>, buf) }"

definition r_NetRequest :: "bool \<Rightarrow> NetRequest reader" where
  "r_NetRequest be buf =
     do { (ty, buf) \<leftarrow> r_enum be buf; (ti, buf) \<leftarrow> r_TraceInfoBase be buf;
          (cs, buf) \<leftarrow> r_CallStackInfo be buf;
          Some (\<lparr>r_type = ty, r_traceinfo = ti, r_callstack = cs\<rparr>, buf) }"

text \<open>
  There is no reader of a response: its symbol tables are hash maps, and the reader's overload
  for them does not compile, since the key of an element is constant.
\<close>

text \<open>\<^verbatim>\<open>GetSize\<close> and \<^verbatim>\<open>Write\<close>, for any of the message types' visitors.\<close>

definition GetSize :: "(usize writer \<Rightarrow> 'a \<Rightarrow> usize \<Rightarrow> usize) \<Rightarrow> 'a \<Rightarrow> usize" where
  "GetSize w v = w SizeOf v 0"

definition Write ::
    "bool \<Rightarrow> (mutable_buffer writer \<Rightarrow> 'a \<Rightarrow> mutable_buffer \<Rightarrow> mutable_buffer) \<Rightarrow>
     mutable_buffer \<Rightarrow> 'a \<Rightarrow> mutable_buffer" where
  "Write be w buf v = w (BufferWriter be) v buf"

definition enc_NetRequest :: "NetRequest \<Rightarrow> u8 list" where
  "enc_NetRequest v = w_NetRequest enc_writer v []"

definition enc_NetResponse :: "NetResponse \<Rightarrow> u8 list" where
  "enc_NetResponse v = w_NetResponse enc_writer v []"

definition enc_NetProtoOutbound :: "NetProtoOutbound \<Rightarrow> u8 list" where
  "enc_NetProtoOutbound v = w_NetProtoOutbound enc_writer v []"

definition request_ok :: "NetRequest \<Rightarrow> bool" where
  "request_ok v \<longleftrightarrow> int64_ok (timestamp (r_traceinfo v)) \<and> callstack_ok (r_callstack v) \<and>
     length (enc_NetRequest v) < 2 ^ 63"

context writer_sim
begin

lemma sim_NetRequest: "R s t \<Longrightarrow> R (w_NetRequest c1 v s) (w_NetRequest c2 v t)"
  unfolding w_NetRequest_def by (intro sim_CallStackInfo sim_TraceInfoBase sim_enum)

lemma sim_NetProtoOutbound: "R s t \<Longrightarrow> R (w_NetProtoOutbound c1 v s) (w_NetProtoOutbound c2 v t)"
  unfolding w_NetProtoOutbound_def by (intro sim_u64)

lemma sim_NetResponse: "R s t \<Longrightarrow> R (w_NetResponse c1 v s) (w_NetResponse c2 v t)"
  unfolding w_NetResponse_def by (intro sim_SymbolTable sim_seq sim_BasicTraceInfo sim_enum)

end

lemma appends_NetRequest: "w_NetRequest enc_writer v s = s @ enc_NetRequest v"
  using appends_TraceInfoBase appends_CallStackInfo
  unfolding appends_def enc_NetRequest_def w_NetRequest_def w_enum_def
  by (metis (no_types, lifting) append.assoc append_Nil enc_writer_sel(1))

lemma enc_NetProtoOutbound_eq [simp]: "enc_NetProtoOutbound v = be_bytes 8 (unat (o_size v))"
  by (simp add: enc_NetProtoOutbound_def w_NetProtoOutbound_def)

lemma GetSize_NetRequest: "GetSize w_NetRequest v = word_of_nat (length (enc_NetRequest v))"
  using sizeof.sim_NetRequest [of 0 "[]" v]
  by (simp add: GetSize_def size_rel_def enc_NetRequest_def)

lemma GetSize_NetProtoOutbound [simp]: "GetSize w_NetProtoOutbound v = 8"
  by (simp add: GetSize_def w_NetProtoOutbound_def SizeOf_def)

lemma Read_NetRequest [simp, roundtrips]:
  assumes "request_ok v"
  shows "r_NetRequest be (enc_NetRequest v @ rest) = Some (v, rest)"
proof -
  let ?ti = "w_TraceInfoBase enc_writer (r_traceinfo v) []"
  let ?cs = "w_CallStackInfo enc_writer (r_callstack v) []"
  have "enc_NetRequest v = be_bytes 4 (unat (r_type v)) @ ?ti @ ?cs"
    using appends_TraceInfoBase appends_CallStackInfo
    unfolding appends_def enc_NetRequest_def w_NetRequest_def w_enum_def
    by (metis (no_types, lifting) append.assoc append_Nil enc_writer_sel(1))
  moreover have "r_TraceInfoBase be (?ti @ x) = Some (r_traceinfo v, x)" for x
    using decodesD [OF decodes_TraceInfoBase] assms by (simp add: request_ok_def)
  moreover have "r_CallStackInfo be (?cs @ x) = Some (r_callstack v, x)" for x
    using decodesD [OF decodes_CallStackInfo] assms by (simp add: request_ok_def)
  ultimately show ?thesis by (simp add: r_NetRequest_def r_enum_def)
qed

lemma Read_NetProtoOutbound [simp, roundtrips]:
  "r_NetProtoOutbound be (be_bytes 8 (unat (o_size v)) @ rest) = Some (v, rest)"
  by (simp add: r_NetProtoOutbound_def)

lemma bw_rel_start: "bw_rel m \<lparr>mb_mem = m, mb_pos = 0\<rparr> []"
  by (simp add: bw_rel_def)

lemma Write_NetRequest_rel:
  "bw_rel m b out \<Longrightarrow> bw_rel m (Write be w_NetRequest b v) (out @ enc_NetRequest v)"
  using bufwriter.sim_NetRequest [of m b out be v] by (simp add: Write_def appends_NetRequest)

lemma Write_NetProtoOutbound_rel:
  "bw_rel m b out \<Longrightarrow> bw_rel m (Write be w_NetProtoOutbound b v) (out @ enc_NetProtoOutbound v)"
  using bufwriter.sim_NetProtoOutbound [of m b out be v]
  by (simp add: Write_def w_NetProtoOutbound_def)

lemma bw_rel_full: "bw_rel m b out \<Longrightarrow> length m = length out \<Longrightarrow> mb_mem b = out \<and> mb_size b = 0"
  by (simp add: bw_rel_def mb_size_def)

subsection \<open>Responses\<close>

definition trace_ok :: "BasicTraceInfo \<Rightarrow> bool" where
  "trace_ok v \<longleftrightarrow> int64_ok (timestamp v) \<and> length (callstack v) < 2 ^ 32"

lemma decodes_TraceInfoCallStackItem:
  "decodes (r_TraceInfoCallStackItem be) (w_TraceInfoCallStackItem enc_writer) (\<lambda>_. True)"
  by (simp add: decodes_def r_TraceInfoCallStackItem_def w_TraceInfoCallStackItem_def)

lemma decodes_BasicTraceInfo:
  "decodes (r_BasicTraceInfo be) (w_BasicTraceInfo enc_writer) trace_ok"
proof -
  have cs: "r_CallSeq be (r_TraceInfoCallStackItem be) push_back []
      (CallSeq enc_writer (w_TraceInfoCallStackItem enc_writer) xs [] @ rest) = Some (xs, rest)"
    if "length xs < 2 ^ 32" for xs rest
    by (rule decodesD [OF decodes_CallSeq [OF decodes_TraceInfoCallStackItem
        appends_TraceInfoCallStackItem]]) (use that in \<open>simp add: list_all_iff\<close>)
  show ?thesis
    unfolding decodes_def
  proof (intro allI impI)
    fix v rest
    assume ok: "trace_ok v"
    have "w_BasicTraceInfo enc_writer v [] =
        be_bytes 8 (unat (address v)) @ be_bytes 8 (unat (memsize v)) @
        be_bytes 8 (unat (word_of_int (timestamp v) :: u64)) @
        CallSeq enc_writer (w_TraceInfoCallStackItem enc_writer) (callstack v) []"
      by (simp add: w_BasicTraceInfo_def w_time_point_def CallSeq_appends
          appends_TraceInfoCallStackItem)
    with ok show "r_BasicTraceInfo be (w_BasicTraceInfo enc_writer v [] @ rest) = Some (v, rest)"
      by (simp add: r_BasicTraceInfo_def cs trace_ok_def)
  qed
qed

lemma r_CallSeq_BasicTraceInfo:
  assumes "length xs < 2 ^ 32" "list_all trace_ok xs"
  shows "r_CallSeq be (r_BasicTraceInfo be) push_back []
           (CallSeq enc_writer (w_BasicTraceInfo enc_writer) xs [] @ rest) = Some (xs, rest)"
  by (rule decodesD [OF decodes_CallSeq [OF decodes_BasicTraceInfo appends_BasicTraceInfo]])
    (use assms in simp)

lemma Write_NetResponse_rel:
  assumes "bw_rel m b []"
  shows "bw_rel m (Write be w_NetResponse b v) (enc_NetResponse v)"
  using bufwriter.sim_NetResponse [OF assms] by (simp add: Write_def enc_NetResponse_def)

lemma GetSize_NetResponse: "GetSize w_NetResponse v = word_of_nat (length (enc_NetResponse v))"
  using sizeof.sim_NetResponse [of 0 "[]" v]
  by (simp add: GetSize_def size_rel_def enc_NetResponse_def)

subsection \<open>Round trips between hosts\<close>

text \<open>
  C24. A request survives the wire: written by a host of either byte order into a buffer of
  the size \<^verbatim>\<open>GetSize\<close> computes, it fills the buffer exactly, and a reader of either byte
  order gets the same request back and leaves what follows the message untouched.
\<close>

theorem net_request_roundtrip:
  assumes "request_ok v" and "length m = unat (GetSize w_NetRequest v)"
    and "b = Write be w_NetRequest \<lparr>mb_mem = m, mb_pos = 0\<rparr> v"
  shows "mb_size b = 0 \<and> r_NetRequest be' (mb_mem b @ rest) = Some (v, rest)"
proof -
  have "length m = length (enc_NetRequest v)"
    using assms(1,2) by (simp add: GetSize_NetRequest request_ok_def unat_of_nat)
  with bw_rel_full [OF Write_NetRequest_rel [OF bw_rel_start [of m], of be v]] assms
  show ?thesis by simp
qed

definition demo_request :: NetRequest where
  "demo_request = new_NetRequest kNetReqAdd 4096 16 7
     [\<lparr>shl_path = ''a.out'', procname = ''main'', shl_addr = 0x400000, ip = 0x400123, sp = 16, offp = 3\<rparr>]"

lemma demo_request_ok: "request_ok demo_request"
  by (simp add: request_ok_def demo_request_def new_NetRequest_def int64_ok_def callstack_ok_def item_ok_def
      str_ok_def enc_NetRequest_def w_NetRequest_def w_enum_def w_TraceInfoBase_def w_time_point_def
      w_CallStackInfo_def CallSeq_def w_CallStackInfoItem_def enc_string_def bytes_of_string_def)

theorem net_request_roundtrip_witness:
  "\<exists>b. request_ok demo_request \<and>
     b = Write False w_NetRequest
       \<lparr>mb_mem = replicate (unat (GetSize w_NetRequest demo_request)) 0, mb_pos = 0\<rparr> demo_request \<and>
     mb_size b = 0 \<and> r_NetRequest True (mb_mem b @ [1, 2]) = Some (demo_request, [1, 2])"
  using net_request_roundtrip [OF demo_request_ok, of
      "replicate (unat (GetSize w_NetRequest demo_request)) 0" _ False True "[1, 2]"] demo_request_ok
  by simp

text \<open>A response fills the buffer of the size that is computed for it with its encoding.\<close>

theorem net_response_fills:
  assumes "length (enc_NetResponse v) < 2 ^ 64" and "length m = unat (GetSize w_NetResponse v)"
  shows "mb_mem (Write be w_NetResponse \<lparr>mb_mem = m, mb_pos = 0\<rparr> v) = enc_NetResponse v"
proof -
  have "length m = length (enc_NetResponse v)"
    using assms by (simp add: GetSize_NetResponse unat_of_nat)
  with bw_rel_full [OF Write_NetResponse_rel [OF bw_rel_start [of m], of be v]] show ?thesis by simp
qed

text \<open>
  What the writer puts on the wire does not depend on the host: a little-endian and a
  big-endian host produce the same bytes for the same request, each integer most
  significant byte first.
\<close>

theorem net_request_host_independent:
  assumes "length m = length m'" and "length (enc_NetRequest v) \<le> length m"
  shows "take (length (enc_NetRequest v)) (mb_mem (Write be w_NetRequest \<lparr>mb_mem = m, mb_pos = 0\<rparr> v)) =
         take (length (enc_NetRequest v)) (mb_mem (Write be' w_NetRequest \<lparr>mb_mem = m', mb_pos = 0\<rparr> v))"
proof -
  have "take (length (enc_NetRequest v)) (mb_mem (Write e w_NetRequest \<lparr>mb_mem = k, mb_pos = 0\<rparr> v)) =
      enc_NetRequest v" if "length (enc_NetRequest v) \<le> length k" for e k
    using Write_NetRequest_rel [OF bw_rel_start [of k], of e v] that by (simp add: bw_rel_def)
  with assms show ?thesis by simp
qed

theorem net_request_host_independent_witness:
  "take 81 (mb_mem (Write True w_NetRequest \<lparr>mb_mem = replicate 200 0, mb_pos = 0\<rparr> demo_request)) =
   take 81 (mb_mem (Write False w_NetRequest \<lparr>mb_mem = replicate 200 1, mb_pos = 0\<rparr> demo_request))"
proof -
  have l: "length (enc_NetRequest demo_request) = 81"
    by (simp add: demo_request_def new_NetRequest_def enc_NetRequest_def w_NetRequest_def w_enum_def
        w_TraceInfoBase_def w_time_point_def w_CallStackInfo_def CallSeq_def w_CallStackInfoItem_def
        enc_string_def bytes_of_string_def)
  then show ?thesis
    using net_request_host_independent [of "replicate 200 0" "replicate 200 1" demo_request True False] l
    by simp
qed

end
