(* ===== verification/Indexed_Container.thy ===== *)
theory Indexed_Container
  imports Traceinfo
begin

text \<open>
  The multi-index containers of allocation records: the engine's cache
  (\<^verbatim>\<open>Engine::IndexedContainer\<close>, \<^verbatim>\<open>src/memhook/engine.h\<close>) and the storage's table
  (\<^verbatim>\<open>MappedContainer::IndexedContainer\<close>, \<^verbatim>\<open>include/memhook/mapping_traits.h\<close>). Index 0 is
  unique on the address, index 1 ordered by timestamp, index 2 (storage only) ordered by
  size. The container is the list of its elements in insertion order; each index is a
  sorted view of it. Elements with equal keys keep their insertion order in a view.

  The locale \<open>keyed_container\<close> is the interface the clients use: look an address up,
  insert if absent, erase, rewrite in place. Everything the clients need is derived once
  in it from five laws and holds for the list model by interpretation.
\<close>

type_synonym 'e container = "('e TraceInfoBase_scheme) list"

definition ic_find :: "addr \<Rightarrow> 'e container \<Rightarrow> 'e TraceInfoBase_scheme option" where
  "ic_find a c = List.find (\<lambda>x. address x = a) c"

definition ic_emplace :: "'e TraceInfoBase_scheme \<Rightarrow> 'e container \<Rightarrow> 'e container \<times> bool" where
  "ic_emplace x c = (case ic_find (address x) c of None \<Rightarrow> (c @ [x], True) | Some _ \<Rightarrow> (c, False))"

definition ic_erase :: "addr \<Rightarrow> 'e container \<Rightarrow> 'e container" where
  "ic_erase a c = filter (\<lambda>x. address x \<noteq> a) c"

definition ic_modify ::
    "addr \<Rightarrow> ('e TraceInfoBase_scheme \<Rightarrow> 'e TraceInfoBase_scheme) \<Rightarrow> 'e container \<Rightarrow> 'e container" where
  "ic_modify a f c = map (\<lambda>x. if address x = a then f x else x) c"

definition by_address :: "'e container \<Rightarrow> 'e TraceInfoBase_scheme list" where
  "by_address c = sort_key address c"

definition by_timestamp :: "'e container \<Rightarrow> 'e TraceInfoBase_scheme list" where
  "by_timestamp c = sort_key timestamp c"

definition by_memsize :: "'e container \<Rightarrow> 'e TraceInfoBase_scheme list" where
  "by_memsize c = sort_key memsize c"

definition ic_inv :: "'e container \<Rightarrow> bool" where
  "ic_inv c \<longleftrightarrow> distinct (map address c)"

locale keyed_container =
  fixes key :: "'x \<Rightarrow> 'k" and look :: "'k \<Rightarrow> 'c \<Rightarrow> 'x option"
    and insert_new :: "'x \<Rightarrow> 'c \<Rightarrow> 'c \<times> bool" and erase :: "'k \<Rightarrow> 'c \<Rightarrow> 'c"
    and modify :: "'k \<Rightarrow> ('x \<Rightarrow> 'x) \<Rightarrow> 'c \<Rightarrow> 'c" and invar :: "'c \<Rightarrow> bool"
  assumes look_key: "look k c = Some x \<Longrightarrow> key x = k"
    and look_insert: "look k (fst (insert_new x c)) =
          (if k = key x \<and> look k c = None then Some x else look k c)"
    and insert_flag: "snd (insert_new x c) \<longleftrightarrow> look (key x) c = None"
    and look_erase: "look k (erase k' c) = (if k = k' then None else look k c)"
    and look_modify: "(\<And>x. key (f x) = key x) \<Longrightarrow>
          look k (modify k' f c) = (if k = k' then map_option f (look k c) else look k c)"
    and invar_insert: "invar c \<Longrightarrow> invar (fst (insert_new x c))"
    and invar_erase: "invar c \<Longrightarrow> invar (erase k c)"
    and invar_modify: "invar c \<Longrightarrow> (\<And>x. key (f x) = key x) \<Longrightarrow> invar (modify k f c)"
begin

definition view :: "('x \<Rightarrow> 'v) \<Rightarrow> 'c \<Rightarrow> 'k \<Rightarrow> 'v option" where
  "view g c = (\<lambda>k. map_option g (look k c))"

lemma view_insert:
  "view g (fst (insert_new x c)) =
     (if view g c (key x) = None then (view g c)(key x \<mapsto> g x) else view g c)"
  by (auto simp: view_def look_insert fun_eq_iff)

lemma view_erase: "view g (erase k c) = (view g c)(k := None)"
  by (auto simp: view_def look_erase fun_eq_iff)

lemma view_modify:
  assumes "\<And>x. key (f x) = key x" and "\<And>x. g (f x) = h (g x)"
  shows "view g (modify k f c) = (view g c)(k := map_option h (view g c k))"
  by (auto simp: view_def look_modify [OF assms(1)] assms(2) fun_eq_iff option.map_comp
      intro: option.map_cong)

lemma insert_flag_view: "snd (insert_new x c) \<longleftrightarrow> view g c (key x) = None"
  by (simp add: insert_flag view_def)

end

lemma ic_find_append:
  "ic_find a (xs @ ys) = (case ic_find a xs of None \<Rightarrow> ic_find a ys | Some x \<Rightarrow> Some x)"
  unfolding ic_find_def by (rule find_append)

lemma ic_find_Nil [simp]: "ic_find a [] = None"
  by (simp add: ic_find_def)

lemma ic_find_Cons [simp]: "ic_find a (x # c) = (if address x = a then Some x else ic_find a c)"
  by (simp add: ic_find_def)

lemma ic_find_None: "ic_find a c = None \<longleftrightarrow> a \<notin> address ` set c"
  by (auto simp: ic_find_def find_eq_None_iff)

lemma ic_find_address: "ic_find a c = Some x \<Longrightarrow> address x = a \<and> x \<in> set c"
  by (auto simp: ic_find_def dest: find_SomeD)

lemma ic_find_mem: "ic_inv c \<Longrightarrow> x \<in> set c \<Longrightarrow> ic_find (address x) c = Some x"
  by (simp add: ic_inv_def ic_find_def find_distinct_key)

interpretation ic: keyed_container address ic_find ic_emplace ic_erase ic_modify ic_inv
proof unfold_locales
  fix a b :: addr and c :: "'a container" and x :: "'a TraceInfoBase_scheme"
    and f :: "'a TraceInfoBase_scheme \<Rightarrow> 'a TraceInfoBase_scheme"
  show "ic_find a c = Some x \<Longrightarrow> address x = a"
    by (simp add: ic_find_address)
  show "ic_find a (fst (ic_emplace x c)) =
      (if a = address x \<and> ic_find a c = None then Some x else ic_find a c)"
    by (auto simp: ic_emplace_def ic_find_append split: option.splits)
  show "snd (ic_emplace x c) \<longleftrightarrow> ic_find (address x) c = None"
    by (simp add: ic_emplace_def split: option.splits)
  show "ic_find a (ic_erase b c) = (if a = b then None else ic_find a c)"
    by (induction c) (auto simp: ic_erase_def)
  show "ic_find a (ic_modify b f c) = (if a = b then map_option f (ic_find a c) else ic_find a c)"
    if "\<And>x. address (f x) = address x"
    using that by (induction c) (auto simp: ic_modify_def)
  show "ic_inv c \<Longrightarrow> ic_inv (fst (ic_emplace x c))"
    by (auto simp: ic_inv_def ic_emplace_def ic_find_None split: option.splits)
  show "ic_inv c \<Longrightarrow> ic_inv (ic_erase a c)"
    by (simp add: ic_inv_def ic_erase_def distinct_map_filter)
  show "ic_inv (ic_modify a f c)" if "ic_inv c" "\<And>x. address (f x) = address x"
  proof -
    have "map address (ic_modify a f c) = map address c"
      using that(2) by (simp add: ic_modify_def)
    with that(1) show ?thesis by (simp add: ic_inv_def)
  qed
qed

text \<open>The ordered views hold the same elements, sorted by their key.\<close>

lemma mset_views [simp]:
  "mset (by_address c) = mset c" "mset (by_timestamp c) = mset c" "mset (by_memsize c) = mset c"
  by (simp_all add: by_address_def by_timestamp_def by_memsize_def)

lemma set_views [simp]:
  "set (by_address c) = set c" "set (by_timestamp c) = set c" "set (by_memsize c) = set c"
  by (simp_all add: by_address_def by_timestamp_def by_memsize_def)

lemma sorted_views [simp]:
  "sorted (map address (by_address c))" "sorted (map timestamp (by_timestamp c))"
  "sorted (map memsize (by_memsize c))"
  by (simp_all add: by_address_def by_timestamp_def by_memsize_def)

lemma ic_inv_by_timestamp [simp]: "ic_inv (by_timestamp c) = ic_inv c"
  unfolding ic_inv_def by (rule mset_eq_imp_distinct_iff) simp

end
