(* ===== verification/Mapped_Storage.thy ===== *)
theory Mapped_Storage
  imports Indexed_Container
begin

text \<open>
  The storage of allocation records: the abstract class \<^verbatim>\<open>MappedStorage\<close>
  (\<^verbatim>\<open>include/memhook/mapped_storage.h\<close>) as a record of its virtual methods over a state
  \<open>'s\<close>, its shared-memory and mapped-file implementation \<^verbatim>\<open>BasicMappedStorage\<close>
  (\<^verbatim>\<open>src/memhookcore/basic_mapped_storage.h\<close>) on the \<^verbatim>\<open>MappedContainer\<close> of
  \<^verbatim>\<open>include/memhook/mapping_traits.h\<close>, and the unfinished \<^verbatim>\<open>LevelDBStorage\<close>.
  The locale \<open>mapped_storage\<close> is the contract: what each method does to the table of live
  allocations. \<open>BasicMappedStorage\<close> is an interpretation of it. The interprocess mutex and
  the signal mask that every method takes and releases are not part of the state.
\<close>

record 's storage_ops =
  s_Add :: "addr \<Rightarrow> usize \<Rightarrow> CallStackInfo \<Rightarrow> time \<Rightarrow> 's \<Rightarrow> 's"
  s_Remove :: "addr \<Rightarrow> 's \<Rightarrow> bool \<times> 's"
  s_UpdateSize :: "addr \<Rightarrow> usize \<Rightarrow> 's \<Rightarrow> bool \<times> 's"
  s_Clear :: "'s \<Rightarrow> 's"
  s_Flush :: "'s \<Rightarrow> 's"
  s_GetName :: "'s \<Rightarrow> string"

subsection \<open>BasicMappedStorage\<close>

record MappedContainer =
  symtab :: "addr \<rightharpoonup> string"
  shltab :: "addr \<rightharpoonup> string"
  indexed_container :: "BasicTraceInfo list"

record BasicMappedStorage =
  m_name :: string
  m_size :: usize
  m_container :: MappedContainer

definition new_MappedContainer :: MappedContainer where
  "new_MappedContainer = \<lparr>symtab = Map.empty, shltab = Map.empty, indexed_container = []\<rparr>"

definition new_BasicMappedStorage :: "string \<Rightarrow> usize \<Rightarrow> BasicMappedStorage" where
  "new_BasicMappedStorage name n = \<lparr>m_name = name, m_size = n, m_container = new_MappedContainer\<rparr>"

definition SymbolTableUpdater :: "CallStackInfoItem \<Rightarrow> MappedContainer \<Rightarrow> MappedContainer" where
  "SymbolTableUpdater item c =
     (case symtab c (ip item) of
        None \<Rightarrow>
          (let c = c\<lparr>symtab := (symtab c)(ip item \<mapsto> procname item)\<rparr>
           in case shltab c (shl_addr item) of
                None \<Rightarrow> c\<lparr>shltab := (shltab c)(shl_addr item \<mapsto> shl_path item)\<rparr>
              | Some _ \<Rightarrow> c)
      | Some _ \<Rightarrow> c)"

definition bms_Add ::
    "addr \<Rightarrow> usize \<Rightarrow> CallStackInfo \<Rightarrow> time \<Rightarrow> BasicMappedStorage \<Rightarrow> BasicMappedStorage" where
  "bms_Add a n cs t st =
     (let c = fold SymbolTableUpdater cs (m_container st)
      in st\<lparr>m_container := c\<lparr>indexed_container :=
           fst (ic_emplace (new_BasicTraceInfo a n t cs) (indexed_container c))\<rparr>\<rparr>)"

definition bms_Remove :: "addr \<Rightarrow> BasicMappedStorage \<Rightarrow> bool \<times> BasicMappedStorage" where
  "bms_Remove a st =
     (let c = m_container st
      in case ic_find a (indexed_container c) of
           None \<Rightarrow> (False, st)
         | Some _ \<Rightarrow>
             (True, st\<lparr>m_container := c\<lparr>indexed_container := ic_erase a (indexed_container c)\<rparr>\<rparr>))"

definition bms_UpdateSize :: "addr \<Rightarrow> usize \<Rightarrow> BasicMappedStorage \<Rightarrow> bool \<times> BasicMappedStorage" where
  "bms_UpdateSize a n st =
     (let c = m_container st
      in case ic_find a (indexed_container c) of
           None \<Rightarrow> (False, st)
         | Some _ \<Rightarrow>
             (True, st\<lparr>m_container := c\<lparr>indexed_container :=
                ic_modify a (\<lambda>x. x\<lparr>memsize := n\<rparr>) (indexed_container c)\<rparr>\<rparr>))"

definition bms_Clear :: "BasicMappedStorage \<Rightarrow> BasicMappedStorage" where
  "bms_Clear st = st\<lparr>m_container := (m_container st)\<lparr>indexed_container := []\<rparr>\<rparr>"

definition bms_Flush :: "BasicMappedStorage \<Rightarrow> BasicMappedStorage" where
  "bms_Flush st = st"

definition bms_GetName :: "BasicMappedStorage \<Rightarrow> string" where
  "bms_GetName st = m_name st"

definition bms_ops :: "BasicMappedStorage storage_ops" where
  "bms_ops = \<lparr>s_Add = bms_Add, s_Remove = bms_Remove, s_UpdateSize = bms_UpdateSize,
     s_Clear = bms_Clear, s_Flush = bms_Flush, s_GetName = bms_GetName\<rparr>"

subsection \<open>LevelDBStorage\<close>

record LevelDBStorage =
  ldb_path :: string
  ldb_cache_size_mb :: usize

definition ldb_ops :: "LevelDBStorage storage_ops" where
  "ldb_ops = \<lparr>s_Add = (\<lambda>a n cs t st. st), s_Remove = (\<lambda>a st. (False, st)),
     s_UpdateSize = (\<lambda>a n st. (False, st)), s_Clear = (\<lambda>st. st), s_Flush = (\<lambda>st. st),
     s_GetName = ldb_path\<rparr>"

definition SystemClockComparator :: "int \<Rightarrow> int \<Rightarrow> int" where
  "SystemClockComparator lhs rhs = (if lhs < rhs then -1 else if lhs > rhs then 1 else 0)"

subsection \<open>The contract\<close>

text \<open>What the table records about an allocation: size, time, and the frames' (ip, sp).\<close>

type_synonym trace_view = "usize \<times> time \<times> (addr \<times> addr) list"
type_synonym table = "addr \<rightharpoonup> trace_view"

definition frames_of :: "CallStackInfo \<Rightarrow> (addr \<times> addr) list" where
  "frames_of cs = map (\<lambda>i. (ip i, sp i)) cs"

definition trace_view_of :: "BasicTraceInfo \<Rightarrow> trace_view" where
  "trace_view_of x = (memsize x, timestamp x, map (\<lambda>i. (t_ip i, t_sp i)) (callstack x))"

definition tbl_add :: "addr \<Rightarrow> trace_view \<Rightarrow> table \<Rightarrow> table" where
  "tbl_add a v m = (if m a = None then m(a \<mapsto> v) else m)"

definition tbl_resize :: "addr \<Rightarrow> usize \<Rightarrow> table \<Rightarrow> table" where
  "tbl_resize a n m = m(a := map_option (\<lambda>v. (n, snd v)) (m a))"

locale mapped_storage =
  fixes ops :: "'s storage_ops" and tbl :: "'s \<Rightarrow> table" and sinv :: "'s \<Rightarrow> bool"
  assumes tbl_Add: "sinv s \<Longrightarrow> tbl (s_Add ops a n cs t s) = tbl_add a (n, t, frames_of cs) (tbl s)"
    and tbl_Remove: "sinv s \<Longrightarrow> tbl (snd (s_Remove ops a s)) = (tbl s)(a := None)"
    and tbl_UpdateSize: "sinv s \<Longrightarrow> tbl (snd (s_UpdateSize ops a n s)) = tbl_resize a n (tbl s)"
    and tbl_Flush: "sinv s \<Longrightarrow> tbl (s_Flush ops s) = tbl s"
    and sinv_Add: "sinv s \<Longrightarrow> sinv (s_Add ops a n cs t s)"
    and sinv_Remove: "sinv s \<Longrightarrow> sinv (snd (s_Remove ops a s))"
    and sinv_UpdateSize: "sinv s \<Longrightarrow> sinv (snd (s_UpdateSize ops a n s))"
    and sinv_Flush: "sinv s \<Longrightarrow> sinv (s_Flush ops s)"

text \<open>
  A storage whose Remove and UpdateSize report whether there was a record (the network
  storage cannot: it does not wait for an answer), and one that can be cleared.
\<close>

locale reporting_storage = mapped_storage +
  assumes flag_Remove: "sinv s \<Longrightarrow> fst (s_Remove ops a s) \<longleftrightarrow> tbl s a \<noteq> None"
    and flag_UpdateSize: "sinv s \<Longrightarrow> fst (s_UpdateSize ops a n s) \<longleftrightarrow> tbl s a \<noteq> None"

locale clearable_storage = reporting_storage +
  assumes tbl_Clear: "sinv s \<Longrightarrow> tbl (s_Clear ops s) = Map.empty"
    and sinv_Clear: "sinv s \<Longrightarrow> sinv (s_Clear ops s)"

definition bms_tbl :: "BasicMappedStorage \<Rightarrow> table" where
  "bms_tbl st = ic.view trace_view_of (indexed_container (m_container st))"

definition bms_inv :: "BasicMappedStorage \<Rightarrow> bool" where
  "bms_inv st \<longleftrightarrow> ic_inv (indexed_container (m_container st))"

lemma fold_SymbolTableUpdater_container [simp]:
  "indexed_container (fold SymbolTableUpdater cs c) = indexed_container c"
proof (induction cs arbitrary: c)
  case (Cons i cs)
  have "indexed_container (SymbolTableUpdater i c) = indexed_container c"
    by (simp add: SymbolTableUpdater_def Let_def split: option.split)
  with Cons show ?case by simp
qed simp

lemma trace_view_of_new [simp]:
  "trace_view_of (new_BasicTraceInfo a n t cs) = (n, t, frames_of cs)"
  by (simp add: trace_view_of_def frames_of_def comp_def)

lemma bms_tbl_find: "bms_tbl st a = None \<longleftrightarrow> ic_find a (indexed_container (m_container st)) = None"
  by (simp add: bms_tbl_def ic.view_def)

lemma bms_tbl_Add:
  "bms_tbl (bms_Add a n cs t st) = tbl_add a (n, t, frames_of cs) (bms_tbl st)"
  by (simp add: bms_Add_def bms_tbl_def Let_def ic.view_insert tbl_add_def)

lemma bms_tbl_Remove: "bms_tbl (snd (bms_Remove a st)) = (bms_tbl st)(a := None)"
proof (cases "ic_find a (indexed_container (m_container st))")
  case None
  then have "bms_tbl st a = None" by (simp add: bms_tbl_find)
  with None show ?thesis by (simp add: bms_Remove_def Let_def fun_upd_idem)
qed (simp add: bms_Remove_def Let_def bms_tbl_def ic.view_erase)

lemma bms_tbl_UpdateSize: "bms_tbl (snd (bms_UpdateSize a n st)) = tbl_resize a n (bms_tbl st)"
proof (cases "ic_find a (indexed_container (m_container st))")
  case None
  then have "bms_tbl st a = None" by (simp add: bms_tbl_find)
  with None show ?thesis by (simp add: bms_UpdateSize_def Let_def tbl_resize_def fun_upd_idem)
next
  case (Some x)
  then show ?thesis
    by (simp add: bms_UpdateSize_def Let_def bms_tbl_def tbl_resize_def trace_view_of_def
        ic.view_modify [where h = "\<lambda>v. (n, snd v)"])
qed

interpretation bms: clearable_storage bms_ops bms_tbl bms_inv
proof unfold_locales
  fix s :: BasicMappedStorage and a n t cs
  show "bms_tbl (s_Add bms_ops a n cs t s) = tbl_add a (n, t, frames_of cs) (bms_tbl s)"
    by (simp add: bms_ops_def bms_tbl_Add)
  show "bms_tbl (snd (s_Remove bms_ops a s)) = (bms_tbl s)(a := None)"
    by (simp add: bms_ops_def bms_tbl_Remove)
  show "fst (s_Remove bms_ops a s) \<longleftrightarrow> bms_tbl s a \<noteq> None"
    by (simp add: bms_ops_def bms_Remove_def Let_def bms_tbl_find split: option.split)
  show "bms_tbl (snd (s_UpdateSize bms_ops a n s)) = tbl_resize a n (bms_tbl s)"
    by (simp add: bms_ops_def bms_tbl_UpdateSize)
  show "fst (s_UpdateSize bms_ops a n s) \<longleftrightarrow> bms_tbl s a \<noteq> None"
    by (simp add: bms_ops_def bms_UpdateSize_def Let_def bms_tbl_find split: option.split)
  show "bms_tbl (s_Flush bms_ops s) = bms_tbl s"
    by (simp add: bms_ops_def bms_Flush_def)
  show "bms_tbl (s_Clear bms_ops s) = Map.empty"
    by (simp add: bms_ops_def bms_Clear_def bms_tbl_def ic.view_def)
  assume inv: "bms_inv s"
  then show "bms_inv (s_Add bms_ops a n cs t s)"
    by (simp add: bms_ops_def bms_Add_def bms_inv_def Let_def ic.invar_insert)
  show "bms_inv (snd (s_Remove bms_ops a s))"
    using inv by (simp add: bms_ops_def bms_Remove_def bms_inv_def Let_def ic.invar_erase
        split: option.split)
  show "bms_inv (snd (s_UpdateSize bms_ops a n s))"
    using inv by (simp add: bms_ops_def bms_UpdateSize_def bms_inv_def Let_def ic.invar_modify
        split: option.split)
  show "bms_inv (s_Flush bms_ops s)" "bms_inv (s_Clear bms_ops s)"
    using inv by (simp_all add: bms_ops_def bms_Flush_def bms_Clear_def bms_inv_def ic_inv_def)
qed

lemma bms_new [simp]:
  "bms_inv (new_BasicMappedStorage name n)" "bms_tbl (new_BasicMappedStorage name n) = Map.empty"
  by (simp_all add: bms_inv_def bms_tbl_def new_BasicMappedStorage_def new_MappedContainer_def
      ic_inv_def ic.view_def)

subsection \<open>Sequences of storage operations\<close>

datatype storage_op =
    OpAdd addr usize CallStackInfo time
  | OpRemove addr
  | OpUpdateSize addr usize
  | OpClear
  | OpFlush

fun do_op :: "'s storage_ops \<Rightarrow> storage_op \<Rightarrow> 's \<Rightarrow> 's" where
  "do_op ops (OpAdd a n cs t) s = s_Add ops a n cs t s"
| "do_op ops (OpRemove a) s = snd (s_Remove ops a s)"
| "do_op ops (OpUpdateSize a n) s = snd (s_UpdateSize ops a n s)"
| "do_op ops OpClear s = s_Clear ops s"
| "do_op ops OpFlush s = s_Flush ops s"

definition run_ops :: "'s storage_ops \<Rightarrow> storage_op list \<Rightarrow> 's \<Rightarrow> 's" where
  "run_ops ops xs s = fold (do_op ops) xs s"

fun tbl_op :: "storage_op \<Rightarrow> table \<Rightarrow> table" where
  "tbl_op (OpAdd a n cs t) m = tbl_add a (n, t, frames_of cs) m"
| "tbl_op (OpRemove a) m = m(a := None)"
| "tbl_op (OpUpdateSize a n) m = tbl_resize a n m"
| "tbl_op OpClear m = Map.empty"
| "tbl_op OpFlush m = m"

context clearable_storage
begin

lemma do_op_ok: "sinv s \<Longrightarrow> sinv (do_op ops x s) \<and> tbl (do_op ops x s) = tbl_op x (tbl s)"
  by (cases x) (simp_all add: tbl_Add tbl_Remove tbl_UpdateSize tbl_Clear tbl_Flush
      sinv_Add sinv_Remove sinv_UpdateSize sinv_Clear sinv_Flush)

lemma run_ops_ok: "sinv s \<Longrightarrow> sinv (run_ops ops xs s) \<and> tbl (run_ops ops xs s) = fold tbl_op xs (tbl s)"
  unfolding run_ops_def by (induction xs arbitrary: s) (simp_all add: do_op_ok)

end

text \<open>
  C14. The shared-memory storage is a map from addresses to allocations: after any sequence
  of operations on a fresh storage its table is the one the abstract operations give
  (the first record of an address wins until it is removed), its addresses are unique, and
  Remove and UpdateSize report whether there was a record.
\<close>

theorem bms_refines_table:
  assumes "st = run_ops bms_ops xs (new_BasicMappedStorage name n)"
  shows "bms_tbl st = fold tbl_op xs Map.empty \<and> bms_inv st \<and>
         (fst (bms_Remove a st) \<longleftrightarrow> bms_tbl st a \<noteq> None) \<and>
         (fst (bms_UpdateSize a k st) \<longleftrightarrow> bms_tbl st a \<noteq> None)"
proof -
  have "bms_inv st \<and> bms_tbl st = fold tbl_op xs Map.empty"
    using bms.run_ops_ok [of "new_BasicMappedStorage name n" xs] by (simp add: assms)
  with bms.flag_Remove [of st a] bms.flag_UpdateSize [of st a k] show ?thesis
    by (simp add: bms_ops_def)
qed

theorem bms_refines_table_witness:
  "\<exists>st. st = run_ops bms_ops [OpAdd 4096 16 [] 7, OpAdd 4096 99 [] 8, OpAdd 8192 32 [] 9, OpUpdateSize 4096 24,
       OpRemove 8192] (new_BasicMappedStorage ''shm'' 65536) \<and>
     bms_tbl st = [4096 \<mapsto> (24, 7, [])] \<and> \<not> fst (bms_Remove 8192 st)"
proof -
  have "fold tbl_op [OpAdd 4096 16 [] 7, OpAdd 4096 99 [] 8, OpAdd 8192 32 [] 9, OpUpdateSize 4096 24,
      OpRemove 8192] Map.empty = [4096 \<mapsto> (24, 7, [])]"
    by (simp add: tbl_add_def tbl_resize_def frames_of_def fun_eq_iff)
  with bms_refines_table [OF refl, of "[OpAdd 4096 16 [] 7, OpAdd 4096 99 [] 8, OpAdd 8192 32 [] 9,
      OpUpdateSize 4096 24, OpRemove 8192]" "''shm''" 65536 8192 0] show ?thesis by simp
qed

subsection \<open>Symbols\<close>

text \<open>
  The symbol tables cover the stored call stacks when names are a function of the
  address: \<open>names_ok\<close> says so of a call stack, for the functions the resolver computes.
\<close>

definition names_ok :: "(addr \<Rightarrow> string) \<Rightarrow> (addr \<Rightarrow> addr) \<Rightarrow> (addr \<Rightarrow> string) \<Rightarrow> CallStackInfo \<Rightarrow> bool" where
  "names_ok nm base path cs \<longleftrightarrow>
     (\<forall>i\<in>set cs. procname i = nm (ip i) \<and> shl_addr i = base (ip i) \<and> shl_path i = path (shl_addr i))"

definition symbols_inv :: "(addr \<Rightarrow> string) \<Rightarrow> (addr \<Rightarrow> addr) \<Rightarrow> (addr \<Rightarrow> string) \<Rightarrow> MappedContainer \<Rightarrow> bool" where
  "symbols_inv nm base path c \<longleftrightarrow>
     (\<forall>i v. symtab c i = Some v \<longrightarrow> v = nm i \<and> shltab c (base i) \<noteq> None) \<and>
     (\<forall>b v. shltab c b = Some v \<longrightarrow> v = path b) \<and>
     (\<forall>x\<in>set (indexed_container c). \<forall>f\<in>set (callstack x).
        t_shl_addr f = base (t_ip f) \<and> symtab c (t_ip f) \<noteq> None)"

lemma SymbolTableUpdater_inv:
  assumes "symbols_inv nm base path c" "procname i = nm (ip i)" "shl_addr i = base (ip i)"
    "shl_path i = path (shl_addr i)"
  shows "symbols_inv nm base path (SymbolTableUpdater i c) \<and> symtab (SymbolTableUpdater i c) (ip i) \<noteq> None \<and>
         (symtab c j \<noteq> None \<longrightarrow> symtab (SymbolTableUpdater i c) j \<noteq> None)"
  using assms by (auto simp: symbols_inv_def SymbolTableUpdater_def Let_def split: option.split)

lemma fold_SymbolTableUpdater_inv:
  "symbols_inv nm base path c \<Longrightarrow> names_ok nm base path cs \<Longrightarrow>
   symbols_inv nm base path (fold SymbolTableUpdater cs c) \<and>
   (\<forall>i\<in>set cs. symtab (fold SymbolTableUpdater cs c) (ip i) \<noteq> None) \<and>
   (\<forall>j. symtab c j \<noteq> None \<longrightarrow> symtab (fold SymbolTableUpdater cs c) j \<noteq> None)"
proof (induction cs arbitrary: c)
  case (Cons i cs)
  let ?c = "SymbolTableUpdater i c"
  have 1: "symbols_inv nm base path ?c" "symtab ?c (ip i) \<noteq> None"
      "\<And>j. symtab c j \<noteq> None \<Longrightarrow> symtab ?c j \<noteq> None"
    using SymbolTableUpdater_inv [OF Cons.prems(1), of i] Cons.prems(2) by (auto simp: names_ok_def)
  moreover have "names_ok nm base path cs" using Cons.prems(2) by (simp add: names_ok_def)
  ultimately show ?case using Cons.IH [of ?c] by simp
qed simp

lemma ic_emplace_mem: "x \<in> set (fst (ic_emplace y c)) \<Longrightarrow> x = y \<or> x \<in> set c"
  by (auto simp: ic_emplace_def split: option.splits)

lemma do_op_symbols:
  assumes "symbols_inv nm base path (m_container st)"
    and "\<And>a n cs t. x = OpAdd a n cs t \<Longrightarrow> names_ok nm base path cs"
  shows "symbols_inv nm base path (m_container (do_op bms_ops x st))"
proof (cases x)
  case (OpAdd a n cs t)
  let ?c = "fold SymbolTableUpdater cs (m_container st)"
  have "symbols_inv nm base path ?c" "\<forall>i\<in>set cs. symtab ?c (ip i) \<noteq> None"
    using fold_SymbolTableUpdater_inv [OF assms(1)] assms(2) OpAdd by blast+
  moreover have "names_ok nm base path cs" using assms(2) OpAdd by blast
  ultimately show ?thesis
    using OpAdd by (auto simp: bms_ops_def bms_Add_def Let_def symbols_inv_def names_ok_def
        new_BasicTraceInfo_def Builder_def dest!: ic_emplace_mem)
qed (use assms(1) in \<open>auto simp: bms_ops_def bms_Remove_def bms_UpdateSize_def bms_Clear_def bms_Flush_def
    ic_erase_def ic_modify_def Let_def symbols_inv_def split: option.splits if_splits\<close>)

text \<open>
  C28. Every stored frame can be printed, as long as no object is replaced by another one at its
  addresses: when name and load address are a function of the instruction pointer and the path
  one of the load address, for the whole run, then after any sequence of operations each frame of
  each record finds in the symbol table its procedure's name and in the path table its
  object's path, although records are only added and removed one at a time and the path
  table is only looked at when an instruction pointer is new.
\<close>

theorem bms_symbols_complete:
  assumes "\<And>a n cs t. OpAdd a n cs t \<in> set xs \<Longrightarrow> names_ok nm base path cs"
    and "c = m_container (run_ops bms_ops xs (new_BasicMappedStorage name k))"
    and "x \<in> set (indexed_container c)" and "f \<in> set (callstack x)"
  shows "symtab c (t_ip f) = Some (nm (t_ip f)) \<and> shltab c (t_shl_addr f) = Some (path (t_shl_addr f))"
proof -
  have "symbols_inv nm base path (m_container st) \<Longrightarrow>
      symbols_inv nm base path (m_container (run_ops bms_ops xs st))" for st
    using assms(1)
  proof (induction xs arbitrary: st)
    case (Cons y ys)
    have "symbols_inv nm base path (m_container (do_op bms_ops y st))"
      using Cons.prems by (intro do_op_symbols) auto
    with Cons.IH [of "do_op bms_ops y st"] Cons.prems(2) show ?case by (auto simp: run_ops_def)
  qed (simp add: run_ops_def)
  note this [of "new_BasicMappedStorage name k"]
  moreover have "symbols_inv nm base path (m_container (new_BasicMappedStorage name k))"
    by (simp add: new_BasicMappedStorage_def new_MappedContainer_def symbols_inv_def)
  ultimately have inv: "symbols_inv nm base path c" by (simp only: assms(2))
  with assms(3,4) obtain v where v: "symtab c (t_ip f) = Some v" "t_shl_addr f = base (t_ip f)"
    unfolding symbols_inv_def by blast
  then obtain w where w: "shltab c (t_shl_addr f) = Some w"
    using inv unfolding symbols_inv_def by (metis not_None_eq)
  show ?thesis using v w inv unfolding symbols_inv_def by metis
qed

definition demo_cs :: CallStackInfo where
  "demo_cs = [\<lparr>shl_path = ''a.out'', procname = ''main'', shl_addr = 0x400000, ip = 0x400123, sp = 16, offp = 3\<rparr>]"

theorem bms_symbols_complete_witness:
  "\<exists>c. c = m_container (run_ops bms_ops [OpAdd 4096 16 demo_cs 7] (new_BasicMappedStorage ''shm'' 65536)) \<and>
     symtab c 0x400123 = Some ''main'' \<and> shltab c 0x400000 = Some ''a.out''"
proof -
  let ?c = "m_container (run_ops bms_ops [OpAdd 4096 16 demo_cs 7] (new_BasicMappedStorage ''shm'' 65536))"
  have "indexed_container ?c = [new_BasicTraceInfo 4096 16 7 demo_cs]"
    by (simp add: run_ops_def bms_ops_def bms_Add_def new_BasicMappedStorage_def new_MappedContainer_def
        ic_emplace_def ic_find_def Let_def)
  moreover have "names_ok (\<lambda>_. ''main'') (\<lambda>_. 0x400000) (\<lambda>_. ''a.out'') cs"
    if "OpAdd a n cs t \<in> set [OpAdd 4096 16 demo_cs 7]" for a n cs t
    using that by (simp add: names_ok_def demo_cs_def)
  ultimately have "symtab ?c (t_ip f) = Some ''main'' \<and> shltab ?c (t_shl_addr f) = Some ''a.out''"
    if "f \<in> set (callstack (new_BasicTraceInfo 4096 16 7 demo_cs))" for f
    using bms_symbols_complete [of "[OpAdd 4096 16 demo_cs 7]" "\<lambda>_. ''main''" "\<lambda>_. 0x400000" "\<lambda>_. ''a.out''"
        ?c "''shm''" 65536 "new_BasicTraceInfo 4096 16 7 demo_cs" f] that by auto
  from this [of "Builder (hd demo_cs)"] show ?thesis
    by (simp add: new_BasicTraceInfo_def Builder_def demo_cs_def)
qed

end
