(* ===== verification/Environment.thy ===== *)
theory Environment
  imports Memhook_Prelude
begin

text \<open>
  What the program reads from its environment: \<^verbatim>\<open>getenv\<close> as a finite map from names to
  values, and \<^verbatim>\<open>strtoul(s, NULL, 10)\<close> of the C library: leading white space, an optional
  sign, decimal digits up to the first other character; an unrepresentable value is
  \<^verbatim>\<open>ULONG_MAX\<close>, a minus sign negates modulo \<open>2 ^ 64\<close>, and no digit at all is 0.
\<close>

type_synonym environ = "(string \<times> string) list"

definition getenv :: "environ \<Rightarrow> string \<Rightarrow> string option" where
  "getenv env name = map_of env name"

definition is_space :: "char \<Rightarrow> bool" where
  "is_space c \<longleftrightarrow> (let n = (of_char c :: nat) in n = 32 \<or> 9 \<le> n \<and> n \<le> 13)"

definition is_digit :: "char \<Rightarrow> bool" where
  "is_digit c \<longleftrightarrow> (let n = (of_char c :: nat) in 48 \<le> n \<and> n \<le> 57)"

fun digits_val :: "string \<Rightarrow> nat \<Rightarrow> nat" where
  "digits_val [] acc = acc"
| "digits_val (c # cs) acc =
     (if is_digit c then digits_val cs (acc * 10 + (of_char c - 48)) else acc)"

definition strtoul :: "string \<Rightarrow> u64" where
  "strtoul s =
     (let s = dropWhile is_space s;
          (neg, s) = (case s of
              c # r \<Rightarrow> if c = CHR ''-'' then (True, r) else if c = CHR ''+'' then (False, r) else (False, s)
            | [] \<Rightarrow> (False, s));
          v = digits_val s 0
      in if 2 ^ 64 \<le> v then - 1 else if neg then - word_of_nat v else word_of_nat v)"

lemma strtoul_examples:
  "strtoul ''16'' = 16" "strtoul '' +7x'' = 7" "strtoul ''x'' = 0"
  "strtoul ''-1'' = - 1" "strtoul ''18446744073709551616'' = - 1"
  by (simp_all add: strtoul_def is_space_def is_digit_def Let_def)

text \<open>Decimal printing of integers, \<^verbatim>\<open>boost::lexical_cast<std::string>\<close>.\<close>

fun nat_to_string :: "nat \<Rightarrow> string" where
  "nat_to_string n =
     (if n < 10 then [char_of (48 + n)] else nat_to_string (n div 10) @ [char_of (48 + n mod 10)])"

declare nat_to_string.simps [simp del]

definition int_to_string :: "int \<Rightarrow> string" where
  "int_to_string i = (if i < 0 then CHR ''-'' # nat_to_string (nat (- i)) else nat_to_string (nat i))"

lemma of_char_digit: "d < 10 \<Longrightarrow> (of_char (char_of (48 + d)) :: nat) = 48 + d"
  by (simp add: of_char_of)

lemma is_digit_char: "(d::nat) < 10 \<Longrightarrow> is_digit (char_of (48 + d))"
  by (simp add: is_digit_def Let_def of_char_digit del: of_char_of)

lemma digits_val_append:
  "list_all is_digit s \<Longrightarrow> digits_val (s @ r) acc = digits_val r (digits_val s acc)"
  by (induction s arbitrary: acc) simp_all

lemma nat_to_string_digits: "list_all is_digit (nat_to_string n)"
proof (induction n rule: nat_to_string.induct)
  case (1 n)
  have "is_digit (char_of (48 + n mod 10))" "n < 10 \<Longrightarrow> is_digit (char_of (48 + n))"
    by (simp_all add: is_digit_char)
  with 1 show ?case by (subst nat_to_string.simps) simp
qed

lemma digits_val_nat_to_string [roundtrips]: "digits_val (nat_to_string n) 0 = n"
proof (induction n rule: nat_to_string.induct)
  case (1 n)
  have "is_digit (char_of (48 + n mod 10))" "n < 10 \<Longrightarrow> is_digit (char_of (48 + n))"
    by (simp_all add: is_digit_char)
  with 1 show ?case
    by (subst nat_to_string.simps)
      (simp add: digits_val_append nat_to_string_digits of_char_digit del: of_char_of)
qed

lemma nat_to_string_inj: "nat_to_string a = nat_to_string b \<Longrightarrow> a = b"
  by (metis digits_val_nat_to_string)

lemma inj_nat_to_string: "inj nat_to_string"
  by (rule injI) (rule nat_to_string_inj)

end
