(* ===== verification/Network_Storage.thy ===== *)
theory Network_Storage
  imports Network Mapped_Storage Environment
begin

text \<open>
  The storage that sends every operation to a \<^verbatim>\<open>memdb\<close> server,
  \<^verbatim>\<open>src/memhookcore/network_mapped_storage.h\<close> and \<^verbatim>\<open>.cpp\<close>. The state keeps the bytes given
  to the TCP stream: \<open>n_buffered\<close> those the stream buffer still holds and \<open>n_sent\<close> those
  that left it. Bytes reach the server in the order \<open>n_sent @ n_buffered\<close>; the stream's
  destructor sends what is left. The mutex around the buffer is not part of the state.
\<close>

record NetworkMappedStorage =
  n_host :: string
  n_port :: int
  n_buffered :: "u8 list"
  n_sent :: "u8 list"

definition Send :: "bool \<Rightarrow> NetRequest \<Rightarrow> NetworkMappedStorage \<Rightarrow> NetworkMappedStorage" where
  "Send be request st =
     (let outbound = \<lparr>o_size = GetSize w_NetRequest request\<rparr>;
          buf_size = o_size outbound + GetSize w_NetProtoOutbound outbound;
          tmpbuf = \<lparr>mb_mem = replicate (unat buf_size) 0, mb_pos = 0\<rparr>;
          tmpbuf = Write be w_NetProtoOutbound tmpbuf outbound;
          tmpbuf = Write be w_NetRequest tmpbuf request
      in st\<lparr>n_buffered := n_buffered st @ take (unat buf_size) (mb_mem tmpbuf)\<rparr>)"

text \<open>\<open>connected\<close> is whether the connection was made; the constructor throws when not.\<close>

definition new_NetworkMappedStorage ::
    "bool \<Rightarrow> bool \<Rightarrow> string \<Rightarrow> int \<Rightarrow> u32 \<Rightarrow> time \<Rightarrow> NetworkMappedStorage option" where
  "new_NetworkMappedStorage be connected host port pid now =
     (if connected
      then Some (Send be (new_NetRequest kNetReqNewStorage (ucast pid) 0 now [])
                   \<lparr>n_host = host, n_port = port, n_buffered = [], n_sent = []\<rparr>)
      else None)"

definition net_Add ::
    "bool \<Rightarrow> addr \<Rightarrow> usize \<Rightarrow> CallStackInfo \<Rightarrow> time \<Rightarrow> NetworkMappedStorage \<Rightarrow> NetworkMappedStorage" where
  "net_Add be a n cs t st = Send be (new_NetRequest kNetReqAdd a n t cs) st"

definition net_Remove :: "bool \<Rightarrow> addr \<Rightarrow> NetworkMappedStorage \<Rightarrow> bool \<times> NetworkMappedStorage" where
  "net_Remove be a st = (True, Send be (new_NetRequest kNetReqRemove a 0 0 []) st)"

definition net_UpdateSize :: "bool \<Rightarrow> addr \<Rightarrow> usize \<Rightarrow> NetworkMappedStorage \<Rightarrow> bool \<times> NetworkMappedStorage" where
  "net_UpdateSize be a n st = (True, Send be (new_NetRequest kNetReqUpdateSize a n 0 []) st)"

definition net_Clear :: "bool \<Rightarrow> NetworkMappedStorage \<Rightarrow> NetworkMappedStorage" where
  "net_Clear be st = Send be (new_NetRequest kNetReqClear 0 0 0 []) st"

definition net_Flush :: "NetworkMappedStorage \<Rightarrow> NetworkMappedStorage" where
  "net_Flush st = st\<lparr>n_sent := n_sent st @ n_buffered st, n_buffered := []\<rparr>"

definition net_GetName :: "NetworkMappedStorage \<Rightarrow> string" where
  "net_GetName st = n_host st @ '':'' @ int_to_string (n_port st)"

definition net_ops :: "bool \<Rightarrow> NetworkMappedStorage storage_ops" where
  "net_ops be = \<lparr>s_Add = net_Add be, s_Remove = net_Remove be, s_UpdateSize = net_UpdateSize be,
     s_Clear = net_Clear be, s_Flush = net_Flush, s_GetName = net_GetName\<rparr>"

subsection \<open>What is sent\<close>

definition wire :: "NetworkMappedStorage \<Rightarrow> u8 list" where
  "wire st = n_sent st @ n_buffered st"

definition frame :: "NetRequest \<Rightarrow> u8 list" where
  "frame v = be_bytes 8 (length (enc_NetRequest v)) @ enc_NetRequest v"

text \<open>The requests of an operation; \<open>new_request\<close> is the one of the constructor.\<close>

fun op_requests :: "storage_op \<Rightarrow> NetRequest list" where
  "op_requests (OpAdd a n cs t) = [new_NetRequest kNetReqAdd a n t cs]"
| "op_requests (OpRemove a) = [new_NetRequest kNetReqRemove a 0 0 []]"
| "op_requests (OpUpdateSize a n) = [new_NetRequest kNetReqUpdateSize a n 0 []]"
| "op_requests OpClear = [new_NetRequest kNetReqClear 0 0 0 []]"
| "op_requests OpFlush = []"

definition ops_ok :: "storage_op list \<Rightarrow> bool" where
  "ops_ok xs \<longleftrightarrow> (\<forall>v\<in>set (concat (map op_requests xs)). request_ok v)"

text \<open>
  \<^verbatim>\<open>Send\<close> appends the framed request: eight bytes of length, then the request, in a
  buffer of exactly the right size.
\<close>

lemma Send_wire:
  assumes "request_ok v"
  shows "wire (Send be v st) = wire st @ frame v"
proof -
  let ?n = "length (enc_NetRequest v)"
  have n: "?n < 2 ^ 63" using assms by (simp add: request_ok_def)
  have s: "unat (GetSize w_NetRequest v) = ?n"
    using n by (simp add: GetSize_NetRequest unat_of_nat)
  have t: "unat (GetSize w_NetRequest v + 8) = ?n + 8"
    using n by (simp add: GetSize_NetRequest unat_word_ariths unat_of_nat)
  have "bw_rel (replicate (?n + 8) 0)
      (Write be w_NetRequest (Write be w_NetProtoOutbound \<lparr>mb_mem = replicate (?n + 8) 0, mb_pos = 0\<rparr>
        \<lparr>o_size = GetSize w_NetRequest v\<rparr>) v) (frame v)"
    using Write_NetRequest_rel [OF Write_NetProtoOutbound_rel [OF bw_rel_start]] s
    by (metis append_Nil enc_NetProtoOutbound_eq frame_def NetProtoOutbound.select_convs(1))
  moreover have "length (frame v) = ?n + 8" by (simp add: frame_def)
  ultimately have "mb_mem (Write be w_NetRequest (Write be w_NetProtoOutbound
      \<lparr>mb_mem = replicate (?n + 8) 0, mb_pos = 0\<rparr> \<lparr>o_size = GetSize w_NetRequest v\<rparr>) v) = frame v"
    using bw_rel_full by (metis length_replicate)
  then show ?thesis
    by (simp add: Send_def Let_def t wire_def \<open>length (frame v) = ?n + 8\<close>)
qed

lemma run_ops_wire:
  "ops_ok xs \<Longrightarrow> wire (run_ops (net_ops be) xs st) = wire st @ concat (map frame (concat (map op_requests xs)))"
proof (induction xs arbitrary: st)
  case (Cons x xs)
  have "wire (do_op (net_ops be) x st) = wire st @ concat (map frame (op_requests x))"
    using Cons.prems
    by (cases x) (auto simp: ops_ok_def net_ops_def net_Add_def net_Remove_def net_UpdateSize_def net_Clear_def
        Send_wire, simp add: net_Flush_def wire_def)
  moreover have "ops_ok xs" using Cons.prems by (auto simp: ops_ok_def)
  ultimately show ?case using Cons.IH by (simp add: run_ops_def)
qed (simp add: run_ops_def)

lemma new_NetworkMappedStorage_wire:
  assumes "new_NetworkMappedStorage be True host port pid now = Some st" "int64_ok now"
  shows "wire st = frame (new_NetRequest kNetReqNewStorage (ucast pid) 0 now [])"
proof -
  have "request_ok (new_NetRequest kNetReqNewStorage (ucast pid) 0 now [])"
    using assms(2) by (simp add: request_ok_def new_NetRequest_def callstack_ok_def enc_NetRequest_def w_NetRequest_def
      w_enum_def w_TraceInfoBase_def w_time_point_def w_CallStackInfo_def CallSeq_def)
  with assms(1) show ?thesis
    by (auto simp: new_NetworkMappedStorage_def Send_wire) (simp add: wire_def)
qed

end
