(* ===== verification/Memdb_Session.thy ===== *)
theory Memdb_Session
  imports Network_Storage
begin

text \<open>
  The server's side of a connection, \<^verbatim>\<open>src/memdb/memdb_session.h\<close> and \<^verbatim>\<open>.cpp\<close>: bytes
  arrive in \<open>sbuf\<close>, the two parsing callbacks cut them into requests and apply them to
  the session's storage. \<open>None\<close>-like outcomes of the C++ are values of \<open>session_error\<close>:
  reading past the input buffer, using the storage before there is one (both undefined
  behaviour), and an exception of the storage's constructor. The storage's methods are a
  \<open>storage_ops\<close>, the storage creator a function from the client's process id.

  \<open>session_serve\<close> is the event loop of one connection on the whole stream of bytes the
  client sends: asio's \<^verbatim>\<open>transfer_at_least(8)\<close> for the first read (any chunk of at least
  eight bytes), \<^verbatim>\<open>transfer_exactly\<close> for the others, end of file when the stream is too
  short. It terminates because every read but the first asks for at least one byte.
\<close>

datatype session_error = ReadPastEnd | NullStorage | CreatorThrows

datatype parsing_callback = ParseOutboundCb | ParseInboundCb

record ParsingInfo =
  pi_size :: nat
  pi_callback :: "parsing_callback option"

record 's MemDBSession =
  sbuf :: "u8 list"
  storage :: "'s option"

definition new_MemDBSession :: "'s MemDBSession" where
  "new_MemDBSession = \<lparr>sbuf = [], storage = None\<rparr>"

subsection \<open>Requests\<close>

definition OnAdd ::
    "'s storage_ops \<Rightarrow> TraceInfoBase \<Rightarrow> CallStackInfo \<Rightarrow> 's MemDBSession \<Rightarrow> session_error + 's MemDBSession" where
  "OnAdd ops ti cs se =
     (case storage se of
        None \<Rightarrow> Inl NullStorage
      | Some s \<Rightarrow> Inr (se\<lparr>storage := Some (s_Add ops (address ti) (memsize ti) cs (timestamp ti) s)\<rparr>))"

definition OnRemove ::
    "'s storage_ops \<Rightarrow> TraceInfoBase \<Rightarrow> 's MemDBSession \<Rightarrow> session_error + 's MemDBSession" where
  "OnRemove ops ti se =
     (case storage se of
        None \<Rightarrow> Inl NullStorage
      | Some s \<Rightarrow> Inr (se\<lparr>storage := Some (snd (s_Remove ops (address ti) s))\<rparr>))"

definition OnUpdateSize ::
    "'s storage_ops \<Rightarrow> TraceInfoBase \<Rightarrow> 's MemDBSession \<Rightarrow> session_error + 's MemDBSession" where
  "OnUpdateSize ops ti se =
     (case storage se of
        None \<Rightarrow> Inl NullStorage
      | Some s \<Rightarrow> Inr (se\<lparr>storage := Some (snd (s_UpdateSize ops (address ti) (memsize ti) s))\<rparr>))"

definition OnNewStorage ::
    "(addr \<Rightarrow> 's option) \<Rightarrow> addr \<Rightarrow> 's MemDBSession \<Rightarrow> session_error + 's MemDBSession" where
  "OnNewStorage creator pid se =
     (case creator pid of
        None \<Rightarrow> Inl CreatorThrows
      | Some s \<Rightarrow> Inr (se\<lparr>storage := Some s\<rparr>))"

definition HandleNetRequest ::
    "'s storage_ops \<Rightarrow> (addr \<Rightarrow> 's option) \<Rightarrow> NetRequest \<Rightarrow> 's MemDBSession \<Rightarrow>
     session_error + bool \<times> 's MemDBSession" where
  "HandleNetRequest ops creator request se =
     (if r_type request = kNetReqAdd
      then map_sum id (Pair True) (OnAdd ops (r_traceinfo request) (r_callstack request) se)
      else if r_type request = kNetReqRemove
      then map_sum id (Pair True) (OnRemove ops (r_traceinfo request) se)
      else if r_type request = kNetReqUpdateSize
      then map_sum id (Pair True) (OnUpdateSize ops (r_traceinfo request) se)
      else if r_type request = kNetReqNewStorage
      then map_sum id (Pair True) (OnNewStorage creator (address (r_traceinfo request)) se)
      else Inr (False, se))"

lemma OnX_sbuf:
  "OnAdd ops ti cs se = Inr se' \<Longrightarrow> sbuf se' = sbuf se"
  "OnRemove ops ti se = Inr se' \<Longrightarrow> sbuf se' = sbuf se"
  "OnUpdateSize ops ti se = Inr se' \<Longrightarrow> sbuf se' = sbuf se"
  "OnNewStorage creator pid se = Inr se' \<Longrightarrow> sbuf se' = sbuf se"
  by (auto simp: OnAdd_def OnRemove_def OnUpdateSize_def OnNewStorage_def split: option.splits)

subsection \<open>Parsing\<close>

definition shrinks :: "'a reader \<Rightarrow> bool" where
  "shrinks f \<longleftrightarrow> (\<forall>buf v rest. f buf = Some (v, rest) \<longrightarrow> length rest \<le> length buf)"

lemma shrinksD: "shrinks f \<Longrightarrow> f buf = Some (v, rest) \<Longrightarrow> length rest \<le> length buf"
  unfolding shrinks_def by blast

lemma shrinks_words: "shrinks (r_u32 be)" "shrinks (r_u64 be)" "shrinks (r_string be)"
  by (auto simp: shrinks_def r_u32_def r_u64_def r_string_def bind_eq_Some_conv split: if_splits)

lemma shrinks_r_loop: "shrinks f \<Longrightarrow> r_loop n f ins acc buf = Some (v, rest) \<Longrightarrow> length rest \<le> length buf"
  by (induction n arbitrary: acc buf) (auto simp: bind_eq_Some_conv dest: shrinksD order_trans)

lemma shrinks_CallStackInfoItem: "shrinks (r_CallStackInfoItem be)"
  using shrinksD [OF shrinks_words(2)] shrinksD [OF shrinks_words(3)]
  by (auto simp: shrinks_def r_CallStackInfoItem_def bind_eq_Some_conv) (meson order_trans)

lemma shrinks_NetRequest:
  assumes "r_NetRequest be buf = Some (v, rest)" shows "length rest \<le> length buf"
proof -
  have cs: "r_CallStackInfo be b = Some (w, r) \<Longrightarrow> length r \<le> length b" for b w r
    by (auto simp: r_CallStackInfo_def r_CallSeq_def bind_eq_Some_conv
        dest!: shrinks_r_loop [OF shrinks_CallStackInfoItem] shrinksD [OF shrinks_words(1)])
  have ti: "r_TraceInfoBase be b = Some (w, r) \<Longrightarrow> length r \<le> length b" for b w r
    by (auto simp: r_TraceInfoBase_def r_time_point_def bind_eq_Some_conv
        dest!: shrinksD [OF shrinks_words(2)])
  show ?thesis
    using assms by (auto simp: r_NetRequest_def r_enum_def bind_eq_Some_conv
        dest!: shrinksD [OF shrinks_words(1)] cs ti)
qed

lemma r_NetProtoOutbound_length:
  "r_NetProtoOutbound be buf = Some (v, rest) \<Longrightarrow> length buf = length rest + 8"
  by (auto simp: r_NetProtoOutbound_def r_u64_def bind_eq_Some_conv split: if_splits)

function ParseOutbound ::
    "bool \<Rightarrow> 's storage_ops \<Rightarrow> (addr \<Rightarrow> 's option) \<Rightarrow> 's MemDBSession \<Rightarrow>
     session_error + ParsingInfo \<times> 's MemDBSession"
  and ParseInbound ::
    "bool \<Rightarrow> 's storage_ops \<Rightarrow> (addr \<Rightarrow> 's option) \<Rightarrow> 's MemDBSession \<Rightarrow>
     session_error + ParsingInfo \<times> 's MemDBSession" where
  "ParseOutbound be ops creator se =
     (if length (sbuf se) < sizeof_NetProtoOutbound
      then Inr (\<lparr>pi_size = sizeof_NetProtoOutbound - length (sbuf se), pi_callback = Some ParseOutboundCb\<rparr>, se)
      else case r_NetProtoOutbound be (sbuf se) of
             None \<Rightarrow> Inl ReadPastEnd
           | Some (outbound, inputbuf) \<Rightarrow>
               (if length inputbuf < unat (o_size outbound)
                then Inr (\<lparr>pi_size = unat (o_size outbound) - length inputbuf, pi_callback = Some ParseInboundCb\<rparr>,
                          se\<lparr>sbuf := inputbuf\<rparr>)
                else ParseInbound be ops creator (se\<lparr>sbuf := inputbuf\<rparr>)))"
| "ParseInbound be ops creator se =
     (case r_NetRequest be (sbuf se) of
        None \<Rightarrow> Inl ReadPastEnd
      | Some (request, inputbuf) \<Rightarrow>
          (case HandleNetRequest ops creator request se of
             Inl err \<Rightarrow> Inl err
           | Inr (False, se) \<Rightarrow> Inr (\<lparr>pi_size = 0, pi_callback = None\<rparr>, se)
           | Inr (True, se) \<Rightarrow>
               (if length inputbuf < sizeof_NetProtoOutbound
                then Inr (\<lparr>pi_size = sizeof_NetProtoOutbound - length inputbuf, pi_callback = Some ParseOutboundCb\<rparr>,
                          se\<lparr>sbuf := inputbuf\<rparr>)
                else ParseOutbound be ops creator (se\<lparr>sbuf := inputbuf\<rparr>))))"
  by pat_completeness auto
termination
  by (relation "measure (\<lambda>x. case x of Inl (be, ops, creator, se) \<Rightarrow> 2 * length (sbuf se)
                           | Inr (be, ops, creator, se) \<Rightarrow> 2 * length (sbuf se) + 1)")
    (auto dest!: r_NetProtoOutbound_length shrinks_NetRequest)

declare ParseOutbound.simps [simp del] ParseInbound.simps [simp del]

subsection \<open>The event loop of a connection\<close>

datatype session_next = Close | ReadExactly nat parsing_callback

datatype read_status = ReadOk | ReadEof | ReadError

definition OnReadComplete ::
    "bool \<Rightarrow> 's storage_ops \<Rightarrow> (addr \<Rightarrow> 's option) \<Rightarrow> parsing_callback \<Rightarrow> read_status \<Rightarrow> 's MemDBSession \<Rightarrow>
     session_error + session_next \<times> 's MemDBSession" where
  "OnReadComplete be ops creator callback e se =
     (if e \<noteq> ReadOk then Inr (Close, se)
      else case (case callback of ParseOutboundCb \<Rightarrow> ParseOutbound be ops creator se
                                | ParseInboundCb \<Rightarrow> ParseInbound be ops creator se) of
             Inl err \<Rightarrow> Inl err
           | Inr (parsing_info, se) \<Rightarrow>
               (if pi_size parsing_info = 0 then Inr (Close, se)
                else case pi_callback parsing_info of
                       None \<Rightarrow> Inr (Close, se)
                     | Some callback \<Rightarrow> Inr (ReadExactly (pi_size parsing_info) callback, se)))"

datatype session_end = EndOfFile | ClosedByServer

lemma OnReadComplete_size:
  "OnReadComplete be ops creator cb e se = Inr (ReadExactly n cb', se') \<Longrightarrow> 0 < n"
  by (auto simp: OnReadComplete_def split: if_splits sum.splits option.splits)

text \<open>\<open>n\<close> is the number of bytes the pending read asks for, \<open>stream\<close> what is still to come.\<close>

function session_serve ::
    "bool \<Rightarrow> 's storage_ops \<Rightarrow> (addr \<Rightarrow> 's option) \<Rightarrow> nat \<Rightarrow> parsing_callback \<Rightarrow> u8 list \<Rightarrow>
     's MemDBSession \<Rightarrow> session_error + session_end \<times> 's MemDBSession" where
  "session_serve be ops creator n cb stream se =
     (if length stream < n
      then (case OnReadComplete be ops creator cb ReadEof (se\<lparr>sbuf := sbuf se @ stream\<rparr>) of
              Inl err \<Rightarrow> Inl err
            | Inr (_, se) \<Rightarrow> Inr (EndOfFile, se))
      else (case OnReadComplete be ops creator cb ReadOk (se\<lparr>sbuf := sbuf se @ take n stream\<rparr>) of
              Inl err \<Rightarrow> Inl err
            | Inr (Close, se) \<Rightarrow> Inr (ClosedByServer, se)
            | Inr (ReadExactly n' cb', se) \<Rightarrow> session_serve be ops creator n' cb' (drop n stream) se))"
  by pat_completeness auto
termination
  by (relation "measure (\<lambda>(be, ops, creator, n, cb, stream, se). 2 * length stream + (if n = 0 then 1 else 0))")
    (auto dest!: OnReadComplete_size)

declare session_serve.simps [simp del]

text \<open>
  \<^verbatim>\<open>Start\<close>: the first read completes with some chunk of what there is, of at least eight
  bytes.
\<close>

definition Start ::
    "bool \<Rightarrow> 's storage_ops \<Rightarrow> (addr \<Rightarrow> 's option) \<Rightarrow> nat \<Rightarrow> u8 list \<Rightarrow> 's MemDBSession \<Rightarrow>
     session_error + session_end \<times> 's MemDBSession" where
  "Start be ops creator chunk stream se =
     session_serve be ops creator (max sizeof_NetProtoOutbound (min chunk (length stream))) ParseOutboundCb stream se"

subsection \<open>Reassembly\<close>

text \<open>
  The effect of requests on the storage alone: the storage afterwards and whether the
  session stopped at a request it does not know; \<open>None\<close> when a request is undefined.
\<close>

definition serve_request ::
    "'s storage_ops \<Rightarrow> (addr \<Rightarrow> 's option) \<Rightarrow> NetRequest \<Rightarrow> 's option \<Rightarrow> (bool \<times> 's option) option" where
  "serve_request ops creator r st =
     (case HandleNetRequest ops creator r \<lparr>sbuf = [], storage = st\<rparr> of
        Inl err \<Rightarrow> None
      | Inr (handled, se) \<Rightarrow> Some (handled, storage se))"

fun serve_requests ::
    "'s storage_ops \<Rightarrow> (addr \<Rightarrow> 's option) \<Rightarrow> NetRequest list \<Rightarrow> 's option \<Rightarrow> (session_end \<times> 's option) option" where
  "serve_requests ops creator [] st = Some (EndOfFile, st)"
| "serve_requests ops creator (r # rs) st =
     do { (handled, st) \<leftarrow> serve_request ops creator r st;
          if handled then serve_requests ops creator rs st else Some (ClosedByServer, st) }"

lemma HandleNetRequest_serve:
  assumes "serve_request ops creator r (storage se) = Some (handled, st)"
  shows "HandleNetRequest ops creator r se = Inr (handled, se\<lparr>storage := st\<rparr>)"
  using assms
  by (cases "storage se"; cases "creator (address (r_traceinfo r))")
    (auto simp: serve_request_def HandleNetRequest_def OnAdd_def OnRemove_def OnUpdateSize_def OnNewStorage_def
      split: if_splits)

lemma session_upd_commute: "se\<lparr>storage := st, sbuf := b\<rparr> = se\<lparr>sbuf := b, storage := st\<rparr>"
  by (cases se) simp

lemma ParseInbound_step:
  assumes "request_ok r" "serve_request ops creator r (storage se) = Some (True, st)" "sbuf se = enc_NetRequest r @ b"
  shows "ParseInbound be ops creator se = ParseOutbound be ops creator (se\<lparr>sbuf := b, storage := st\<rparr>)"
  using assms HandleNetRequest_serve [OF assms(2)]
  by (subst ParseInbound.simps) (simp add: ParseOutbound.simps session_upd_commute)

lemma ParseInbound_refused:
  assumes "request_ok r" "serve_request ops creator r (storage se) = Some (False, st)" "sbuf se = enc_NetRequest r @ b"
  shows "ParseInbound be ops creator se = Inr (\<lparr>pi_size = 0, pi_callback = None\<rparr>, se\<lparr>storage := st\<rparr>)"
  using assms HandleNetRequest_serve [OF assms(2)]
  by (subst ParseInbound.simps) simp

text \<open>A pending read: which bytes it needs, given what is buffered and what is to come.\<close>

fun awaits :: "parsing_callback \<Rightarrow> nat \<Rightarrow> u8 list \<Rightarrow> u8 list \<Rightarrow> NetRequest list \<Rightarrow> bool" where
  "awaits ParseOutboundCb n b t rs \<longleftrightarrow>
     b @ t = concat (map frame rs) \<and> n = sizeof_NetProtoOutbound - length b \<and> length b < sizeof_NetProtoOutbound"
| "awaits ParseInboundCb n b t [] \<longleftrightarrow> False"
| "awaits ParseInboundCb n b t (r # rs) \<longleftrightarrow>
     b @ t = enc_NetRequest r @ concat (map frame rs) \<and> n = length (enc_NetRequest r) - length b \<and>
     length b < length (enc_NetRequest r)"

lemma awaits_pos: "awaits cb n b t rs \<Longrightarrow> 0 < n"
  by (cases "(cb, n, b, t, rs)" rule: awaits.cases) auto

lemma awaits_short:
  assumes "awaits cb n b t rs" "length t < n"
  shows "rs = [] \<and> b @ t = []"
proof (cases cb)
  case ParseOutboundCb
  with assms have eq: "b @ t = concat (map frame rs)" and "length b + length t < 8"
    by (auto simp: sizeof_NetProtoOutbound_def)
  then have "length (concat (map frame rs)) < 8" by (metis length_append)
  with eq show ?thesis by (cases rs) (auto simp: frame_def)
next
  case ParseInboundCb
  with assms obtain r rs' where "b @ t = enc_NetRequest r @ concat (map frame rs')"
      "length b + length t < length (enc_NetRequest r)" by (cases rs) auto
  from this(2) arg_cong [OF this(1), of length] show ?thesis by simp
qed

lemma append_take_prefix: "b @ t = x @ y \<Longrightarrow> length x \<le> length b \<Longrightarrow> \<exists>b'. b = x @ b' \<and> b' @ t = y"
  by (metis append_eq_append_conv_if append_take_drop_id)

text \<open>
  The outcome of a parsing callback on buffered bytes: the next read with the requests
  still to come, or the end of the session.
\<close>

definition parse_outcome ::
    "'s storage_ops \<Rightarrow> (addr \<Rightarrow> 's option) \<Rightarrow> u8 list \<Rightarrow> session_end \<times> 's option \<Rightarrow>
     session_error + ParsingInfo \<times> 's MemDBSession \<Rightarrow> bool" where
  "parse_outcome ops creator t final res \<longleftrightarrow>
     (\<exists>rs n cb se. res = Inr (\<lparr>pi_size = n, pi_callback = Some cb\<rparr>, se) \<and> awaits cb n (sbuf se) t rs \<and>
        (\<forall>r\<in>set rs. request_ok r) \<and> serve_requests ops creator rs (storage se) = Some final) \<or>
     (\<exists>se. res = Inr (\<lparr>pi_size = 0, pi_callback = None\<rparr>, se) \<and> final = (ClosedByServer, storage se))"

lemma parse_outcome_next:
  "awaits cb n (sbuf se) t rs \<Longrightarrow> \<forall>r\<in>set rs. request_ok r \<Longrightarrow>
   serve_requests ops creator rs (storage se) = Some final \<Longrightarrow>
   parse_outcome ops creator t final (Inr (\<lparr>pi_size = n, pi_callback = Some cb\<rparr>, se))"
  unfolding parse_outcome_def by blast

lemma ParseInbound_frames:
  assumes "request_ok r" "sbuf se = enc_NetRequest r @ b"
    and "serve_requests ops creator (r # rs) (storage se) = Some final"
    and IH: "\<And>st. serve_requests ops creator rs st = Some final \<Longrightarrow>
      parse_outcome ops creator t final (ParseOutbound be ops creator (se\<lparr>sbuf := b, storage := st\<rparr>))"
  shows "parse_outcome ops creator t final (ParseInbound be ops creator se)"
proof -
  from assms(3) obtain handled st where st: "serve_request ops creator r (storage se) = Some (handled, st)"
      "(if handled then serve_requests ops creator rs st else Some (ClosedByServer, st)) = Some final"
    by (auto simp: bind_eq_Some_conv)
  show ?thesis
  proof (cases handled)
    case True
    with st IH ParseInbound_step [OF assms(1) _ assms(2)] show ?thesis by simp
  next
    case False
    with st ParseInbound_refused [OF assms(1) _ assms(2), of ops creator st be] show ?thesis
      by (auto simp: parse_outcome_def)
  qed
qed

lemma ParseOutbound_header:
  assumes "request_ok r" "sbuf se = be_bytes 8 (length (enc_NetRequest r)) @ b"
  shows "ParseOutbound be ops creator se =
      (if length b < length (enc_NetRequest r)
       then Inr (\<lparr>pi_size = length (enc_NetRequest r) - length b, pi_callback = Some ParseInboundCb\<rparr>, se\<lparr>sbuf := b\<rparr>)
       else ParseInbound be ops creator (se\<lparr>sbuf := b\<rparr>))"
proof -
  let ?n = "length (enc_NetRequest r)"
  have "unat (word_of_nat ?n :: u64) = ?n"
    using assms(1) by (simp add: request_ok_def unat_of_nat)
  then have out: "r_NetProtoOutbound be (sbuf se) = Some (\<lparr>o_size = word_of_nat ?n\<rparr>, b)"
    and sz: "unat (word_of_nat ?n :: usize) = ?n"
    using Read_NetProtoOutbound [of be "\<lparr>o_size = word_of_nat ?n\<rparr>" b] assms(2) by simp_all
  then show ?thesis
    using assms(2) by (subst ParseOutbound.simps) (simp add: sizeof_NetProtoOutbound_def)
qed

lemma ParseOutbound_frames:
  "\<forall>r\<in>set rs. request_ok r \<Longrightarrow> serve_requests ops creator rs (storage se) = Some final \<Longrightarrow>
   sbuf se @ t = concat (map frame rs) \<Longrightarrow>
   parse_outcome ops creator t final (ParseOutbound be ops creator se)"
proof (induction rs arbitrary: se)
  case Nil
  then show ?case
    by (subst ParseOutbound.simps) (auto simp: sizeof_NetProtoOutbound_def intro!: parse_outcome_next [of _ _ _ _ "[]"])
next
  case (Cons r rs)
  let ?enc = "enc_NetRequest r"
  have ok: "request_ok r" "\<forall>r\<in>set rs. request_ok r" using Cons.prems(1) by auto
  consider "length (sbuf se) < 8"
    | b where "sbuf se = be_bytes 8 (length ?enc) @ b" "b @ t = ?enc @ concat (map frame rs)"
  proof (cases "length (sbuf se) < 8")
    case False
    have "sbuf se @ t = be_bytes 8 (length ?enc) @ ?enc @ concat (map frame rs)"
      using Cons.prems(3) by (simp add: frame_def [of r])
    from append_take_prefix [OF this] False that(2) show thesis by auto
  qed (use that(1) in blast)
  then show ?case
  proof cases
    case 1
    with Cons.prems show ?thesis
      by (subst ParseOutbound.simps)
        (auto simp: sizeof_NetProtoOutbound_def intro!: parse_outcome_next [of _ _ _ _ "r # rs"])
  next
    case 2
    note step = ParseOutbound_header [OF ok(1) 2(1), of be ops creator]
    show ?thesis
    proof (cases "length b < length ?enc")
      case True
      with step 2(2) Cons.prems show ?thesis by (auto intro!: parse_outcome_next [of _ _ _ _ "r # rs"])
    next
      case False
      then obtain b' where b': "b = ?enc @ b'" "b' @ t = concat (map frame rs)"
        using append_take_prefix [OF 2(2)] by auto
      have "parse_outcome ops creator t final (ParseInbound be ops creator (se\<lparr>sbuf := b\<rparr>))"
        by (rule ParseInbound_frames [OF ok(1), of _ b'])
          (use b' ok(2) Cons.prems(2) in \<open>auto intro!: Cons.IH\<close>)
      with step False show ?thesis by simp
    qed
  qed
qed

lemma session_serve_frames:
  "awaits cb n (sbuf se) t rs \<Longrightarrow> \<forall>r\<in>set rs. request_ok r \<Longrightarrow>
   serve_requests ops creator rs (storage se) = Some final \<Longrightarrow>
   \<exists>se'. session_serve be ops creator n cb t se = Inr (fst final, se') \<and> storage se' = snd final \<and>
     (fst final = EndOfFile \<longrightarrow> sbuf se' = [])"
proof (induction "length t" arbitrary: cb n t rs se rule: less_induct)
  case less
  show ?case
  proof (cases "length t < n")
    case True
    with awaits_short [OF less.prems(1) True] less.prems(3) show ?thesis
      by (subst session_serve.simps) (auto simp: OnReadComplete_def)
  next
    case False
    let ?se = "se\<lparr>sbuf := sbuf se @ take n t\<rparr>"
    let ?res = "case cb of ParseOutboundCb \<Rightarrow> ParseOutbound be ops creator ?se
                         | ParseInboundCb \<Rightarrow> ParseInbound be ops creator ?se"
    have n: "0 < n" using less.prems(1) by (rule awaits_pos)
    have "parse_outcome ops creator (drop n t) final ?res"
    proof (cases cb)
      case ParseOutboundCb
      with ParseOutbound_frames [of rs ops creator ?se final "drop n t" be] less.prems show ?thesis by simp
    next
      case ParseInboundCb
      with less.prems(1) obtain r rs1 where rs: "rs = r # rs1" by (cases rs) auto
      with less.prems ParseInboundCb have r: "sbuf se @ t = enc_NetRequest r @ concat (map frame rs1)"
          "length (sbuf se) + n = length (enc_NetRequest r)" "request_ok r" by auto
      then have full: "sbuf ?se = enc_NetRequest r @ []" "[] @ drop n t = concat (map frame rs1)"
        using False by (auto simp: append_eq_append_conv_if take_append) (metis append_take_drop_id)
      have "parse_outcome ops creator (drop n t) final (ParseInbound be ops creator ?se)"
        by (rule ParseInbound_frames [OF r(3) full(1), of _ _ rs1])
          (use less.prems rs full(2) in \<open>auto intro!: ParseOutbound_frames [of rs1]\<close>)
      with ParseInboundCb show ?thesis by simp
    qed
    then consider rs' n' cb' se' where "?res = Inr (\<lparr>pi_size = n', pi_callback = Some cb'\<rparr>, se')"
        "awaits cb' n' (sbuf se') (drop n t) rs'" "\<forall>r\<in>set rs'. request_ok r"
        "serve_requests ops creator rs' (storage se') = Some final"
      | se' where "?res = Inr (\<lparr>pi_size = 0, pi_callback = None\<rparr>, se')" "final = (ClosedByServer, storage se')"
      unfolding parse_outcome_def by blast
    then show ?thesis
    proof cases
      case 1
      then have "OnReadComplete be ops creator cb ReadOk ?se = Inr (ReadExactly n' cb', se')"
        using awaits_pos [OF 1(2)] by (simp add: OnReadComplete_def)
      with less.hyps [of "drop n t" cb' n' se' rs'] 1 n False show ?thesis
        by (subst session_serve.simps) simp
    next
      case 2
      then have "OnReadComplete be ops creator cb ReadOk ?se = Inr (Close, se')"
        by (simp add: OnReadComplete_def)
      with 2 False show ?thesis by (subst session_serve.simps) simp
    qed
  qed
qed

lemma concat_frames_length: "rs \<noteq> [] \<Longrightarrow> 8 \<le> length (concat (map frame rs))"
  by (cases rs) (auto simp: frame_def)

lemma Start_frames:
  assumes "rs \<noteq> []" "\<forall>r\<in>set rs. request_ok r" "serve_requests ops creator rs None = Some final"
  shows "\<exists>se. Start be ops creator chunk (concat (map frame rs)) new_MemDBSession = Inr (fst final, se) \<and>
           storage se = snd final \<and> (fst final = EndOfFile \<longrightarrow> sbuf se = [])"
proof -
  let ?s = "concat (map frame rs)"
  let ?n = "max sizeof_NetProtoOutbound (min chunk (length ?s))"
  let ?se = "new_MemDBSession\<lparr>sbuf := take ?n ?s\<rparr>"
  have n: "\<not> length ?s < ?n" "0 < ?n"
    using concat_frames_length [OF assms(1)] by (auto simp: sizeof_NetProtoOutbound_def)
  have "parse_outcome ops creator (drop ?n ?s) final (ParseOutbound be ops creator ?se)"
    by (rule ParseOutbound_frames [of rs]) (use assms(2,3) in \<open>auto simp: new_MemDBSession_def\<close>)
  then consider rs' n' cb' se' where
      "ParseOutbound be ops creator ?se = Inr (\<lparr>pi_size = n', pi_callback = Some cb'\<rparr>, se')"
      "awaits cb' n' (sbuf se') (drop ?n ?s) rs'" "\<forall>r\<in>set rs'. request_ok r"
      "serve_requests ops creator rs' (storage se') = Some final"
    | se' where "ParseOutbound be ops creator ?se = Inr (\<lparr>pi_size = 0, pi_callback = None\<rparr>, se')"
      "final = (ClosedByServer, storage se')"
    unfolding parse_outcome_def by blast
  then show ?thesis
  proof cases
    case 1
    then have "OnReadComplete be ops creator ParseOutboundCb ReadOk ?se = Inr (ReadExactly n' cb', se')"
      using awaits_pos [OF 1(2)] by (simp add: OnReadComplete_def)
    with session_serve_frames [OF 1(2-4), of be] n show ?thesis
      unfolding Start_def by (subst session_serve.simps) (simp add: new_MemDBSession_def)
  next
    case 2
    then have "OnReadComplete be ops creator ParseOutboundCb ReadOk ?se = Inr (Close, se')"
      by (simp add: OnReadComplete_def)
    with 2 n show ?thesis
      unfolding Start_def by (subst session_serve.simps) (simp add: new_MemDBSession_def)
  qed
qed

text \<open>
  C21. The server reassembles the requests whatever the chunks in which the bytes arrive:
  for every sequence of framed requests and every size of the first chunk, the session
  applies the requests to the storage one by one, in order, and stops at the end of the
  stream or at the first request it does not know.
\<close>

theorem memdb_session_reassembles:
  assumes "rs \<noteq> []" and "\<forall>r\<in>set rs. request_ok r"
    and "serve_requests ops creator rs None = Some (how, st)"
  shows "\<exists>se. Start be ops creator chunk (concat (map frame rs)) new_MemDBSession = Inr (how, se) \<and>
           storage se = st \<and> (how = EndOfFile \<longrightarrow> sbuf se = [])"
  using Start_frames [OF assms(1,2,3)] by simp

definition demo_creator :: "addr \<Rightarrow> BasicMappedStorage option" where
  "demo_creator pid = Some (new_BasicMappedStorage (''memdb.'' @ nat_to_string (unat pid)) 65536)"

definition demo_requests :: "NetRequest list" where
  "demo_requests = [new_NetRequest kNetReqNewStorage 77 0 5 [], new_NetRequest kNetReqAdd 4096 16 7 [],
     new_NetRequest kNetReqUpdateSize 4096 24 0 [], new_NetRequest kNetReqAdd 8192 32 9 [],
     new_NetRequest kNetReqRemove 4096 0 0 []]"

lemma request_ok_short: "int64_ok t \<Longrightarrow> request_ok (new_NetRequest ty a n t [])"
  by (simp add: request_ok_def new_NetRequest_def callstack_ok_def enc_NetRequest_def w_NetRequest_def
      w_enum_def w_TraceInfoBase_def w_time_point_def w_CallStackInfo_def CallSeq_def)

lemmas serve_defs = serve_request_def HandleNetRequest_def OnAdd_def OnRemove_def OnUpdateSize_def OnNewStorage_def
  new_NetRequest_def net_req_types

lemma demo_requests_ok: "demo_requests \<noteq> []" "\<forall>r\<in>set demo_requests. request_ok r"
  by (auto simp: demo_requests_def int64_ok_def intro!: request_ok_short)

lemma demo_serve:
  "serve_requests bms_ops demo_creator demo_requests None =
     Some (EndOfFile, Some (run_ops bms_ops [OpAdd 4096 16 [] 7, OpUpdateSize 4096 24, OpAdd 8192 32 [] 9, OpRemove 4096]
       (new_BasicMappedStorage (''memdb.'' @ nat_to_string 77) 65536)))"
  by (simp add: demo_requests_def serve_defs demo_creator_def run_ops_def)

theorem memdb_session_reassembles_witness:
  "\<exists>se. Start True bms_ops demo_creator 13 (concat (map frame demo_requests)) new_MemDBSession = Inr (EndOfFile, se) \<and>
     storage se = Some (run_ops bms_ops [OpAdd 4096 16 [] 7, OpUpdateSize 4096 24, OpAdd 8192 32 [] 9, OpRemove 4096]
       (new_BasicMappedStorage (''memdb.'' @ nat_to_string 77) 65536))"
  using memdb_session_reassembles [OF demo_requests_ok demo_serve, of True 13] by auto

subsection \<open>Client and server\<close>

lemma serve_ops:
  assumes "OpClear \<notin> set xs"
  shows "serve_requests ops creator (concat (map op_requests xs)) (Some s) =
           Some (EndOfFile, Some (run_ops ops (removeAll OpFlush xs) s))"
  using assms
proof (induction xs arbitrary: s)
  case (Cons x xs)
  then show ?case by (cases x) (simp_all add: run_ops_def serve_defs)
qed (simp add: run_ops_def)

lemma serve_requests_append:
  "serve_requests ops creator rs st = Some (EndOfFile, st') \<Longrightarrow>
   serve_requests ops creator (rs @ rs') st = serve_requests ops creator rs' st'"
  by (induction rs arbitrary: st) (auto simp: bind_eq_Some_conv split: if_splits)

lemma serve_client:
  assumes "creator (ucast pid) = Some s" "OpClear \<notin> set xs"
  shows "serve_requests ops creator
           (new_NetRequest kNetReqNewStorage (ucast pid) 0 now [] # concat (map op_requests xs)) None =
         Some (EndOfFile, Some (run_ops ops (removeAll OpFlush xs) s))"
  using assms serve_ops [OF assms(2)] by (simp add: serve_defs)

lemma client_wire:
  assumes "new_NetworkMappedStorage be True host port pid now = Some c" "int64_ok now" "ops_ok xs"
  shows "wire (run_ops (net_ops be) xs c) =
           concat (map frame (new_NetRequest kNetReqNewStorage (ucast pid) 0 now [] # concat (map op_requests xs)))"
  using new_NetworkMappedStorage_wire [OF assms(1,2)] run_ops_wire [OF assms(3)] by simp

text \<open>
  C5. Storing over the network is storing at the server: when a process opens a network
  storage and performs a sequence of operations Add, Remove, UpdateSize and Flush, the session at the other end, on a host
  of any byte order and with the bytes arriving in any first chunk, holds the storage
  that the same operations give when they are done there directly (Flush is local to
  the client). Every request fits the wire format. Clear is not among the operations: the server
  has no handler for its request and closes the session (\<open>network_clear_ends_session\<close>).
\<close>

theorem network_storage_refines:
  assumes "new_NetworkMappedStorage be True host port pid now = Some c" and "int64_ok now" and "ops_ok xs"
    and "creator (ucast pid) = Some s" and "OpClear \<notin> set xs"
  shows "\<exists>se. Start be' ops creator chunk (wire (run_ops (net_ops be) xs c)) new_MemDBSession = Inr (EndOfFile, se) \<and>
           storage se = Some (run_ops ops (removeAll OpFlush xs) s) \<and> sbuf se = []"
proof -
  let ?rs = "new_NetRequest kNetReqNewStorage (ucast pid) 0 now [] # concat (map op_requests xs)"
  have "\<forall>r\<in>set ?rs. request_ok r"
    using assms(2,3) by (auto simp: ops_ok_def request_ok_short)
  from Start_frames [OF _ this serve_client [of creator pid s xs ops now, OF assms(4,5)], of be' chunk] client_wire [OF assms(1-3)]
  show ?thesis by simp
qed

definition demo_net_ops :: "storage_op list" where
  "demo_net_ops = [OpAdd 4096 16 [] 7, OpFlush, OpUpdateSize 4096 24, OpAdd 8192 32 [] 9, OpRemove 4096, OpFlush]"

lemma demo_net_ops_ok: "ops_ok demo_net_ops" "OpClear \<notin> set demo_net_ops"
  by (auto simp: demo_net_ops_def ops_ok_def int64_ok_def intro!: request_ok_short)

theorem network_storage_refines_witness:
  "\<exists>c se. new_NetworkMappedStorage False True ''localhost'' 20015 77 5 = Some c \<and>
     Start True bms_ops demo_creator 13 (wire (run_ops (net_ops False) demo_net_ops c)) new_MemDBSession =
       Inr (EndOfFile, se) \<and>
     storage se = Some (run_ops bms_ops [OpAdd 4096 16 [] 7, OpUpdateSize 4096 24, OpAdd 8192 32 [] 9, OpRemove 4096]
       (new_BasicMappedStorage (''memdb.'' @ nat_to_string 77) 65536))"
proof -
  obtain c where c: "new_NetworkMappedStorage False True ''localhost'' 20015 77 5 = Some c"
    by (simp add: new_NetworkMappedStorage_def)
  have "demo_creator (ucast (77 :: u32)) = Some (new_BasicMappedStorage (''memdb.'' @ nat_to_string 77) 65536)"
    by (simp add: demo_creator_def)
  with network_storage_refines [of False "''localhost''" 20015 77 5 c demo_net_ops demo_creator _ True bms_ops 13]
    c demo_net_ops_ok
  have "\<exists>se. Start True bms_ops demo_creator 13 (wire (run_ops (net_ops False) demo_net_ops c)) new_MemDBSession =
      Inr (EndOfFile, se) \<and> storage se = Some (run_ops bms_ops (removeAll OpFlush demo_net_ops)
       (new_BasicMappedStorage (''memdb.'' @ nat_to_string 77) 65536))"
    by (auto simp: int64_ok_def)
  moreover have "removeAll OpFlush demo_net_ops =
      [OpAdd 4096 16 [] 7, OpUpdateSize 4096 24, OpAdd 8192 32 [] 9, OpRemove 4096]"
    by (simp add: demo_net_ops_def)
  ultimately show ?thesis using c by auto
qed

text \<open>
  The server does not know the clear request: a client that clears its network storage
  makes the session end there. The storage at the server keeps the records that were to
  be cleared, and nothing the client does afterwards arrives.
\<close>

theorem network_clear_ends_session:
  assumes "new_NetworkMappedStorage be True host port pid now = Some c" and "int64_ok now"
    and "ops_ok (xs @ [OpClear] @ ys)" and "creator (ucast pid) = Some s" and "OpClear \<notin> set xs"
  shows "\<exists>se. Start be' ops creator chunk (wire (run_ops (net_ops be) (xs @ [OpClear] @ ys) c)) new_MemDBSession =
           Inr (ClosedByServer, se) \<and> storage se = Some (run_ops ops (removeAll OpFlush xs) s)"
proof -
  let ?new = "new_NetRequest kNetReqNewStorage (ucast pid) 0 now []"
  let ?rs = "?new # concat (map op_requests (xs @ [OpClear] @ ys))"
  have ok: "\<forall>r\<in>set ?rs. request_ok r"
    using assms(2,3) by (auto simp: ops_ok_def request_ok_short)
  have "serve_requests ops creator ?rs None =
      Some (ClosedByServer, Some (run_ops ops (removeAll OpFlush xs) s))"
    using serve_requests_append [OF serve_client [of creator pid s xs ops now, OF assms(4,5)], where rs' = "concat (map op_requests ([OpClear] @ ys))"]
    by (simp add: serve_defs)
  from Start_frames [OF _ ok this, of be' chunk] client_wire [OF assms(1-3)]
  show ?thesis by simp
qed

theorem network_clear_ends_session_witness:
  "\<exists>c se. new_NetworkMappedStorage False True ''localhost'' 20015 77 5 = Some c \<and>
     Start False bms_ops demo_creator 8
         (wire (run_ops (net_ops False) ([OpAdd 4096 16 [] 7] @ [OpClear] @ [OpAdd 8192 32 [] 9]) c)) new_MemDBSession =
       Inr (ClosedByServer, se) \<and>
     storage se = Some (run_ops bms_ops [OpAdd 4096 16 [] 7]
       (new_BasicMappedStorage (''memdb.'' @ nat_to_string 77) 65536))"
proof -
  obtain c where c: "new_NetworkMappedStorage False True ''localhost'' 20015 77 5 = Some c"
    by (simp add: new_NetworkMappedStorage_def)
  have s: "demo_creator (ucast (77 :: u32)) = Some (new_BasicMappedStorage (''memdb.'' @ nat_to_string 77) 65536)"
    by (simp add: demo_creator_def)
  have "ops_ok ([OpAdd 4096 16 [] 7] @ [OpClear] @ [OpAdd 8192 32 [] 9])"
    by (auto simp: ops_ok_def int64_ok_def intro!: request_ok_short)
  with network_clear_ends_session [of False "''localhost''" 20015 77 5 c "[OpAdd 4096 16 [] 7]" "[OpAdd 8192 32 [] 9]"
      demo_creator _ False bms_ops 8] c s
  show ?thesis by (auto simp: int64_ok_def)
qed

lemma ParseInbound_null:
  assumes "request_ok r" "r_type r \<in> {kNetReqAdd, kNetReqRemove, kNetReqUpdateSize}"
    "sbuf se = enc_NetRequest r @ b" "storage se = None"
  shows "ParseInbound be ops creator se = Inl NullStorage"
  using assms by (subst ParseInbound.simps)
    (auto simp: HandleNetRequest_def OnAdd_def OnRemove_def OnUpdateSize_def net_req_types)

text \<open>
  A session in which the client skips the request for a new storage is undefined: the
  first operation dereferences the null storage, whatever the chunks and whatever follows.
\<close>

theorem memdb_request_before_storage_undefined:
  assumes "request_ok r" and "r_type r \<in> {kNetReqAdd, kNetReqRemove, kNetReqUpdateSize}"
  shows "Start be ops creator chunk (frame r @ rest) new_MemDBSession = Inl NullStorage"
proof -
  let ?s = "frame r @ rest" and ?enc = "enc_NetRequest r"
  define n where "n = max sizeof_NetProtoOutbound (min chunk (length ?s))"
  have n: "8 \<le> n" "n \<le> length ?s" by (auto simp: n_def sizeof_NetProtoOutbound_def frame_def)
  define b where "b = take (n - 8) (?enc @ rest)"
  let ?se = "new_MemDBSession\<lparr>sbuf := take n ?s\<rparr>"
  have b: "sbuf ?se = be_bytes 8 (length ?enc) @ b" using n(1) by (simp add: b_def frame_def)
  have d: "drop n ?s = drop (n - 8) (?enc @ rest)" using n(1) by (simp add: frame_def)
  have "session_serve be ops creator n ParseOutboundCb ?s new_MemDBSession = Inl NullStorage"
  proof (cases "length b < length ?enc")
    case True
    then have len: "n - 8 < length ?enc" using n by (auto simp: b_def frame_def)
    let ?k = "length ?enc - length b"
    have "OnReadComplete be ops creator ParseOutboundCb ReadOk ?se =
        Inr (ReadExactly ?k ParseInboundCb, ?se\<lparr>sbuf := b\<rparr>)"
      using ParseOutbound_header [OF assms(1) b, of be ops creator] True by (simp add: OnReadComplete_def)
    moreover have "session_serve be ops creator ?k ParseInboundCb (drop n ?s) (?se\<lparr>sbuf := b\<rparr>) = Inl NullStorage"
    proof -
      have "length b = n - 8" using len by (simp add: b_def)
      then have "b @ take ?k (drop n ?s) = take (n - 8 + ?k) (?enc @ rest)"
        unfolding b_def d by (simp only: take_add)
      also have "\<dots> = ?enc" using len \<open>length b = n - 8\<close> by simp
      finally have "b @ take ?k (drop n ?s) = ?enc" .
      then have "ParseInbound be ops creator (?se\<lparr>sbuf := b @ take ?k (drop n ?s)\<rparr>) = Inl NullStorage"
        by (intro ParseInbound_null [OF assms, of _ "[]"]) (simp_all add: new_MemDBSession_def)
      moreover have "\<not> length (drop n ?s) < ?k"
        using \<open>length b = n - 8\<close> len by (simp only: d length_drop length_append)
      ultimately show ?thesis
        by (subst session_serve.simps) (simp add: OnReadComplete_def)
    qed
    ultimately show ?thesis
      using n by (subst session_serve.simps) (simp add: new_MemDBSession_def)
  next
    case False
    then have "ParseInbound be ops creator (?se\<lparr>sbuf := b\<rparr>) = Inl NullStorage"
      by (intro ParseInbound_null [OF assms, of _ "take (n - 8 - length ?enc) rest"])
        (auto simp: b_def new_MemDBSession_def)
    then have "OnReadComplete be ops creator ParseOutboundCb ReadOk ?se = Inl NullStorage"
      using ParseOutbound_header [OF assms(1) b, of be ops creator] False by (simp add: OnReadComplete_def)
    then show ?thesis
      using n by (subst session_serve.simps) (simp add: new_MemDBSession_def)
  qed
  then show ?thesis by (simp add: Start_def n_def)
qed

theorem memdb_request_before_storage_undefined_witness:
  "request_ok (new_NetRequest kNetReqRemove 4096 0 0 []) \<and>
   Start False bms_ops demo_creator 20 (frame (new_NetRequest kNetReqRemove 4096 0 0 []) @ [1, 2, 3]) new_MemDBSession =
     Inl NullStorage"
proof -
  have ok: "request_ok (new_NetRequest kNetReqRemove 4096 0 0 [])"
    by (rule request_ok_short) (simp add: int64_ok_def)
  show ?thesis using memdb_request_before_storage_undefined [OF ok] ok by (simp add: new_NetRequest_def)
qed

end
