(* ===== verification/Storage_Creator.thy ===== *)
theory Storage_Creator
  imports Mapped_Storage Network_Storage
begin

text \<open>
  The factories of storages that \<^verbatim>\<open>memdb\<close> uses: \<^verbatim>\<open>basic_mapped_storage_creator.h\<close>,
  \<^verbatim>\<open>file_based_mapped_storage_helpers.cpp\<close> and the network creator. The file system
  and Boost's path functions are parameters: whether a path exists, the path without
  its extension, and the extension. The search for an unused path is a loop that may run
  forever, so it is a \<open>partial_function\<close>; it is shown to end.
\<close>

record fs_env =
  fs_exists :: "string \<Rightarrow> bool"
  fs_parent_stem :: "string \<Rightarrow> string"
  fs_extension :: "string \<Rightarrow> string"

partial_function (option) unique_path_loop ::
    "(string \<Rightarrow> bool) \<Rightarrow> string \<Rightarrow> string \<Rightarrow> string \<Rightarrow> usize \<Rightarrow> string option" where
  "unique_path_loop ex base ext num i =
     (let unique_path = base @ num @ ext
      in if \<not> ex unique_path then Some unique_path
         else unique_path_loop ex base ext (''.'' @ nat_to_string (unat i)) (i + 1))"

definition GenerateUniquePath :: "fs_env \<Rightarrow> u32 \<Rightarrow> string \<Rightarrow> addr \<Rightarrow> string option" where
  "GenerateUniquePath fs getpid original_path guide =
     (if \<not> fs_exists fs original_path then Some original_path
      else (let extension = fs_extension fs original_path;
                pid_extension = ''.'' @ nat_to_string (unat (if guide \<noteq> 0 then guide else ucast getpid));
                unique_path_base = fs_parent_stem fs original_path @ pid_extension
            in unique_path_loop (fs_exists fs) unique_path_base extension '''' 0))"

record BasicMappedStorageCreator =
  bc_path :: string
  bc_size :: usize

definition bc_New ::
    "fs_env \<Rightarrow> u32 \<Rightarrow> addr \<Rightarrow> BasicMappedStorageCreator \<Rightarrow> BasicMappedStorage option" where
  "bc_New fs getpid guide c =
     map_option (\<lambda>path. new_BasicMappedStorage path (bc_size c)) (GenerateUniquePath fs getpid (bc_path c) guide)"

record NetworkMappedStorageCreator =
  nc_host :: string
  nc_port :: int

definition nc_New ::
    "bool \<Rightarrow> bool \<Rightarrow> u32 \<Rightarrow> time \<Rightarrow> addr \<Rightarrow> NetworkMappedStorageCreator \<Rightarrow> NetworkMappedStorage option" where
  "nc_New be connected pid now guide c = new_NetworkMappedStorage be connected (nc_host c) (nc_port c) pid now"

subsection \<open>The search ends with an unused path\<close>

definition num_extension :: "nat \<Rightarrow> string" where
  "num_extension k = (case k of 0 \<Rightarrow> '''' | Suc j \<Rightarrow> ''.'' @ nat_to_string j)"

definition candidate :: "string \<Rightarrow> string \<Rightarrow> nat \<Rightarrow> string" where
  "candidate base ext k = base @ num_extension k @ ext"

lemma candidate_inj: "inj (candidate base ext)"
  by (auto simp: inj_def candidate_def num_extension_def split: nat.splits dest: nat_to_string_inj)

lemma loop_first_free:
  "\<not> ex (candidate base ext (k + d)) \<Longrightarrow> (\<And>i. i < d \<Longrightarrow> ex (candidate base ext (k + i))) \<Longrightarrow> k + d \<le> 2 ^ 64 \<Longrightarrow>
   unique_path_loop ex base ext (num_extension k) (word_of_nat k) = Some (candidate base ext (k + d))"
proof (induction d arbitrary: k)
  case 0
  then show ?case by (subst unique_path_loop.simps) (simp add: candidate_def)
next
  case (Suc d)
  have "ex (base @ num_extension k @ ext)" using Suc.prems(2) [of 0] by (simp add: candidate_def)
  moreover have "unat (word_of_nat k :: usize) = k" using Suc.prems(3) by (simp add: unat_of_nat)
  then have "''.'' @ nat_to_string (unat (word_of_nat k :: usize)) = num_extension (Suc k)"
    by (simp only: num_extension_def nat.case)
  ultimately have "unique_path_loop ex base ext (num_extension k) (word_of_nat k) =
      unique_path_loop ex base ext (num_extension (Suc k)) (word_of_nat (Suc k))"
    by (subst unique_path_loop.simps) (simp add: Let_def add.commute)
  also have "\<dots> = Some (candidate base ext (Suc k + d))"
    by (rule Suc.IH) (use Suc.prems(1,3) Suc.prems(2) [of "Suc _"] in auto)
  finally show ?case by simp
qed

lemma some_candidate_free:
  assumes "finite {p. ex p}" "card {p. ex p} < 2 ^ 64"
  shows "\<exists>k \<le> 2 ^ 64. \<not> ex (candidate base ext k) \<and> (\<forall>i<k. ex (candidate base ext i))"
proof -
  let ?P = "\<lambda>k. \<not> ex (candidate base ext k)"
  have "\<exists>k \<le> card {p. ex p}. ?P k"
  proof (rule ccontr)
    assume "\<not> ?thesis"
    then have "candidate base ext ` {..card {p. ex p}} \<subseteq> {p. ex p}" by auto
    then have "card (candidate base ext ` {..card {p. ex p}}) \<le> card {p. ex p}"
      by (rule card_mono [OF assms(1)])
    moreover have "card (candidate base ext ` {..card {p. ex p}}) = Suc (card {p. ex p})"
      by (subst card_image) (simp_all add: inj_on_subset [OF candidate_inj])
    ultimately show False by simp
  qed
  then obtain k where "k \<le> card {p. ex p}" "?P k" by blast
  then have "(LEAST k. ?P k) \<le> 2 ^ 64" "?P (LEAST k. ?P k)"
    using assms(2) Least_le [of ?P k] LeastI [of ?P k] by auto
  then show ?thesis using not_less_Least [of _ ?P] by blast
qed

lemma GenerateUniquePath_fresh:
  assumes "finite {p. fs_exists fs p}" and "card {p. fs_exists fs p} < 2 ^ 64"
  shows "\<exists>path. GenerateUniquePath fs getpid original_path guide = Some path \<and> \<not> fs_exists fs path"
proof -
  have "\<exists>path. unique_path_loop (fs_exists fs) base ext '''' 0 = Some path \<and> \<not> fs_exists fs path" for base ext
  proof -
    obtain k where k: "k \<le> 2 ^ 64" "\<not> fs_exists fs (candidate base ext k)"
        "\<forall>i<k. fs_exists fs (candidate base ext i)"
      using some_candidate_free [OF assms] by blast
    have "unique_path_loop (fs_exists fs) base ext (num_extension 0) (word_of_nat 0) = Some (candidate base ext (0 + k))"
      by (rule loop_first_free) (use k in auto)
    with k(2) show ?thesis by (simp add: num_extension_def)
  qed
  then show ?thesis
    unfolding GenerateUniquePath_def Let_def by (cases "fs_exists fs original_path") simp_all
qed

text \<open>
  A new storage never reuses a file: the search for a path returns (as long as fewer
  than \<open>2 ^ 64\<close> paths exist), and the path it returns does not exist. The storage that
  the creator opens has that name and is empty.
\<close>

theorem creator_uses_fresh_path:
  assumes "finite {p. fs_exists fs p}" and "card {p. fs_exists fs p} < 2 ^ 64"
  shows "\<exists>path. GenerateUniquePath fs getpid original_path guide = Some path \<and> \<not> fs_exists fs path \<and>
           bc_New fs getpid guide \<lparr>bc_path = original_path, bc_size = n\<rparr> = Some (new_BasicMappedStorage path n)"
  using GenerateUniquePath_fresh [OF assms, of getpid original_path guide] by (auto simp: bc_New_def)

definition demo_fs :: fs_env where
  "demo_fs = \<lparr>fs_exists = (\<lambda>p. p = ''/tmp/db.shm'' \<or> p = ''/tmp/db.77.shm''),
     fs_parent_stem = (\<lambda>p. ''/tmp/db''), fs_extension = (\<lambda>p. ''.shm'')\<rparr>"

theorem creator_uses_fresh_path_witness:
  "finite {p. fs_exists demo_fs p} \<and> card {p. fs_exists demo_fs p} < 2 ^ 64 \<and>
   (\<exists>path. GenerateUniquePath demo_fs 5 ''/tmp/db.shm'' 77 = Some path \<and> \<not> fs_exists demo_fs path)"
proof -
  have eq: "{p. fs_exists demo_fs p} = {''/tmp/db.shm'', ''/tmp/db.77.shm''}"
    by (auto simp: demo_fs_def)
  then have "finite {p. fs_exists demo_fs p}" "card {p. fs_exists demo_fs p} < 2 ^ 64" by simp_all
  with creator_uses_fresh_path [OF this, of 5 "''/tmp/db.shm''" 77] show ?thesis by blast
qed

end
