(* ===== verification/Callstack_Unwinder.thy ===== *)
theory Callstack_Unwinder
  imports Traceinfo Environment
begin

text \<open>
  Call stacks and the cache of resolved frames, \<^verbatim>\<open>src/memhook/callstack_unwinder.cpp\<close>.

  libunwind and \<^verbatim>\<open>dladdr\<close> are parameters: the register pairs (ip, sp) that successive
  calls of \<^verbatim>\<open>unw_step\<close> yield are a list, name lookup and \<^verbatim>\<open>dladdr\<close> are functions of the
  instruction pointer (record \<open>unw_env\<close>). \<^verbatim>\<open>UnwProcNameInfoMap\<close>, unique on the ip and
  sequenced, is the list of its elements from least to most recently used. \<open>None\<close> is
  undefined behaviour: erasing the first element of an empty container, or using the
  unwinder before \<^verbatim>\<open>Initialize\<close>. The functions run under the unwinder's mutex and are
  modelled one call at a time.

  Results: the cache is transparent (a hit returns what the resolution would), never
  holds more than its maximum, and every operation is defined when the maximum is not 0.
\<close>

record unw_env =
  unw_get_proc_name :: "addr \<Rightarrow> (string \<times> addr) option"
  unw_accessor_get_proc_name :: "(addr \<Rightarrow> (string \<times> addr) option) option"
  dladdr :: "addr \<Rightarrow> (addr \<times> string option) option"

record UnwProcNameInfo =
  pn_procname :: string
  pn_ip :: addr
  pn_offp :: addr
  pn_shl_addr :: addr

record Unwinder =
  m_cache_max_size :: usize
  m_procname_info_map :: "UnwProcNameInfo list"
  m_shl_path_map :: "addr \<rightharpoonup> string"

text \<open>The four output parameters: shl_path, shl_addr, procname, offp.\<close>

type_synonym proc_info = "string \<times> addr \<times> string \<times> addr"

definition unknown_tag :: string where
  "unknown_tag = ''<unknown>''"

definition GetUnwProcNameByIP :: "unw_env \<Rightarrow> addr \<Rightarrow> (string \<times> addr) option" where
  "GetUnwProcNameByIP env i =
     (case unw_accessor_get_proc_name env of Some f \<Rightarrow> f i | None \<Rightarrow> None)"

definition new_Unwinder :: "environ \<Rightarrow> Unwinder" where
  "new_Unwinder e =
     \<lparr>m_cache_max_size =
        (case getenv e ''MEMHOOK_CALLSTACK_UNWINDER_CACHE_SIZE'' of None \<Rightarrow> 32768 | Some s \<Rightarrow> strtoul s),
      m_procname_info_map = [], m_shl_path_map = Map.empty\<rparr>"

definition cache_hit :: "UnwProcNameInfo \<Rightarrow> Unwinder \<Rightarrow> proc_info \<times> Unwinder" where
  "cache_hit x u =
     ((case m_shl_path_map u (pn_shl_addr x) of Some path \<Rightarrow> path | None \<Rightarrow> unknown_tag,
       pn_shl_addr x, pn_procname x, pn_offp x),
      u\<lparr>m_procname_info_map := filter (\<lambda>y. pn_ip y \<noteq> pn_ip x) (m_procname_info_map u) @ [x]\<rparr>)"

definition cache_evict :: "Unwinder \<Rightarrow> Unwinder option" where
  "cache_evict u =
     (if unat (m_cache_max_size u) \<le> length (m_procname_info_map u)
      then (case m_procname_info_map u of
              [] \<Rightarrow> None
            | _ # l \<Rightarrow> Some (u\<lparr>m_procname_info_map := l\<rparr>))
      else Some u)"

definition cache_insert :: "UnwProcNameInfo \<Rightarrow> Unwinder \<Rightarrow> Unwinder" where
  "cache_insert x u =
     (if pn_ip x \<in> pn_ip ` set (m_procname_info_map u) then u
      else u\<lparr>m_procname_info_map := m_procname_info_map u @ [x]\<rparr>)"

definition cache_miss ::
    "(string \<times> addr) option \<Rightarrow> (addr \<times> string option) option \<Rightarrow> addr \<Rightarrow> Unwinder \<Rightarrow>
     (proc_info \<times> Unwinder) option" where
  "cache_miss name dl i u =
     (let pni = (case name of
                   Some (n, off) \<Rightarrow> \<lparr>pn_procname = n, pn_ip = i, pn_offp = off, pn_shl_addr = 0\<rparr>
                 | None \<Rightarrow> \<lparr>pn_procname = unknown_tag, pn_ip = i, pn_offp = 0, pn_shl_addr = 0\<rparr>);
          (pni, path, u) = (case dl of
              Some (fbase, fname) \<Rightarrow>
                (let path = (case fname of None \<Rightarrow> unknown_tag | Some f \<Rightarrow> f);
                     tab = m_shl_path_map u
                 in (pni\<lparr>pn_shl_addr := fbase\<rparr>, path,
                     if tab fbase = None then u\<lparr>m_shl_path_map := tab(fbase \<mapsto> path)\<rparr> else u))
            | None \<Rightarrow> (pni, unknown_tag, u))
      in do { u \<leftarrow> cache_evict u;
              Some ((path, pn_shl_addr pni, pn_procname pni, pn_offp pni), cache_insert pni u) })"

definition GetUnwProcInfo :: "unw_env \<Rightarrow> addr \<Rightarrow> Unwinder \<Rightarrow> (proc_info \<times> Unwinder) option" where
  "GetUnwProcInfo env i u =
     (case List.find (\<lambda>x. pn_ip x = i) (m_procname_info_map u) of
        Some x \<Rightarrow> Some (cache_hit x u)
      | None \<Rightarrow> cache_miss (unw_get_proc_name env i) (dladdr env i) i u)"

definition GetUnwProcInfoByIP :: "unw_env \<Rightarrow> addr \<Rightarrow> Unwinder \<Rightarrow> (proc_info \<times> Unwinder) option" where
  "GetUnwProcInfoByIP env i u =
     (case List.find (\<lambda>x. pn_ip x = i) (m_procname_info_map u) of
        Some x \<Rightarrow> Some (cache_hit x u)
      | None \<Rightarrow> cache_miss (GetUnwProcNameByIP env i) (dladdr env i) i u)"

definition FlushUnwCache :: "Unwinder \<Rightarrow> Unwinder" where
  "FlushUnwCache u = u\<lparr>m_procname_info_map := [], m_shl_path_map := Map.empty\<rparr>"

text \<open>
  Making and destroying the unwinder: the caching policy that libunwind is given comes from the
  first letter of a variable of the environment, and a refusal of it is a line of the log only.
  The implementation is created anew, and a use of one that does not exist is undefined.
\<close>

datatype unw_caching_policy_t = UNW_CACHE_NONE | UNW_CACHE_GLOBAL | UNW_CACHE_PER_THREAD

definition caching_policy :: "environ \<Rightarrow> unw_caching_policy_t" where
  "caching_policy env =
     (case getenv env ''MEMHOOK_LIBUNWIND_CACHING_POLICY'' of
        None \<Rightarrow> UNW_CACHE_NONE
      | Some option \<Rightarrow>
          (case option of
             [] \<Rightarrow> UNW_CACHE_NONE
           | c # _ \<Rightarrow> if c = CHR ''t'' then UNW_CACHE_PER_THREAD
                      else if c = CHR ''g'' then UNW_CACHE_GLOBAL else UNW_CACHE_NONE))"

text \<open>\<open>set_policy\<close> is what libunwind returns; the first result says whether the check passed.\<close>

definition unw_Initialize ::
    "environ \<Rightarrow> (unw_caching_policy_t \<Rightarrow> int) \<Rightarrow> Unwinder option \<Rightarrow> bool \<times> Unwinder option" where
  "unw_Initialize env set_policy m_impl = (set_policy (caching_policy env) = 0, Some (new_Unwinder env))"

definition unw_Destroy :: "Unwinder option \<Rightarrow> Unwinder option" where
  "unw_Destroy m_impl = None"

definition unw_FlushCallStackCache :: "Unwinder option \<Rightarrow> Unwinder option option" where
  "unw_FlushCallStackCache m_impl = (case m_impl of None \<Rightarrow> None | Some u \<Rightarrow> Some (Some (FlushUnwCache u)))"

subsection \<open>Unwinding\<close>

definition set_proc_info :: "proc_info \<Rightarrow> CallStackInfoItem \<Rightarrow> CallStackInfoItem" where
  "set_proc_info p item =
     (case p of (path, sa, name, off) \<Rightarrow>
        item\<lparr>shl_path := path, shl_addr := sa, procname := name, offp := off\<rparr>)"

text \<open>\<^verbatim>\<open>while (unw_step(&cursor) > 0 && --skip_frames > 0);\<close> leaves the remaining steps.\<close>

fun skip_frames :: "(addr \<times> addr) list \<Rightarrow> usize \<Rightarrow> (addr \<times> addr) list" where
  "skip_frames [] k = []"
| "skip_frames (_ # fs) k = (if k - 1 > 0 then skip_frames fs (k - 1) else fs)"

fun unwind_frames ::
    "unw_env \<Rightarrow> bool \<Rightarrow> (addr \<times> addr) list \<Rightarrow> CallStackInfo \<Rightarrow> Unwinder \<Rightarrow>
     (CallStackInfo \<times> Unwinder) option" where
  "unwind_frames env need [] cs u = Some (cs, u)"
| "unwind_frames env need ((i, s) # fs) cs u =
     (if i = 0 then Some (cs, u)
      else (let item = new_CallStackInfoItem\<lparr>ip := i, sp := s\<rparr>
            in if need
               then do { (p, u) \<leftarrow> GetUnwProcInfo env i u;
                         unwind_frames env need fs (cs @ [set_proc_info p item]) u }
               else unwind_frames env need fs (cs @ [item]) u))"

definition GetCallStackInfo ::
    "unw_env \<Rightarrow> (addr \<times> addr) list \<Rightarrow> usize \<Rightarrow> bool \<Rightarrow> Unwinder \<Rightarrow>
     (CallStackInfo \<times> Unwinder) option" where
  "GetCallStackInfo env frames skip need u =
     unwind_frames env need (skip_frames frames skip) [] u"

fun GetCallStackUnwindProcInfo ::
    "unw_env \<Rightarrow> CallStackInfo \<Rightarrow> Unwinder \<Rightarrow> (CallStackInfo \<times> Unwinder) option" where
  "GetCallStackUnwindProcInfo env [] u = Some ([], u)"
| "GetCallStackUnwindProcInfo env (item # cs) u =
     do { (p, u) \<leftarrow> GetUnwProcInfoByIP env (ip item) u;
          (cs, u) \<leftarrow> GetCallStackUnwindProcInfo env cs u;
          Some (set_proc_info p item # cs, u) }"

subsection \<open>Correctness of the cache\<close>

definition path_of :: "string option \<Rightarrow> string" where
  "path_of f = (case f of None \<Rightarrow> unknown_tag | Some p \<Rightarrow> p)"

text \<open>The uncached resolution of an instruction pointer.\<close>

definition resolve ::
    "(addr \<Rightarrow> (string \<times> addr) option) \<Rightarrow> (addr \<Rightarrow> (addr \<times> string option) option) \<Rightarrow> addr \<Rightarrow> proc_info" where
  "resolve N D i =
     (case D i of None \<Rightarrow> unknown_tag | Some (fb, f) \<Rightarrow> path_of f,
      case D i of None \<Rightarrow> 0 | Some (fb, f) \<Rightarrow> fb,
      case N i of None \<Rightarrow> unknown_tag | Some (n, off) \<Rightarrow> n,
      case N i of None \<Rightarrow> 0 | Some (n, off) \<Rightarrow> off)"

text \<open>
  \<^verbatim>\<open>dladdr\<close> reports the load address of the object that contains the address, which is
  not 0, and the object's path, which the load address determines.
\<close>

definition dladdr_ok :: "(addr \<Rightarrow> (addr \<times> string option) option) \<Rightarrow> bool" where
  "dladdr_ok D \<longleftrightarrow> (\<forall>i fb f. D i = Some (fb, f) \<longrightarrow> fb \<noteq> 0) \<and>
     (\<forall>i j fb f f'. D i = Some (fb, f) \<longrightarrow> D j = Some (fb, f') \<longrightarrow> f = f')"

definition entry_ok where
  "entry_ok N D tab x \<longleftrightarrow>
     (pn_shl_addr x, pn_procname x, pn_offp x) = snd (resolve N D (pn_ip x)) \<and>
     (\<forall>fb f. D (pn_ip x) = Some (fb, f) \<longrightarrow> tab fb \<noteq> (None :: string option))"

definition unw_inv where
  "unw_inv N D u \<longleftrightarrow> distinct (map pn_ip (m_procname_info_map u)) \<and>
     (\<forall>x \<in> set (m_procname_info_map u). entry_ok N D (m_shl_path_map u) x) \<and>
     (\<forall>fb p. m_shl_path_map u fb = Some p \<longrightarrow> (\<exists>i f. D i = Some (fb, f) \<and> p = path_of f)) \<and>
     length (m_procname_info_map u) \<le> unat (m_cache_max_size u)"

lemma entry_path:
  assumes "unw_inv N D u" "dladdr_ok D" "x \<in> set (m_procname_info_map u)"
  shows "(case m_shl_path_map u (pn_shl_addr x) of Some path \<Rightarrow> path | None \<Rightarrow> unknown_tag) =
         fst (resolve N D (pn_ip x))"
proof (cases "D (pn_ip x)")
  case None
  with assms have "pn_shl_addr x = 0"
    by (auto simp: unw_inv_def entry_ok_def resolve_def)
  moreover have "m_shl_path_map u 0 = None"
    using assms(1,2) unfolding unw_inv_def dladdr_ok_def by (metis not_None_eq)
  ultimately show ?thesis using None by (simp add: resolve_def)
next
  case (Some p)
  obtain fb f where p: "p = (fb, f)" by (cases p)
  with assms Some have sa: "pn_shl_addr x = fb" and "m_shl_path_map u fb \<noteq> None"
    by (auto simp: unw_inv_def entry_ok_def resolve_def)
  then obtain q where q: "m_shl_path_map u fb = Some q" by blast
  with assms(1) obtain j g where "D j = Some (fb, g)" "q = path_of g"
    unfolding unw_inv_def by blast
  with assms(2) Some p have "q = path_of f" unfolding dladdr_ok_def by blast
  with Some p sa q show ?thesis by (simp add: resolve_def)
qed

lemma cache_hit_ok:
  assumes "unw_inv N D u" "dladdr_ok D" "x \<in> set (m_procname_info_map u)"
  shows "fst (cache_hit x u) = resolve N D (pn_ip x) \<and> unw_inv N D (snd (cache_hit x u)) \<and>
         m_cache_max_size (snd (cache_hit x u)) = m_cache_max_size u"
proof -
  let ?l = "m_procname_info_map u"
  have "(pn_shl_addr x, pn_procname x, pn_offp x) = snd (resolve N D (pn_ip x))"
    using assms by (auto simp: unw_inv_def entry_ok_def)
  with entry_path [OF assms] have 1: "fst (cache_hit x u) = resolve N D (pn_ip x)"
    by (simp add: cache_hit_def prod_eq_iff)
  have "length (filter (\<lambda>y. pn_ip y \<noteq> pn_ip x) ?l) < length ?l"
    using assms(3) by (intro length_filter_less) auto
  with assms have "unw_inv N D (snd (cache_hit x u))"
    by (auto simp: unw_inv_def cache_hit_def distinct_map_filter)
  with 1 show ?thesis by (simp add: cache_hit_def)
qed

lemma cache_evict_ok:
  assumes "unw_inv N D u" "0 < m_cache_max_size u"
  obtains u' where "cache_evict u = Some u'" "unw_inv N D u'"
    "set (m_procname_info_map u') \<subseteq> set (m_procname_info_map u)"
    "m_shl_path_map u' = m_shl_path_map u" "m_cache_max_size u' = m_cache_max_size u"
    "length (m_procname_info_map u') < unat (m_cache_max_size u)"
proof (cases "unat (m_cache_max_size u) \<le> length (m_procname_info_map u)")
  case True
  have "0 < unat (m_cache_max_size u)"
    using assms(2) by (simp add: word_less_nat_alt)
  with True obtain y l where l: "m_procname_info_map u = y # l"
    by (cases "m_procname_info_map u") auto
  show ?thesis
  proof (rule that)
    show "cache_evict u = Some (u\<lparr>m_procname_info_map := l\<rparr>)"
      using True by (simp add: cache_evict_def l)
  qed (use assms l in \<open>auto simp: unw_inv_def\<close>)
next
  case False
  with assms(1) show ?thesis by (intro that [of u]) (auto simp: cache_evict_def)
qed

definition pni_of where
  "pni_of N D i = \<lparr>pn_procname = fst (snd (snd (resolve N D i))), pn_ip = i,
     pn_offp = snd (snd (snd (resolve N D i))), pn_shl_addr = fst (snd (resolve N D i))\<rparr>"

lemma cache_miss_eq:
  "cache_miss (N i) (D i) i u =
     do { u \<leftarrow> cache_evict (case D i of None \<Rightarrow> u
            | Some (fb, f) \<Rightarrow> if m_shl_path_map u fb = None
                then u\<lparr>m_shl_path_map := (m_shl_path_map u)(fb \<mapsto> path_of f)\<rparr> else u);
          Some (resolve N D i, cache_insert (pni_of N D i) u) }"
  by (simp add: cache_miss_def resolve_def pni_of_def path_of_def Let_def split: option.split prod.split)

lemma entry_ok_upd: "entry_ok N D tab x \<Longrightarrow> entry_ok N D (tab(k \<mapsto> v)) x"
  by (simp add: entry_ok_def)

lemma cache_miss_ok:
  assumes inv: "unw_inv N D u" and pos: "0 < m_cache_max_size u"
    and new: "i \<notin> pn_ip ` set (m_procname_info_map u)"
  shows "\<exists>u'. cache_miss (N i) (D i) i u = Some (resolve N D i, u') \<and> unw_inv N D u' \<and>
           m_cache_max_size u' = m_cache_max_size u"
proof -
  define v where "v = (case D i of None \<Rightarrow> u
      | Some (fb, f) \<Rightarrow> if m_shl_path_map u fb = None
          then u\<lparr>m_shl_path_map := (m_shl_path_map u)(fb \<mapsto> path_of f)\<rparr> else u)"
  have v: "m_procname_info_map v = m_procname_info_map u" "m_cache_max_size v = m_cache_max_size u"
    by (simp_all add: v_def split: option.split prod.split)
  have tab: "\<forall>fb f. D i = Some (fb, f) \<longrightarrow> m_shl_path_map v fb \<noteq> None"
    by (auto simp: v_def)
  have "unw_inv N D v"
    using inv by (auto simp: v_def unw_inv_def entry_ok_upd split: option.split if_splits)
  then obtain w where w: "cache_evict v = Some w" "unw_inv N D w"
    "set (m_procname_info_map w) \<subseteq> set (m_procname_info_map v)"
    "m_shl_path_map w = m_shl_path_map v" "m_cache_max_size w = m_cache_max_size v"
    "length (m_procname_info_map w) < unat (m_cache_max_size v)"
    by (rule cache_evict_ok) (simp add: v pos)
  from w(3) new v(1) have "i \<notin> pn_ip ` set (m_procname_info_map w)" by auto
  then have "unw_inv N D (cache_insert (pni_of N D i) w)"
    using w tab by (auto simp: unw_inv_def cache_insert_def entry_ok_def pni_of_def)
  with w v show ?thesis
    unfolding cache_miss_eq v_def [symmetric] by (simp add: cache_insert_def)
qed

lemma lookup_ok:
  assumes "unw_inv N D u" "dladdr_ok D" "0 < m_cache_max_size u"
  shows "\<exists>u'. (case List.find (\<lambda>x. pn_ip x = i) (m_procname_info_map u) of
            Some x \<Rightarrow> Some (cache_hit x u) | None \<Rightarrow> cache_miss (N i) (D i) i u) =
              Some (resolve N D i, u') \<and> unw_inv N D u' \<and> m_cache_max_size u' = m_cache_max_size u"
proof (cases "List.find (\<lambda>x. pn_ip x = i) (m_procname_info_map u)")
  case None
  then have "i \<notin> pn_ip ` set (m_procname_info_map u)" by (auto simp: find_eq_None_iff)
  from cache_miss_ok [OF assms(1,3) this] None show ?thesis by simp
next
  case (Some x)
  from cache_hit_ok [OF assms(1,2)] find_SomeD [OF Some] Some show ?thesis
    by (metis option.simps(5) prod.collapse)
qed

lemma GetUnwProcInfo_ok:
  "unw_inv (unw_get_proc_name env) (dladdr env) u \<Longrightarrow> dladdr_ok (dladdr env) \<Longrightarrow> 0 < m_cache_max_size u \<Longrightarrow>
   \<exists>u'. GetUnwProcInfo env i u = Some (resolve (unw_get_proc_name env) (dladdr env) i, u') \<and>
        unw_inv (unw_get_proc_name env) (dladdr env) u' \<and> m_cache_max_size u' = m_cache_max_size u"
  unfolding GetUnwProcInfo_def by (rule lookup_ok)

lemma GetUnwProcInfoByIP_ok:
  "unw_inv (GetUnwProcNameByIP env) (dladdr env) u \<Longrightarrow> dladdr_ok (dladdr env) \<Longrightarrow> 0 < m_cache_max_size u \<Longrightarrow>
   \<exists>u'. GetUnwProcInfoByIP env i u = Some (resolve (GetUnwProcNameByIP env) (dladdr env) i, u') \<and>
        unw_inv (GetUnwProcNameByIP env) (dladdr env) u' \<and> m_cache_max_size u' = m_cache_max_size u"
  unfolding GetUnwProcInfoByIP_def by (rule lookup_ok)

lemma unw_inv_flush: "unw_inv N D (FlushUnwCache u)"
  by (simp add: unw_inv_def FlushUnwCache_def)

lemma unw_inv_new: "unw_inv N D (new_Unwinder e)"
  by (simp add: unw_inv_def new_Unwinder_def)

subsection \<open>Definedness and frames\<close>

text \<open>
  With a cache size of at least 1 every operation is defined, whatever libunwind and
  \<^verbatim>\<open>dladdr\<close> answer, and resolving a frame leaves its (ip, sp) alone.
\<close>

lemma cache_evict_defined:
  "0 < m_cache_max_size u \<Longrightarrow> \<exists>u'. cache_evict u = Some u' \<and> m_cache_max_size u' = m_cache_max_size u"
  by (cases "m_procname_info_map u") (auto simp: cache_evict_def word_less_nat_alt)

lemma cache_miss_defined:
  assumes "0 < m_cache_max_size u"
  shows "\<exists>p u'. cache_miss n d i u = Some (p, u') \<and> m_cache_max_size u' = m_cache_max_size u"
proof -
  define v where "v = (case d of None \<Rightarrow> u
      | Some (fb, f) \<Rightarrow> if m_shl_path_map u fb = None
          then u\<lparr>m_shl_path_map := (m_shl_path_map u)(fb \<mapsto> path_of f)\<rparr> else u)"
  have "m_cache_max_size v = m_cache_max_size u"
    by (simp add: v_def split: option.split prod.split)
  then obtain w where "cache_evict v = Some w" "m_cache_max_size w = m_cache_max_size u"
    using cache_evict_defined [of v] assms by auto
  moreover have "cache_miss n d i u = do { u \<leftarrow> cache_evict v;
      Some (resolve (\<lambda>_. n) (\<lambda>_. d) i, cache_insert (pni_of (\<lambda>_. n) (\<lambda>_. d) i) u) }"
    using cache_miss_eq [of "\<lambda>_. n" i "\<lambda>_. d" u] unfolding v_def by simp
  ultimately show ?thesis by (simp add: cache_insert_def resolve_def)
qed

lemma cache_hit_max [simp]: "m_cache_max_size (snd (cache_hit x u)) = m_cache_max_size u"
  by (simp add: cache_hit_def)

lemma lookup_defined:
  assumes "0 < m_cache_max_size u"
  shows "\<exists>p u'. (case f of Some x \<Rightarrow> Some (cache_hit x u) | None \<Rightarrow> cache_miss n d i u) = Some (p, u') \<and>
           m_cache_max_size u' = m_cache_max_size u"
proof (cases f)
  case (Some x)
  then show ?thesis using cache_hit_max by (cases "cache_hit x u") (metis option.simps(5) snd_conv)
qed (use cache_miss_defined [OF assms] in simp)

lemma GetUnwProcInfo_defined:
  "0 < m_cache_max_size u \<Longrightarrow> \<exists>p u'. GetUnwProcInfo env i u = Some (p, u') \<and>
     m_cache_max_size u' = m_cache_max_size u"
  unfolding GetUnwProcInfo_def by (rule lookup_defined)

lemma GetUnwProcInfoByIP_defined:
  "0 < m_cache_max_size u \<Longrightarrow> \<exists>p u'. GetUnwProcInfoByIP env i u = Some (p, u') \<and>
     m_cache_max_size u' = m_cache_max_size u"
  unfolding GetUnwProcInfoByIP_def by (rule lookup_defined)

lemma set_proc_info_frame [simp]:
  "ip (set_proc_info p x) = ip x" "sp (set_proc_info p x) = sp x"
  by (cases p; simp add: set_proc_info_def)+

lemma unwind_frames_defined:
  "0 < m_cache_max_size u \<Longrightarrow>
   \<exists>cs' u'. unwind_frames env need fs cs u = Some (cs', u') \<and> m_cache_max_size u' = m_cache_max_size u \<and>
     map (\<lambda>x. (ip x, sp x)) cs' = map (\<lambda>x. (ip x, sp x)) cs @ takeWhile (\<lambda>f. fst f \<noteq> 0) fs"
proof (induction env need fs cs u rule: unwind_frames.induct)
  case (2 env need i s fs cs u)
  let ?item = "new_CallStackInfoItem\<lparr>ip := i, sp := s\<rparr>"
  show ?case
  proof (cases "i = 0 \<or> \<not> need")
    case True
    with "2.IH"(2) "2.prems" show ?thesis by (cases "i = 0") auto
  next
    case False
    obtain p v where v: "GetUnwProcInfo env i u = Some (p, v)" "m_cache_max_size v = m_cache_max_size u"
      using GetUnwProcInfo_defined [OF "2.prems"] by blast
    with False "2.prems" "2.IH"(1) [of ?item "(p, v)" p v] show ?thesis by auto
  qed
qed auto

lemma GetCallStackInfo_defined:
  assumes "0 < m_cache_max_size u"
  shows "\<exists>cs u'. GetCallStackInfo env frames k need u = Some (cs, u') \<and>
           m_cache_max_size u' = m_cache_max_size u \<and>
           map (\<lambda>x. (ip x, sp x)) cs = takeWhile (\<lambda>f. fst f \<noteq> 0) (skip_frames frames k)"
  using unwind_frames_defined [OF assms, of env need "skip_frames frames k" "[]"]
  by (simp add: GetCallStackInfo_def)

lemma GetCallStackUnwindProcInfo_defined:
  "0 < m_cache_max_size u \<Longrightarrow>
   \<exists>cs' u'. GetCallStackUnwindProcInfo env cs u = Some (cs', u') \<and>
     m_cache_max_size u' = m_cache_max_size u \<and>
     map (\<lambda>x. (ip x, sp x)) cs' = map (\<lambda>x. (ip x, sp x)) cs"
proof (induction cs arbitrary: u)
  case (Cons x cs)
  obtain p v where v: "GetUnwProcInfoByIP env (ip x) u = Some (p, v)"
      "m_cache_max_size v = m_cache_max_size u"
    using GetUnwProcInfoByIP_defined [OF Cons.prems] by blast
  with Cons.prems Cons.IH [of v] show ?case by auto
qed simp

lemma GetCallStackUnwindProcInfo_resolves:
  "unw_inv (GetUnwProcNameByIP env) (dladdr env) u \<Longrightarrow> dladdr_ok (dladdr env) \<Longrightarrow> 0 < m_cache_max_size u \<Longrightarrow>
   \<exists>u'. GetCallStackUnwindProcInfo env cs u =
       Some (map (\<lambda>x. set_proc_info (resolve (GetUnwProcNameByIP env) (dladdr env) (ip x)) x) cs, u') \<and>
     unw_inv (GetUnwProcNameByIP env) (dladdr env) u' \<and> m_cache_max_size u' = m_cache_max_size u"
proof (induction cs arbitrary: u)
  case (Cons x cs)
  from GetUnwProcInfoByIP_ok [OF Cons.prems, of "ip x"] obtain v where v:
    "GetUnwProcInfoByIP env (ip x) u = Some (resolve (GetUnwProcNameByIP env) (dladdr env) (ip x), v)"
    "unw_inv (GetUnwProcNameByIP env) (dladdr env) v" "m_cache_max_size v = m_cache_max_size u"
    by blast
  with Cons.IH [OF v(2) Cons.prems(2)] Cons.prems(3) show ?case by auto
qed simp

lemma skip_two: "skip_frames fs 2 = drop 2 fs"
  by (cases fs; cases "tl fs") auto

subsection \<open>Sessions\<close>

text \<open>
  A session of the unwinder: call stacks to resolve, and flushes, after which the loaded
  objects (and so libunwind's and \<^verbatim>\<open>dladdr\<close>'s answers) may be different ones.
\<close>

datatype unw_op = Resolve CallStackInfo | FlushFor unw_env

fun unw_run :: "unw_env \<Rightarrow> unw_op list \<Rightarrow> Unwinder \<Rightarrow> (CallStackInfo list \<times> Unwinder) option" where
  "unw_run env [] u = Some ([], u)"
| "unw_run env (Resolve cs # ops) u =
     do { (cs, u) \<leftarrow> GetCallStackUnwindProcInfo env cs u;
          (css, u) \<leftarrow> unw_run env ops u;
          Some (cs # css, u) }"
| "unw_run env (FlushFor env' # ops) u = unw_run env' ops (FlushUnwCache u)"

fun unw_spec :: "unw_env \<Rightarrow> unw_op list \<Rightarrow> CallStackInfo list" where
  "unw_spec env [] = []"
| "unw_spec env (Resolve cs # ops) =
     map (\<lambda>x. set_proc_info (resolve (GetUnwProcNameByIP env) (dladdr env) (ip x)) x) cs # unw_spec env ops"
| "unw_spec env (FlushFor env' # ops) = unw_spec env' ops"

fun unw_ops_ok :: "unw_env \<Rightarrow> unw_op list \<Rightarrow> bool" where
  "unw_ops_ok env [] \<longleftrightarrow> dladdr_ok (dladdr env)"
| "unw_ops_ok env (Resolve cs # ops) \<longleftrightarrow> dladdr_ok (dladdr env) \<and> unw_ops_ok env ops"
| "unw_ops_ok env (FlushFor env' # ops) \<longleftrightarrow> unw_ops_ok env' ops"

lemma unw_run_ok:
  "unw_inv (GetUnwProcNameByIP env) (dladdr env) u \<Longrightarrow> unw_ops_ok env ops \<Longrightarrow> 0 < m_cache_max_size u \<Longrightarrow>
   \<exists>u'. unw_run env ops u = Some (unw_spec env ops, u') \<and>
     length (m_procname_info_map u') \<le> unat (m_cache_max_size u)"
proof (induction env ops u rule: unw_run.induct)
  case (2 env cs ops u)
  then obtain v where "GetCallStackUnwindProcInfo env cs u =
      Some (map (\<lambda>x. set_proc_info (resolve (GetUnwProcNameByIP env) (dladdr env) (ip x)) x) cs, v)"
    "unw_inv (GetUnwProcNameByIP env) (dladdr env) v" "m_cache_max_size v = m_cache_max_size u"
    using GetCallStackUnwindProcInfo_resolves [of env u cs] by auto
  with "2.prems" "2.IH" [OF this(1) refl] show ?case by auto
next
  case (3 env env' ops u)
  have "m_cache_max_size (FlushUnwCache u) = m_cache_max_size u" by (simp add: FlushUnwCache_def)
  with 3 show ?case by (simp add: unw_inv_flush)
qed (auto simp: unw_inv_def)

text \<open>
  C12. The symbol cache is transparent: in a session that starts with a new unwinder, every
  frame gets the path, load address, name and offset that an uncached lookup at that
  moment gives, whatever the cache size, as long as it is not 0 and the cache is flushed
  when the set of loaded objects changes; and the cache never grows beyond its size.
\<close>

theorem unwinder_cache_transparent:
  assumes "unw_ops_ok env ops" and "0 < m_cache_max_size (new_Unwinder e)"
  shows "\<exists>u. unw_run env ops (new_Unwinder e) = Some (unw_spec env ops, u) \<and>
           length (m_procname_info_map u) \<le> unat (m_cache_max_size (new_Unwinder e))"
  using unw_run_ok [OF unw_inv_new] assms by blast

text \<open>Two sets of loaded objects, and an unwinder configured for a single cache entry.\<close>

definition demo_objects :: "string \<Rightarrow> unw_env" where
  "demo_objects name = \<lparr>unw_get_proc_name = (\<lambda>i. Some (name, 4)),
     unw_accessor_get_proc_name = Some (\<lambda>i. Some (name, 4)),
     dladdr = (\<lambda>i. if i < 100 then None else Some (0x400000, Some name))\<rparr>"

definition demo_stack :: CallStackInfo where
  "demo_stack = [new_CallStackInfoItem\<lparr>ip := 100\<rparr>, new_CallStackInfoItem\<lparr>ip := 50\<rparr>,
     new_CallStackInfoItem\<lparr>ip := 100\<rparr>]"

definition demo_unw_env :: environ where
  "demo_unw_env = [(''MEMHOOK_CALLSTACK_UNWINDER_CACHE_SIZE'', ''1'')]"

theorem unwinder_cache_transparent_witness:
  "\<exists>u. unw_run (demo_objects ''f'') [Resolve demo_stack, FlushFor (demo_objects ''g''), Resolve demo_stack]
        (new_Unwinder demo_unw_env) =
     Some (unw_spec (demo_objects ''f'') [Resolve demo_stack, FlushFor (demo_objects ''g''), Resolve demo_stack], u) \<and>
     length (m_procname_info_map u) \<le> 1"
proof -
  have "m_cache_max_size (new_Unwinder demo_unw_env) = 1"
    by (simp add: new_Unwinder_def demo_unw_env_def getenv_def strtoul_def is_space_def is_digit_def)
  moreover have "unw_ops_ok (demo_objects ''f'') [Resolve demo_stack, FlushFor (demo_objects ''g''), Resolve demo_stack]"
    by (simp add: demo_objects_def dladdr_ok_def)
  ultimately show ?thesis
    using unwinder_cache_transparent [of "demo_objects ''f''"
        "[Resolve demo_stack, FlushFor (demo_objects ''g''), Resolve demo_stack]" demo_unw_env] by simp
qed

text \<open>
  A configured cache size of 0 (which a non-numeric setting also gives) makes the very
  first lookup undefined: the eviction step erases the first element of an empty list.
\<close>

theorem unwinder_cache_size_zero_undefined:
  assumes "getenv e ''MEMHOOK_CALLSTACK_UNWINDER_CACHE_SIZE'' = Some s" and "strtoul s = 0"
  shows "GetUnwProcInfoByIP env i (new_Unwinder e) = None \<and> GetUnwProcInfo env i (new_Unwinder e) = None"
proof -
  have "m_cache_max_size (new_Unwinder e) = 0" "m_procname_info_map (new_Unwinder e) = []"
    using assms by (simp_all add: new_Unwinder_def)
  then show ?thesis
    by (simp add: GetUnwProcInfoByIP_def GetUnwProcInfo_def cache_miss_def cache_evict_def Let_def
        split: option.split)
qed

theorem unwinder_cache_size_zero_undefined_witness:
  "getenv [(''MEMHOOK_CALLSTACK_UNWINDER_CACHE_SIZE'', ''off'')] ''MEMHOOK_CALLSTACK_UNWINDER_CACHE_SIZE'' =
     Some ''off'' \<and> strtoul ''off'' = 0 \<and>
   GetUnwProcInfoByIP (demo_objects ''f'') 100 (new_Unwinder [(''MEMHOOK_CALLSTACK_UNWINDER_CACHE_SIZE'', ''off'')]) = None"
proof -
  have 1: "getenv [(''MEMHOOK_CALLSTACK_UNWINDER_CACHE_SIZE'', ''off'')] ''MEMHOOK_CALLSTACK_UNWINDER_CACHE_SIZE'' =
     Some ''off''" by (simp add: getenv_def)
  have 2: "strtoul ''off'' = 0" by (simp add: strtoul_def is_space_def is_digit_def)
  show ?thesis using unwinder_cache_size_zero_undefined [OF 1 2, of "demo_objects ''f''" 100] 1 2 by blast
qed

end
