(* ===== verification/Engine.thy ===== *)
theory Engine
  imports Mapped_Storage Callstack_Unwinder
begin

text \<open>
  The tracing engine, \<^verbatim>\<open>src/memhook/engine.h\<close> and \<^verbatim>\<open>engine.cpp\<close>: a local cache of recent
  allocation records in front of a storage. The storage is used through its virtual
  methods, the record \<open>storage_ops\<close>. The inputs of a hook that come from outside (the
  clock, the frames libunwind walks, the symbol lookups) are the record \<open>hook_ctx\<close>.
  The functions hold the cache mutex for their whole body and are modelled one call at
  a time. \<open>None\<close> is undefined behaviour inherited from the unwinder.

  \<open>etable\<close>, the cache laid over the storage's table, is the abstract state: the live
  allocations the tool knows. The lemmas of the locale \<open>mapped_storage\<close> show for any
  storage that keeps the contract: flushing the cache does not change the table, a hook
  changes exactly its own entry, and destroying the engine leaves the whole table in
  the storage.
\<close>

datatype CallStackUnwindProcInfoPolicy = kUnwindCallStackWhen | kFlushLocalCacheWhen

record 's Engine =
  m_storage :: "'s option"
  m_cache :: "EngineTraceInfo list"
  m_callstack_unwinder :: "Unwinder option"
  m_cache_flush_timeout :: int
  m_cache_flush_max_items :: usize
  m_getprocinfo_policy :: CallStackUnwindProcInfoPolicy

record hook_ctx =
  c_now :: time
  c_frames :: "(addr \<times> addr) list"
  c_unw :: unw_env

subsection \<open>Configuration\<close>

datatype storage_choice =
    NetworkStorage string int
  | MMFStorage string usize
  | SHMStorage string usize

definition MEMHOOK_SHARED_MEMORY :: string where
  "MEMHOOK_SHARED_MEMORY = ''ShmMemHook''"

definition MEMHOOK_NETWORK_STORAGE_PORT :: int where
  "MEMHOOK_NETWORK_STORAGE_PORT = 20015"

definition scaled_size :: "usize \<Rightarrow> nat \<Rightarrow> string \<Rightarrow> usize" where
  "scaled_size ipc_size k s =
     (let new_ipc_size = strtoul s in if new_ipc_size \<noteq> 0 then push_bit k new_ipc_size else ipc_size)"

definition ipc_size_of :: "environ \<Rightarrow> usize" where
  "ipc_size_of e =
     (let ipc_size = push_bit 30 8
      in case getenv e ''MEMHOOK_SIZE_GB'' of Some s \<Rightarrow> scaled_size ipc_size 30 s
       | None \<Rightarrow> (case getenv e ''MEMHOOK_SIZE_MB'' of Some s \<Rightarrow> scaled_size ipc_size 20 s
       | None \<Rightarrow> (case getenv e ''MEMHOOK_SIZE_KB'' of Some s \<Rightarrow> scaled_size ipc_size 10 s
       | None \<Rightarrow> (case getenv e ''MEMHOOK_SIZE'' of Some s \<Rightarrow> scaled_size ipc_size 0 s
       | None \<Rightarrow> ipc_size))))"

definition NewStorage :: "environ \<Rightarrow> storage_choice" where
  "NewStorage e =
     (case getenv e ''MEMHOOK_NET_HOST'' of
        Some host \<Rightarrow>
          NetworkStorage host
            (case getenv e ''MEMHOOK_NET_PORT'' of
               None \<Rightarrow> MEMHOOK_NETWORK_STORAGE_PORT
             | Some s \<Rightarrow> sint (ucast (strtoul s) :: u32))
      | None \<Rightarrow>
          (let ipc_size = ipc_size_of e
           in case getenv e ''MEMHOOK_FILE'' of
                Some path \<Rightarrow> MMFStorage path ipc_size
              | None \<Rightarrow>
                  (case getenv e ''MEMHOOK_SHM_NAME'' of
                     None \<Rightarrow> SHMStorage MEMHOOK_SHARED_MEMORY ipc_size
                   | Some name \<Rightarrow> SHMStorage name ipc_size)))"

text \<open>
  \<open>create\<close> opens the chosen storage, \<open>None\<close> when its constructor throws;
  \<open>parse_duration\<close> is Boost's stream extraction of a duration in seconds, \<open>None\<close> when
  it leaves the variable alone.
\<close>

definition OnInitialize ::
    "environ \<Rightarrow> (storage_choice \<Rightarrow> 's option) \<Rightarrow> (string \<Rightarrow> int option) \<Rightarrow> 's Engine" where
  "OnInitialize e create parse_duration =
     \<lparr>m_storage = create (NewStorage e),
      m_cache = [],
      m_callstack_unwinder = Some (new_Unwinder e),
      m_cache_flush_timeout =
        (case getenv e ''MEMHOOK_CACHE_FLUSH_INTERVAL'' of
           None \<Rightarrow> 2
         | Some s \<Rightarrow> (case parse_duration s of Some d \<Rightarrow> d | None \<Rightarrow> 2)),
      m_cache_flush_max_items =
        (case getenv e ''MEMHOOK_CACHE_FLUSH_MAX_ITEMS'' of None \<Rightarrow> - 1 | Some s \<Rightarrow> strtoul s),
      m_getprocinfo_policy =
        (case getenv e ''MEMHOOK_GETPROCINFO_WHEN_STACK_UNWINDS'' of
           None \<Rightarrow> kFlushLocalCacheWhen
         | Some s \<Rightarrow> (case s of c # _ \<Rightarrow> if c \<noteq> CHR ''0'' then kUnwindCallStackWhen else kFlushLocalCacheWhen
                    | [] \<Rightarrow> kUnwindCallStackWhen))\<rparr>"

subsection \<open>Flushing the cache\<close>

fun flush_items ::
    "'s storage_ops \<Rightarrow> unw_env \<Rightarrow> CallStackUnwindProcInfoPolicy \<Rightarrow> EngineTraceInfo list \<Rightarrow>
     Unwinder option \<Rightarrow> 's \<Rightarrow> (Unwinder option \<times> 's) option" where
  "flush_items ops env policy [] u s = Some (u, s)"
| "flush_items ops env policy (x # xs) u s =
     (if policy = kFlushLocalCacheWhen
      then do { v \<leftarrow> u;
                (cs, v) \<leftarrow> GetCallStackUnwindProcInfo env (e_callstack x) v;
                flush_items ops env policy xs (Some v)
                  (s_Add ops (address x) (memsize x) cs (timestamp x) s) }
      else flush_items ops env policy xs u
             (s_Add ops (address x) (memsize x) (e_callstack x) (timestamp x) s))"

definition flush_range ::
    "time \<Rightarrow> int \<Rightarrow> bool \<Rightarrow> 's Engine \<Rightarrow> EngineTraceInfo list" where
  "flush_range now timeout dump_all e =
     (if dump_all then by_timestamp (m_cache e)
      else take (unat (m_cache_flush_max_items e))
             (takeWhile (\<lambda>x. timestamp x < wrap64 (now - wrap64 (timeout * 10 ^ 9))) (by_timestamp (m_cache e))))"

definition FlushLocalCache ::
    "'s storage_ops \<Rightarrow> unw_env \<Rightarrow> time \<Rightarrow> int \<Rightarrow> bool \<Rightarrow> 's Engine \<Rightarrow> 's Engine option" where
  "FlushLocalCache ops env now timeout dump_all e =
     (case m_storage e of
        None \<Rightarrow> Some e
      | Some s \<Rightarrow>
          (let items = flush_range now timeout dump_all e
           in do { (u, s) \<leftarrow> flush_items ops env (m_getprocinfo_policy e) items
                               (m_callstack_unwinder e) s;
                   Some (e\<lparr>m_storage := Some (if items \<noteq> [] then s_Flush ops s else s),
                           m_callstack_unwinder := u,
                           m_cache := filter (\<lambda>x. address x \<notin> address ` set items) (m_cache e)\<rparr>) }))"

subsection \<open>Hooks\<close>

definition DoHookAlloc ::
    "'s storage_ops \<Rightarrow> hook_ctx \<Rightarrow> addr \<Rightarrow> usize \<Rightarrow> 's Engine \<Rightarrow> 's Engine option" where
  "DoHookAlloc ops ctx mem n e =
     (if mem = 0 then Some e
      else do { u \<leftarrow> m_callstack_unwinder e;
                (cs, u) \<leftarrow> GetCallStackInfo (c_unw ctx) (c_frames ctx) 2
                            (m_getprocinfo_policy e = kUnwindCallStackWhen) u;
                let (cache, inserted) = ic_emplace (new_EngineTraceInfo mem n (c_now ctx)) (m_cache e);
                let cache = (if inserted then ic_modify mem (\<lambda>x. x\<lparr>e_callstack := cs\<rparr>) cache else cache);
                FlushLocalCache ops (c_unw ctx) (c_now ctx) (m_cache_flush_timeout e) False
                  (e\<lparr>m_callstack_unwinder := Some u, m_cache := cache\<rparr>) })"

definition DoHookFree :: "'s storage_ops \<Rightarrow> addr \<Rightarrow> 's Engine \<Rightarrow> 's Engine" where
  "DoHookFree ops mem e =
     (if mem = 0 then e
      else case ic_find mem (m_cache e) of
             Some _ \<Rightarrow> e\<lparr>m_cache := ic_erase mem (m_cache e)\<rparr>
           | None \<Rightarrow>
               (case m_storage e of
                  Some s \<Rightarrow> e\<lparr>m_storage := Some (snd (s_Remove ops mem s))\<rparr>
                | None \<Rightarrow> e))"

definition DoHookUpdateSize :: "'s storage_ops \<Rightarrow> addr \<Rightarrow> usize \<Rightarrow> 's Engine \<Rightarrow> 's Engine" where
  "DoHookUpdateSize ops mem n e =
     (if mem = 0 then e
      else case ic_find mem (m_cache e) of
             Some _ \<Rightarrow> e\<lparr>m_cache := ic_modify mem (\<lambda>x. x\<lparr>memsize := n\<rparr>) (m_cache e)\<rparr>
           | None \<Rightarrow>
               (case m_storage e of
                  Some s \<Rightarrow> e\<lparr>m_storage := Some (snd (s_UpdateSize ops mem n s))\<rparr>
                | None \<Rightarrow> e))"

definition DoHookRealloc ::
    "'s storage_ops \<Rightarrow> hook_ctx \<Rightarrow> addr \<Rightarrow> addr \<Rightarrow> usize \<Rightarrow> 's Engine \<Rightarrow> 's Engine option" where
  "DoHookRealloc ops ctx old_mem new_mem n e =
     (if old_mem = new_mem then Some (DoHookUpdateSize ops old_mem n e)
      else DoHookAlloc ops ctx new_mem n (DoHookFree ops old_mem e))"

definition DoFlushCallStackCache :: "'s Engine \<Rightarrow> 's Engine option" where
  "DoFlushCallStackCache e =
     do { u \<leftarrow> m_callstack_unwinder e;
          Some (e\<lparr>m_callstack_unwinder := Some (FlushUnwCache u)\<rparr>) }"

text \<open>The unwinder of the engine is used through its own functions, whatever libunwind says to the policy.\<close>

lemma engine_unwinder:
  "m_callstack_unwinder (OnInitialize env create parse_duration) = snd (unw_Initialize env set_policy u)"
  "DoFlushCallStackCache e =
     map_option (\<lambda>u. e\<lparr>m_callstack_unwinder := u\<rparr>) (unw_FlushCallStackCache (m_callstack_unwinder e))"
  by (auto simp: OnInitialize_def unw_Initialize_def DoFlushCallStackCache_def unw_FlushCallStackCache_def
      split: option.splits)

text \<open>\<^verbatim>\<open>OnDestroy\<close> flushes everything and closes the storage; the result is what it held.\<close>

definition OnDestroy ::
    "'s storage_ops \<Rightarrow> unw_env \<Rightarrow> time \<Rightarrow> 's Engine \<Rightarrow> ('s option \<times> 's Engine) option" where
  "OnDestroy ops env now e =
     do { e \<leftarrow> FlushLocalCache ops env now 0 True e;
          Some (m_storage e, e\<lparr>m_storage := None\<rparr>) }"

text \<open>The static entry points do nothing when there is no engine.\<close>

definition HookAlloc ::
    "'s storage_ops \<Rightarrow> hook_ctx \<Rightarrow> addr \<Rightarrow> usize \<Rightarrow> 's Engine option \<Rightarrow> 's Engine option option" where
  "HookAlloc ops ctx mem n inst =
     (case inst of None \<Rightarrow> Some None | Some e \<Rightarrow> map_option Some (DoHookAlloc ops ctx mem n e))"

definition HookFree :: "'s storage_ops \<Rightarrow> addr \<Rightarrow> 's Engine option \<Rightarrow> 's Engine option" where
  "HookFree ops mem inst = map_option (DoHookFree ops mem) inst"

definition HookRealloc ::
    "'s storage_ops \<Rightarrow> hook_ctx \<Rightarrow> addr \<Rightarrow> addr \<Rightarrow> usize \<Rightarrow> 's Engine option \<Rightarrow> 's Engine option option" where
  "HookRealloc ops ctx old_mem new_mem n inst =
     (case inst of None \<Rightarrow> Some None
      | Some e \<Rightarrow> map_option Some (DoHookRealloc ops ctx old_mem new_mem n e))"

definition HookUpdateSize :: "'s storage_ops \<Rightarrow> addr \<Rightarrow> usize \<Rightarrow> 's Engine option \<Rightarrow> 's Engine option" where
  "HookUpdateSize ops mem n inst = map_option (DoHookUpdateSize ops mem n) inst"

definition FlushCallStackCache :: "'s Engine option \<Rightarrow> 's Engine option option" where
  "FlushCallStackCache inst =
     (case inst of None \<Rightarrow> Some None | Some e \<Rightarrow> map_option Some (DoFlushCallStackCache e))"

subsection \<open>The table of live allocations\<close>

definition cache_view :: "EngineTraceInfo \<Rightarrow> trace_view" where
  "cache_view x = (memsize x, timestamp x, frames_of (e_callstack x))"

definition cache_tbl :: "EngineTraceInfo list \<Rightarrow> table" where
  "cache_tbl c = ic.view cache_view c"

definition etable :: "('s \<Rightarrow> table) \<Rightarrow> 's Engine \<Rightarrow> table" where
  "etable tbl e = (case m_storage e of None \<Rightarrow> Map.empty | Some s \<Rightarrow> tbl s) ++ cache_tbl (m_cache e)"

definition unwinder_ready :: "Unwinder option \<Rightarrow> bool" where
  "unwinder_ready u \<longleftrightarrow> (case u of None \<Rightarrow> False | Some v \<Rightarrow> 0 < m_cache_max_size v)"

definition engine_inv :: "('s \<Rightarrow> table) \<Rightarrow> ('s \<Rightarrow> bool) \<Rightarrow> 's Engine \<Rightarrow> bool" where
  "engine_inv tbl sinv e \<longleftrightarrow> ic_inv (m_cache e) \<and> unwinder_ready (m_callstack_unwinder e) \<and>
     (case m_storage e of None \<Rightarrow> True
      | Some s \<Rightarrow> sinv s \<and> dom (tbl s) \<inter> dom (cache_tbl (m_cache e)) = {})"

text \<open>The frames a hook records: two skipped, then up to the first null ip.\<close>

definition recorded_frames :: "hook_ctx \<Rightarrow> (addr \<times> addr) list" where
  "recorded_frames ctx = takeWhile (\<lambda>f. fst f \<noteq> 0) (drop 2 (c_frames ctx))"

lemma cache_tbl_Nil [simp]: "cache_tbl [] = Map.empty"
  by (simp add: cache_tbl_def ic.view_def)

lemma cache_tbl_Cons: "cache_tbl (x # c) = (cache_tbl c)(address x \<mapsto> cache_view x)"
  by (auto simp: cache_tbl_def ic.view_def fun_eq_iff)

lemma dom_cache_tbl: "dom (cache_tbl c) = address ` set c"
proof (induction c)
  case (Cons x c)
  then show ?case unfolding cache_tbl_Cons dom_fun_upd by simp
qed simp

lemma cache_tbl_mem: "ic_inv c \<Longrightarrow> x \<in> set c \<Longrightarrow> cache_tbl c (address x) = Some (cache_view x)"
  by (simp add: cache_tbl_def ic.view_def ic_find_mem)

lemma cache_tbl_find: "cache_tbl c a = None \<longleftrightarrow> ic_find a c = None"
  by (simp add: cache_tbl_def ic.view_def)

lemma cache_tbl_split:
  assumes "ic_inv c" "ic_inv l" "set l \<subseteq> set c"
  shows "cache_tbl l ++ cache_tbl (filter (\<lambda>x. address x \<notin> address ` set l) c) = cache_tbl c"
    (is "_ ++ cache_tbl ?r = _")
proof
  fix a
  have inv: "ic_inv ?r" using assms(1) by (simp add: ic_inv_def distinct_map_filter)
  consider x where "x \<in> set l" "a = address x" | x where "x \<in> set ?r" "a = address x"
    | "a \<notin> address ` set c" by auto
  then show "(cache_tbl l ++ cache_tbl ?r) a = cache_tbl c a"
  proof cases
    case 1
    then have "a \<notin> dom (cache_tbl ?r)" by (auto simp: dom_cache_tbl rev_image_eqI)
    then have "cache_tbl ?r a = None" unfolding domIff by blast
    with 1 assms show ?thesis by (auto simp: map_add_def cache_tbl_mem)
  next
    case 2
    with inv have "cache_tbl ?r a = Some (cache_view x)" by (simp only: cache_tbl_mem)
    with 2 assms(1) show ?thesis by (auto simp: map_add_def cache_tbl_mem)
  next
    case 3
    then have "a \<notin> dom (cache_tbl ?r)" "a \<notin> dom (cache_tbl l)" "a \<notin> dom (cache_tbl c)"
      using assms(3) by (auto simp: dom_cache_tbl)
    then have "cache_tbl ?r a = None" "cache_tbl l a = None" "cache_tbl c a = None"
      unfolding domIff by blast+
    then show ?thesis by (simp add: map_add_def)
  qed
qed

lemma distinct_map_prefix: "distinct (map f xs) \<Longrightarrow> distinct (map f (take n (takeWhile P xs)))"
  by (metis takeWhile_eq_take take_take distinct_take take_map)

lemma ic_inv_subrange:
  assumes "ic_inv (m_cache e)" shows "ic_inv (flush_range now timeout all e)"
proof -
  have "distinct (map address (by_timestamp (m_cache e)))" using assms by (simp flip: ic_inv_def)
  then show ?thesis
    by (simp add: flush_range_def ic_inv_def distinct_map_prefix)
qed

lemma flush_range_subset: "set (flush_range now timeout all e) \<subseteq> set (m_cache e)"
  by (auto simp: flush_range_def dest!: in_set_takeD set_takeWhileD)

context mapped_storage
begin

text \<open>
  A record may be flushed to a storage that has it already, provided it is the same record:
  the storage keeps the one it has.
\<close>

lemma flush_items_agree:
  assumes "sinv s" "ic_inv xs" "unwinder_ready u"
    and "\<And>x. x \<in> set xs \<Longrightarrow> tbl s (address x) = None \<or> tbl s (address x) = Some (cache_view x)"
  shows "\<exists>u' s'. flush_items ops env policy xs u s = Some (u', s') \<and> sinv s' \<and>
           tbl s' = tbl s ++ cache_tbl xs \<and> unwinder_ready u'"
  using assms
proof (induction xs arbitrary: u s)
  case (Cons x xs)
  from Cons.prems(3) obtain v where v: "u = Some v" "0 < m_cache_max_size v"
    by (auto simp: unwinder_ready_def split: option.splits)
  obtain cs w where w: "GetCallStackUnwindProcInfo env (e_callstack x) v = Some (cs, w)"
      "m_cache_max_size w = m_cache_max_size v" "frames_of cs = frames_of (e_callstack x)"
    using GetCallStackUnwindProcInfo_defined [OF v(2), of env "e_callstack x"]
    by (auto simp: frames_of_def)
  define cs' u' where "cs' = (if policy = kFlushLocalCacheWhen then cs else e_callstack x)"
    and "u' = (if policy = kFlushLocalCacheWhen then Some w else u)"
  let ?s = "s_Add ops (address x) (memsize x) cs' (timestamp x) s"
  have step: "flush_items ops env policy (x # xs) u s = flush_items ops env policy xs u' ?s"
    using v w by (simp add: cs'_def u'_def)
  have tbl': "tbl ?s = (tbl s)(address x \<mapsto> cache_view x)"
    using Cons.prems(1) Cons.prems(4) [of x] w(3)
    by (auto simp: tbl_Add tbl_add_def cache_view_def cs'_def fun_upd_idem)
  have x: "address x \<notin> dom (cache_tbl xs)"
    using Cons.prems(2) by (simp add: ic_inv_def dom_cache_tbl)
  have "\<exists>u'' s'. flush_items ops env policy xs u' ?s = Some (u'', s') \<and> sinv s' \<and>
      tbl s' = tbl ?s ++ cache_tbl xs \<and> unwinder_ready u''"
  proof (rule Cons.IH)
    show "unwinder_ready u'" using v w(2) by (simp add: u'_def unwinder_ready_def)
    show "tbl ?s (address y) = None \<or> tbl ?s (address y) = Some (cache_view y)" if "y \<in> set xs" for y
      unfolding tbl' using Cons.prems(2) Cons.prems(4) [of y] that by (auto simp: ic_inv_def rev_image_eqI)
  qed (use Cons.prems in \<open>auto simp: sinv_Add ic_inv_def\<close>)
  moreover have "tbl ?s ++ cache_tbl xs = tbl s ++ cache_tbl (x # xs)"
    unfolding tbl' cache_tbl_Cons using x by (simp add: map_add_upd_left)
  ultimately show ?case unfolding step by metis
qed simp

lemma flush_items_ok:
  assumes "sinv s" "ic_inv xs" "dom (tbl s) \<inter> address ` set xs = {}" "unwinder_ready u"
  shows "\<exists>u' s'. flush_items ops env policy xs u s = Some (u', s') \<and> sinv s' \<and>
           tbl s' = tbl s ++ cache_tbl xs \<and> unwinder_ready u'"
  using assms by (intro flush_items_agree) auto

lemma FlushLocalCache_ok:
  assumes inv: "engine_inv tbl sinv e"
  shows "\<exists>e'. FlushLocalCache ops env now timeout all e = Some e' \<and> engine_inv tbl sinv e' \<and>
           etable tbl e' = etable tbl e \<and>
           (m_storage e \<noteq> None \<longrightarrow> m_storage e' \<noteq> None \<and> m_cache e' =
              filter (\<lambda>x. address x \<notin> address ` set (flush_range now timeout all e)) (m_cache e))"
proof (cases "m_storage e")
  case None
  with inv show ?thesis by (simp add: FlushLocalCache_def)
next
  case (Some s)
  let ?items = "flush_range now timeout all e"
  let ?rest = "filter (\<lambda>x. address x \<notin> address ` set ?items) (m_cache e)"
  from inv Some have s: "sinv s" "ic_inv (m_cache e)" "unwinder_ready (m_callstack_unwinder e)"
      "dom (tbl s) \<inter> address ` set (m_cache e) = {}"
    by (auto simp: engine_inv_def dom_cache_tbl)
  have items: "ic_inv ?items" "dom (tbl s) \<inter> address ` set ?items = {}"
    using ic_inv_subrange [OF s(2)] s(4) flush_range_subset [of now timeout all e] by blast+
  from flush_items_ok [OF s(1) items s(3)] obtain u' s' where f:
    "flush_items ops env (m_getprocinfo_policy e) ?items (m_callstack_unwinder e) s = Some (u', s')"
    "sinv s'" "tbl s' = tbl s ++ cache_tbl ?items" "unwinder_ready u'" by blast
  define s'' where "s'' = (if ?items \<noteq> [] then s_Flush ops s' else s')"
  have s'': "sinv s''" "tbl s'' = tbl s ++ cache_tbl ?items"
    using f by (simp_all add: s''_def sinv_Flush tbl_Flush)
  define e' where "e' = e\<lparr>m_storage := Some s'', m_callstack_unwinder := u', m_cache := ?rest\<rparr>"
  have "FlushLocalCache ops env now timeout all e = Some e'"
    using Some f(1) by (simp add: FlushLocalCache_def Let_def e'_def s''_def)
  moreover have "engine_inv tbl sinv e'"
    using s f s'' by (auto simp: e'_def engine_inv_def dom_cache_tbl ic_inv_def distinct_map_filter)
  moreover have "etable tbl e' = etable tbl e"
    using cache_tbl_split [OF s(2) items(1) flush_range_subset] s''(2) Some
    by (simp add: e'_def etable_def flip: map_add_assoc)
  ultimately show ?thesis by (simp add: e'_def)
qed

end

lemma map_add_upd_right: "m ++ n(a := v) = (if v = None then (m ++ n)(a := m a) else (m ++ n)(a := v))"
  by (auto simp: fun_eq_iff map_add_def split: option.splits)

lemma map_add_upd_left_None: "n a = None \<Longrightarrow> m(a := v) ++ n = (m ++ n)(a := v)"
  by (auto simp: fun_eq_iff map_add_def split: option.splits)

lemma cache_tbl_emplace:
  assumes "ic_find mem c = None"
  shows "cache_tbl (ic_modify mem (\<lambda>x. x\<lparr>e_callstack := cs\<rparr>)
           (fst (ic_emplace (new_EngineTraceInfo mem n now) c))) = (cache_tbl c)(mem \<mapsto> (n, now, frames_of cs))"
proof -
  let ?x = "new_EngineTraceInfo mem n now"
  have "ic.view cache_view (fst (ic_emplace ?x c)) = (cache_tbl c)(mem \<mapsto> cache_view ?x)"
    using assms ic.view_insert [of cache_view ?x c] by (simp add: cache_tbl_def ic.view_def)
  then show ?thesis
    unfolding cache_tbl_def
    by (subst ic.view_modify [where h = "\<lambda>v. (fst v, fst (snd v), frames_of cs)"])
      (simp_all add: cache_view_def)
qed

lemma cache_tbl_resize:
  "cache_tbl (ic_modify mem (\<lambda>x. x\<lparr>memsize := n\<rparr>) c) = tbl_resize mem n (cache_tbl c)"
  unfolding cache_tbl_def tbl_resize_def
  by (subst ic.view_modify [where h = "\<lambda>v. (n, snd v)"]) (simp_all add: cache_view_def)

lemma cache_tbl_erase: "cache_tbl (ic_erase mem c) = (cache_tbl c)(mem := None)"
  by (simp add: cache_tbl_def ic.view_erase)

lemma dom_resize [simp]: "dom (tbl_resize a n m) = dom m"
proof -
  have "tbl_resize a n m x = None \<longleftrightarrow> m x = None" for x by (simp add: tbl_resize_def)
  then show ?thesis by (simp add: dom_def)
qed

lemma resize_add_right: "n a = Some v \<Longrightarrow> m ++ tbl_resize a k n = tbl_resize a k (m ++ n)"
  by (simp add: fun_eq_iff map_add_def tbl_resize_def)

lemma resize_add_left: "n a = None \<Longrightarrow> tbl_resize a k m ++ n = tbl_resize a k (m ++ n)"
  by (simp add: tbl_resize_def map_add_upd_left_None) (simp add: map_add_def)

text \<open>The storage part of the engine's table.\<close>

definition stable :: "('s \<Rightarrow> table) \<Rightarrow> 's Engine \<Rightarrow> table" where
  "stable tbl e = (case m_storage e of None \<Rightarrow> Map.empty | Some s \<Rightarrow> tbl s)"

lemma etable_eq: "etable tbl e = stable tbl e ++ cache_tbl (m_cache e)"
  by (simp add: etable_def stable_def)

lemma engine_inv_eq:
  "engine_inv tbl sinv e \<longleftrightarrow> ic_inv (m_cache e) \<and> unwinder_ready (m_callstack_unwinder e) \<and>
     (\<forall>s. m_storage e = Some s \<longrightarrow> sinv s) \<and> dom (stable tbl e) \<inter> dom (cache_tbl (m_cache e)) = {}"
  by (simp add: engine_inv_def stable_def split: option.split)

lemma disjoint_lookup: "dom m \<inter> dom n = {} \<Longrightarrow> n a \<noteq> None \<Longrightarrow> m a = None"
  unfolding disjoint_iff domIff by blast

lemma map_add_None: "(m ++ n) a = None \<longleftrightarrow> m a = None \<and> n a = None"
  by (simp add: map_add_def split: option.split)

lemma disjoint_upd: "dom m \<inter> dom n = {} \<Longrightarrow> m a = None \<Longrightarrow> dom m \<inter> dom (n(a \<mapsto> v)) = {}"
  unfolding disjoint_iff domIff by simp

lemma disjoint_del:
  "dom m \<inter> dom n = {} \<Longrightarrow> dom m \<inter> dom (n(a := None)) = {}"
  "dom m \<inter> dom n = {} \<Longrightarrow> dom (m(a := None)) \<inter> dom n = {}"
  unfolding disjoint_iff domIff by simp_all

text \<open>The alloc hook up to the flush: the engine with the new record in its cache.\<close>

definition alloc_entry :: "hook_ctx \<Rightarrow> addr \<Rightarrow> usize \<Rightarrow> 's Engine \<Rightarrow> 's Engine option" where
  "alloc_entry ctx mem n e =
     do { u \<leftarrow> m_callstack_unwinder e;
          (cs, u) \<leftarrow> GetCallStackInfo (c_unw ctx) (c_frames ctx) 2
                      (m_getprocinfo_policy e = kUnwindCallStackWhen) u;
          let (cache, inserted) = ic_emplace (new_EngineTraceInfo mem n (c_now ctx)) (m_cache e);
          let cache = (if inserted then ic_modify mem (\<lambda>x. x\<lparr>e_callstack := cs\<rparr>) cache else cache);
          Some (e\<lparr>m_callstack_unwinder := Some u, m_cache := cache\<rparr>) }"

lemma DoHookAlloc_entry:
  "mem \<noteq> 0 \<Longrightarrow> DoHookAlloc ops ctx mem n e = do { e1 \<leftarrow> alloc_entry ctx mem n e;
     FlushLocalCache ops (c_unw ctx) (c_now ctx) (m_cache_flush_timeout e) False e1 }"
  by (simp add: DoHookAlloc_def alloc_entry_def case_prod_unfold Let_def)

lemma alloc_entry_ok:
  assumes inv: "engine_inv tbl sinv e" and new: "etable tbl e mem = None"
  shows "\<exists>e1. alloc_entry ctx mem n e = Some e1 \<and> engine_inv tbl sinv e1 \<and> m_storage e1 = m_storage e \<and>
           etable tbl e1 = (etable tbl e)(mem \<mapsto> (n, c_now ctx, recorded_frames ctx))"
proof -
  from inv obtain u where u: "m_callstack_unwinder e = Some u" "0 < m_cache_max_size u"
    by (auto simp: engine_inv_def unwinder_ready_def split: option.splits)
  obtain cs v where v: "GetCallStackInfo (c_unw ctx) (c_frames ctx) 2
        (m_getprocinfo_policy e = kUnwindCallStackWhen) u = Some (cs, v)"
      "m_cache_max_size v = m_cache_max_size u" "frames_of cs = recorded_frames ctx"
    using GetCallStackInfo_defined [OF u(2), of "c_unw ctx" "c_frames ctx" 2
        "m_getprocinfo_policy e = kUnwindCallStackWhen"]
    by (auto simp: frames_of_def recorded_frames_def skip_two)
  from new have free: "ic_find mem (m_cache e) = None" "stable tbl e mem = None"
    by (simp_all add: etable_eq map_add_None cache_tbl_find)
  let ?new = "new_EngineTraceInfo mem n (c_now ctx)"
  define c where "c = ic_modify mem (\<lambda>x. x\<lparr>e_callstack := cs\<rparr>) (fst (ic_emplace ?new (m_cache e)))"
  define e1 where "e1 = e\<lparr>m_callstack_unwinder := Some v, m_cache := c\<rparr>"
  have tab: "cache_tbl c = (cache_tbl (m_cache e))(mem \<mapsto> (n, c_now ctx, recorded_frames ctx))"
    using cache_tbl_emplace [OF free(1)] v(3) by (simp add: c_def)
  obtain c0 where "ic_emplace ?new (m_cache e) = (c0, True)"
    using free(1) by (simp add: ic_emplace_def)
  then have "alloc_entry ctx mem n e = Some e1"
    using u v(1) by (simp add: alloc_entry_def c_def e1_def)
  moreover have "ic_inv c" using inv by (simp add: c_def engine_inv_def ic.invar_modify ic.invar_insert)
  with inv u v(2) tab free(2) have "engine_inv tbl sinv e1"
    by (auto simp: engine_inv_eq e1_def stable_def unwinder_ready_def intro!: disjoint_upd)
  moreover have "etable tbl e1 = (etable tbl e)(mem \<mapsto> (n, c_now ctx, recorded_frames ctx))"
    by (simp add: etable_eq e1_def stable_def tab)
  ultimately show ?thesis by (simp add: e1_def)
qed

context mapped_storage
begin

lemma DoHookAlloc_ok:
  assumes inv: "engine_inv tbl sinv e" and mem: "mem \<noteq> 0" and new: "etable tbl e mem = None"
  shows "\<exists>e'. DoHookAlloc ops ctx mem n e = Some e' \<and> engine_inv tbl sinv e' \<and>
           etable tbl e' = (etable tbl e)(mem \<mapsto> (n, c_now ctx, recorded_frames ctx))"
proof -
  from alloc_entry_ok [OF inv new, of ctx n] obtain e1 where e1: "alloc_entry ctx mem n e = Some e1"
    "engine_inv tbl sinv e1" "etable tbl e1 = (etable tbl e)(mem \<mapsto> (n, c_now ctx, recorded_frames ctx))"
    by blast
  from FlushLocalCache_ok [OF e1(2), of "c_unw ctx" "c_now ctx" "m_cache_flush_timeout e" False] mem e1
  show ?thesis by (auto simp: DoHookAlloc_entry)
qed

lemma DoHookFree_ok:
  assumes inv: "engine_inv tbl sinv e" and mem: "mem \<noteq> 0"
  shows "engine_inv tbl sinv (DoHookFree ops mem e) \<and>
         etable tbl (DoHookFree ops mem e) = (etable tbl e)(mem := None)"
proof (cases "ic_find mem (m_cache e)")
  case (Some x)
  then have "stable tbl e mem = None"
    using inv disjoint_lookup cache_tbl_find unfolding engine_inv_eq by (metis option.distinct(1))
  with inv mem Some show ?thesis
    by (auto simp: DoHookFree_def engine_inv_eq etable_eq stable_def cache_tbl_erase ic.invar_erase
        map_add_upd_right intro!: disjoint_del)
next
  case None
  then have c: "cache_tbl (m_cache e) mem = None" by (simp add: cache_tbl_find)
  show ?thesis
  proof (cases "m_storage e")
    case N: None
    with inv None mem c show ?thesis
      by (simp add: DoHookFree_def etable_eq stable_def fun_upd_idem)
  next
    case (Some s)
    with inv have "sinv s" by (simp add: engine_inv_eq)
    with Some None inv mem c show ?thesis
      by (auto simp: DoHookFree_def engine_inv_eq etable_eq stable_def tbl_Remove sinv_Remove
          map_add_upd_left_None intro!: disjoint_del)
  qed
qed

lemma DoHookUpdateSize_ok:
  assumes inv: "engine_inv tbl sinv e" and mem: "mem \<noteq> 0"
  shows "engine_inv tbl sinv (DoHookUpdateSize ops mem n e) \<and>
         etable tbl (DoHookUpdateSize ops mem n e) = tbl_resize mem n (etable tbl e)"
proof (cases "ic_find mem (m_cache e)")
  case (Some x)
  then obtain v where c: "cache_tbl (m_cache e) mem = Some v"
    by (metis cache_tbl_find not_None_eq)
  with inv mem Some show ?thesis
    by (auto simp: DoHookUpdateSize_def engine_inv_eq etable_eq stable_def cache_tbl_resize
        ic.invar_modify resize_add_right)
next
  case None
  then have c: "cache_tbl (m_cache e) mem = None" by (simp add: cache_tbl_find)
  show ?thesis
  proof (cases "m_storage e")
    case N: None
    with inv None mem c show ?thesis
      by (simp add: DoHookUpdateSize_def etable_eq stable_def tbl_resize_def fun_upd_idem)
  next
    case (Some s)
    with inv have "sinv s" by (simp add: engine_inv_eq)
    with Some None inv mem c show ?thesis
      by (auto simp: DoHookUpdateSize_def engine_inv_eq etable_eq stable_def tbl_UpdateSize
          sinv_UpdateSize resize_add_left)
  qed
qed

end

subsection \<open>Histories of hook calls\<close>

datatype hook_event =
    EvAlloc hook_ctx addr usize
  | EvFree addr
  | EvUpdateSize addr usize
  | EvRealloc hook_ctx addr addr usize
  | EvFlushCallStackCache

fun engine_step :: "'s storage_ops \<Rightarrow> hook_event \<Rightarrow> 's Engine \<Rightarrow> 's Engine option" where
  "engine_step ops (EvAlloc ctx a n) e = DoHookAlloc ops ctx a n e"
| "engine_step ops (EvFree a) e = Some (DoHookFree ops a e)"
| "engine_step ops (EvUpdateSize a n) e = Some (DoHookUpdateSize ops a n e)"
| "engine_step ops (EvRealloc ctx old_a new_a n) e = DoHookRealloc ops ctx old_a new_a n e"
| "engine_step ops EvFlushCallStackCache e = DoFlushCallStackCache e"

fun engine_run :: "'s storage_ops \<Rightarrow> hook_event list \<Rightarrow> 's Engine \<Rightarrow> 's Engine option" where
  "engine_run ops [] e = Some e"
| "engine_run ops (ev # evs) e = do { e \<leftarrow> engine_step ops ev e; engine_run ops evs e }"

text \<open>The abstract machine: a map of the live allocations.\<close>

definition spec_alloc :: "hook_ctx \<Rightarrow> addr \<Rightarrow> usize \<Rightarrow> table \<Rightarrow> table" where
  "spec_alloc ctx a n m = (if a = 0 then m else m(a \<mapsto> (n, c_now ctx, recorded_frames ctx)))"

definition spec_free :: "addr \<Rightarrow> table \<Rightarrow> table" where
  "spec_free a m = (if a = 0 then m else m(a := None))"

definition spec_resize :: "addr \<Rightarrow> usize \<Rightarrow> table \<Rightarrow> table" where
  "spec_resize a n m = (if a = 0 then m else tbl_resize a n m)"

fun spec_step :: "hook_event \<Rightarrow> table \<Rightarrow> table" where
  "spec_step (EvAlloc ctx a n) m = spec_alloc ctx a n m"
| "spec_step (EvFree a) m = spec_free a m"
| "spec_step (EvUpdateSize a n) m = spec_resize a n m"
| "spec_step (EvRealloc ctx old_a new_a n) m =
     (if old_a = new_a then spec_resize old_a n m
      else spec_alloc ctx new_a n (spec_free old_a m))"
| "spec_step EvFlushCallStackCache m = m"

fun spec_run :: "hook_event list \<Rightarrow> table \<Rightarrow> table" where
  "spec_run [] m = m"
| "spec_run (ev # evs) m = spec_run evs (spec_step ev m)"

text \<open>An allocator does not hand out an address that is still recorded as live.\<close>

fun event_ok :: "hook_event \<Rightarrow> table \<Rightarrow> bool" where
  "event_ok (EvAlloc ctx a n) m \<longleftrightarrow> a = 0 \<or> m a = None"
| "event_ok (EvRealloc ctx old_a new_a n) m \<longleftrightarrow>
     old_a = new_a \<or> new_a = 0 \<or> spec_free old_a m new_a = None"
| "event_ok _ m \<longleftrightarrow> True"

fun run_ok :: "hook_event list \<Rightarrow> table \<Rightarrow> bool" where
  "run_ok [] m \<longleftrightarrow> True"
| "run_ok (ev # evs) m \<longleftrightarrow> event_ok ev m \<and> run_ok evs (spec_step ev m)"

context mapped_storage
begin

lemma DoHookFree_spec:
  "engine_inv tbl sinv e \<Longrightarrow> engine_inv tbl sinv (DoHookFree ops a e) \<and>
     etable tbl (DoHookFree ops a e) = spec_free a (etable tbl e)"
  using DoHookFree_ok [of e a] by (cases "a = 0") (simp_all add: spec_free_def DoHookFree_def)

lemma DoHookUpdateSize_spec:
  "engine_inv tbl sinv e \<Longrightarrow> engine_inv tbl sinv (DoHookUpdateSize ops a n e) \<and>
     etable tbl (DoHookUpdateSize ops a n e) = spec_resize a n (etable tbl e)"
  using DoHookUpdateSize_ok [of e a n] by (cases "a = 0") (simp_all add: spec_resize_def DoHookUpdateSize_def)

lemma DoHookAlloc_spec:
  "engine_inv tbl sinv e \<Longrightarrow> a = 0 \<or> etable tbl e a = None \<Longrightarrow>
   \<exists>e'. DoHookAlloc ops ctx a n e = Some e' \<and> engine_inv tbl sinv e' \<and>
     etable tbl e' = spec_alloc ctx a n (etable tbl e)"
  using DoHookAlloc_ok [of e a ctx n] by (cases "a = 0") (auto simp: spec_alloc_def DoHookAlloc_def)

lemma DoFlushCallStackCache_spec:
  "engine_inv tbl sinv e \<Longrightarrow>
   \<exists>e'. DoFlushCallStackCache e = Some e' \<and> engine_inv tbl sinv e' \<and> etable tbl e' = etable tbl e"
  by (cases "m_callstack_unwinder e")
    (simp_all add: engine_inv_eq DoFlushCallStackCache_def unwinder_ready_def FlushUnwCache_def
      etable_eq stable_def)

lemma engine_step_ok:
  assumes "engine_inv tbl sinv e" "event_ok ev (etable tbl e)"
  shows "\<exists>e'. engine_step ops ev e = Some e' \<and> engine_inv tbl sinv e' \<and>
           etable tbl e' = spec_step ev (etable tbl e)"
proof (cases ev)
  case (EvRealloc ctx old_a new_a n)
  let ?e = "DoHookFree ops old_a e"
  have "engine_inv tbl sinv ?e \<and> etable tbl ?e = spec_free old_a (etable tbl e)"
    using assms(1) by (rule DoHookFree_spec)
  with DoHookAlloc_spec [of ?e new_a ctx n] EvRealloc assms show ?thesis
    by (auto simp: DoHookRealloc_def DoHookUpdateSize_spec)
qed (use assms in \<open>simp_all add: DoHookAlloc_spec DoHookFree_spec DoHookUpdateSize_spec
    DoFlushCallStackCache_spec\<close>)

lemma engine_run_ok:
  "engine_inv tbl sinv e \<Longrightarrow> run_ok evs (etable tbl e) \<Longrightarrow>
   \<exists>e'. engine_run ops evs e = Some e' \<and> engine_inv tbl sinv e' \<and>
     etable tbl e' = spec_run evs (etable tbl e)"
proof (induction evs arbitrary: e)
  case (Cons ev evs)
  then obtain e1 where "engine_step ops ev e = Some e1" "engine_inv tbl sinv e1"
      "etable tbl e1 = spec_step ev (etable tbl e)"
    using engine_step_ok [of e ev] by auto
  with Cons.prems(2) Cons.IH [of e1] show ?case by simp
qed simp

lemma OnDestroy_agree:
  assumes "ic_inv (m_cache e)" "unwinder_ready (m_callstack_unwinder e)" "m_storage e = Some s" "sinv s"
    and "\<And>x. x \<in> set (m_cache e) \<Longrightarrow> tbl s (address x) = None \<or> tbl s (address x) = Some (cache_view x)"
  shows "\<exists>s' e'. OnDestroy ops env now e = Some (Some s', e') \<and> sinv s' \<and> tbl s' = etable tbl e \<and>
           m_cache e' = []"
proof -
  let ?l = "by_timestamp (m_cache e)"
  obtain u' s' where f: "flush_items ops env (m_getprocinfo_policy e) ?l (m_callstack_unwinder e) s = Some (u', s')"
    "sinv s'" "tbl s' = tbl s ++ cache_tbl ?l"
    using flush_items_agree [of s ?l "m_callstack_unwinder e" env "m_getprocinfo_policy e"] assms by auto
  have "filter (\<lambda>x. address x \<notin> address ` set ?l) (m_cache e) = []" by (auto simp: filter_empty_conv)
  moreover from this cache_tbl_split [OF assms(1), of ?l] assms(1) have "cache_tbl ?l = cache_tbl (m_cache e)"
    by simp
  ultimately show ?thesis using f assms(3)
    by (simp add: OnDestroy_def FlushLocalCache_def flush_range_def Let_def etable_def sinv_Flush tbl_Flush)
qed

lemma OnDestroy_ok:
  assumes "engine_inv tbl sinv e" "m_storage e \<noteq> None"
  shows "\<exists>s e'. OnDestroy ops env now e = Some (Some s, e') \<and> sinv s \<and> tbl s = etable tbl e \<and>
           m_cache e' = []"
proof -
  from assms obtain s where s: "m_storage e = Some s" "sinv s" "dom (tbl s) \<inter> address ` set (m_cache e) = {}"
    by (auto simp: engine_inv_def dom_cache_tbl)
  with assms(1) show ?thesis by (intro OnDestroy_agree [OF _ _ s(1,2)]) (auto simp: engine_inv_def)
qed

end

lemma FlushLocalCache_storage:
  "FlushLocalCache ops env now timeout all e = Some e' \<Longrightarrow> m_storage e' = None \<longleftrightarrow> m_storage e = None"
  by (auto simp: FlushLocalCache_def Let_def bind_eq_Some_conv split: option.splits)

lemma engine_step_storage:
  "engine_step ops ev e = Some e' \<Longrightarrow> m_storage e' = None \<longleftrightarrow> m_storage e = None"
proof -
  have A: "DoHookAlloc ops ctx a n e = Some e' \<Longrightarrow> m_storage e' = None \<longleftrightarrow> m_storage e = None"
    for ctx a n e e'
    by (cases "ic_emplace (new_EngineTraceInfo a n (c_now ctx)) (m_cache e)")
      (auto simp: DoHookAlloc_def bind_eq_Some_conv split: if_splits dest!: FlushLocalCache_storage)
  have F: "m_storage (DoHookFree ops a e) = None \<longleftrightarrow> m_storage e = None" for a e
    by (simp add: DoHookFree_def split: option.split)
  have U: "m_storage (DoHookUpdateSize ops a n e) = None \<longleftrightarrow> m_storage e = None" for a n e
    by (simp add: DoHookUpdateSize_def split: option.split)
  have R: "DoHookRealloc ops ctx a b n e = Some e' \<Longrightarrow> m_storage e' = None \<longleftrightarrow> m_storage e = None"
    for ctx a b n using A [of ctx b n "DoHookFree ops a e" e'] F [of a e] U [of a n e]
    unfolding DoHookRealloc_def by (cases "a = b") simp_all
  have C: "DoFlushCallStackCache e = Some e' \<Longrightarrow> m_storage e' = None \<longleftrightarrow> m_storage e = None"
    by (auto simp: DoFlushCallStackCache_def bind_eq_Some_conv)
  assume "engine_step ops ev e = Some e'"
  then show ?thesis by (cases ev) (use A R F U C in auto)
qed

lemma engine_run_storage:
  "engine_run ops evs e = Some e' \<Longrightarrow> m_storage e' = None \<longleftrightarrow> m_storage e = None"
  by (induction evs arbitrary: e) (auto simp: bind_eq_Some_conv dest: engine_step_storage)

text \<open>
  C3. The engine is a faithful record of the live allocations: when the cache of the unwinder
  has a size other than 0 (part of the engine's invariant), then for every history of hook calls in which the allocator never hands out an address that is still live, and
  for the shared-memory storage, every call returns, the invariant holds at the end, and
  cache and storage together hold exactly the allocations that were made and not freed,
  with their latest size, their time and their call stack.
\<close>

theorem engine_refines_live_table:
  assumes "engine_inv bms_tbl bms_inv e" and "run_ok evs (etable bms_tbl e)"
  shows "\<exists>e'. engine_run bms_ops evs e = Some e' \<and> engine_inv bms_tbl bms_inv e' \<and>
           etable bms_tbl e' = spec_run evs (etable bms_tbl e)"
  using assms by (rule bms.engine_run_ok)

text \<open>
  A concrete engine on an empty shared-memory storage, and a history in which the second
  allocation comes ten seconds after the first and so flushes it to the storage.
\<close>

definition demo_unw :: unw_env where
  "demo_unw = \<lparr>unw_get_proc_name = (\<lambda>i. Some (''f'', 4)),
     unw_accessor_get_proc_name = Some (\<lambda>i. Some (''f'', 4)), dladdr = (\<lambda>i. Some (0x400000, Some ''a.out''))\<rparr>"

definition demo_ctx :: "time \<Rightarrow> hook_ctx" where
  "demo_ctx t = \<lparr>c_now = t, c_frames = [(1, 100), (2, 200), (3, 300), (4, 400), (0, 0)], c_unw = demo_unw\<rparr>"

definition demo_engine :: "BasicMappedStorage Engine" where
  "demo_engine = OnInitialize [] (\<lambda>c. Some (new_BasicMappedStorage ''ShmMemHook'' (ipc_size_of []))) (\<lambda>s. None)"

definition demo_history :: "hook_event list" where
  "demo_history = [EvAlloc (demo_ctx 0) 4096 16, EvAlloc (demo_ctx (10 * 10 ^ 9)) 8192 32,
     EvUpdateSize 4096 24, EvFlushCallStackCache, EvAlloc (demo_ctx (11 * 10 ^ 9)) 12288 64, EvFree 8192]"

lemma engine_inv_OnInitialize:
  assumes "create (NewStorage e) = Some s" "sinv s" "0 < m_cache_max_size (new_Unwinder e)"
  shows "engine_inv tbl sinv (OnInitialize e create pd) \<and> etable tbl (OnInitialize e create pd) = tbl s"
  using assms by (simp add: engine_inv_eq etable_eq stable_def OnInitialize_def unwinder_ready_def ic_inv_def)

lemma demo_engine_inv: "engine_inv bms_tbl bms_inv demo_engine"
  and demo_engine_tbl: "etable bms_tbl demo_engine = Map.empty"
  using engine_inv_OnInitialize [of "\<lambda>c. Some (new_BasicMappedStorage ''ShmMemHook'' (ipc_size_of []))"
      "[]" "new_BasicMappedStorage ''ShmMemHook'' (ipc_size_of [])" bms_inv bms_tbl "\<lambda>s. None"]
  by (simp_all add: demo_engine_def new_Unwinder_def getenv_def)

lemma demo_recorded: "recorded_frames (demo_ctx t) = [(3, 300), (4, 400)]"
  by (simp add: recorded_frames_def demo_ctx_def)

lemma demo_run_ok: "run_ok demo_history Map.empty"
  by (simp add: demo_history_def spec_alloc_def spec_resize_def spec_free_def tbl_resize_def)

lemma demo_spec_run:
  "spec_run demo_history Map.empty =
     [4096 \<mapsto> (24, 0, [(3, 300), (4, 400)]), 12288 \<mapsto> (64, 11 * 10 ^ 9, [(3, 300), (4, 400)])]"
  by (simp add: demo_history_def spec_alloc_def spec_resize_def spec_free_def tbl_resize_def
      demo_recorded) (simp add: demo_ctx_def fun_eq_iff)

theorem engine_refines_live_table_witness:
  "engine_inv bms_tbl bms_inv demo_engine \<and> run_ok demo_history (etable bms_tbl demo_engine) \<and>
   (\<exists>e'. engine_run bms_ops demo_history demo_engine = Some e' \<and> engine_inv bms_tbl bms_inv e' \<and>
      etable bms_tbl e' =
        [4096 \<mapsto> (24, 0, [(3, 300), (4, 400)]), 12288 \<mapsto> (64, 11 * 10 ^ 9, [(3, 300), (4, 400)])])"
  using engine_refines_live_table [OF demo_engine_inv, of demo_history]
  by (simp only: demo_engine_tbl demo_run_ok demo_spec_run demo_engine_inv simp_thms)

text \<open>
  Nothing is lost between the cache and the database: an engine that starts on a
  fresh storage, serves a history of hooks and is destroyed leaves in the storage exactly
  the allocations that are still live. The cache size of the unwinder must not be
  configured to 0.
\<close>

theorem engine_session_persisted:
  assumes "create (NewStorage env) = Some (new_BasicMappedStorage name n)"
    and "0 < m_cache_max_size (new_Unwinder env)" and "run_ok evs Map.empty"
  shows "\<exists>e e' s. engine_run bms_ops evs (OnInitialize env create pd) = Some e \<and>
           OnDestroy bms_ops unw now e = Some (Some s, e') \<and> m_cache e' = [] \<and>
           bms_tbl s = spec_run evs Map.empty"
proof -
  let ?e0 = "OnInitialize env create pd"
  have "engine_inv bms_tbl bms_inv ?e0" "etable bms_tbl ?e0 = Map.empty"
    using engine_inv_OnInitialize [of create env _ bms_inv bms_tbl pd] assms by simp_all
  with bms.engine_run_ok [of ?e0 evs] assms(3) obtain e where e: "engine_run bms_ops evs ?e0 = Some e"
      "engine_inv bms_tbl bms_inv e" "etable bms_tbl e = spec_run evs Map.empty" by auto
  moreover have "m_storage e \<noteq> None"
    using engine_run_storage [OF e(1)] assms(1) by (simp add: OnInitialize_def)
  ultimately show ?thesis using bms.OnDestroy_ok [of e unw now] by auto
qed


theorem engine_session_persisted_witness:
  "(\<lambda>c. Some (new_BasicMappedStorage ''ShmMemHook'' 4096)) (NewStorage []) =
     Some (new_BasicMappedStorage ''ShmMemHook'' 4096) \<and>
   0 < m_cache_max_size (new_Unwinder []) \<and> run_ok demo_history Map.empty \<and>
   (\<exists>e e' s. engine_run bms_ops demo_history
        (OnInitialize [] (\<lambda>c. Some (new_BasicMappedStorage ''ShmMemHook'' 4096)) (\<lambda>s. None)) = Some e \<and>
      OnDestroy bms_ops demo_unw (12 * 10 ^ 9) e = Some (Some s, e') \<and> m_cache e' = [] \<and>
      bms_tbl s = [4096 \<mapsto> (24, 0, [(3, 300), (4, 400)]), 12288 \<mapsto> (64, 11 * 10 ^ 9, [(3, 300), (4, 400)])])"
proof -
  have "0 < m_cache_max_size (new_Unwinder [])" by (simp add: new_Unwinder_def getenv_def)
  with engine_session_persisted [of "\<lambda>c. Some (new_BasicMappedStorage ''ShmMemHook'' 4096)" "[]"
      "''ShmMemHook''" 4096 demo_history "\<lambda>s. None" demo_unw "12 * 10 ^ 9"]
  show ?thesis by (simp only: demo_run_ok demo_spec_run simp_thms)
qed

lemma takeWhile_sorted_bound:
  fixes f :: "'a \<Rightarrow> 'b :: linorder"
  assumes "sorted (map f xs)" "take n (takeWhile (\<lambda>x. f x < d) xs) = ys" "xs = ys @ zs"
    and "length ys < n" "z \<in> set zs"
  shows "d \<le> f z"
proof -
  have ys: "ys = takeWhile (\<lambda>x. f x < d) xs" using assms(2,4) by (auto simp: min_def split: if_splits)
  then have zs: "zs = dropWhile (\<lambda>x. f x < d) xs"
    using assms(3) by (metis append_same_eq same_append_eq takeWhile_dropWhile_id)
  with assms(5) have "\<not> f (hd zs) < d" by (metis hd_dropWhile list.discI empty_iff list.set(1))
  moreover have "f (hd zs) \<le> f z"
    using assms(1,3,5) by (cases zs) (auto simp: sorted_append)
  ultimately show ?thesis by simp
qed

lemma flush_range_split:
  assumes "ic_inv (m_cache e)"
  obtains kept where "by_timestamp (m_cache e) = flush_range now timeout all e @ kept"
    and "mset (filter (\<lambda>x. address x \<notin> address ` set (flush_range now timeout all e)) (m_cache e)) = mset kept"
proof -
  let ?L = "by_timestamp (m_cache e)" and ?items = "flush_range now timeout all e"
  let ?p = "\<lambda>x. address x \<notin> address ` set ?items"
  obtain kept where L: "?L = ?items @ kept"
  proof -
    have "take n (takeWhile P xs) = take (min n (length (takeWhile P xs))) xs" for n P and xs :: "'b list"
      by (metis takeWhile_eq_take take_take)
    then have "\<exists>k. ?items = take k ?L" unfolding flush_range_def by (metis take_all order_refl)
    then show thesis using that by (metis append_take_drop_id)
  qed
  have "distinct (map address ?L)" using assms by (simp flip: ic_inv_def)
  then have "filter ?p ?L = kept"
    unfolding L by (auto simp: filter_id_conv)
  moreover have "mset (filter ?p (m_cache e)) = mset (filter ?p ?L)"
    by (simp add: by_timestamp_def)
  ultimately show thesis using L that by metis
qed

text \<open>
  C27. What an alloc hook flushes: only records older than the configured interval, at most
  the configured number, in order of time and never a record newer than one that stays;
  when the limit was not reached, no record older than the interval stays in the cache.
  A hook at a later time therefore never lets an old record wait behind a newer one. This is
  the flush of an alloc hook, not the one at the end, which takes everything; the time and
  the interval in nanoseconds are within the range of the clock.
\<close>

theorem flush_oldest_first:
  assumes "engine_inv tbl sinv e" and "m_storage e \<noteq> None"
    and "FlushLocalCache ops env now timeout False e = Some e'"
    and "items = flush_range now timeout False e" and "clock_time now" and "clock_time (timeout * 10 ^ 9)"
  shows "mset (m_cache e) = mset items + mset (m_cache e') \<and>
         sorted (map timestamp items) \<and>
         length items \<le> unat (m_cache_flush_max_items e) \<and>
         (\<forall>x\<in>set items. timestamp x < now - timeout * 10 ^ 9) \<and>
         (\<forall>x\<in>set items. \<forall>y\<in>set (m_cache e'). timestamp x \<le> timestamp y) \<and>
         (length items < unat (m_cache_flush_max_items e) \<longrightarrow>
           (\<forall>y\<in>set (m_cache e'). now - timeout * 10 ^ 9 \<le> timestamp y))"
proof -
  have inv: "ic_inv (m_cache e)" using assms(1) by (simp add: engine_inv_def)
  obtain kept where kept: "by_timestamp (m_cache e) = items @ kept"
      "mset (filter (\<lambda>x. address x \<notin> address ` set items) (m_cache e)) = mset kept"
    using flush_range_split [OF inv, of now timeout False] assms(4) by metis
  have e': "m_cache e' = filter (\<lambda>x. address x \<notin> address ` set items) (m_cache e)"
    using assms(2-4) by (auto simp: FlushLocalCache_def Let_def bind_eq_Some_conv)
  have set: "set (m_cache e') = set kept" using kept(2) e' mset_eq_setD by metis
  have sorted: "sorted (map timestamp (items @ kept))"
    using kept(1) by (metis by_timestamp_def sorted_sort_key)
  have items: "items = take (unat (m_cache_flush_max_items e))
      (takeWhile (\<lambda>x. timestamp x < now - timeout * 10 ^ 9) (by_timestamp (m_cache e)))"
    using assms(4) clock_diff [OF assms(5,6)] wrap64_id [of "timeout * 10 ^ 9"] assms(6)
    by (simp add: flush_range_def clock_time_def int64_ok_def)
  have "mset (by_timestamp (m_cache e)) = mset (m_cache e)" by (simp add: by_timestamp_def)
  then have "mset (m_cache e) = mset items + mset (m_cache e')" using kept e' by simp
  moreover have "length items \<le> unat (m_cache_flush_max_items e)"
      "\<forall>x\<in>set items. timestamp x < now - timeout * 10 ^ 9"
    unfolding items by (auto dest!: in_set_takeD set_takeWhileD)
  moreover have "length items < unat (m_cache_flush_max_items e) \<Longrightarrow> y \<in> set (m_cache e') \<Longrightarrow>
      now - timeout * 10 ^ 9 \<le> timestamp y" for y
    using takeWhile_sorted_bound [OF _ items [symmetric] kept(1)] sorted kept(1) set by metis
  ultimately show ?thesis using sorted set by (auto simp: sorted_append)
qed

definition demo_cached :: "BasicMappedStorage Engine" where
  "demo_cached = demo_engine\<lparr>m_cache := [new_EngineTraceInfo 8192 32 (10 * 10 ^ 9), new_EngineTraceInfo 4096 16 5]\<rparr>"

lemma demo_cached_inv: "engine_inv bms_tbl bms_inv demo_cached" "m_storage demo_cached \<noteq> None"
  by (simp_all add: demo_cached_def demo_engine_def OnInitialize_def engine_inv_def unwinder_ready_def
      new_Unwinder_def getenv_def ic_inv_def)

lemma demo_cached_range:
  "flush_range (10 * 10 ^ 9) 2 False demo_cached = [new_EngineTraceInfo 4096 16 5]"
  by (simp add: flush_range_def demo_cached_def by_timestamp_def demo_engine_def OnInitialize_def getenv_def
      unsigned_minus_1_eq_mask mask_eq_exp_minus_1)

theorem flush_oldest_first_witness:
  "\<exists>e'. engine_inv bms_tbl bms_inv demo_cached \<and> m_storage demo_cached \<noteq> None \<and>
     FlushLocalCache bms_ops demo_unw (10 * 10 ^ 9) 2 False demo_cached = Some e' \<and>
     mset (m_cache demo_cached) = mset [new_EngineTraceInfo 4096 16 5] + mset (m_cache e') \<and>
     (\<forall>y\<in>set (m_cache e'). 5 \<le> timestamp y)"
proof -
  obtain e' where e': "FlushLocalCache bms_ops demo_unw (10 * 10 ^ 9) 2 False demo_cached = Some e'"
    using bms.FlushLocalCache_ok [OF demo_cached_inv(1), of demo_unw "10 * 10 ^ 9" 2 False] by blast
  have "clock_time (10 * 10 ^ 9)" "clock_time (2 * 10 ^ 9)" by (simp_all add: clock_time_def)
  from flush_oldest_first [OF demo_cached_inv e' demo_cached_range [symmetric] this] e' demo_cached_inv
  show ?thesis by auto
qed

end
