(* ===== verification/Segments.thy ===== *)
theory Segments
  imports Engine
begin

text \<open>
  The life of a mapped segment: the cleaners of \<^verbatim>\<open>include/memhook/mmf_mapping_traits.h\<close> and
  \<^verbatim>\<open>include/memhook/shm_mapping_traits.h\<close>, the construction and destruction of a storage with
  its segment (\<^verbatim>\<open>src/memhookcore/basic_mapped_storage.h\<close>, \<^verbatim>\<open>mmf_mapped_storage.cpp\<close>,
  \<^verbatim>\<open>shm_mapped_storage.cpp\<close>), and opening a segment to read it
  (\<^verbatim>\<open>src/memview/basic_mapped_view.h\<close>).

  \<open>segments\<close> is what exists on the machine: the mapped files and the shared memory objects by
  name, each with the named objects constructed in it (here containers).
\<close>

datatype segment_kind = MMF | SHM

type_synonym segment = "string \<rightharpoonup> MappedContainer"

record segments =
  sg_files :: "string \<rightharpoonup> segment"
  sg_shm :: "string \<rightharpoonup> segment"

definition seg_lookup :: "segment_kind \<Rightarrow> string \<Rightarrow> segments \<Rightarrow> segment option" where
  "seg_lookup kind name g = (case kind of MMF \<Rightarrow> sg_files g name | SHM \<Rightarrow> sg_shm g name)"

definition seg_put :: "segment_kind \<Rightarrow> string \<Rightarrow> segment option \<Rightarrow> segments \<Rightarrow> segments" where
  "seg_put kind name x g =
     (case kind of MMF \<Rightarrow> g\<lparr>sg_files := (sg_files g)(name := x)\<rparr> | SHM \<Rightarrow> g\<lparr>sg_shm := (sg_shm g)(name := x)\<rparr>)"

text \<open>\<^verbatim>\<open>file_mapping::remove\<close> and \<^verbatim>\<open>shared_memory_object::remove\<close>\<close>

definition MappingCleaner :: "segment_kind \<Rightarrow> string \<Rightarrow> segments \<Rightarrow> segments" where
  "MappingCleaner kind name g = seg_put kind name None g"

definition MappingCleaner_end :: "segment_kind \<Rightarrow> string \<Rightarrow> segments \<Rightarrow> segments" where
  "MappingCleaner_end kind name g = (case kind of MMF \<Rightarrow> g | SHM \<Rightarrow> seg_put kind name None g)"

definition MEMHOOK_SHARED_CONTAINER :: string where
  "MEMHOOK_SHARED_CONTAINER = ''ShmContainer''"

text \<open>
  Construction: the cleaner removes what is there, then the segment is created, which fails
  (\<open>None\<close>: the constructor throws) when it exists or cannot be created with that size, and
  the container is constructed in it.
\<close>

definition storage_open ::
    "(segment_kind \<Rightarrow> string \<Rightarrow> usize \<Rightarrow> bool) \<Rightarrow> segment_kind \<Rightarrow> string \<Rightarrow> string \<Rightarrow> usize \<Rightarrow> segments \<Rightarrow>
     BasicMappedStorage option \<times> segments" where
  "storage_open can_create kind container_name name n g =
     (let g = MappingCleaner kind name g in
      if can_create kind name n \<and> seg_lookup kind name g = None
      then (Some (new_BasicMappedStorage name n), seg_put kind name (Some [container_name \<mapsto> new_MappedContainer]) g)
      else (None, MappingCleaner_end kind name g))"

text \<open>The storage works in its segment: what it holds is what the segment holds.\<close>

definition storage_sync :: "segment_kind \<Rightarrow> string \<Rightarrow> string \<Rightarrow> BasicMappedStorage \<Rightarrow> segments \<Rightarrow> segments" where
  "storage_sync kind container_name name st g = seg_put kind name (Some [container_name \<mapsto> m_container st]) g"

definition storage_close :: "segment_kind \<Rightarrow> string \<Rightarrow> segments \<Rightarrow> segments" where
  "storage_close kind name g = MappingCleaner_end kind name g"

definition NewMMFMappedStorage ::
    "(segment_kind \<Rightarrow> string \<Rightarrow> usize \<Rightarrow> bool) \<Rightarrow> string \<Rightarrow> usize \<Rightarrow> segments \<Rightarrow> BasicMappedStorage option \<times> segments" where
  "NewMMFMappedStorage can_create path n = storage_open can_create MMF MEMHOOK_SHARED_CONTAINER path n"

definition NewSHMMappedStorage ::
    "(segment_kind \<Rightarrow> string \<Rightarrow> usize \<Rightarrow> bool) \<Rightarrow> string \<Rightarrow> usize \<Rightarrow> segments \<Rightarrow> BasicMappedStorage option \<times> segments" where
  "NewSHMMappedStorage can_create name n = storage_open can_create SHM MEMHOOK_SHARED_CONTAINER name n"

text \<open>
  A reader opens an existing segment (\<open>None\<close>: the constructor throws) and looks for the
  container, which gives a null pointer when it is not there.
\<close>

definition new_BasicMappedView :: "segment_kind \<Rightarrow> string \<Rightarrow> segments \<Rightarrow> MappedContainer option option" where
  "new_BasicMappedView kind name g = map_option (\<lambda>seg. seg MEMHOOK_SHARED_CONTAINER) (seg_lookup kind name g)"

lemma seg_lookup_put [simp]: "seg_lookup k n (seg_put k' n' x g) = (if k = k' \<and> n = n' then x else seg_lookup k n g)"
  by (auto simp: seg_lookup_def seg_put_def split: segment_kind.splits)

lemma storage_open_eq:
  "storage_open can kind cn name n g =
     (if can kind name n then (Some (new_BasicMappedStorage name n), seg_put kind name (Some [cn \<mapsto> new_MappedContainer])
         (MappingCleaner kind name g))
      else (None, MappingCleaner_end kind name (MappingCleaner kind name g)))"
  by (simp add: storage_open_def Let_def MappingCleaner_def)

lemma view_after_close:
  "new_BasicMappedView kind name (storage_close kind name (storage_sync kind MEMHOOK_SHARED_CONTAINER name st g)) =
     (case kind of MMF \<Rightarrow> Some (Some (m_container st)) | SHM \<Rightarrow> None)"
  by (cases kind)
    (simp_all add: new_BasicMappedView_def storage_close_def storage_sync_def MappingCleaner_end_def)

end
