(* ===== verification/Memdb_Server.thy ===== *)
theory Memdb_Server
  imports Memdb_Session Storage_Creator Segments
begin

text \<open>
  The database server, \<^verbatim>\<open>src/memdb/memdb_server.cpp\<close>: connections are accepted one after the
  other, each with a session of its own, and all sessions open their storages through one
  creator. What the sessions share is the name space of segments: \<open>sv_names\<close> gives the
  segment of a name and \<open>sv_content\<close> the container in a segment, which outlives its name when
  another storage takes the name. The kind of segment says where names live: the creator asks
  the file system whether a name is in use, and only mapped files are there.

  A request is the unit of work here; \<^verbatim>\<open>Memdb_Session\<close> shows that the bytes of a connection are
  its requests in order. Opening a storage has two steps, the choice of a name and the
  creation of the segment, so that the handlers of two connections on different service
  threads can be interleaved there.
\<close>

record memdb_env =
  sv_kind :: segment_kind
  sv_creator :: BasicMappedStorageCreator
  sv_fs :: fs_env
  sv_getpid :: u32
  sv_can_create :: "string \<Rightarrow> usize \<Rightarrow> bool"

record memdb_conn =
  cn_session :: "BasicMappedStorage MemDBSession"
  cn_segment :: "nat option"
  cn_creating :: "string option"

record memdb_server =
  sv_names :: "string \<rightharpoonup> nat"
  sv_content :: "nat \<rightharpoonup> MappedContainer"
  sv_next_segment :: nat
  sv_conns :: "nat \<rightharpoonup> memdb_conn"
  sv_accepting :: nat
  sv_next_conn :: nat

subsection \<open>Accepting\<close>

definition StartAccept :: "memdb_server \<Rightarrow> memdb_server" where
  "StartAccept s = s\<lparr>sv_accepting := sv_next_conn s, sv_next_conn := Suc (sv_next_conn s)\<rparr>"

definition new_conn :: memdb_conn where
  "new_conn = \<lparr>cn_session = new_MemDBSession, cn_segment = None, cn_creating = None\<rparr>"

definition HandleAccept :: "bool \<Rightarrow> memdb_server \<Rightarrow> memdb_server" where
  "HandleAccept error s =
     StartAccept (if error then s else s\<lparr>sv_conns := (sv_conns s)(sv_accepting s \<mapsto> new_conn)\<rparr>)"

definition new_MemDBServer :: memdb_server where
  "new_MemDBServer = StartAccept \<lparr>sv_names = Map.empty, sv_content = Map.empty, sv_next_segment = 0,
     sv_conns = Map.empty, sv_accepting = 0, sv_next_conn = 0\<rparr>"

subsection \<open>Storages of the sessions\<close>

text \<open>The destructor of a storage; a session without a storage has nothing to destroy.\<close>

definition destroy_storage :: "memdb_env \<Rightarrow> BasicMappedStorage option \<Rightarrow> memdb_server \<Rightarrow> memdb_server" where
  "destroy_storage e st s =
     (case (st, sv_kind e) of (Some st, SHM) \<Rightarrow> s\<lparr>sv_names := (sv_names s)(m_name st := None)\<rparr> | _ \<Rightarrow> s)"

definition fs_now :: "memdb_env \<Rightarrow> memdb_server \<Rightarrow> fs_env" where
  "fs_now e s = (sv_fs e)\<lparr>fs_exists := \<lambda>p. fs_exists (sv_fs e) p \<or> sv_kind e = MMF \<and> sv_names s p \<noteq> None\<rparr>"

datatype server_error = Hang | Crash session_error

text \<open>The first half of \<^verbatim>\<open>BasicMappedStorageCreator::New\<close>: the name.\<close>

definition choose_name :: "memdb_env \<Rightarrow> nat \<Rightarrow> addr \<Rightarrow> memdb_conn \<Rightarrow> memdb_server \<Rightarrow> server_error + memdb_server" where
  "choose_name e i pid c s =
     (case GenerateUniquePath (fs_now e s) (sv_getpid e) (bc_path (sv_creator e)) pid of
        None \<Rightarrow> Inl Hang
      | Some path \<Rightarrow> Inr (s\<lparr>sv_conns := (sv_conns s)(i \<mapsto> c\<lparr>cn_creating := Some path\<rparr>)\<rparr>))"

text \<open>
  The second half: the cleaner removes the name, the segment is created, and the session
  destroys the storage it had. When the creation fails, the exception ends the server.
\<close>

definition create_segment :: "memdb_env \<Rightarrow> nat \<Rightarrow> string \<Rightarrow> memdb_conn \<Rightarrow> memdb_server \<Rightarrow> server_error + memdb_server" where
  "create_segment e i path c s =
     (let s = s\<lparr>sv_names := (sv_names s)(path := None)\<rparr> in
      if sv_can_create e path (bc_size (sv_creator e))
      then let g = sv_next_segment s;
               st = new_BasicMappedStorage path (bc_size (sv_creator e));
               old = storage (cn_session c);
               s = s\<lparr>sv_names := (sv_names s)(path \<mapsto> g), sv_content := (sv_content s)(g \<mapsto> m_container st),
                     sv_next_segment := Suc g,
                     sv_conns := (sv_conns s)(i \<mapsto> \<lparr>cn_session = (cn_session c)\<lparr>storage := Some st\<rparr>,
                                                    cn_segment = Some g, cn_creating = None\<rparr>)\<rparr>
           in Inr (destroy_storage e old s)
      else Inl (Crash CreatorThrows))"

definition close_conn :: "memdb_env \<Rightarrow> nat \<Rightarrow> memdb_conn \<Rightarrow> memdb_server \<Rightarrow> memdb_server" where
  "close_conn e i c s = destroy_storage e (storage (cn_session c)) (s\<lparr>sv_conns := (sv_conns s)(i := None)\<rparr>)"

definition put_session :: "nat \<Rightarrow> memdb_conn \<Rightarrow> BasicMappedStorage MemDBSession \<Rightarrow> memdb_server \<Rightarrow> memdb_server" where
  "put_session i c se s =
     s\<lparr>sv_conns := (sv_conns s)(i \<mapsto> c\<lparr>cn_session := se\<rparr>),
       sv_content := (case (cn_segment c, storage se) of
          (Some g, Some st) \<Rightarrow> (sv_content s)(g \<mapsto> m_container st) | _ \<Rightarrow> sv_content s)\<rparr>"

text \<open>Any other request is handled by the session alone.\<close>

definition serve_other :: "memdb_env \<Rightarrow> nat \<Rightarrow> NetRequest \<Rightarrow> memdb_conn \<Rightarrow> memdb_server \<Rightarrow> server_error + memdb_server" where
  "serve_other e i r c s =
     (case HandleNetRequest bms_ops (\<lambda>_. None) r (cn_session c) of
        Inl err \<Rightarrow> Inl (Crash err)
      | Inr (True, se) \<Rightarrow> Inr (put_session i c se s)
      | Inr (False, se) \<Rightarrow> Inr (close_conn e i (c\<lparr>cn_session := se\<rparr>) s))"

subsection \<open>One service thread\<close>

text \<open>With one service thread a handler runs to its end before the next one.\<close>

datatype server_event = Accept bool | Request nat NetRequest | Hangup nat

definition server_open :: "memdb_env \<Rightarrow> nat \<Rightarrow> addr \<Rightarrow> memdb_conn \<Rightarrow> memdb_server \<Rightarrow> server_error + memdb_server" where
  "server_open e i pid c s =
     (case choose_name e i pid c s of
        Inl err \<Rightarrow> Inl err
      | Inr s \<Rightarrow> (case sv_conns s i of
                   Some c \<Rightarrow> (case cn_creating c of Some path \<Rightarrow> create_segment e i path c s | None \<Rightarrow> Inr s)
                 | None \<Rightarrow> Inr s))"

fun server_step :: "memdb_env \<Rightarrow> server_event \<Rightarrow> memdb_server \<Rightarrow> server_error + memdb_server" where
  "server_step e (Accept error) s = Inr (HandleAccept error s)"
| "server_step e (Request i r) s =
     (case sv_conns s i of
        None \<Rightarrow> Inr s
      | Some c \<Rightarrow>
          if r_type r = kNetReqNewStorage then server_open e i (address (r_traceinfo r)) c s else serve_other e i r c s)"
| "server_step e (Hangup i) s = (case sv_conns s i of None \<Rightarrow> Inr s | Some c \<Rightarrow> Inr (close_conn e i c s))"

fun server_run :: "memdb_env \<Rightarrow> server_event list \<Rightarrow> memdb_server \<Rightarrow> server_error + memdb_server" where
  "server_run e [] s = Inr s"
| "server_run e (ev # evs) s = (case server_step e ev s of Inl err \<Rightarrow> Inl err | Inr s \<Rightarrow> server_run e evs s)"

subsection \<open>Sessions on mapped files do not meet\<close>

text \<open>
  A session with a storage is the one whose container is in the file of that name, and that
  file was not there before the server made it.
\<close>

definition conn_ok :: "memdb_env \<Rightarrow> memdb_server \<Rightarrow> memdb_conn \<Rightarrow> bool" where
  "conn_ok e s c \<longleftrightarrow> cn_creating c = None \<and>
     (case storage (cn_session c) of
        None \<Rightarrow> cn_segment c = None
      | Some st \<Rightarrow> (case cn_segment c of
           None \<Rightarrow> False
         | Some g \<Rightarrow> g < sv_next_segment s \<and> sv_names s (m_name st) = Some g \<and>
             sv_content s g = Some (m_container st) \<and> \<not> fs_exists (sv_fs e) (m_name st)))"

definition server_inv :: "memdb_env \<Rightarrow> memdb_server \<Rightarrow> bool" where
  "server_inv e s \<longleftrightarrow>
     (\<forall>i c. sv_conns s i = Some c \<longrightarrow> conn_ok e s c) \<and>
     (\<forall>i j c d g. sv_conns s i = Some c \<and> sv_conns s j = Some d \<and> cn_segment c = Some g \<and> cn_segment d = Some g \<longrightarrow> i = j) \<and>
     (\<forall>p g. sv_names s p = Some g \<longrightarrow> g < sv_next_segment s) \<and>
     finite (dom (sv_names s)) \<and> card (dom (sv_names s)) \<le> sv_next_segment s"

lemma bms_name:
  "m_name (bms_Add a n cs t st) = m_name st" "m_name (snd (bms_Remove a st)) = m_name st"
  "m_name (snd (bms_UpdateSize a n st)) = m_name st"
  by (auto simp: bms_Add_def bms_Remove_def bms_UpdateSize_def Let_def split: option.splits)

lemma HandleNetRequest_other:
  assumes "r_type r \<noteq> kNetReqNewStorage" "HandleNetRequest bms_ops creator r se = Inr (b, se')"
  shows "if b then \<exists>st st'. storage se = Some st \<and> storage se' = Some st' \<and> m_name st' = m_name st else se' = se"
  using assms
  by (auto simp: HandleNetRequest_def OnAdd_def OnRemove_def OnUpdateSize_def bms_ops_def bms_name
      split: if_splits option.splits)

lemma conn_ok_frame:
  "sv_names s' = sv_names s \<Longrightarrow> sv_content s' = sv_content s \<Longrightarrow> sv_next_segment s' = sv_next_segment s \<Longrightarrow>
   conn_ok e s' c = conn_ok e s c"
  by (simp add: conn_ok_def split: option.splits)

lemma server_inv_conns:
  assumes "server_inv e s" "sv_names s' = sv_names s" "sv_content s' = sv_content s" "sv_next_segment s' = sv_next_segment s"
    "\<And>i c. sv_conns s' i = Some c \<Longrightarrow> sv_conns s i = Some c \<or> c = new_conn"
  shows "server_inv e s'"
proof -
  have n: "conn_ok e s new_conn" "cn_segment new_conn = None"
    by (simp_all add: conn_ok_def new_conn_def new_MemDBSession_def)
  from assms(1) have inv: "\<And>i c. sv_conns s i = Some c \<Longrightarrow> conn_ok e s c"
    "\<And>i j c d g. sv_conns s i = Some c \<Longrightarrow> sv_conns s j = Some d \<Longrightarrow> cn_segment c = Some g \<Longrightarrow> cn_segment d = Some g \<Longrightarrow> i = j"
    unfolding server_inv_def by blast+
  have "conn_ok e s' c" if "sv_conns s' i = Some c" for i c
    using assms(5) [OF that] inv(1) n(1) conn_ok_frame [OF assms(2-4)] by blast
  moreover have "i = j" if "sv_conns s' i = Some c" "sv_conns s' j = Some d" "cn_segment c = Some g" "cn_segment d = Some g"
    for i j c d g
  proof -
    from assms(5) [OF that(1)] assms(5) [OF that(2)] that n(2) have "sv_conns s i = Some c" "sv_conns s j = Some d" by auto
    with inv(2) that show ?thesis by blast
  qed
  ultimately show ?thesis using assms(1-4) unfolding server_inv_def by (metis (no_types, lifting))
qed

lemma new_server_inv: "server_inv e new_MemDBServer"
  by (simp add: server_inv_def new_MemDBServer_def StartAccept_def)

lemma accept_inv: "server_inv e s \<Longrightarrow> server_inv e (HandleAccept error s)"
  by (erule server_inv_conns) (auto simp: HandleAccept_def StartAccept_def split: if_splits)

lemma destroy_mapped_file: "sv_kind e = MMF \<Longrightarrow> destroy_storage e st s = s"
  by (simp add: destroy_storage_def split: option.splits)

lemma close_inv: "sv_kind e = MMF \<Longrightarrow> server_inv e s \<Longrightarrow> server_inv e (close_conn e i c s)"
  by (erule server_inv_conns) (auto simp: close_conn_def destroy_mapped_file split: if_splits)

text \<open>A session whose segment no other session has changes its own connection and segment only.\<close>

lemma server_inv_update:
  assumes inv: "server_inv e s"
    and g: "\<And>j d. sv_conns s j = Some d \<Longrightarrow> j \<noteq> i \<Longrightarrow> cn_segment d \<noteq> Some g"
    and s': "sv_conns s' = (sv_conns s)(i \<mapsto> c)" "cn_segment c = Some g" "conn_ok e s' c"
    and names: "\<And>p. sv_names s p \<noteq> None \<Longrightarrow> sv_names s' p = sv_names s p"
    and content: "\<And>h. h \<noteq> g \<Longrightarrow> sv_content s' h = sv_content s h"
    and next_segment: "sv_next_segment s \<le> sv_next_segment s'"
    and bound: "\<And>p h. sv_names s' p = Some h \<Longrightarrow> h < sv_next_segment s'"
    and fin: "finite (dom (sv_names s'))" "card (dom (sv_names s')) \<le> sv_next_segment s'"
  shows "server_inv e s'"
proof -
  from inv have ok: "\<And>j d. sv_conns s j = Some d \<Longrightarrow> conn_ok e s d"
    and dis: "\<And>i j c d g. sv_conns s i = Some c \<Longrightarrow> sv_conns s j = Some d \<Longrightarrow> cn_segment c = Some g \<Longrightarrow> cn_segment d = Some g \<Longrightarrow> i = j"
    unfolding server_inv_def by blast+
  have "conn_ok e s' d" if "sv_conns s' j = Some d" for j d
  proof (cases "j = i")
    case True
    with that s' show ?thesis by simp
  next
    case False
    with that s'(1) have d: "sv_conns s j = Some d" by simp
    from ok [OF d] show ?thesis
    proof (cases "storage (cn_session d)")
      case (Some st)
      with ok [OF d] obtain h where h: "cn_segment d = Some h" "h < sv_next_segment s" "sv_names s (m_name st) = Some h"
        "sv_content s h = Some (m_container st)" "\<not> fs_exists (sv_fs e) (m_name st)" "cn_creating d = None"
        by (auto simp: conn_ok_def split: option.splits)
      moreover from h(1) g [OF d False] have "sv_content s' h = sv_content s h" by (intro content) auto
      ultimately show ?thesis using names [of "m_name st"] next_segment Some by (simp add: conn_ok_def)
    qed (simp add: conn_ok_def)
  qed
  moreover have "a = b" if "sv_conns s' a = Some c'" "sv_conns s' b = Some d" "cn_segment c' = Some h" "cn_segment d = Some h"
    for a b c' d h
    using that dis g s'(1,2) by (cases "a = i"; cases "b = i") auto
  ultimately show ?thesis using bound fin unfolding server_inv_def by blast
qed

lemma put_session_inv:
  assumes inv: "server_inv e s" and c: "sv_conns s i = Some c"
    and st: "storage (cn_session c) = Some st" "storage se = Some st'" "m_name st' = m_name st"
  shows "server_inv e (put_session i c se s)"
proof -
  from inv c have "conn_ok e s c" by (auto simp: server_inv_def)
  with st obtain g where g: "cn_segment c = Some g" "cn_creating c = None" "g < sv_next_segment s"
    "sv_names s (m_name st) = Some g" "\<not> fs_exists (sv_fs e) (m_name st)"
    by (auto simp: conn_ok_def split: option.splits)
  have other: "cn_segment d \<noteq> Some g" if "sv_conns s j = Some d" "j \<noteq> i" for j d
    using inv c g(1) that unfolding server_inv_def by blast
  have "conn_ok e (put_session i c se s) (c\<lparr>cn_session := se\<rparr>)"
    using g st by (simp add: put_session_def conn_ok_def)
  moreover from inv have "\<And>p h. sv_names s p = Some h \<Longrightarrow> h < sv_next_segment s" "finite (dom (sv_names s))"
    "card (dom (sv_names s)) \<le> sv_next_segment s" unfolding server_inv_def by blast+
  ultimately show ?thesis
    by (intro server_inv_update [where i = i and g = g, OF inv other]) (simp_all add: put_session_def g(1) st)
qed

lemma serve_other_inv:
  assumes "sv_kind e = MMF" "server_inv e s" "sv_conns s i = Some c" "r_type r \<noteq> kNetReqNewStorage"
    "serve_other e i r c s = Inr s'"
  shows "server_inv e s'"
proof -
  from assms(5) obtain b se where h: "HandleNetRequest bms_ops (\<lambda>_. None) r (cn_session c) = Inr (b, se)"
    "s' = (if b then put_session i c se s else close_conn e i (c\<lparr>cn_session := se\<rparr>) s)"
    by (auto simp: serve_other_def split: sum.splits bool.splits)
  from HandleNetRequest_other [OF assms(4) h(1)] h(2) put_session_inv [OF assms(2,3)] close_inv [OF assms(1,2)]
  show ?thesis by (auto split: if_splits)
qed

definition other_files :: "memdb_env \<Rightarrow> string set" where
  "other_files e = {p. fs_exists (sv_fs e) p}"

lemma choose_fresh:
  assumes "sv_kind e = MMF" "server_inv e s" "finite (other_files e)" "card (other_files e) + sv_next_segment s < 2 ^ 64"
  shows "\<exists>path. GenerateUniquePath (fs_now e s) getpid orig guide = Some path \<and> sv_names s path = None \<and> \<not> fs_exists (sv_fs e) path"
proof -
  have ex: "{p. fs_exists (fs_now e s) p} = other_files e \<union> dom (sv_names s)"
    using assms(1) by (auto simp: fs_now_def other_files_def)
  from assms(2) have n: "finite (dom (sv_names s))" "card (dom (sv_names s)) \<le> sv_next_segment s"
    unfolding server_inv_def by blast+
  have "card (other_files e \<union> dom (sv_names s)) < 2 ^ 64"
    using card_Un_le [of "other_files e" "dom (sv_names s)"] n(2) assms(4) by linarith
  with n(1) assms(1,3) GenerateUniquePath_fresh [of "fs_now e s" getpid orig guide] show ?thesis
    unfolding ex by (auto simp: fs_now_def)
qed

lemma server_open_inv:
  assumes mmf: "sv_kind e = MMF" and inv: "server_inv e s" and c: "sv_conns s i = Some c"
    and fin: "finite (other_files e)" "card (other_files e) + sv_next_segment s < 2 ^ 64"
  shows "server_open e i pid c s = Inl (Crash CreatorThrows) \<or>
    (\<exists>s'. server_open e i pid c s = Inr s' \<and> server_inv e s' \<and> sv_next_segment s' = Suc (sv_next_segment s))"
proof -
  from choose_fresh [OF mmf inv fin] obtain path where
    p: "GenerateUniquePath (fs_now e s) (sv_getpid e) (bc_path (sv_creator e)) pid = Some path"
      "sv_names s path = None" "\<not> fs_exists (sv_fs e) path" by blast
  let ?c = "c\<lparr>cn_creating := Some path\<rparr>"
  let ?s = "s\<lparr>sv_conns := (sv_conns s)(i \<mapsto> ?c)\<rparr>"
  have o: "server_open e i pid c s = create_segment e i path ?c ?s"
    by (simp add: server_open_def choose_name_def p(1))
  show ?thesis
  proof (cases "sv_can_create e path (bc_size (sv_creator e))")
    case False
    then show ?thesis unfolding o by (simp add: create_segment_def Let_def)
  next
    case True
    let ?g = "sv_next_segment s" and ?st = "new_BasicMappedStorage path (bc_size (sv_creator e))"
    let ?c' = "\<lparr>cn_session = (cn_session c)\<lparr>storage := Some ?st\<rparr>, cn_segment = Some ?g, cn_creating = None\<rparr>"
    let ?s' = "s\<lparr>sv_names := (sv_names s)(path \<mapsto> ?g), sv_content := (sv_content s)(?g \<mapsto> m_container ?st),
      sv_next_segment := Suc ?g, sv_conns := (sv_conns s)(i \<mapsto> ?c')\<rparr>"
    from True have s': "server_open e i pid c s = Inr ?s'"
      unfolding o by (simp add: create_segment_def Let_def destroy_mapped_file [OF mmf])
    from inv have b: "\<And>p h. sv_names s p = Some h \<Longrightarrow> h < sv_next_segment s" "finite (dom (sv_names s))"
      "card (dom (sv_names s)) \<le> sv_next_segment s" unfolding server_inv_def by blast+
    have new: "cn_segment d \<noteq> Some ?g" if "sv_conns s j = Some d" "j \<noteq> i" for j d
    proof -
      from inv that have "conn_ok e s d" unfolding server_inv_def by blast
      then show ?thesis by (auto simp: conn_ok_def split: option.splits)
    qed
    have "server_inv e ?s'"
      using p(2,3) b card_insert_le_m1 [of "Suc ?g" "dom (sv_names s)" path]
      by (intro server_inv_update [where i = i and g = ?g and c = ?c' and s = s, OF inv new])
        (auto simp: conn_ok_def new_BasicMappedStorage_def dest: less_SucI split: if_splits)
    with s' show ?thesis by simp
  qed
qed

lemma server_step_inv:
  assumes mmf: "sv_kind e = MMF" and inv: "server_inv e s"
    and fin: "finite (other_files e)" "card (other_files e) + sv_next_segment s < 2 ^ 64"
  shows "case server_step e ev s of Inl err \<Rightarrow> err \<noteq> Hang | Inr s' \<Rightarrow> server_inv e s' \<and> sv_next_segment s' \<le> Suc (sv_next_segment s)"
proof (cases ev)
  case (Accept err)
  with accept_inv [OF inv] show ?thesis by (simp add: HandleAccept_def StartAccept_def)
next
  case (Hangup i)
  with close_inv [OF mmf inv] inv show ?thesis
    by (auto simp: close_conn_def destroy_mapped_file [OF mmf] split: option.splits)
next
  case (Request i r)
  show ?thesis
  proof (cases "sv_conns s i")
    case None
    with Request inv show ?thesis by simp
  next
    case (Some c)
    show ?thesis
    proof (cases "r_type r = kNetReqNewStorage")
      case True
      with Request Some server_open_inv [OF mmf inv Some fin, of "address (r_traceinfo r)"] show ?thesis by auto
    next
      case False
      with Request Some have st: "server_step e ev s = serve_other e i r c s" by simp
      show ?thesis unfolding st
        using serve_other_inv [OF mmf inv Some False]
        by (auto simp: serve_other_def put_session_def close_conn_def destroy_mapped_file [OF mmf]
            split: sum.splits bool.splits)
    qed
  qed
qed

lemma server_run_inv:
  assumes "sv_kind e = MMF" "server_inv e s" "finite (other_files e)"
    "card (other_files e) + sv_next_segment s + length evs < 2 ^ 64"
  shows "case server_run e evs s of Inl err \<Rightarrow> err \<noteq> Hang | Inr s' \<Rightarrow> server_inv e s'"
  using assms
proof (induction evs arbitrary: s)
  case (Cons ev evs)
  from server_step_inv [OF Cons.prems(1-3), of ev] Cons.prems(4) have
    st: "case server_step e ev s of Inl err \<Rightarrow> err \<noteq> Hang | Inr s' \<Rightarrow> server_inv e s' \<and> sv_next_segment s' \<le> Suc (sv_next_segment s)"
    by simp
  show ?case
  proof (cases "server_step e ev s")
    case (Inl err)
    with st show ?thesis by simp
  next
    case (Inr s')
    with st Cons.IH [OF Cons.prems(1) _ Cons.prems(3), of s'] Cons.prems(4) show ?thesis by simp
  qed
qed simp

text \<open>
  C22. Clients of one server do not touch each other's files: after any sequence of accepted
  connections, requests and disconnections, a server that keeps mapped files and has not
  failed holds, for every connected client that opened a storage, that client's records in the
  file of that storage; no two clients have the same file, and no file is one that was there
  before. The search for a file name always ends. The handlers run one after another, as they
  do with one service thread; with several, two clients can get one file
  (\<open>memdb_threads_share_file\<close>).
\<close>

theorem memdb_files_separate:
  assumes "sv_kind e = MMF" and "finite (other_files e)" and "card (other_files e) + length evs < 2 ^ 64"
  shows "case server_run e evs new_MemDBServer of
      Inl err \<Rightarrow> err \<noteq> Hang
    | Inr s \<Rightarrow> (\<forall>i c st. sv_conns s i = Some c \<and> storage (cn_session c) = Some st \<longrightarrow>
        (\<exists>g. sv_names s (m_name st) = Some g \<and> sv_content s g = Some (m_container st)) \<and>
        m_name st \<notin> other_files e \<and>
        (\<forall>j d st'. sv_conns s j = Some d \<and> storage (cn_session d) = Some st' \<and> m_name st' = m_name st \<longrightarrow> j = i))"
proof -
  have "sv_next_segment new_MemDBServer = 0" by (simp add: new_MemDBServer_def StartAccept_def)
  with assms server_run_inv [OF assms(1) new_server_inv assms(2), of evs] have
    run: "case server_run e evs new_MemDBServer of Inl err \<Rightarrow> err \<noteq> Hang | Inr s' \<Rightarrow> server_inv e s'" by simp
  have "(\<exists>g. sv_names s (m_name st) = Some g \<and> sv_content s g = Some (m_container st)) \<and> m_name st \<notin> other_files e \<and>
      (\<forall>j d st'. sv_conns s j = Some d \<and> storage (cn_session d) = Some st' \<and> m_name st' = m_name st \<longrightarrow> j = i)"
    if inv: "server_inv e s" and c: "sv_conns s i = Some c" "storage (cn_session c) = Some st" for s i c st
  proof -
    have seg: "\<exists>g. cn_segment d = Some g \<and> sv_names s (m_name st') = Some g \<and> sv_content s g = Some (m_container st') \<and>
        m_name st' \<notin> other_files e"
      if "sv_conns s j = Some d" "storage (cn_session d) = Some st'" for j d st'
    proof -
      from inv that(1) have "conn_ok e s d" unfolding server_inv_def by blast
      with that(2) show ?thesis by (auto simp: conn_ok_def other_files_def split: option.splits)
    qed
    have "j = i" if "sv_conns s j = Some d" "storage (cn_session d) = Some st'" "m_name st' = m_name st" for j d st'
    proof -
      from seg [OF c] seg [OF that(1,2)] that(3) obtain g where "cn_segment c = Some g" "cn_segment d = Some g" by auto
      with inv c(1) that(1) show ?thesis unfolding server_inv_def by blast
    qed
    with seg [OF c] show ?thesis by blast
  qed
  with run show ?thesis by (auto split: sum.splits)
qed

definition demo_memdb :: "segment_kind \<Rightarrow> memdb_env" where
  "demo_memdb kind = \<lparr>sv_kind = kind, sv_creator = \<lparr>bc_path = ''/tmp/db.shm'', bc_size = 65536\<rparr>,
     sv_fs = \<lparr>fs_exists = (\<lambda>p. p = ''/tmp/old.shm''), fs_parent_stem = (\<lambda>p. ''/tmp/db''), fs_extension = (\<lambda>p. ''.shm'')\<rparr>,
     sv_getpid = 5, sv_can_create = (\<lambda>_ _. True)\<rparr>"

definition demo_events :: "server_event list" where
  "demo_events = [Accept False, Accept True, Accept False,
     Request 0 (new_NetRequest kNetReqNewStorage 77 0 1 []), Request 0 (new_NetRequest kNetReqAdd 4096 16 2 []),
     Request 2 (new_NetRequest kNetReqNewStorage 78 0 3 [])]"

lemma demo_run:
  "\<exists>s c st. server_run (demo_memdb MMF) demo_events new_MemDBServer = Inr s \<and> sv_conns s 0 = Some c \<and>
     storage (cn_session c) = Some st \<and> m_name st = ''/tmp/db.shm'' \<and> map address (indexed_container (m_container st)) = [4096]"
  by (simp add: demo_events_def demo_memdb_def HandleAccept_def StartAccept_def new_MemDBServer_def server_open_def
      choose_name_def create_segment_def destroy_storage_def Let_def GenerateUniquePath_def fs_now_def
      new_BasicMappedStorage_def new_conn_def new_MemDBSession_def new_NetRequest_def serve_other_def put_session_def
      HandleNetRequest_def OnAdd_def bms_ops_def bms_Add_def new_MappedContainer_def ic_emplace_def
      unique_path_loop.simps kNetReqAdd_def kNetReqNewStorage_def)

theorem memdb_files_separate_witness:
  "\<exists>s g k. server_run (demo_memdb MMF) demo_events new_MemDBServer = Inr s \<and>
     sv_names s ''/tmp/db.shm'' = Some g \<and> sv_content s g = Some k \<and> map address (indexed_container k) = [4096]"
proof -
  have o: "other_files (demo_memdb MMF) = {''/tmp/old.shm''}" by (simp add: other_files_def demo_memdb_def)
  have "sv_kind (demo_memdb MMF) = MMF" "finite (other_files (demo_memdb MMF))"
    "card (other_files (demo_memdb MMF)) + length demo_events < 2 ^ 64"
    by (simp_all add: o demo_events_def) (simp add: demo_memdb_def)
  from memdb_files_separate [OF this] demo_run show ?thesis by force
qed

subsection \<open>Two service threads, and shared memory\<close>

datatype thread_event = Choose nat addr | Create nat

fun thread_step :: "memdb_env \<Rightarrow> thread_event \<Rightarrow> memdb_server \<Rightarrow> server_error + memdb_server" where
  "thread_step e (Choose i pid) s =
     (case sv_conns s i of None \<Rightarrow> Inr s | Some c \<Rightarrow> choose_name e i pid c s)"
| "thread_step e (Create i) s =
     (case sv_conns s i of
        None \<Rightarrow> Inr s
      | Some c \<Rightarrow> (case cn_creating c of None \<Rightarrow> Inr s | Some path \<Rightarrow> create_segment e i path c s))"

fun thread_run :: "memdb_env \<Rightarrow> thread_event list \<Rightarrow> memdb_server \<Rightarrow> server_error + memdb_server" where
  "thread_run e [] s = Inr s"
| "thread_run e (ev # evs) s = (case thread_step e ev s of Inl err \<Rightarrow> Inl err | Inr s \<Rightarrow> thread_run e evs s)"

text \<open>The handler of one service thread is the two steps one after the other.\<close>

lemma server_open_steps:
  "sv_conns s i = Some c \<Longrightarrow> server_open e i pid c s = thread_run e [Choose i pid, Create i] s"
  by (simp add: server_open_def choose_name_def split: option.splits sum.splits)

definition two_conns :: memdb_server where
  "two_conns = HandleAccept False (HandleAccept False new_MemDBServer)"

lemma two_conns_eq:
  "two_conns = \<lparr>sv_names = Map.empty, sv_content = Map.empty, sv_next_segment = 0,
     sv_conns = [0 \<mapsto> new_conn, 1 \<mapsto> new_conn], sv_accepting = 2, sv_next_conn = 3\<rparr>"
  by (simp add: two_conns_def HandleAccept_def StartAccept_def new_MemDBServer_def fun_upd_twist)

lemma free_original: "\<not> fs_exists fs orig \<Longrightarrow> GenerateUniquePath fs getpid orig guide = Some orig"
  by (simp add: GenerateUniquePath_def)

definition holds_name :: "nat \<Rightarrow> string \<Rightarrow> memdb_server \<Rightarrow> bool" where
  "holds_name i path s \<longleftrightarrow>
     (case sv_conns s i of None \<Rightarrow> False | Some c \<Rightarrow> map_option m_name (storage (cn_session c)) = Some path)"

definition named_segment :: "nat \<Rightarrow> string \<Rightarrow> memdb_server \<Rightarrow> bool" where
  "named_segment i path s \<longleftrightarrow>
     (case sv_conns s i of None \<Rightarrow> False | Some c \<Rightarrow> cn_segment c \<noteq> None \<and> sv_names s path = cn_segment c)"

lemmas open_simps = choose_name_def create_segment_def destroy_storage_def Let_def free_original fs_now_def
  new_BasicMappedStorage_def holds_name_def named_segment_def new_conn_def new_MemDBSession_def

text \<open>
  With two service threads two clients can end up in one file: the choice of a name and
  the creation of the file are separate steps, and when both clients choose before either
  creates, both choose the same name; the second creation removes the file of the first, whose
  records are in no file then.
\<close>

theorem memdb_threads_share_file:
  assumes "sv_kind e = MMF" and "\<not> fs_exists (sv_fs e) path" and "bc_path (sv_creator e) = path"
    and "sv_can_create e path (bc_size (sv_creator e))"
  shows "\<exists>s. thread_run e [Choose 0 pid0, Choose 1 pid1, Create 0, Create 1] two_conns = Inr s \<and>
    holds_name 0 path s \<and> holds_name 1 path s \<and> named_segment 1 path s \<and> \<not> named_segment 0 path s"
  using assms by (simp add: two_conns_eq open_simps)

theorem memdb_threads_share_file_witness:
  "\<exists>s. thread_run (demo_memdb MMF) [Choose 0 77, Choose 1 78, Create 0, Create 1] two_conns = Inr s \<and>
     holds_name 0 ''/tmp/db.shm'' s \<and> holds_name 1 ''/tmp/db.shm'' s \<and> \<not> named_segment 0 ''/tmp/db.shm'' s"
  using memdb_threads_share_file [of "demo_memdb MMF" "''/tmp/db.shm''" 77 78] by (auto simp: demo_memdb_def)

text \<open>
  With shared memory it takes no race: the creator asks the file system for the name,
  where shared memory objects are not, so that every client gets the same name. The second
  client takes the name from the first, and when the first disconnects, its cleaner removes
  the object of the second.
\<close>

theorem memdb_shared_memory_taken_over:
  assumes "sv_kind e = SHM" and "\<not> fs_exists (sv_fs e) name" and "bc_path (sv_creator e) = name"
    and "sv_can_create e name (bc_size (sv_creator e))"
  shows "\<exists>s s'. server_run e [Accept False, Accept False,
        Request 0 (new_NetRequest kNetReqNewStorage pid0 0 t0 []),
        Request 1 (new_NetRequest kNetReqNewStorage pid1 0 t1 [])] new_MemDBServer = Inr s \<and>
      holds_name 0 name s \<and> holds_name 1 name s \<and> named_segment 1 name s \<and> \<not> named_segment 0 name s \<and>
    server_run e [Hangup 0] s = Inr s' \<and> holds_name 1 name s' \<and> sv_names s' name = None"
  using assms two_conns_eq [unfolded two_conns_def]
  by (simp add: open_simps server_open_def new_NetRequest_def close_conn_def)


theorem memdb_shared_memory_taken_over_witness:
  "\<exists>s s'. server_run (demo_memdb SHM) [Accept False, Accept False,
        Request 0 (new_NetRequest kNetReqNewStorage 77 0 1 []),
        Request 1 (new_NetRequest kNetReqNewStorage 78 0 2 [])] new_MemDBServer = Inr s \<and>
     holds_name 0 ''/tmp/db.shm'' s \<and> \<not> named_segment 0 ''/tmp/db.shm'' s \<and>
     server_run (demo_memdb SHM) [Hangup 0] s = Inr s' \<and> holds_name 1 ''/tmp/db.shm'' s' \<and>
     sv_names s' ''/tmp/db.shm'' = None"
proof -
  have "sv_kind (demo_memdb SHM) = SHM" "\<not> fs_exists (sv_fs (demo_memdb SHM)) ''/tmp/db.shm''"
    "bc_path (sv_creator (demo_memdb SHM)) = ''/tmp/db.shm''"
    "sv_can_create (demo_memdb SHM) ''/tmp/db.shm'' (bc_size (sv_creator (demo_memdb SHM)))"
    by (simp_all add: demo_memdb_def)
  from memdb_shared_memory_taken_over [OF this, of 77 1 78 2] show ?thesis by blast
qed

subsection \<open>A session depends on its own requests only\<close>

fun requests_of :: "nat \<Rightarrow> server_event list \<Rightarrow> NetRequest list" where
  "requests_of i [] = []"
| "requests_of i (Request j r # evs) = (if j = i then r # requests_of i evs else requests_of i evs)"
| "requests_of i (Accept error # evs) = requests_of i evs"
| "requests_of i (Hangup j # evs) = requests_of i evs"

definition ids_ok :: "memdb_server \<Rightarrow> bool" where
  "ids_ok s \<longleftrightarrow> (\<forall>i. sv_conns s i \<noteq> None \<longrightarrow> i < sv_accepting s) \<and> sv_accepting s < sv_next_conn s"

definition same_records :: "BasicMappedStorage option \<Rightarrow> BasicMappedStorage option \<Rightarrow> bool" where
  "same_records a b \<longleftrightarrow> map_option m_container a = map_option m_container b"

text \<open>The creator of a session on its own: the name does not matter for the records.\<close>

definition own_creator :: "memdb_env \<Rightarrow> addr \<Rightarrow> BasicMappedStorage option" where
  "own_creator e pid = Some (new_BasicMappedStorage '''' (bc_size (sv_creator e)))"

lemma container_ops:
  assumes "m_container x = m_container y"
  shows "m_container (bms_Add a n cs t x) = m_container (bms_Add a n cs t y)"
    and "m_container (snd (bms_Remove a x)) = m_container (snd (bms_Remove a y))"
    and "m_container (snd (bms_UpdateSize a n x)) = m_container (snd (bms_UpdateSize a n y))"
  using assms by (auto simp: bms_Add_def bms_Remove_def bms_UpdateSize_def Let_def split: option.splits)

lemma serve_request_same:
  assumes "r_type r \<noteq> kNetReqNewStorage" "HandleNetRequest bms_ops creator r se = Inr (True, se')" "same_records (storage se) st"
  shows "\<exists>st'. serve_request bms_ops creator' r st = Some (True, st') \<and> same_records (storage se') st'"
proof -
  from HandleNetRequest_other [OF assms(1,2)] obtain x where x: "storage se = Some x" by auto
  with assms(3) obtain y where y: "st = Some y" and eq: "m_container x = m_container y"
    by (cases st) (auto simp: same_records_def)
  show ?thesis
    using assms(1,2) x y container_ops [OF eq]
    by (auto simp: serve_request_def HandleNetRequest_def OnAdd_def OnRemove_def OnUpdateSize_def bms_ops_def
        same_records_def split: if_splits)
qed

lemma destroy_keeps [simp]:
  "sv_conns (destroy_storage e st s) = sv_conns s" "sv_accepting (destroy_storage e st s) = sv_accepting s"
  "sv_next_conn (destroy_storage e st s) = sv_next_conn s"
  by (simp_all add: destroy_storage_def split: option.splits segment_kind.splits)

lemma server_open_conns:
  assumes "server_open e j pid c s = Inr s'" "sv_conns s j = Some c"
  shows "sv_accepting s' = sv_accepting s \<and> sv_next_conn s' = sv_next_conn s \<and>
    (\<exists>path c'. sv_conns s' = (sv_conns s)(j \<mapsto> c') \<and>
       storage (cn_session c') = Some (new_BasicMappedStorage path (bc_size (sv_creator e))))"
proof -
  from assms obtain path where p: "GenerateUniquePath (fs_now e s) (sv_getpid e) (bc_path (sv_creator e)) pid = Some path"
    by (auto simp: server_open_def choose_name_def split: option.splits)
  let ?st = "new_BasicMappedStorage path (bc_size (sv_creator e))"
  let ?c = "\<lparr>cn_session = (cn_session c)\<lparr>storage := Some ?st\<rparr>, cn_segment = Some (sv_next_segment s), cn_creating = None\<rparr>"
  from assms p have "sv_accepting s' = sv_accepting s \<and> sv_next_conn s' = sv_next_conn s \<and> sv_conns s' = (sv_conns s)(j \<mapsto> ?c)"
    by (auto simp: server_open_def choose_name_def create_segment_def Let_def split: if_splits)
  moreover have "storage (cn_session ?c) = Some ?st" by simp
  ultimately show ?thesis by blast
qed

lemma close_conns:
  "sv_conns (close_conn e j c s) = (sv_conns s)(j := None)" "sv_accepting (close_conn e j c s) = sv_accepting s"
  "sv_next_conn (close_conn e j c s) = sv_next_conn s"
  by (simp_all add: close_conn_def)

lemma serve_other_conns:
  assumes "serve_other e j r c s = Inr s'"
  shows "sv_accepting s' = sv_accepting s \<and> sv_next_conn s' = sv_next_conn s \<and>
    (sv_conns s' = (sv_conns s)(j := None) \<or>
     (\<exists>se. HandleNetRequest bms_ops (\<lambda>_. None) r (cn_session c) = Inr (True, se) \<and>
        sv_conns s' = (sv_conns s)(j \<mapsto> c\<lparr>cn_session := se\<rparr>)))"
  using assms by (auto simp: serve_other_def put_session_def close_conns split: sum.splits bool.splits)

lemma request_frame:
  assumes "server_step e (Request j r) s = Inr s'"
  shows "sv_accepting s' = sv_accepting s" and "sv_next_conn s' = sv_next_conn s"
    and "k \<noteq> j \<Longrightarrow> sv_conns s' k = sv_conns s k" and "sv_conns s j = None \<Longrightarrow> sv_conns s' j = None"
proof -
  have "sv_accepting s' = sv_accepting s \<and> sv_next_conn s' = sv_next_conn s \<and>
    (k \<noteq> j \<longrightarrow> sv_conns s' k = sv_conns s k) \<and> (sv_conns s j = None \<longrightarrow> sv_conns s' j = None)"
  proof (cases "sv_conns s j")
    case None
    with assms show ?thesis by simp
  next
    case (Some c)
    with assms server_open_conns [of e j "address (r_traceinfo r)" c s s'] serve_other_conns [of e j r c s s']
    show ?thesis by (cases "r_type r = kNetReqNewStorage") auto
  qed
  then show "sv_accepting s' = sv_accepting s" "sv_next_conn s' = sv_next_conn s"
    "k \<noteq> j \<Longrightarrow> sv_conns s' k = sv_conns s k" "sv_conns s j = None \<Longrightarrow> sv_conns s' j = None" by blast+
qed

lemma server_step_ids:
  assumes "ids_ok s" "server_step e ev s = Inr s'"
  shows "ids_ok s'"
proof (cases ev)
  case (Request j r)
  have "i < sv_accepting s" if "sv_conns s' i \<noteq> None" for i
    using that assms request_frame(3) [of e j r s s' i] request_frame(4) [of e j r s s'] Request unfolding ids_ok_def by metis
  with assms request_frame(1,2) [of e j r s s'] Request show ?thesis by (simp add: ids_ok_def)
next
  case (Hangup j)
  with assms show ?thesis by (auto simp: ids_ok_def close_conns split: option.splits if_splits)
next
  case (Accept err)
  have "i < sv_next_conn s" if "sv_conns s i \<noteq> None" for i
    using that assms(1) unfolding ids_ok_def by (meson less_trans)
  with assms Accept show ?thesis by (auto simp: ids_ok_def HandleAccept_def StartAccept_def split: if_splits)
qed

lemma server_run_ids: "ids_ok s \<Longrightarrow> server_run e evs s = Inr s' \<Longrightarrow> ids_ok s'"
  by (induction evs arbitrary: s) (auto split: sum.splits dest: server_step_ids)

lemma server_step_own:
  assumes ids: "ids_ok s" and c: "sv_conns s i = Some c" and st: "same_records (storage (cn_session c)) st"
    and step: "server_step e ev s = Inr s'" "ev \<noteq> Hangup i"
  shows "sv_conns s' i = None \<or>
    (\<exists>c' st'. sv_conns s' i = Some c' \<and> same_records (storage (cn_session c')) st' \<and>
      (\<forall>rs. serve_requests bms_ops (own_creator e) (requests_of i (ev # rs)) st =
            serve_requests bms_ops (own_creator e) (requests_of i rs) st'))"
proof (cases "\<exists>r. ev = Request i r")
  case True
  then obtain r where ev: "ev = Request i r" ..
  show ?thesis
  proof (cases "r_type r = kNetReqNewStorage")
    case new: True
    let ?st = "Some (new_BasicMappedStorage '''' (bc_size (sv_creator e)))"
    from new ev c step(1) have "server_open e i (address (r_traceinfo r)) c s = Inr s'" by simp
    from server_open_conns [OF this c] obtain path c' where "sv_conns s' i = Some c'"
      "storage (cn_session c') = Some (new_BasicMappedStorage path (bc_size (sv_creator e)))" by auto
    moreover from this have "same_records (storage (cn_session c')) ?st"
      by (simp add: same_records_def new_BasicMappedStorage_def)
    moreover from new have "serve_request bms_ops (own_creator e) r st = Some (True, ?st)"
      by (simp add: serve_defs own_creator_def)
    ultimately show ?thesis using ev by auto
  next
    case False
    with ev c step(1) have "serve_other e i r c s = Inr s'" by simp
    from serve_other_conns [OF this] serve_request_same [OF False _ st, of "\<lambda>_. None" _ "own_creator e"] ev
    show ?thesis by fastforce
  qed
next
  case False
  then have "requests_of i (ev # rs) = requests_of i rs" for rs by (cases ev) auto
  moreover have "sv_conns s' i = Some c"
  proof (cases ev)
    case (Request j r)
    with False request_frame(3) [of e j r s s' i] step(1) c show ?thesis by auto
  next
    case (Accept err)
    from ids c have "i < sv_accepting s" by (auto simp: ids_ok_def)
    with Accept step(1) c show ?thesis by (auto simp: HandleAccept_def StartAccept_def)
  next
    case (Hangup j)
    with step c show ?thesis by (auto simp: close_conns split: option.splits)
  qed
  ultimately show ?thesis using st by auto
qed

lemma closed_stays:
  assumes "ids_ok s" "sv_conns s i = None" "i < sv_accepting s" "server_run e evs s = Inr s'"
  shows "sv_conns s' i = None"
  using assms
proof (induction evs arbitrary: s)
  case (Cons ev evs)
  then obtain s1 where s1: "server_step e ev s = Inr s1" "server_run e evs s1 = Inr s'" by (auto split: sum.splits)
  have "sv_conns s1 i = None \<and> i < sv_accepting s1"
  proof (cases ev)
    case (Request j r)
    with s1(1) Cons.prems request_frame(1,4) [of e j r s s1] request_frame(3) [of e j r s s1 i] show ?thesis by (cases "i = j") auto
  qed (use s1(1) Cons.prems in \<open>auto simp: ids_ok_def HandleAccept_def StartAccept_def close_conns split: option.splits if_splits\<close>)
  with Cons.IH [OF server_step_ids [OF Cons.prems(1) s1(1)]] s1(2) show ?case by simp
qed simp

lemma server_run_own:
  assumes "ids_ok s" "sv_conns s i = Some c" "same_records (storage (cn_session c)) st"
    "server_run e evs s = Inr s'" "Hangup i \<notin> set evs" "sv_conns s' i = Some c'"
  shows "\<exists>st'. serve_requests bms_ops (own_creator e) (requests_of i evs) st = Some (EndOfFile, st') \<and>
    same_records (storage (cn_session c')) st'"
  using assms
proof (induction evs arbitrary: s c st)
  case Nil
  then show ?case by auto
next
  case (Cons ev evs)
  then obtain s1 where s1: "server_step e ev s = Inr s1" "server_run e evs s1 = Inr s'" by (auto split: sum.splits)
  have ids: "ids_ok s1" by (rule server_step_ids [OF Cons.prems(1) s1(1)])
  have "i < sv_accepting s" using Cons.prems(1,2) by (auto simp: ids_ok_def)
  moreover have "sv_accepting s \<le> sv_accepting s1"
    using s1(1) Cons.prems(1) request_frame(1) [of e _ _ s s1]
    by (cases ev) (auto simp: HandleAccept_def StartAccept_def ids_ok_def close_conns split: option.splits simp del: server_step.simps(2))
  ultimately have "i < sv_accepting s1" by simp
  with closed_stays [OF ids _ _ s1(2), of i] Cons.prems(6) have alive: "sv_conns s1 i \<noteq> None" by auto
  from Cons.prems(5) have "ev \<noteq> Hangup i" by auto
  from server_step_own [OF Cons.prems(1-3) s1(1) this] alive obtain c1 st1 where
    c1: "sv_conns s1 i = Some c1" "same_records (storage (cn_session c1)) st1"
      "\<And>rs. serve_requests bms_ops (own_creator e) (requests_of i (ev # rs)) st =
        serve_requests bms_ops (own_creator e) (requests_of i rs) st1" by auto
  from Cons.IH [OF ids c1(1,2) s1(2) _ Cons.prems(6)] Cons.prems(5) c1(3) [of evs] show ?case by simp
qed

text \<open>
  C23. Clients are independent: whatever the other clients do, and whatever kind of segment the
  server keeps, the records of a connected client are those that its own requests, served
  alone and in their order, give. The handlers run one after another, as they do with one
  service thread; each storage has a segment of its own.
\<close>

theorem memdb_sessions_independent:
  assumes "server_run e evs0 new_MemDBServer = Inr s0" and "i = sv_accepting s0"
    and "server_run e (Accept False # evs) s0 = Inr s" and "Hangup i \<notin> set evs" and "sv_conns s i = Some c"
  shows "\<exists>st. serve_requests bms_ops (own_creator e) (requests_of i evs) None = Some (EndOfFile, st) \<and>
    map_option m_container (storage (cn_session c)) = map_option m_container st"
proof -
  have "ids_ok new_MemDBServer" by (simp add: ids_ok_def new_MemDBServer_def StartAccept_def)
  from server_run_ids [OF this assms(1)] have "ids_ok s0" .
  then have "ids_ok (HandleAccept False s0)" using server_step_ids [of s0 e "Accept False"] by simp
  moreover have "sv_conns (HandleAccept False s0) i = Some new_conn" "same_records (storage (cn_session new_conn)) None"
    using assms(2) by (simp_all add: HandleAccept_def StartAccept_def same_records_def new_conn_def new_MemDBSession_def)
  moreover from assms(3) have "server_run e evs (HandleAccept False s0) = Inr s" by simp
  ultimately show ?thesis using server_run_own assms(4,5) unfolding same_records_def by blast
qed

theorem memdb_sessions_independent_witness:
  "\<exists>s c st st'. server_run (demo_memdb MMF) demo_events new_MemDBServer = Inr s \<and> sv_conns s 0 = Some c \<and>
     storage (cn_session c) = Some st \<and>
     serve_requests bms_ops (own_creator (demo_memdb MMF))
       [new_NetRequest kNetReqNewStorage 77 0 1 [], new_NetRequest kNetReqAdd 4096 16 2 []] None = Some (EndOfFile, Some st') \<and>
     m_container st = m_container st' \<and> map address (indexed_container (m_container st)) = [4096]"
proof -
  from demo_run obtain s c st where s: "server_run (demo_memdb MMF) demo_events new_MemDBServer = Inr s"
    "sv_conns s 0 = Some c" "storage (cn_session c) = Some st" "map address (indexed_container (m_container st)) = [4096]"
    by (elim exE conjE) rule
  have r: "requests_of 0 (tl demo_events) = [new_NetRequest kNetReqNewStorage 77 0 1 [], new_NetRequest kNetReqAdd 4096 16 2 []]"
    by (simp add: demo_events_def)
  have "server_run (demo_memdb MMF) [] new_MemDBServer = Inr new_MemDBServer" "0 = sv_accepting new_MemDBServer"
    "Hangup 0 \<notin> set (tl demo_events)" "demo_events = Accept False # tl demo_events"
    by (simp_all add: demo_events_def new_MemDBServer_def StartAccept_def)
  with memdb_sessions_independent [of "demo_memdb MMF" "[]" new_MemDBServer 0 "tl demo_events" s c] s
  show ?thesis unfolding r by (auto simp: map_option_case split: option.splits)
qed

end
