(* ===== verification/Mapped_View.thy ===== *)
theory Mapped_View
  imports Mapped_Storage
begin

text \<open>
  What the viewer shows: the filters of \<^verbatim>\<open>src/memview/mapped_view_options.h\<close> and the flags and
  options every view has, \<^verbatim>\<open>src/memview/mapped_view_base.cpp\<close>.

  Two of the filters change when they are called: they measure from the first record they
  see. So a check returns the filters as well.
\<close>

subsection \<open>Options\<close>

text \<open>
  The constructors are the classes, their arguments the members. A \<^verbatim>\<open>FromNow\<close> filter has
  the time of its creation, a \<^verbatim>\<open>FromStart\<close> filter the start time it found, 0 (the default
  \<^verbatim>\<open>time_point\<close>) before its first call.
\<close>

datatype MappedViewOption =
    MinSize usize
  | MinTime time
  | MaxTime time
  | MinTimeFromNow time int
  | MaxTimeFromNow time int
  | MinTimeFromStart time int
  | MaxTimeFromStart time int

definition start_time :: "time \<Rightarrow> 'e TraceInfoBase_scheme \<Rightarrow> time" where
  "start_time m_start_time tinfo = (if m_start_time = 0 then timestamp tinfo else m_start_time)"

fun opt_Call :: "MappedViewOption \<Rightarrow> 'e TraceInfoBase_scheme \<Rightarrow> bool \<times> MappedViewOption" where
  "opt_Call (MinSize n) tinfo = (n \<le> memsize tinfo, MinSize n)"
| "opt_Call (MinTime t) tinfo = (t \<le> timestamp tinfo, MinTime t)"
| "opt_Call (MaxTime t) tinfo = (timestamp tinfo \<le> t, MaxTime t)"
| "opt_Call (MinTimeFromNow now d) tinfo = (wrap64 (now - timestamp tinfo) \<ge> d, MinTimeFromNow now d)"
| "opt_Call (MaxTimeFromNow now d) tinfo = (wrap64 (now - timestamp tinfo) \<le> d, MaxTimeFromNow now d)"
| "opt_Call (MinTimeFromStart s d) tinfo =
     (let s = start_time s tinfo in (wrap64 (timestamp tinfo - s) \<ge> d, MinTimeFromStart s d))"
| "opt_Call (MaxTimeFromStart s d) tinfo =
     (let s = start_time s tinfo in (wrap64 (timestamp tinfo - s) \<le> d, MaxTimeFromStart s d))"

text \<open>The search for a filter that says no ends at the first; the filters behind it are not called.\<close>

fun check_options :: "MappedViewOption list \<Rightarrow> 'e TraceInfoBase_scheme \<Rightarrow> bool \<times> MappedViewOption list" where
  "check_options [] tinfo = (True, [])"
| "check_options (p # ps) tinfo =
     (case opt_Call p tinfo of
        (False, p) \<Rightarrow> (False, p # ps)
      | (True, p) \<Rightarrow> (case check_options ps tinfo of (b, ps) \<Rightarrow> (b, p # ps)))"

subsection \<open>Flags\<close>

definition kNoLock :: u32 where "kNoLock = 0x0001"
definition kShowCallStack :: u32 where "kShowCallStack = 0x0002"
definition kSortByAddress :: u32 where "kSortByAddress = 0x0010"
definition kSortByTime :: u32 where "kSortByTime = 0x0020"
definition kSortBySize :: u32 where "kSortBySize = 0x0040"

record MappedViewBase =
  m_options :: "MappedViewOption list"
  m_flags :: u32

definition new_MappedViewBase :: MappedViewBase where
  "new_MappedViewBase = \<lparr>m_options = [], m_flags = kSortByTime\<rparr>"

definition GetOptionFlag :: "u32 \<Rightarrow> MappedViewBase \<Rightarrow> bool" where
  "GetOptionFlag option_flag v \<longleftrightarrow> m_flags v AND option_flag \<noteq> 0"

definition SetOptionFlag :: "u32 \<Rightarrow> bool \<Rightarrow> MappedViewBase \<Rightarrow> MappedViewBase" where
  "SetOptionFlag option_flag setval v =
     (let sortmask = 0x00f0;
          fl = m_flags v;
          fl = (if option_flag AND sortmask \<noteq> 0 then fl AND NOT sortmask else fl);
          fl = (if setval then fl OR option_flag else fl AND NOT option_flag)
      in v\<lparr>m_flags := fl\<rparr>)"

definition SetOption :: "MappedViewOption \<Rightarrow> MappedViewBase \<Rightarrow> MappedViewBase" where
  "SetOption p v = v\<lparr>m_options := m_options v @ [p]\<rparr>"

definition CheckTraceInfoOptions :: "'e TraceInfoBase_scheme \<Rightarrow> MappedViewBase \<Rightarrow> bool \<times> MappedViewBase" where
  "CheckTraceInfoOptions tinfo v =
     (case check_options (m_options v) tinfo of (b, ps) \<Rightarrow> (b, v\<lparr>m_options := ps\<rparr>))"

lemmas flag_defs = kNoLock_def kShowCallStack_def kSortByAddress_def kSortByTime_def kSortBySize_def

subsection \<open>What the filters mean\<close>

text \<open>
  The meaning of a filter whose start time is known: the size is at least the given one; the
  record is no older or no younger than a time, or its age at the time \<open>now\<close>, or its distance
  from the start, is at least or at most the given duration.
\<close>

fun satisfies :: "MappedViewOption \<Rightarrow> 'e TraceInfoBase_scheme \<Rightarrow> bool" where
  "satisfies (MinSize n) x \<longleftrightarrow> unat (memsize x) \<ge> unat n"
| "satisfies (MinTime t) x \<longleftrightarrow> timestamp x \<ge> t"
| "satisfies (MaxTime t) x \<longleftrightarrow> timestamp x \<le> t"
| "satisfies (MinTimeFromNow now d) x \<longleftrightarrow> timestamp x + d \<le> now"
| "satisfies (MaxTimeFromNow now d) x \<longleftrightarrow> now \<le> timestamp x + d"
| "satisfies (MinTimeFromStart start d) x \<longleftrightarrow> start + d \<le> timestamp x"
| "satisfies (MaxTimeFromStart start d) x \<longleftrightarrow> timestamp x \<le> start + d"

text \<open>
  A filter that measures from the start takes as its start the time of the first record that
  reaches it: the first, in the order of the view, that satisfies the filters before it.
\<close>

fun starting_at :: "'e TraceInfoBase_scheme option \<Rightarrow> MappedViewOption \<Rightarrow> MappedViewOption" where
  "starting_at (Some x) (MinTimeFromStart s d) = MinTimeFromStart (if s = 0 then timestamp x else s) d"
| "starting_at (Some x) (MaxTimeFromStart s d) = MaxTimeFromStart (if s = 0 then timestamp x else s) d"
| "starting_at _ p = p"

fun resolve :: "MappedViewOption list \<Rightarrow> 'e TraceInfoBase_scheme list \<Rightarrow> MappedViewOption list \<Rightarrow> MappedViewOption list" where
  "resolve qs ix [] = []"
| "resolve qs ix (p # ps) =
     (let q = starting_at (find (\<lambda>x. list_all (\<lambda>q. satisfies q x) qs) ix) p in q # resolve (qs @ [q]) ix ps)"

text \<open>Times that a clock has shown; a record is never at time 0.\<close>

fun option_times :: "MappedViewOption \<Rightarrow> bool" where
  "option_times (MinTimeFromNow now d) \<longleftrightarrow> clock_time now"
| "option_times (MaxTimeFromNow now d) \<longleftrightarrow> clock_time now"
| "option_times (MinTimeFromStart s d) \<longleftrightarrow> clock_time s"
| "option_times (MaxTimeFromStart s d) \<longleftrightarrow> clock_time s"
| "option_times _ \<longleftrightarrow> True"

definition record_time :: "'e TraceInfoBase_scheme \<Rightarrow> bool" where
  "record_time x \<longleftrightarrow> clock_time (timestamp x) \<and> timestamp x \<noteq> 0"

lemma opt_Call_meaning:
  assumes "record_time x" "option_times p"
  shows "opt_Call p x = (satisfies (starting_at (Some x) p) x, starting_at (Some x) p)"
  using assms
  by (cases p) (auto simp: record_time_def start_time_def clock_diff word_le_nat_alt)

lemma starting_at_times: "record_time x \<Longrightarrow> option_times p \<Longrightarrow> option_times (starting_at (Some x) p)"
  by (cases p) (auto simp: record_time_def)

lemma starting_at_idem: "record_time x \<Longrightarrow> starting_at y (starting_at (Some x) p) = starting_at (Some x) p"
  by (cases y; cases p) (auto simp: record_time_def)

lemma resolve_skip:
  "\<not> list_all (\<lambda>q. satisfies q x) qs \<Longrightarrow> resolve qs (x # ix) ps = resolve qs ix ps"
  by (induction ps arbitrary: qs) (auto simp: Let_def)

text \<open>One check: it settles what the record reaches, and answers as the settled filters do.\<close>

lemma check_options_step:
  assumes "record_time x" "\<forall>p\<in>set ps. option_times p" "list_all (\<lambda>q. satisfies q x) qs"
  shows "\<exists>ps'. check_options ps x = (\<forall>q\<in>set (resolve qs (x # ix) ps). satisfies q x, ps') \<and>
    resolve qs ix ps' = resolve qs (x # ix) ps \<and> (\<forall>p\<in>set ps'. option_times p)"
  using assms
proof (induction ps arbitrary: qs)
  case (Cons p ps)
  let ?q = "starting_at (Some x) p"
  have call: "opt_Call p x = (satisfies ?q x, ?q)" by (rule opt_Call_meaning) (use Cons.prems in simp_all)
  have q: "option_times ?q" by (rule starting_at_times) (use Cons.prems in simp_all)
  show ?case
  proof (cases "satisfies ?q x")
    case True
    then have "list_all (\<lambda>q. satisfies q x) (qs @ [?q])" using Cons.prems(3) by simp
    from Cons.IH [OF Cons.prems(1) _ this] Cons.prems(2) obtain ps' where
      ps': "check_options ps x = (\<forall>q\<in>set (resolve (qs @ [?q]) (x # ix) ps). satisfies q x, ps')"
      "resolve (qs @ [?q]) ix ps' = resolve (qs @ [?q]) (x # ix) ps" "\<forall>p\<in>set ps'. option_times p" by auto
    then show ?thesis using True call q Cons.prems by (simp add: Let_def starting_at_idem)
  next
    case False
    then have "resolve (qs @ [?q]) (x # ix) ps = resolve (qs @ [?q]) ix ps" by (intro resolve_skip) simp
    then show ?thesis using False call q Cons.prems by (simp add: Let_def starting_at_idem)
  qed
qed simp

lemma CheckTraceInfoOptions_step:
  assumes "record_time x" "\<forall>p\<in>set (m_options v). option_times p"
  shows "\<exists>ps. CheckTraceInfoOptions x v = (\<forall>q\<in>set (resolve [] (x # ix) (m_options v)). satisfies q x, v\<lparr>m_options := ps\<rparr>) \<and>
    resolve [] ix ps = resolve [] (x # ix) (m_options v) \<and> (\<forall>p\<in>set ps. option_times p)"
  using check_options_step [OF assms, of "[]" ix] by (auto simp: CheckTraceInfoOptions_def)

lemma resolve_Nil: "resolve qs [] ps = ps"
  by (induction ps arbitrary: qs) (simp_all add: Let_def)

text \<open>Filters that do not measure from the start stay as they are.\<close>

fun stateless :: "MappedViewOption \<Rightarrow> bool" where
  "stateless (MinTimeFromStart s d) = False"
| "stateless (MaxTimeFromStart s d) = False"
| "stateless _ = True"

lemma resolve_stateless: "\<forall>p\<in>set ps. stateless p \<Longrightarrow> resolve qs ix ps = ps"
proof (induction ps arbitrary: qs)
  case (Cons p ps)
  have "starting_at y p = p" for y using Cons.prems by (cases p; cases y) auto
  with Cons show ?case by (simp add: Let_def)
qed simp

subsection \<open>The sort flag\<close>

text \<open>
  The sort flags exclude each other: a view has exactly one of them from its construction on,
  as long as sort flags are only set (the command line never takes one back), and setting a
  flag of the other group leaves it.
\<close>

definition sort_bits :: "MappedViewBase \<Rightarrow> u32" where
  "sort_bits v = m_flags v AND 0x00f0"

definition one_sort_flag :: "MappedViewBase \<Rightarrow> bool" where
  "one_sort_flag v \<longleftrightarrow> sort_bits v \<in> {kSortByAddress, kSortByTime, kSortBySize}"

lemma mask_idem: "(a AND NOT m) AND m = (0::'a::len word)" "(x OR y) AND m = (x AND m) OR (y AND m)"
  by (simp_all add: bit_eq_iff bit_simps) blast+

lemma new_sort_flag: "one_sort_flag new_MappedViewBase"
  by (simp add: one_sort_flag_def sort_bits_def new_MappedViewBase_def flag_defs)

lemma set_sort_flag:
  assumes "f \<in> {kSortByAddress, kSortByTime, kSortBySize}"
  shows "sort_bits (SetOptionFlag f True v) = f"
proof -
  have "f AND 0x00f0 = f" "f \<noteq> 0" using assms by (auto simp: flag_defs)
  then show ?thesis by (simp add: sort_bits_def SetOptionFlag_def Let_def mask_idem and.assoc)
qed

lemma set_other_flag:
  assumes "f AND 0x00f0 = 0"
  shows "sort_bits (SetOptionFlag f b v) = sort_bits v"
proof -
  have "(m AND NOT f) AND 0x00f0 = m AND (0x00f0 :: u32)" for m
  proof -
    have "bit (m AND NOT f AND 0x00f0) n = bit (m AND 0x00f0) n" for n
      using assms by (auto simp: bit_eq_iff bit_simps)
    then show ?thesis by (simp add: bit_eq_iff ac_simps)
  qed
  then show ?thesis using assms by (simp add: sort_bits_def SetOptionFlag_def Let_def mask_idem)
qed

end
