(* ===== verification/Signals.thy ===== *)
theory Signals
  imports Memhook_Prelude
begin

text \<open>
  The scoped signal guards: \<^verbatim>\<open>src/memhookcore/scoped_signal_lock.cpp\<close>,
  \<^verbatim>\<open>src/memhookcore/scoped_signal.cpp\<close> and the lock object of the viewer that combines them,
  \<^verbatim>\<open>src/memview/interprocess_scoped_lock.cpp\<close>. The state is the signal mask of the calling
  thread and the signal actions of the process; handlers are numbered.
\<close>

subsection \<open>The signal interface of the system\<close>

definition SIGINT :: int where "SIGINT = 2"
definition SIGQUIT :: int where "SIGQUIT = 3"
definition SIGABRT :: int where "SIGABRT = 6"
definition SIGTERM :: int where "SIGTERM = 15"
definition EINVAL :: int where "EINVAL = 22"

definition SA_SIGINFO :: int where "SA_SIGINFO = 4"
definition SA_RESTART :: int where "SA_RESTART = 0x10000000"

record sigact =
  sa_flags :: int
  sa_sigaction :: nat
  sa_mask :: "int set"

record sig_state =
  sg_mask :: "int set"
  sg_action :: "int \<Rightarrow> sigact"

text \<open>\<open>sigaction\<close> refuses a number that is no signal, and the two that cannot be caught.\<close>

definition catchable :: "int \<Rightarrow> bool" where
  "catchable n \<longleftrightarrow> 1 \<le> n \<and> n \<le> 64 \<and> n \<noteq> 9 \<and> n \<noteq> 19"

definition set_mask :: "int set \<Rightarrow> sig_state \<Rightarrow> sig_state" where
  "set_mask m s = s\<lparr>sg_mask := m\<rparr>"

definition set_action :: "int \<Rightarrow> sigact \<Rightarrow> sig_state \<Rightarrow> (int + (sig_state))" where
  "set_action n a s = (if catchable n then Inr (s\<lparr>sg_action := (sg_action s)(n := a)\<rparr>) else Inl EINVAL)"

subsection \<open>ScopedSignalLock and ScopedSignal\<close>

definition FillNewMask :: "int set" where
  "FillNewMask = insert SIGTERM (insert SIGABRT (insert SIGQUIT (insert SIGINT {})))"

text \<open>The three constructors take no, one or two signals that stay deliverable.\<close>

definition ScopedSignalLock :: "int list \<Rightarrow> sig_state \<Rightarrow> int set \<times> sig_state" where
  "ScopedSignalLock except s = (sg_mask s, set_mask (fold (\<lambda>n m. m - {n}) except FillNewMask) s)"

definition ScopedSignalLock_end :: "int set \<Rightarrow> sig_state \<Rightarrow> sig_state" where
  "ScopedSignalLock_end m_old_mask s = set_mask m_old_mask s"

definition ScopedSignal :: "int \<Rightarrow> nat \<Rightarrow> sig_state \<Rightarrow> (int + (sigact \<times> sig_state))" where
  "ScopedSignal signum callback s =
     (case set_action signum \<lparr>sa_flags = SA_SIGINFO + SA_RESTART, sa_sigaction = callback, sa_mask = {signum}\<rparr> s of
        Inl err \<Rightarrow> Inl err
      | Inr s' \<Rightarrow> Inr (sg_action s signum, s'))"

definition ScopedSignal_end :: "int \<Rightarrow> sigact \<Rightarrow> sig_state \<Rightarrow> sig_state" where
  "ScopedSignal_end m_signum m_old_sa s =
     (case set_action m_signum m_old_sa s of Inl _ \<Rightarrow> s | Inr s' \<Rightarrow> s')"

subsection \<open>InterprocessScopedLock\<close>

text \<open>
  The members are constructed in order and destroyed in reverse; a constructor that throws
  destroys the ones before it. The body is given whether the interprocess mutex is held, which
  is the case unless \<open>no_lock\<close> is set; waiting for it is the business of the mutex.
\<close>

definition InterruptHandler_id :: nat where "InterruptHandler_id = 1"

definition with_InterprocessScopedLock ::
    "bool \<Rightarrow> (bool \<Rightarrow> sig_state \<Rightarrow> 'a) \<Rightarrow> sig_state \<Rightarrow> (int + ('a)) \<times> sig_state" where
  "with_InterprocessScopedLock no_lock body s =
     (let (m_old_mask, s) = ScopedSignalLock [SIGINT] s in
      case ScopedSignal SIGINT InterruptHandler_id s of
        Inl err \<Rightarrow> (Inl err, ScopedSignalLock_end m_old_mask s)
      | Inr (m_old_sa, s) \<Rightarrow>
          let r = body (\<not> no_lock) s in
          (Inr r, ScopedSignalLock_end m_old_mask (ScopedSignal_end SIGINT m_old_sa s)))"

text \<open>The scope the storage opens around every change of its tables.\<close>

definition with_ScopedSignalLock :: "int list \<Rightarrow> (sig_state \<Rightarrow> 'a) \<Rightarrow> sig_state \<Rightarrow> 'a \<times> sig_state" where
  "with_ScopedSignalLock except body s =
     (let (m_old_mask, s) = ScopedSignalLock except s; r = body s in (r, ScopedSignalLock_end m_old_mask s))"

subsection \<open>Arbitrary nests of scopes\<close>

datatype scope = Mask "int list" | Handler int nat

datatype opened = OMask "int set" | OHandler int sigact

fun scope_open :: "scope \<Rightarrow> sig_state \<Rightarrow> (int + (opened \<times> sig_state))" where
  "scope_open (Mask except) s = (let (old, s) = ScopedSignalLock except s in Inr (OMask old, s))"
| "scope_open (Handler n h) s =
     (case ScopedSignal n h s of Inl err \<Rightarrow> Inl err | Inr (old, s) \<Rightarrow> Inr (OHandler n old, s))"

fun scope_close :: "opened \<Rightarrow> sig_state \<Rightarrow> sig_state" where
  "scope_close (OMask old) s = ScopedSignalLock_end old s"
| "scope_close (OHandler n old) s = ScopedSignal_end n old s"

fun nest :: "scope list \<Rightarrow> (sig_state \<Rightarrow> 'a) \<Rightarrow> sig_state \<Rightarrow> (int + ('a)) \<times> sig_state" where
  "nest [] body s = (Inr (body s), s)"
| "nest (x # xs) body s =
     (case scope_open x s of
        Inl err \<Rightarrow> (Inl err, s)
      | Inr (op, s) \<Rightarrow> let (r, s) = nest xs body s in (r, scope_close op s))"

text \<open>What the body sees: the mask of the innermost lock and the handlers installed last.\<close>

fun inner_mask :: "scope list \<Rightarrow> int set \<Rightarrow> int set" where
  "inner_mask [] m = m"
| "inner_mask (Mask except # xs) m = inner_mask xs ({2, 3, 6, 15} - set except)"
| "inner_mask (Handler n h # xs) m = inner_mask xs m"

fun inner_handler :: "scope list \<Rightarrow> (int \<Rightarrow> nat) \<Rightarrow> int \<Rightarrow> nat" where
  "inner_handler [] f = f"
| "inner_handler (Mask except # xs) f = inner_handler xs f"
| "inner_handler (Handler n h # xs) f = inner_handler xs (f(n := h))"

definition handlers :: "sig_state \<Rightarrow> int \<Rightarrow> nat" where
  "handlers s = (\<lambda>n. sa_sigaction (sg_action s n))"

lemma fold_remove: "fold (\<lambda>n m. m - {n}) xs A = A - set xs"
  by (induction xs arbitrary: A) auto

lemma FillNewMask_eq: "FillNewMask = {2, 3, 6, 15}"
  by (auto simp: FillNewMask_def SIGINT_def SIGQUIT_def SIGABRT_def SIGTERM_def)

lemma ScopedSignalLock_eq: "ScopedSignalLock except s = (sg_mask s, s\<lparr>sg_mask := {2, 3, 6, 15} - set except\<rparr>)"
  by (simp add: ScopedSignalLock_def fold_remove FillNewMask_eq set_mask_def)

lemma scope_close_open: "scope_open x s = Inr (op, s') \<Longrightarrow> scope_close op s' = s"
  by (cases x)
    (auto simp: ScopedSignalLock_eq ScopedSignalLock_end_def set_mask_def ScopedSignal_def ScopedSignal_end_def
      set_action_def split: if_splits)

lemma nest_restores: "snd (nest xs body s) = s"
proof (induction xs arbitrary: s)
  case (Cons x xs)
  show ?case using Cons.IH scope_close_open [of x s] by (auto split: sum.splits prod.splits) (metis snd_conv)
qed simp

lemma nest_body:
  assumes "fst (nest xs (\<lambda>t. t) s) = Inr t"
  shows "sg_mask t = inner_mask xs (sg_mask s) \<and> handlers t = inner_handler xs (handlers s)"
  using assms
proof (induction xs arbitrary: s)
  case (Cons x xs)
  then obtain op s' where o: "scope_open x s = Inr (op, s')" "fst (nest xs (\<lambda>t. t) s') = Inr t"
    by (auto split: sum.splits prod.splits)
  show ?case
  proof (cases x)
    case (Mask except)
    with o(1) have "s' = s\<lparr>sg_mask := {2, 3, 6, 15} - set except\<rparr>" by (simp add: ScopedSignalLock_eq)
    then have "sg_mask s' = {2, 3, 6, 15} - set except" "handlers s' = handlers s" by (simp_all add: handlers_def)
    with Mask Cons.IH [OF o(2)] show ?thesis by (simp only: inner_mask.simps inner_handler.simps)
  next
    case (Handler n h)
    with o(1) have "sg_mask s' = sg_mask s" "handlers s' = (handlers s)(n := h)"
      by (auto simp: ScopedSignal_def set_action_def handlers_def split: if_splits)
    with Handler Cons.IH [OF o(2)] show ?thesis by (simp only: inner_mask.simps inner_handler.simps)
  qed
qed simp

lemma nest_fails: "(\<exists>e. fst (nest xs body s) = Inl e) \<longleftrightarrow> (\<exists>n h. Handler n h \<in> set xs \<and> \<not> catchable n)"
proof (induction xs arbitrary: s)
  case (Cons x xs)
  then show ?case
    by (cases x) (auto simp: ScopedSignalLock_eq ScopedSignal_def set_action_def case_prod_beta Let_def)
qed simp

lemma viewer_lock_nest:
  "with_InterprocessScopedLock no_lock body s = nest [Mask [2], Handler 2 InterruptHandler_id] (body (\<not> no_lock)) s"
  by (auto simp: with_InterprocessScopedLock_def SIGINT_def Let_def split: sum.splits prod.splits)

text \<open>
  C36. Scopes nest: however signal locks and signal handlers are nested around a body, the mask
  of the thread and all signal actions are afterwards what they were before, also when a
  constructor in the middle throws (which happens only for a signal that cannot be caught); and
  the body runs with the mask of the innermost lock, which blocks SIGINT, SIGQUIT, SIGABRT and
  SIGTERM except for the signals it exempts, and with the handler installed last for each signal.
  The body does not itself change the mask or the actions, and \<^verbatim>\<open>pthread_sigmask\<close> does not fail.
\<close>

theorem signal_scopes_restore:
  "snd (nest xs body s) = s \<and>
   ((\<exists>e. fst (nest xs body s) = Inl e) \<longleftrightarrow> (\<exists>n h. Handler n h \<in> set xs \<and> \<not> catchable n)) \<and>
   (\<forall>t. fst (nest xs (\<lambda>t. t) s) = Inr t \<longrightarrow>
      sg_mask t = inner_mask xs (sg_mask s) \<and> handlers t = inner_handler xs (handlers s))"
  using nest_restores nest_fails nest_body by blast

theorem signal_scopes_restore_witness:
  "\<exists>t. fst (nest [Mask [], Mask [2], Handler 2 1] (\<lambda>t. t) \<lparr>sg_mask = {10}, sg_action = (\<lambda>n. \<lparr>sa_flags = 0, sa_sigaction = 0, sa_mask = {}\<rparr>)\<rparr>) = Inr t \<and>
     sg_mask t = {3, 6, 15} \<and> handlers t 2 = 1 \<and> handlers t 3 = 0"
proof -
  let ?s = "\<lparr>sg_mask = {10}, sg_action = (\<lambda>n. \<lparr>sa_flags = 0, sa_sigaction = 0, sa_mask = {}\<rparr>)\<rparr>"
  let ?xs = "[Mask [], Mask [2], Handler 2 1]"
  obtain t where t: "fst (nest ?xs (\<lambda>t. t) ?s) = Inr t"
    by (simp add: ScopedSignalLock_eq ScopedSignal_def set_action_def catchable_def)
  with signal_scopes_restore [of ?xs "\<lambda>t. t" ?s]
  have "sg_mask t = inner_mask ?xs {10}" "handlers t = inner_handler ?xs (handlers ?s)" by auto
  moreover have "inner_mask ?xs {10} = {3, 6, 15}" by auto
  moreover have "inner_handler ?xs (handlers ?s) 2 = 1" "inner_handler ?xs (handlers ?s) 3 = 0"
    by (simp_all add: handlers_def)
  ultimately show ?thesis using t by metis
qed

text \<open>
  While the viewer holds its lock on the mapped container, interrupts are deliverable and
  go to its own handler while the other terminating signals wait; the mutex is taken unless
  \<open>no_lock\<close> is set; afterwards mask and handlers are as before.
\<close>

theorem viewer_lock_interruptible:
  "\<exists>t. with_InterprocessScopedLock no_lock body s = (Inr (body (\<not> no_lock) t), s) \<and>
     sg_mask t = {SIGQUIT, SIGABRT, SIGTERM} \<and> handlers t = (handlers s)(SIGINT := InterruptHandler_id)"
proof -
  let ?xs = "[Mask [2], Handler 2 InterruptHandler_id]"
  obtain t where t: "nest ?xs (body (\<not> no_lock)) s = (Inr (body (\<not> no_lock) t), s)" "fst (nest ?xs (\<lambda>t. t) s) = Inr t"
    using nest_restores [of ?xs "body (\<not> no_lock)" s]
    by (simp add: ScopedSignalLock_eq ScopedSignal_def set_action_def catchable_def Let_def)
  have "{2, 3, 6, 15} - {2} = {3, 6, 15::int}" by auto
  with nest_body [OF t(2)] t(1) show ?thesis
    by (auto simp: viewer_lock_nest SIGINT_def SIGQUIT_def SIGABRT_def SIGTERM_def)
qed

end
