(* ===== verification/View_Printer.thy ===== *)
theory View_Printer
  imports Mapped_View Environment Signals "HOL-Library.Signed_Division" "HOL-Library.Sublist"
begin

text \<open>
  The two views of the viewer: \<^verbatim>\<open>basic_mapped_view.h\<close>, \<^verbatim>\<open>basic_simple_mapped_view.h\<close> with
  \<^verbatim>\<open>simple_printer.h\<close>, and \<^verbatim>\<open>basic_aggregated_mapped_view.h\<close> with \<^verbatim>\<open>aggregated_printer.h\<close>, all in
  \<^verbatim>\<open>src/memview\<close>. A view reads the container of a segment and writes text.

  \<open>view_env\<close> has what the views use of other packages: the number formats of the
  generator library, the local time, the demangler, the combination of hash values, and the
  ordered indices of the containers, which hold the elements of the container sorted by a key
  (\<open>ordered_by\<close>; nothing is said of the order of elements with equal keys). \<open>intr k\<close> says
  whether the interrupt flag is set when it is read for the \<open>k\<close>-th time.
\<close>

record tm =
  tm_year :: int
  tm_mon :: int
  tm_mday :: int
  tm_hour :: int
  tm_min :: int
  tm_sec :: int

record AggregatedTraceInfo =
  a_memsize :: usize
  a_times :: usize
  a_callstack :: "TraceInfoCallStackItem list"

record view_env =
  k_hex :: "addr \<Rightarrow> string"
  k_ulong_long :: "u64 \<Rightarrow> string"
  k_int_aligned :: "nat \<Rightarrow> int \<Rightarrow> string"
  localtime_r :: "int \<Rightarrow> tm"
  cxa_demangle :: "string \<Rightarrow> string option"
  hash_combine :: "u64 \<Rightarrow> addr \<Rightarrow> u64"
  ix_address :: "BasicTraceInfo list \<Rightarrow> BasicTraceInfo list"
  ix_timestamp :: "BasicTraceInfo list \<Rightarrow> BasicTraceInfo list"
  ix_memsize :: "BasicTraceInfo list \<Rightarrow> BasicTraceInfo list"
  ix_total :: "AggregatedTraceInfo list \<Rightarrow> AggregatedTraceInfo list"
  ix_times :: "AggregatedTraceInfo list \<Rightarrow> AggregatedTraceInfo list"

definition ordered_by :: "('x \<Rightarrow> 'k::linorder) \<Rightarrow> ('x list \<Rightarrow> 'x list) \<Rightarrow> bool" where
  "ordered_by key ix \<longleftrightarrow> (\<forall>c. mset (ix c) = mset c \<and> sorted (map key (ix c)))"

definition indices_ok :: "view_env \<Rightarrow> bool" where
  "indices_ok env \<longleftrightarrow> ordered_by address (ix_address env) \<and> ordered_by timestamp (ix_timestamp env) \<and>
     ordered_by memsize (ix_memsize env) \<and> ordered_by a_memsize (ix_total env) \<and> ordered_by a_times (ix_times env)"

subsection \<open>Symbols and frames\<close>

definition c_str :: "string \<Rightarrow> string" where
  "c_str s = takeWhile (\<lambda>c. c \<noteq> CHR 0x00) s"

definition GetModulePath :: "MappedContainer \<Rightarrow> addr \<Rightarrow> string" where
  "GetModulePath c a = (case shltab c a of None \<Rightarrow> ''<unknown>'' | Some s \<Rightarrow> c_str s)"

definition GetProcName :: "MappedContainer \<Rightarrow> addr \<Rightarrow> string" where
  "GetProcName c a = (case symtab c a of None \<Rightarrow> ''<unknown>'' | Some s \<Rightarrow> c_str s)"

definition CxxSymbolDemangle :: "view_env \<Rightarrow> string \<Rightarrow> string" where
  "CxxSymbolDemangle env source = (case cxa_demangle env source of Some res \<Rightarrow> res | None \<Rightarrow> source)"

text \<open>\<^verbatim>\<open>os << std::hex << x\<close>\<close>

definition hex_digit :: "nat \<Rightarrow> char" where
  "hex_digit d = (if d < 10 then char_of (48 + d) else char_of (87 + d))"

fun nat_to_hex :: "nat \<Rightarrow> string" where
  "nat_to_hex n = (if n < 16 then [hex_digit n] else nat_to_hex (n div 16) @ [hex_digit (n mod 16)])"

declare nat_to_hex.simps [simp del]

definition frame_line :: "view_env \<Rightarrow> MappedContainer \<Rightarrow> TraceInfoCallStackItem \<Rightarrow> string" where
  "frame_line env c item =
     ''  [ip=0x'' @ nat_to_hex (unat (t_ip item)) @ '', sp=0x'' @ nat_to_hex (unat (t_sp item)) @ ''] '' @
     GetModulePath c (t_shl_addr item) @ ''('' @ CxxSymbolDemangle env (GetProcName c (t_ip item)) @
     '' +0x'' @ nat_to_hex (unat (t_offp item)) @ '')'' @ [CHR 0x0A]"

subsection \<open>The simple view\<close>

definition record_line :: "view_env \<Rightarrow> MappedContainer \<Rightarrow> bool \<Rightarrow> BasicTraceInfo \<Rightarrow> string" where
  "record_line env c show_callstack tinfo =
     (let ttsec = timestamp tinfo sdiv 1000000000;
          nsec = timestamp tinfo - ttsec * 1000000000;
          tm = localtime_r env ttsec
      in ''0x'' @ k_hex env (address tinfo) @ '', size='' @ k_ulong_long env (memsize tinfo) @
         '', ts='' @ k_int_aligned env 4 (tm_year tm + 1900) @ ''-'' @ k_int_aligned env 2 (tm_mon tm + 1) @ ''-'' @
         k_int_aligned env 2 (tm_mday tm) @ '' '' @ k_int_aligned env 2 (tm_hour tm) @ '':'' @
         k_int_aligned env 2 (tm_min tm) @ '':'' @ k_int_aligned env 2 (tm_sec tm) @ ''.'' @
         k_ulong_long env (word_of_int nsec) @ [CHR 0x0A] @
         (if show_callstack then concat (map (frame_line env c) (callstack tinfo)) else []))"

fun SimpleTraceInfoPrinter ::
    "view_env \<Rightarrow> MappedContainer \<Rightarrow> (nat \<Rightarrow> bool) \<Rightarrow> nat \<Rightarrow> BasicTraceInfo list \<Rightarrow> MappedViewBase \<Rightarrow>
     string \<times> MappedViewBase" where
  "SimpleTraceInfoPrinter env c intr k [] v = ([], v)"
| "SimpleTraceInfoPrinter env c intr k (tinfo # index) v =
     (if intr k then ([], v)
      else let (ok, v) = CheckTraceInfoOptions tinfo v;
               out = (if ok then record_line env c (GetOptionFlag kShowCallStack v) tinfo else []);
               (rest, v) = SimpleTraceInfoPrinter env c intr (Suc k) index v
           in (out @ rest, v))"

definition simple_index :: "view_env \<Rightarrow> MappedViewBase \<Rightarrow> BasicTraceInfo list \<Rightarrow> BasicTraceInfo list" where
  "simple_index env v c =
     (if GetOptionFlag kSortByAddress v then ix_address env c
      else if GetOptionFlag kSortBySize v then ix_memsize env c
      else ix_timestamp env c)"

definition simple_WriteImpl ::
    "view_env \<Rightarrow> MappedContainer \<Rightarrow> (nat \<Rightarrow> bool) \<Rightarrow> MappedViewBase \<Rightarrow> string \<times> MappedViewBase" where
  "simple_WriteImpl env c intr v =
     SimpleTraceInfoPrinter env c intr 0 (simple_index env v (indexed_container c)) v"

subsection \<open>The aggregated view\<close>

definition CallstackHash :: "view_env \<Rightarrow> TraceInfoCallStackItem list \<Rightarrow> u64" where
  "CallstackHash env cs =
     foldl (\<lambda>seed item. hash_combine env (hash_combine env seed (t_ip item)) (t_sp item)) 0 cs"

definition CallstackEqual :: "TraceInfoCallStackItem list \<Rightarrow> TraceInfoCallStackItem list \<Rightarrow> bool" where
  "CallstackEqual lhs rhs \<longleftrightarrow>
     (if length lhs \<noteq> length rhs then False
      else list_all2 (\<lambda>l r. t_ip l = t_ip r \<and> t_sp l = t_sp r) lhs rhs)"

text \<open>The unique hashed index: an element is found when hash and elements agree.\<close>

definition agg_match :: "view_env \<Rightarrow> TraceInfoCallStackItem list \<Rightarrow> AggregatedTraceInfo \<Rightarrow> bool" where
  "agg_match env cs x \<longleftrightarrow> CallstackHash env (a_callstack x) = CallstackHash env cs \<and> CallstackEqual (a_callstack x) cs"

definition FieldsUpdater :: "usize \<Rightarrow> AggregatedTraceInfo \<Rightarrow> AggregatedTraceInfo" where
  "FieldsUpdater n x = x\<lparr>a_memsize := a_memsize x + n, a_times := a_times x + 1\<rparr>"

definition agg_add :: "view_env \<Rightarrow> BasicTraceInfo \<Rightarrow> AggregatedTraceInfo list \<Rightarrow> AggregatedTraceInfo list" where
  "agg_add env tinfo c =
     (if \<exists>x\<in>set c. agg_match env (callstack tinfo) x
      then map (\<lambda>x. if agg_match env (callstack tinfo) x then FieldsUpdater (memsize tinfo) x else x) c
      else c @ [\<lparr>a_memsize = memsize tinfo, a_times = 1, a_callstack = callstack tinfo\<rparr>])"

text \<open>The builder stops at the first record at which it sees the interrupt: then there is no result.\<close>

fun AggregatedBuilder ::
    "view_env \<Rightarrow> (nat \<Rightarrow> bool) \<Rightarrow> nat \<Rightarrow> BasicTraceInfo list \<Rightarrow> MappedViewBase \<Rightarrow> AggregatedTraceInfo list \<Rightarrow>
     (nat \<times> AggregatedTraceInfo list) option \<times> MappedViewBase" where
  "AggregatedBuilder env intr k [] v acc = (Some (k, acc), v)"
| "AggregatedBuilder env intr k (tinfo # index) v acc =
     (if intr k then (None, v)
      else let (ok, v) = CheckTraceInfoOptions tinfo v
           in AggregatedBuilder env intr (Suc k) index v (if ok then agg_add env tinfo acc else acc))"

definition aggregated_line :: "view_env \<Rightarrow> MappedContainer \<Rightarrow> bool \<Rightarrow> AggregatedTraceInfo \<Rightarrow> string" where
  "aggregated_line env c show_callstack x =
     ''size='' @ k_ulong_long env (a_memsize x) @ '', times='' @ k_ulong_long env (a_times x) @ [CHR 0x0A] @
     (if show_callstack then concat (map (frame_line env c) (a_callstack x)) else [])"

fun AggregatedTraceInfoPrinter ::
    "view_env \<Rightarrow> MappedContainer \<Rightarrow> (nat \<Rightarrow> bool) \<Rightarrow> nat \<Rightarrow> bool \<Rightarrow> AggregatedTraceInfo list \<Rightarrow> string" where
  "AggregatedTraceInfoPrinter env c intr k sc [] = []"
| "AggregatedTraceInfoPrinter env c intr k sc (x # index) =
     (if intr k then [] else aggregated_line env c sc x @ AggregatedTraceInfoPrinter env c intr (Suc k) sc index)"

definition aggregated_WriteImpl ::
    "view_env \<Rightarrow> MappedContainer \<Rightarrow> (nat \<Rightarrow> bool) \<Rightarrow> MappedViewBase \<Rightarrow> string \<times> MappedViewBase" where
  "aggregated_WriteImpl env c intr v =
     (case AggregatedBuilder env intr 0 (ix_timestamp env (indexed_container c)) v [] of
        (None, v) \<Rightarrow> ([], v)
      | (Some (k, acc), v) \<Rightarrow>
          (AggregatedTraceInfoPrinter env c intr k (GetOptionFlag kShowCallStack v)
             (if GetOptionFlag kSortBySize v then ix_total env acc else ix_times env acc), v))"

subsection \<open>Writing under the lock\<close>

datatype view_kind = SimpleView | AggregatedView

definition WriteImpl ::
    "view_env \<Rightarrow> view_kind \<Rightarrow> MappedContainer \<Rightarrow> (nat \<Rightarrow> bool) \<Rightarrow> MappedViewBase \<Rightarrow> string \<times> MappedViewBase" where
  "WriteImpl env kind = (case kind of SimpleView \<Rightarrow> simple_WriteImpl env | AggregatedView \<Rightarrow> aggregated_WriteImpl env)"

definition view_Write ::
    "view_env \<Rightarrow> view_kind \<Rightarrow> MappedContainer \<Rightarrow> (nat \<Rightarrow> bool) \<Rightarrow> MappedViewBase \<Rightarrow> sig_state \<Rightarrow>
     (int + string \<times> MappedViewBase) \<times> sig_state" where
  "view_Write env kind c intr v s =
     with_InterprocessScopedLock (GetOptionFlag kNoLock v) (\<lambda>locked t. WriteImpl env kind c intr v) s"

lemma view_Write_eq: "view_Write env kind c intr v s = (Inr (WriteImpl env kind c intr v), s)"
proof -
  let ?b = "\<lambda>(locked::bool) (t::sig_state). WriteImpl env kind c intr v"
  have "nest [Mask [2], Handler 2 InterruptHandler_id] (?b l) s = (Inr (WriteImpl env kind c intr v), s)" for l :: bool
    using nest_restores [of "[Mask [2], Handler 2 InterruptHandler_id]" "?b l" s]
    by (simp add: ScopedSignalLock_eq ScopedSignal_def set_action_def catchable_def Let_def)
  then show ?thesis by (simp add: view_Write_def viewer_lock_nest)
qed

subsection \<open>What the simple view prints\<close>

text \<open>
  The printers go through their index once: what they show are the records that satisfy all
  filters, with the start times settled on that index.
\<close>

definition shown :: "BasicTraceInfo list \<Rightarrow> MappedViewOption list \<Rightarrow> BasicTraceInfo list" where
  "shown ix ps = filter (\<lambda>x. \<forall>q\<in>set (resolve [] ix ps). satisfies q x) ix"

lemma flag_options [simp]: "GetOptionFlag f (v\<lparr>m_options := ps\<rparr>) = GetOptionFlag f v"
  by (simp add: GetOptionFlag_def)

lemma simple_printer_shown:
  assumes "\<forall>x\<in>set xs. record_time x" "\<forall>p\<in>set (m_options v). option_times p"
  shows "SimpleTraceInfoPrinter env c (\<lambda>_. False) k xs v =
     (concat (map (record_line env c (GetOptionFlag kShowCallStack v)) (shown xs (m_options v))),
      v\<lparr>m_options := resolve [] xs (m_options v)\<rparr>)"
  using assms
proof (induction xs arbitrary: k v)
  case (Cons x xs)
  from Cons.prems have "record_time x" "\<forall>p\<in>set (m_options v). option_times p" by simp_all
  from CheckTraceInfoOptions_step [OF this, of xs] obtain ps where
    ps: "CheckTraceInfoOptions x v = (\<forall>q\<in>set (resolve [] (x # xs) (m_options v)). satisfies q x, v\<lparr>m_options := ps\<rparr>)"
    "resolve [] xs ps = resolve [] (x # xs) (m_options v)" "\<forall>p\<in>set ps. option_times p" by blast
  from Cons.IH [of "v\<lparr>m_options := ps\<rparr>" "Suc k"] Cons.prems ps(2,3) have
    "SimpleTraceInfoPrinter env c (\<lambda>_. False) (Suc k) xs (v\<lparr>m_options := ps\<rparr>) =
      (concat (map (record_line env c (GetOptionFlag kShowCallStack v)) (shown xs ps)),
       v\<lparr>m_options := resolve [] (x # xs) (m_options v)\<rparr>)" by simp
  with ps show ?case by (simp add: shown_def Let_def)
qed (cases v; simp add: shown_def resolve_Nil)

text \<open>Without filters a view prints everything.\<close>

lemma simple_printer_plain:
  assumes "m_options v = []" "\<And>j. \<not> intr j"
  shows "SimpleTraceInfoPrinter env c intr k xs v =
     (concat (map (record_line env c (GetOptionFlag kShowCallStack v)) xs), v)"
proof -
  have "CheckTraceInfoOptions x v = (True, v)" for x :: BasicTraceInfo
    using assms(1) by (cases v) (simp add: CheckTraceInfoOptions_def)
  then show ?thesis using assms(2) by (induction xs arbitrary: k) (simp_all add: Let_def)
qed

lemma simple_index_sorted:
  assumes "indices_ok env"
  shows "mset (simple_index env v c) = mset c \<and>
     (if GetOptionFlag kSortByAddress v then sorted (map address (simple_index env v c))
      else if GetOptionFlag kSortBySize v then sorted (map memsize (simple_index env v c))
      else sorted (map timestamp (simple_index env v c)))"
  using assms by (simp add: simple_index_def indices_ok_def ordered_by_def)

text \<open>An order by times that are all different is the only one.\<close>

lemma sorted_by_times:
  fixes xs ys :: "BasicTraceInfo list"
  assumes "mset xs = mset ys" "sorted (map timestamp xs)" "sorted (map timestamp ys)" "distinct (map timestamp ys)"
  shows "xs = ys"
proof -
  have "inj_on timestamp (set ys)" using assms(4) by (simp add: distinct_map)
  moreover have "set xs = set ys" using assms(1) by (metis set_mset_mset)
  moreover have "map timestamp xs = map timestamp ys"
    using properties_for_sort [of "map timestamp xs" "map timestamp ys"]
      properties_for_sort [of "map timestamp ys" "map timestamp ys"] assms(1-3) by (simp add: mset_map)
  ultimately show ?thesis by (metis map_inj_on Un_absorb)
qed

subsection \<open>Aggregation\<close>

definition stack_key :: "TraceInfoCallStackItem list \<Rightarrow> (addr \<times> addr) list" where
  "stack_key cs = map (\<lambda>i. (t_ip i, t_sp i)) cs"

lemma CallstackEqual_key: "CallstackEqual a b \<longleftrightarrow> stack_key a = stack_key b"
proof (cases "length a = length b")
  case True
  then have "list_all2 (\<lambda>l r. t_ip l = t_ip r \<and> t_sp l = t_sp r) a b \<longleftrightarrow> stack_key a = stack_key b"
    by (induction a b rule: list_induct2) (auto simp: stack_key_def)
  with True show ?thesis by (simp add: CallstackEqual_def)
next
  case False
  then have "length (stack_key a) \<noteq> length (stack_key b)" by (simp add: stack_key_def)
  with False show ?thesis unfolding CallstackEqual_def by force
qed

lemma CallstackHash_key:
  assumes "stack_key a = stack_key b"
  shows "CallstackHash env a = CallstackHash env b"
proof -
  have "CallstackHash env cs = foldl (\<lambda>seed (i, s). hash_combine env (hash_combine env seed i) s) 0 (stack_key cs)" for cs
    by (simp add: CallstackHash_def stack_key_def foldl_map)
  with assms show ?thesis by simp
qed

lemma agg_match_key: "agg_match env cs x \<longleftrightarrow> stack_key (a_callstack x) = stack_key cs"
  unfolding agg_match_def CallstackEqual_key by (metis CallstackHash_key)

text \<open>The groups of a list of records: the records with a given call stack.\<close>

definition group :: "(addr \<times> addr) list \<Rightarrow> BasicTraceInfo list \<Rightarrow> BasicTraceInfo list" where
  "group K xs = filter (\<lambda>x. stack_key (callstack x) = K) xs"

definition aggregates :: "BasicTraceInfo list \<Rightarrow> AggregatedTraceInfo list \<Rightarrow> bool" where
  "aggregates xs acc \<longleftrightarrow>
     distinct (map (\<lambda>e. stack_key (a_callstack e)) acc) \<and>
     (\<lambda>e. stack_key (a_callstack e)) ` set acc = (\<lambda>x. stack_key (callstack x)) ` set xs \<and>
     (\<forall>e\<in>set acc. a_memsize e = sum_list (map memsize (group (stack_key (a_callstack e)) xs)) \<and>
        a_times e = word_of_nat (length (group (stack_key (a_callstack e)) xs)))"

lemma aggregates_add:
  assumes "aggregates xs acc"
  shows "aggregates (xs @ [x]) (agg_add env x acc)"
proof (cases "stack_key (callstack x) \<in> (\<lambda>e. stack_key (a_callstack e)) ` set acc")
  case True
  define f where "f = (\<lambda>e. if stack_key (a_callstack e) = stack_key (callstack x) then FieldsUpdater (memsize x) e else e)"
  have keep: "stack_key (a_callstack (f e)) = stack_key (a_callstack e)" for e
    by (simp add: f_def FieldsUpdater_def)
  have add: "agg_add env x acc = map f acc"
    using True unfolding agg_add_def agg_match_key f_def by (simp add: image_iff) metis
  have val: "a_memsize (f e) = sum_list (map memsize (group (stack_key (a_callstack e)) (xs @ [x]))) \<and>
      a_times (f e) = word_of_nat (length (group (stack_key (a_callstack e)) (xs @ [x])))" if "e \<in> set acc" for e
    using assms that by (auto simp: aggregates_def group_def FieldsUpdater_def f_def)
  show ?thesis unfolding add aggregates_def
    using assms True val by (simp add: aggregates_def keep image_image comp_def insert_absorb)
next
  case False
  then have "stack_key (callstack y) \<noteq> stack_key (callstack x)" if "y \<in> set xs" for y
    using assms that unfolding aggregates_def by (metis imageI)
  then have none: "group (stack_key (callstack x)) xs = []"
    by (simp add: group_def)
  have neq: "stack_key (a_callstack e) \<noteq> stack_key (callstack x)" if "e \<in> set acc" for e
    using False that by (metis imageI)
  then have add: "agg_add env x acc = acc @ [\<lparr>a_memsize = memsize x, a_times = 1, a_callstack = callstack x\<rparr>]"
    by (auto simp: agg_add_def agg_match_key)
  have "group (stack_key (a_callstack e)) (xs @ [x]) = group (stack_key (a_callstack e)) xs" if "e \<in> set acc" for e
    using neq [OF that] by (simp add: group_def)
  moreover have "group (stack_key (callstack x)) (xs @ [x]) = [x]" using none by (simp add: group_def)
  ultimately show ?thesis
    using assms False unfolding add aggregates_def by simp
qed

lemma aggregates_fold: "aggregates xs (fold (agg_add env) xs [])"
proof (induction xs rule: rev_induct)
  case Nil
  show ?case by (simp add: aggregates_def)
next
  case (snoc x xs)
  then show ?case using aggregates_add by simp
qed

lemma builder_shown:
  assumes "\<forall>x\<in>set xs. record_time x" "\<forall>p\<in>set (m_options v). option_times p"
  shows "AggregatedBuilder env (\<lambda>_. False) k xs v acc =
     (Some (k + length xs, fold (agg_add env) (shown xs (m_options v)) acc), v\<lparr>m_options := resolve [] xs (m_options v)\<rparr>)"
  using assms
proof (induction xs arbitrary: k v acc)
  case (Cons x xs)
  from Cons.prems have "record_time x" "\<forall>p\<in>set (m_options v). option_times p" by simp_all
  from CheckTraceInfoOptions_step [OF this, of xs] obtain ps where
    ps: "CheckTraceInfoOptions x v = (\<forall>q\<in>set (resolve [] (x # xs) (m_options v)). satisfies q x, v\<lparr>m_options := ps\<rparr>)"
    "resolve [] xs ps = resolve [] (x # xs) (m_options v)" "\<forall>p\<in>set ps. option_times p" by blast
  from Cons.IH [of "v\<lparr>m_options := ps\<rparr>" "Suc k"] Cons.prems ps(2,3) have
    "AggregatedBuilder env (\<lambda>_. False) (Suc k) xs (v\<lparr>m_options := ps\<rparr>) acc' =
      (Some (Suc k + length xs, fold (agg_add env) (shown xs ps) acc'),
       v\<lparr>m_options := resolve [] (x # xs) (m_options v)\<rparr>)" for acc' by simp
  with ps show ?case by (simp add: shown_def Let_def)
qed (cases v; simp add: shown_def resolve_Nil)

lemma aggregated_printer_all:
  "(\<And>j. \<not> intr j) \<Longrightarrow> AggregatedTraceInfoPrinter env c intr k sc xs = concat (map (aggregated_line env c sc) xs)"
  by (induction xs arbitrary: k) auto

lemma aggregates_perm:
  assumes "aggregates xs acc" and "mset acc' = mset acc" and "mset xs' = mset xs"
  shows "aggregates xs' acc'"
proof -
  have d: "distinct (map f acc') = distinct (map f acc)" for f :: "AggregatedTraceInfo \<Rightarrow> (addr \<times> addr) list"
    by (rule mset_eq_imp_distinct_iff) (simp add: assms(2))
  have g: "mset (group K xs') = mset (group K xs)" for K by (simp add: group_def assms(3))
  have "sum_list (map memsize (group K xs')) = sum_list (map memsize (group K xs))" for K
    using g [of K] by (metis mset_map sum_mset_sum_list)
  moreover have "length (group K xs') = length (group K xs)" for K using g [of K] by (metis size_mset)
  ultimately show ?thesis using assms(1) d mset_eq_setD [OF assms(2)] mset_eq_setD [OF assms(3)]
    by (simp add: aggregates_def)
qed

subsection \<open>Properties\<close>

definition shown_key_sorted :: "MappedViewBase \<Rightarrow> BasicTraceInfo list \<Rightarrow> bool" where
  "shown_key_sorted v xs \<longleftrightarrow>
     (if GetOptionFlag kSortByAddress v then sorted (map address xs)
      else if GetOptionFlag kSortBySize v then sorted (map memsize xs)
      else sorted (map timestamp xs))"

text \<open>
  C10. The simple view is exact: when it is not interrupted, it goes through the records of the
  container in the order of the key that the flags choose (address, size or time), and prints
  one entry for every record that satisfies all filters, no other: size at least the given
  one, time between the given ones, age at the start of the viewer, or distance from the
  start, between the given durations. The start is the time of the first record in that order
  that reaches the filter. The times of the records and of the clock are those of a clock
  since the epoch, and no record has time 0. The signal state is as before, and of the view
  only the start times have changed.
\<close>

theorem simple_view_exact:
  assumes "indices_ok env" and "\<forall>x\<in>set (indexed_container c). record_time x"
    and "\<forall>p\<in>set (m_options v). option_times p" and "\<forall>j. \<not> intr j"
  shows "\<exists>ix. mset ix = mset (indexed_container c) \<and> shown_key_sorted v ix \<and>
           view_Write env SimpleView c intr v s =
             (Inr (concat (map (record_line env c (GetOptionFlag kShowCallStack v))
                (filter (\<lambda>x. \<forall>q\<in>set (resolve [] ix (m_options v)). satisfies q x) ix)),
              v\<lparr>m_options := resolve [] ix (m_options v)\<rparr>), s)"
proof -
  let ?ix = "simple_index env v (indexed_container c)"
  note ix = simple_index_sorted [OF assms(1), of v "indexed_container c"]
  then have "set ?ix = set (indexed_container c)" by (metis set_mset_mset)
  moreover have "intr = (\<lambda>_. False)" using assms(4) by auto
  ultimately have "view_Write env SimpleView c intr v s =
      (Inr (concat (map (record_line env c (GetOptionFlag kShowCallStack v)) (shown ?ix (m_options v))),
        v\<lparr>m_options := resolve [] ?ix (m_options v)\<rparr>), s)"
    using assms by (simp add: view_Write_eq WriteImpl_def simple_WriteImpl_def simple_printer_shown)
  with ix show ?thesis by (auto simp: shown_key_sorted_def shown_def)
qed

definition demo_env :: view_env where
  "demo_env = \<lparr>k_hex = (\<lambda>a. nat_to_hex (unat a)), k_ulong_long = (\<lambda>n. nat_to_string (unat n)),
     k_int_aligned = (\<lambda>n i. int_to_string i), localtime_r = (\<lambda>t. \<lparr>tm_year = 70, tm_mon = 0, tm_mday = 1, tm_hour = 0, tm_min = 0, tm_sec = t\<rparr>),
     cxa_demangle = (\<lambda>_. None), hash_combine = (\<lambda>s a. s + a), ix_address = sort_key address, ix_timestamp = sort_key timestamp,
     ix_memsize = sort_key memsize, ix_total = sort_key a_memsize, ix_times = sort_key a_times\<rparr>"

lemma demo_env_ok: "indices_ok demo_env"
  by (simp add: indices_ok_def ordered_by_def demo_env_def)

definition demo_records :: "BasicTraceInfo list" where
  "demo_records = [new_BasicTraceInfo 0x2000 64 2000000000 [], new_BasicTraceInfo 0x1000 16 1000000000 [],
     new_BasicTraceInfo 0x3000 8 3000000000 []]"

definition demo_container :: MappedContainer where
  "demo_container = new_MappedContainer\<lparr>indexed_container := demo_records\<rparr>"

definition demo_signals :: sig_state where
  "demo_signals = \<lparr>sg_mask = {}, sg_action = (\<lambda>n. \<lparr>sa_flags = 0, sa_sigaction = 0, sa_mask = {}\<rparr>)\<rparr>"

lemma demo_times: "\<forall>x\<in>set (indexed_container demo_container). record_time x"
  by (simp add: demo_container_def demo_records_def record_time_def clock_time_def)

text \<open>
  With the filters of at least 16 bytes and at least one second from the start, the start is
  that of the oldest record of at least 16 bytes.
\<close>

theorem simple_view_exact_witness:
  "\<exists>v' xs. view_Write demo_env SimpleView demo_container (\<lambda>_. False)
       (SetOption (MinTimeFromStart 0 1000000000) (SetOption (MinSize 16) new_MappedViewBase)) demo_signals =
     (Inr (concat (map (record_line demo_env demo_container False) xs), v'), demo_signals) \<and>
     map address xs = [0x2000]"
proof -
  let ?v = "SetOption (MinTimeFromStart 0 1000000000) (SetOption (MinSize 16) new_MappedViewBase)"
  let ?a = "new_BasicTraceInfo 0x1000 16 1000000000 []" and ?b = "new_BasicTraceInfo 0x2000 64 2000000000 []"
    and ?c = "new_BasicTraceInfo 0x3000 8 3000000000 []"
  have flags: "\<not> GetOptionFlag kShowCallStack ?v" "\<not> GetOptionFlag kSortByAddress ?v" "\<not> GetOptionFlag kSortBySize ?v"
    and opts: "m_options ?v = [MinSize 16, MinTimeFromStart 0 1000000000]"
    by (simp_all add: SetOption_def new_MappedViewBase_def GetOptionFlag_def flag_defs)
  have "\<forall>p\<in>set (m_options ?v). option_times p" unfolding opts by (simp add: clock_time_def)
  from simple_view_exact [OF demo_env_ok demo_times this, of "\<lambda>_. False" demo_signals] obtain ix where
    ix: "mset ix = mset demo_records" "sorted (map timestamp ix)"
      "view_Write demo_env SimpleView demo_container (\<lambda>_. False) ?v demo_signals =
        (Inr (concat (map (record_line demo_env demo_container False)
           (filter (\<lambda>x. \<forall>q\<in>set (resolve [] ix (m_options ?v)). satisfies q x) ix)),
         ?v\<lparr>m_options := resolve [] ix (m_options ?v)\<rparr>), demo_signals)"
    unfolding shown_key_sorted_def using flags by (auto simp: demo_container_def)
  have "ix = [?a, ?b, ?c]"
  proof (rule sorted_by_times)
    show "mset ix = mset [?a, ?b, ?c]" by (simp add: ix(1) demo_records_def)
  qed (use ix(2) in simp_all)
  then have "filter (\<lambda>x. \<forall>q\<in>set (resolve [] ix (m_options ?v)). satisfies q x) ix = [?b]"
    unfolding opts by simp
  with ix(3) show ?thesis by (intro exI [of _ "?v\<lparr>m_options := resolve [] ix (m_options ?v)\<rparr>"] exI [of _ "[?b]"]) simp
qed

text \<open>
  C9. The aggregated view is exact: when it is not interrupted, it takes the records that satisfy
  all filters (the start, for a filter that measures from it, being the time of the oldest
  record that reaches the filter), and prints one entry for every call stack that occurs in
  one of them, with the sum of the sizes (modulo \<open>2 ^ 64\<close>) and the number of its records. The
  entries are ordered by total size when the view is to be sorted by size, and by the number
  of records otherwise; the view does not look at the flags for other orders. The times are
  those of a clock since the epoch, and no record has time 0.
\<close>

theorem aggregated_view_exact:
  assumes "indices_ok env" and "\<forall>x\<in>set (indexed_container c). record_time x"
    and "\<forall>p\<in>set (m_options v). option_times p" and "\<forall>j. \<not> intr j"
  shows "\<exists>ix es. mset ix = mset (indexed_container c) \<and> sorted (map timestamp ix) \<and>
         view_Write env AggregatedView c intr v s =
           (Inr (concat (map (aggregated_line env c (GetOptionFlag kShowCallStack v)) es),
            v\<lparr>m_options := resolve [] ix (m_options v)\<rparr>), s) \<and>
         aggregates (filter (\<lambda>x. \<forall>q\<in>set (resolve [] ix (m_options v)). satisfies q x) ix) es \<and>
         (if GetOptionFlag kSortBySize v then sorted (map a_memsize es) else sorted (map a_times es))"
proof -
  let ?ix = "ix_timestamp env (indexed_container c)"
  let ?acc = "fold (agg_add env) (shown ?ix (m_options v)) []"
  let ?es = "if GetOptionFlag kSortBySize v then ix_total env ?acc else ix_times env ?acc"
  have ix: "mset ?ix = mset (indexed_container c)" "sorted (map timestamp ?ix)"
    using assms(1) by (simp_all add: indices_ok_def ordered_by_def)
  then have "set ?ix = set (indexed_container c)" by (metis set_mset_mset)
  moreover have "intr = (\<lambda>_. False)" using assms(4) by auto
  ultimately have "view_Write env AggregatedView c intr v s =
      (Inr (concat (map (aggregated_line env c (GetOptionFlag kShowCallStack v)) ?es),
        v\<lparr>m_options := resolve [] ?ix (m_options v)\<rparr>), s)"
    using assms by (simp add: view_Write_eq WriteImpl_def aggregated_WriteImpl_def builder_shown aggregated_printer_all)
  moreover have "aggregates (shown ?ix (m_options v)) ?es"
    by (rule aggregates_perm [OF aggregates_fold [of _ env]])
      (use assms(1) in \<open>simp_all add: indices_ok_def ordered_by_def\<close>)
  moreover have "if GetOptionFlag kSortBySize v then sorted (map a_memsize ?es) else sorted (map a_times ?es)"
    using assms(1) by (simp add: indices_ok_def ordered_by_def)
  ultimately show ?thesis using ix unfolding shown_def by blast
qed

theorem aggregated_view_exact_witness:
  "\<exists>e. fst (view_Write demo_env AggregatedView demo_container (\<lambda>_. False) new_MappedViewBase demo_signals) =
       Inr (aggregated_line demo_env demo_container False e, new_MappedViewBase) \<and>
     a_memsize e = 88 \<and> a_times e = 3"
proof -
  let ?v = new_MappedViewBase
  have flags: "\<not> GetOptionFlag kShowCallStack ?v" "\<not> GetOptionFlag kSortBySize ?v"
    by (simp_all add: new_MappedViewBase_def GetOptionFlag_def flag_defs)
  obtain es where es: "view_Write demo_env AggregatedView demo_container (\<lambda>_. False) ?v demo_signals =
      (Inr (concat (map (aggregated_line demo_env demo_container False) es), ?v), demo_signals)"
    and agg: "aggregates demo_records es"
proof -
    have "\<forall>p\<in>set (m_options ?v). option_times p" "m_options ?v = []" by (simp_all add: new_MappedViewBase_def)
    from aggregated_view_exact [OF demo_env_ok demo_times this(1), of "\<lambda>_. False" demo_signals] this(2) flags
    obtain ix es where a: "mset ix = mset demo_records" "aggregates ix es"
        "view_Write demo_env AggregatedView demo_container (\<lambda>_. False) ?v demo_signals =
          (Inr (concat (map (aggregated_line demo_env demo_container False) es), ?v), demo_signals)"
      by (auto simp: demo_container_def new_MappedViewBase_def)
    from aggregates_perm [OF a(2), of es demo_records] a(1) that [OF a(3)] show thesis by simp
  qed
  have keys: "(\<lambda>e. stack_key (a_callstack e)) ` set es = {[]}" "distinct (map (\<lambda>e. stack_key (a_callstack e)) es)"
    using agg by (simp_all add: aggregates_def demo_records_def stack_key_def)
  then have "length es = 1"
    by (metis card.empty card_insert_disjoint distinct_card empty_iff finite.emptyI length_map list.set_map One_nat_def)
  then obtain e where e: "es = [e]" by (auto simp: length_Suc_conv)
  then have "stack_key (a_callstack e) = []" using keys by simp
  then have "a_memsize e = 88" "a_times e = 3"
    using agg by (simp_all add: e aggregates_def group_def demo_records_def stack_key_def)
  then show ?thesis using es e by auto
qed

text \<open>
  An interrupt cuts the simple view at a record: what has been printed then is what a view of
  the records before it prints, complete; the signal state is restored.
\<close>

lemma simple_printer_interrupted:
  assumes "\<forall>j<n. \<not> intr (k + j)" "intr (k + n)"
  shows "SimpleTraceInfoPrinter env c intr k xs v = SimpleTraceInfoPrinter env c (\<lambda>_. False) k (take n xs) v"
  using assms
proof (induction xs arbitrary: k n v)
  case (Cons x xs)
  show ?case
  proof (cases n)
    case 0
    with Cons.prems show ?thesis by simp
  next
    case (Suc m)
    have "\<not> intr (Suc k + j)" if "j < m" for j using Cons.prems(1) Suc that by (metis Suc_less_eq add_Suc_shift)
    moreover have "intr (Suc k + m)" using Cons.prems(2) Suc by simp
    moreover have "\<not> intr k" using Cons.prems(1) Suc by (metis add_0_right zero_less_Suc)
    ultimately show ?thesis using Cons.IH [of m "Suc k"] Suc by (simp add: Let_def split: prod.split)
  qed
qed simp

theorem simple_view_interrupted:
  assumes "\<forall>x\<in>set (take n (simple_index env v (indexed_container c))). record_time x"
    and "\<forall>p\<in>set (m_options v). option_times p" and "\<forall>j<n. \<not> intr j" and "intr n"
  shows "\<exists>v'. view_Write env SimpleView c intr v s =
           (Inr (concat (map (record_line env c (GetOptionFlag kShowCallStack v))
              (shown (take n (simple_index env v (indexed_container c))) (m_options v))), v'), s)"
  using simple_printer_interrupted [of n intr 0 env c "simple_index env v (indexed_container c)" v] assms
  by (simp add: view_Write_eq WriteImpl_def simple_WriteImpl_def simple_printer_shown)

end
