(* ===== verification/Memhook_Hooks.thy ===== *)
theory Memhook_Hooks
  imports Engine
begin

unbundle bit_operations_syntax

text \<open>
  The functions that replace the C library's in the hooked process,
  \<^verbatim>\<open>src/memhook/memhook.cpp\<close> and \<^verbatim>\<open>no_hook.h\<close>. The library functions the hooks forward to
  (the table \<^verbatim>\<open>DLFunctions\<close>) are the record \<open>libc\<close> over an abstract state \<open>'w\<close> of the
  rest of the process: the heap, the loader, the resolver. A process is that state, the
  engine singleton, the thread's hook depth and the two lazily found symbols.

  While the depth is not 0 a hook only forwards. Code that the library runs in between
  (a new-handler, a library's constructors) therefore sees no tracing and is part of
  the library's state. Only \<^verbatim>\<open>dlclose\<close> and \<^verbatim>\<open>dl_iterate_phdr\<close> run foreign code (destructors,
  the callback) with hooks enabled: their hooks do nothing before they forward, so what that
  code calls are calls of the program like any others, which come before the call of
  \<^verbatim>\<open>dlclose\<close> or \<^verbatim>\<open>dl_iterate_phdr\<close> itself in the order of a run. \<open>None\<close> is the undefined
  behaviour of the unwinder with an empty cache, or a new-handler loop that never ends.
\<close>

datatype nh_result = NhReturns | NhBadAlloc | NhOther

record ('w, 's) process =
  p_world :: 'w
  p_engine :: "'s Engine option"
  p_depth :: int
  p_dlsym :: addr
  p_dlvsym :: addr

record 'w libc =
  l_free :: "addr \<Rightarrow> 'w \<Rightarrow> 'w"
  l_malloc :: "usize \<Rightarrow> 'w \<Rightarrow> addr \<times> 'w"
  l_calloc :: "usize \<Rightarrow> usize \<Rightarrow> 'w \<Rightarrow> addr \<times> 'w"
  l_realloc :: "addr \<Rightarrow> usize \<Rightarrow> 'w \<Rightarrow> addr \<times> 'w"
  l_memalign :: "usize \<Rightarrow> usize \<Rightarrow> 'w \<Rightarrow> addr \<times> 'w"
  l_posix_memalign :: "addr \<Rightarrow> usize \<Rightarrow> usize \<Rightarrow> 'w \<Rightarrow> (int \<times> addr) \<times> 'w"
  l_cfree :: "addr \<Rightarrow> 'w \<Rightarrow> 'w"
  l_aligned_alloc :: "usize \<Rightarrow> usize \<Rightarrow> 'w \<Rightarrow> addr \<times> 'w"
  l_valloc :: "usize \<Rightarrow> 'w \<Rightarrow> addr \<times> 'w"
  l_pvalloc :: "usize \<Rightarrow> 'w \<Rightarrow> addr \<times> 'w"
  l_mmap :: "addr \<Rightarrow> usize \<Rightarrow> int \<Rightarrow> u32 \<Rightarrow> int \<Rightarrow> int \<Rightarrow> 'w \<Rightarrow> addr \<times> 'w"
  l_mmap64 :: "addr \<Rightarrow> usize \<Rightarrow> int \<Rightarrow> u32 \<Rightarrow> int \<Rightarrow> int \<Rightarrow> 'w \<Rightarrow> addr \<times> 'w"
  l_mremap :: "addr \<Rightarrow> usize \<Rightarrow> usize \<Rightarrow> u32 \<Rightarrow> addr \<Rightarrow> 'w \<Rightarrow> addr \<times> 'w"
  l_munmap :: "addr \<Rightarrow> usize \<Rightarrow> 'w \<Rightarrow> int \<times> 'w"
  l_new_handler_set :: "'w \<Rightarrow> bool"
  l_new_handler :: "'w \<Rightarrow> nh_result \<times> 'w"
  l_dlopen :: "string \<Rightarrow> int \<Rightarrow> 'w \<Rightarrow> addr \<times> 'w"
  l_dlmopen :: "int \<Rightarrow> string \<Rightarrow> int \<Rightarrow> 'w \<Rightarrow> addr \<times> 'w"
  l_dlclose :: "addr \<Rightarrow> 'w \<Rightarrow> int \<times> 'w"
  l_dl_iterate_phdr :: "addr \<Rightarrow> addr \<Rightarrow> 'w \<Rightarrow> int \<times> 'w"
  l_resolver :: "string \<Rightarrow> u64 list \<Rightarrow> 'w \<Rightarrow> u64 \<times> 'w"
  l_find_dl_symbol :: "string \<Rightarrow> 'w \<Rightarrow> addr \<times> 'w"
  l_dl_sym :: "addr \<Rightarrow> string \<Rightarrow> 'w \<Rightarrow> addr \<times> 'w"
  l_dl_vsym :: "addr \<Rightarrow> string \<Rightarrow> string \<Rightarrow> 'w \<Rightarrow> addr \<times> 'w"
  l_call_dlsym :: "addr \<Rightarrow> addr \<Rightarrow> string \<Rightarrow> 'w \<Rightarrow> addr \<times> 'w"
  l_call_dlvsym :: "addr \<Rightarrow> addr \<Rightarrow> string \<Rightarrow> string \<Rightarrow> 'w \<Rightarrow> addr \<times> 'w"
  l_ctx :: "'w \<Rightarrow> hook_ctx"

type_synonym ('w, 's, 'r) hook = "('w, 's) process \<Rightarrow> ('r \<times> ('w, 's) process) option"

definition MAP_FAILED :: addr where "MAP_FAILED = - 1"
definition MAP_PRIVATE :: u32 where "MAP_PRIVATE = 0x02"
definition MAP_ANONYMOUS :: u32 where "MAP_ANONYMOUS = 0x20"
definition MAP_STACK :: u32 where "MAP_STACK = 0x20000"
definition RTLD_NEXT :: addr where "RTLD_NEXT = - 1"

subsection \<open>NoHook\<close>

definition IsNested :: "('w, 's) process \<Rightarrow> bool" where
  "IsNested p \<longleftrightarrow> p_depth p \<noteq> 0"

definition NoHook :: "('w, 's) process \<Rightarrow> ('w, 's) process" where
  "NoHook p = p\<lparr>p_depth := p_depth p + 1\<rparr>"

definition NoHook_end :: "('w, 's) process \<Rightarrow> ('w, 's) process" where
  "NoHook_end p = p\<lparr>p_depth := p_depth p - 1\<rparr>"

text \<open>A block that begins with \<^verbatim>\<open>NoHook no_hook;\<close>, left normally or by an exception.\<close>

definition with_no_hook :: "('w, 's, 'r) hook \<Rightarrow> ('w, 's, 'r) hook" where
  "with_no_hook body p = do { (r, p) \<leftarrow> body (NoHook p); Some (r, NoHook_end p) }"

text \<open>A call of a library function from the table.\<close>

definition do_call :: "('w \<Rightarrow> 'r \<times> 'w) \<Rightarrow> ('w, 's, 'r) hook" where
  "do_call f p = (case f (p_world p) of (r, w) \<Rightarrow> Some (r, p\<lparr>p_world := w\<rparr>))"

definition do_void :: "('w \<Rightarrow> 'w) \<Rightarrow> ('w, 's, unit) hook" where
  "do_void f p = Some ((), p\<lparr>p_world := f (p_world p)\<rparr>)"

text \<open>The engine's static entry points on the process's singleton.\<close>

definition engine_call ::
    "('s Engine option \<Rightarrow> 's Engine option option) \<Rightarrow> ('w, 's) process \<Rightarrow> ('w, 's) process option" where
  "engine_call f p = map_option (\<lambda>e. p\<lparr>p_engine := e\<rparr>) (f (p_engine p))"

definition hook_alloc ::
    "'s storage_ops \<Rightarrow> 'w libc \<Rightarrow> addr \<Rightarrow> usize \<Rightarrow> ('w, 's) process \<Rightarrow> ('w, 's) process option" where
  "hook_alloc ops l mem n p = engine_call (HookAlloc ops (l_ctx l (p_world p)) mem n) p"

definition hook_free :: "'s storage_ops \<Rightarrow> addr \<Rightarrow> ('w, 's) process \<Rightarrow> ('w, 's) process option" where
  "hook_free ops mem p = engine_call (\<lambda>e. Some (HookFree ops mem e)) p"

definition hook_realloc ::
    "'s storage_ops \<Rightarrow> 'w libc \<Rightarrow> addr \<Rightarrow> addr \<Rightarrow> usize \<Rightarrow> ('w, 's) process \<Rightarrow> ('w, 's) process option" where
  "hook_realloc ops l old_mem new_mem n p =
     engine_call (HookRealloc ops (l_ctx l (p_world p)) old_mem new_mem n) p"

subsection \<open>Allocation functions\<close>

text \<open>
  The shape the allocating hooks share: forward when nested; otherwise forward with
  hooks off, report the block, return it.
\<close>

definition alloc_hook ::
    "'s storage_ops \<Rightarrow> 'w libc \<Rightarrow> ('w \<Rightarrow> addr \<times> 'w) \<Rightarrow> usize \<Rightarrow> ('w, 's, addr) hook" where
  "alloc_hook ops l f n p =
     (if IsNested p then do_call f p
      else with_no_hook (\<lambda>p. do { (mem, p) \<leftarrow> do_call f p; p \<leftarrow> hook_alloc ops l mem n p; Some (mem, p) }) p)"

definition memhook_malloc :: "'s storage_ops \<Rightarrow> 'w libc \<Rightarrow> usize \<Rightarrow> ('w, 's, addr) hook" where
  "memhook_malloc ops l n = alloc_hook ops l (l_malloc l n) n"

definition memhook_calloc :: "'s storage_ops \<Rightarrow> 'w libc \<Rightarrow> usize \<Rightarrow> usize \<Rightarrow> ('w, 's, addr) hook" where
  "memhook_calloc ops l nmemb n = alloc_hook ops l (l_calloc l nmemb n) (nmemb * n)"

definition memhook_memalign :: "'s storage_ops \<Rightarrow> 'w libc \<Rightarrow> usize \<Rightarrow> usize \<Rightarrow> ('w, 's, addr) hook" where
  "memhook_memalign ops l al n = alloc_hook ops l (l_memalign l al n) n"

definition memhook_aligned_alloc :: "'s storage_ops \<Rightarrow> 'w libc \<Rightarrow> usize \<Rightarrow> usize \<Rightarrow> ('w, 's, addr) hook" where
  "memhook_aligned_alloc ops l al n = alloc_hook ops l (l_aligned_alloc l al n) n"

definition memhook_valloc :: "'s storage_ops \<Rightarrow> 'w libc \<Rightarrow> usize \<Rightarrow> ('w, 's, addr) hook" where
  "memhook_valloc ops l n = alloc_hook ops l (l_valloc l n) n"

definition memhook_pvalloc :: "'s storage_ops \<Rightarrow> 'w libc \<Rightarrow> usize \<Rightarrow> ('w, 's, addr) hook" where
  "memhook_pvalloc ops l n = alloc_hook ops l (l_pvalloc l n) n"

definition free_hook :: "'s storage_ops \<Rightarrow> (addr \<Rightarrow> 'w \<Rightarrow> 'w) \<Rightarrow> addr \<Rightarrow> ('w, 's, unit) hook" where
  "free_hook ops f mem p =
     (if IsNested p then do_void (f mem) p
      else with_no_hook (\<lambda>p. do { p \<leftarrow> hook_free ops mem p; do_void (f mem) p }) p)"

definition memhook_free :: "'s storage_ops \<Rightarrow> 'w libc \<Rightarrow> addr \<Rightarrow> ('w, 's, unit) hook" where
  "memhook_free ops l mem = free_hook ops (l_free l) mem"

definition memhook_cfree :: "'s storage_ops \<Rightarrow> 'w libc \<Rightarrow> addr \<Rightarrow> ('w, 's, unit) hook" where
  "memhook_cfree ops l mem = free_hook ops (l_cfree l) mem"

definition memhook_realloc :: "'s storage_ops \<Rightarrow> 'w libc \<Rightarrow> addr \<Rightarrow> usize \<Rightarrow> ('w, 's, addr) hook" where
  "memhook_realloc ops l old_mem n p =
     (if IsNested p then do_call (l_realloc l old_mem n) p
      else with_no_hook (\<lambda>p. do { (new_mem, p) \<leftarrow> do_call (l_realloc l old_mem n) p;
                                  p \<leftarrow> hook_realloc ops l old_mem new_mem n p;
                                  Some (new_mem, p) }) p)"

text \<open>\<open>memptr\<close> is the content of the caller's variable, returned with its new content.\<close>

definition memhook_posix_memalign ::
    "'s storage_ops \<Rightarrow> 'w libc \<Rightarrow> addr \<Rightarrow> usize \<Rightarrow> usize \<Rightarrow> ('w, 's, int \<times> addr) hook" where
  "memhook_posix_memalign ops l memptr al n p =
     (if IsNested p then do_call (l_posix_memalign l memptr al n) p
      else with_no_hook (\<lambda>p. do { ((rs, memptr), p) \<leftarrow> do_call (l_posix_memalign l memptr al n) p;
                                  p \<leftarrow> hook_alloc ops l memptr n p;
                                  Some ((rs, memptr), p) }) p)"

definition memhook_mmap ::
    "'s storage_ops \<Rightarrow> 'w libc \<Rightarrow> addr \<Rightarrow> usize \<Rightarrow> int \<Rightarrow> u32 \<Rightarrow> int \<Rightarrow> int \<Rightarrow> ('w, 's, addr) hook" where
  "memhook_mmap ops l a n prot flags fd off p =
     (if IsNested p then do_call (l_mmap l a n prot flags fd off) p
      else with_no_hook (\<lambda>p. do { (mem, p) \<leftarrow> do_call (l_mmap l a n prot flags fd off) p;
                                  p \<leftarrow> (if fd < 0 \<and> flags AND MAP_STACK = 0 then hook_alloc ops l mem n p else Some p);
                                  Some (mem, p) }) p)"

definition memhook_mmap64 ::
    "'s storage_ops \<Rightarrow> 'w libc \<Rightarrow> addr \<Rightarrow> usize \<Rightarrow> int \<Rightarrow> u32 \<Rightarrow> int \<Rightarrow> int \<Rightarrow> ('w, 's, addr) hook" where
  "memhook_mmap64 ops l a n prot flags fd off p =
     (if IsNested p then do_call (l_mmap64 l a n prot flags fd off) p
      else with_no_hook (\<lambda>p. do { (mem, p) \<leftarrow> do_call (l_mmap64 l a n prot flags fd off) p;
                                  p \<leftarrow> (if fd < 0 \<and> flags AND (MAP_ANONYMOUS OR MAP_PRIVATE) = MAP_ANONYMOUS OR MAP_PRIVATE
                                        then hook_alloc ops l mem n p else Some p);
                                  Some (mem, p) }) p)"

definition memhook_munmap :: "'s storage_ops \<Rightarrow> 'w libc \<Rightarrow> addr \<Rightarrow> usize \<Rightarrow> ('w, 's, int) hook" where
  "memhook_munmap ops l a n p =
     (if IsNested p then do_call (l_munmap l a n) p
      else with_no_hook (\<lambda>p. do { (rs, p) \<leftarrow> do_call (l_munmap l a n) p;
                                  p \<leftarrow> (if rs = 0 then hook_free ops a p else Some p);
                                  Some (rs, p) }) p)"

definition memhook_mremap ::
    "'s storage_ops \<Rightarrow> 'w libc \<Rightarrow> addr \<Rightarrow> usize \<Rightarrow> usize \<Rightarrow> u32 \<Rightarrow> addr \<Rightarrow> ('w, 's, addr) hook" where
  "memhook_mremap ops l a old_len new_len flags new_arg p =
     (if IsNested p then do_call (l_mremap l a old_len new_len flags new_arg) p
      else with_no_hook (\<lambda>p. do { (new_a, p) \<leftarrow> do_call (l_mremap l a old_len new_len flags new_arg) p;
                                  p \<leftarrow> (if new_a \<noteq> MAP_FAILED then hook_realloc ops l a new_a new_len p else Some p);
                                  Some (new_a, p) }) p)"

subsection \<open>operator new and delete\<close>

datatype cpp_result = Mem addr | ThrowBadAlloc | ThrowOther

text \<open>
  The loop around the new-handler. It calls \<^verbatim>\<open>malloc\<close> again after every handler call, for
  as long as the handler neither throws nor is removed.
\<close>

partial_function (option) do_cpp_alloc2 ::
    "'w libc \<Rightarrow> usize \<Rightarrow> bool \<Rightarrow> 'w \<Rightarrow> (cpp_result \<times> 'w) option" where
  "do_cpp_alloc2 l n nothrow w =
     (case l_malloc l n w of (mem, w) \<Rightarrow>
        if mem \<noteq> 0 then Some (Mem mem, w)
        else if \<not> l_new_handler_set l w then Some (if nothrow then Mem 0 else ThrowBadAlloc, w)
        else (case l_new_handler l w of
                (NhReturns, w) \<Rightarrow> do_cpp_alloc2 l n nothrow w
              | (NhBadAlloc, w) \<Rightarrow> Some (if nothrow then Mem 0 else ThrowBadAlloc, w)
              | (NhOther, w) \<Rightarrow> Some (ThrowOther, w)))"

definition cpp_alloc2_call :: "'w libc \<Rightarrow> usize \<Rightarrow> bool \<Rightarrow> ('w, 's, cpp_result) hook" where
  "cpp_alloc2_call l n nothrow p =
     do { (r, w) \<leftarrow> do_cpp_alloc2 l n nothrow (p_world p); Some (r, p\<lparr>p_world := w\<rparr>) }"

definition do_cpp_alloc :: "'s storage_ops \<Rightarrow> 'w libc \<Rightarrow> usize \<Rightarrow> bool \<Rightarrow> ('w, 's, cpp_result) hook" where
  "do_cpp_alloc ops l n nothrow p =
     (if IsNested p then cpp_alloc2_call l n nothrow p
      else with_no_hook (\<lambda>p. do { (r, p) \<leftarrow> cpp_alloc2_call l n nothrow p;
                                  p \<leftarrow> (case r of Mem mem \<Rightarrow> hook_alloc ops l mem n p | _ \<Rightarrow> Some p);
                                  Some (r, p) }) p)"

definition do_cpp_free :: "'s storage_ops \<Rightarrow> 'w libc \<Rightarrow> addr \<Rightarrow> ('w, 's, unit) hook" where
  "do_cpp_free ops l mem p =
     (if IsNested p then do_void (l_free l mem) p
      else with_no_hook (\<lambda>p. do { p \<leftarrow> hook_free ops mem p; do_void (l_free l mem) p }) p)"

definition memhook_new :: "'s storage_ops \<Rightarrow> 'w libc \<Rightarrow> usize \<Rightarrow> ('w, 's, cpp_result) hook" where
  "memhook_new ops l n = do_cpp_alloc ops l n False"

definition memhook_new_nothrow :: "'s storage_ops \<Rightarrow> 'w libc \<Rightarrow> usize \<Rightarrow> ('w, 's, cpp_result) hook" where
  "memhook_new_nothrow ops l n = do_cpp_alloc ops l n True"

definition memhook_newarray :: "'s storage_ops \<Rightarrow> 'w libc \<Rightarrow> usize \<Rightarrow> ('w, 's, cpp_result) hook" where
  "memhook_newarray ops l n = do_cpp_alloc ops l n False"

definition memhook_newarray_nothrow :: "'s storage_ops \<Rightarrow> 'w libc \<Rightarrow> usize \<Rightarrow> ('w, 's, cpp_result) hook" where
  "memhook_newarray_nothrow ops l n = do_cpp_alloc ops l n True"

definition memhook_delete :: "'s storage_ops \<Rightarrow> 'w libc \<Rightarrow> addr \<Rightarrow> ('w, 's, unit) hook" where
  "memhook_delete ops l mem = do_cpp_free ops l mem"

definition memhook_deletearray :: "'s storage_ops \<Rightarrow> 'w libc \<Rightarrow> addr \<Rightarrow> ('w, 's, unit) hook" where
  "memhook_deletearray ops l mem = do_cpp_free ops l mem"

subsection \<open>The loader and the resolver\<close>

text \<open>
  The hooks of the twelve resolver functions only switch tracing off around the call of the
  function of their own name with their own arguments, here as machine words.
\<close>

definition passthrough_hook :: "'w libc \<Rightarrow> string \<Rightarrow> u64 list \<Rightarrow> ('w, 's, u64) hook" where
  "passthrough_hook l name args = with_no_hook (do_call (l_resolver l name args))"

definition memhook_dlopen :: "'w libc \<Rightarrow> string \<Rightarrow> int \<Rightarrow> ('w, 's, addr) hook" where
  "memhook_dlopen l file mode = with_no_hook (do_call (l_dlopen l file mode))"

definition memhook_dlmopen :: "'w libc \<Rightarrow> int \<Rightarrow> string \<Rightarrow> int \<Rightarrow> ('w, 's, addr) hook" where
  "memhook_dlmopen l nsid file mode = with_no_hook (do_call (l_dlmopen l nsid file mode))"

definition memhook_dlclose :: "'w libc \<Rightarrow> addr \<Rightarrow> ('w, 's, int) hook" where
  "memhook_dlclose l handle p =
     do { (rs, p) \<leftarrow> do_call (l_dlclose l handle) p;
          with_no_hook (\<lambda>p. do { p \<leftarrow> engine_call FlushCallStackCache p; Some (rs, p) }) p }"

definition memhook_dl_iterate_phdr :: "'w libc \<Rightarrow> addr \<Rightarrow> addr \<Rightarrow> ('w, 's, int) hook" where
  "memhook_dl_iterate_phdr l callback data = do_call (l_dl_iterate_phdr l callback data)"

text \<open>\<open>self\<close> is the address of the hook itself.\<close>

definition memhook_dlsym :: "'w libc \<Rightarrow> addr \<Rightarrow> addr \<Rightarrow> string \<Rightarrow> ('w, 's, addr) hook" where
  "memhook_dlsym l self handle name p =
     (if handle = RTLD_NEXT \<and> name = ''dlsym'' then Some (self, p)
      else with_no_hook (\<lambda>p.
        if p_dlsym p = 0
        then do { (fn, p) \<leftarrow> do_call (l_find_dl_symbol l ''dlsym'') p;
                  (fn, p) \<leftarrow> (if fn = 0 then do_call (l_dl_sym l RTLD_NEXT ''dlsym'') p else Some (fn, p));
                  if fn = 0 then do_call (l_dl_sym l handle name) p
                  else do_call (l_call_dlsym l fn handle name) (p\<lparr>p_dlsym := fn\<rparr>) }
        else do_call (l_call_dlsym l (p_dlsym p) handle name) p) p)"

definition memhook_dlvsym :: "'w libc \<Rightarrow> addr \<Rightarrow> addr \<Rightarrow> string \<Rightarrow> string \<Rightarrow> ('w, 's, addr) hook" where
  "memhook_dlvsym l self handle name version p =
     (if handle = RTLD_NEXT \<and> name = ''dlvsym'' then Some (self, p)
      else with_no_hook (\<lambda>p.
        if p_dlvsym p = 0
        then do { (fn, p) \<leftarrow> do_call (l_find_dl_symbol l ''dlvsym'') p;
                  (fn, p) \<leftarrow> (if fn = 0 then do_call (l_dl_sym l RTLD_NEXT ''dlvsym'') p else Some (fn, p));
                  if fn = 0 then do_call (l_dl_vsym l handle name version) p
                  else do_call (l_call_dlvsym l fn handle name version) (p\<lparr>p_dlvsym := fn\<rparr>) }
        else do_call (l_call_dlvsym l (p_dlvsym p) handle name version) p) p)"

subsection \<open>Start and end of the process\<close>

definition MemHook_InitHelper ::
    "environ \<Rightarrow> (storage_choice \<Rightarrow> 's option) \<Rightarrow> (string \<Rightarrow> int option) \<Rightarrow> ('w, 's, unit) hook" where
  "MemHook_InitHelper e create parse_duration =
     with_no_hook (\<lambda>p. Some ((), p\<lparr>p_engine := Some (OnInitialize e create parse_duration)\<rparr>))"

text \<open>
  The destructor: the singleton is cleared and, its only reference being released, the
  engine is destroyed. The result is the storage it closed.
\<close>

definition MemHook_InitHelper_end :: "'s storage_ops \<Rightarrow> 'w libc \<Rightarrow> ('w, 's, 's option) hook" where
  "MemHook_InitHelper_end ops l =
     with_no_hook (\<lambda>p. case p_engine p of
        None \<Rightarrow> Some (None, p)
      | Some e \<Rightarrow>
          (let ctx = l_ctx l (p_world p)
           in do { (s, e) \<leftarrow> OnDestroy ops (c_unw ctx) (c_now ctx) e;
                   Some (s, p\<lparr>p_engine := None\<rparr>) }))"

subsection \<open>Calls of a program\<close>

text \<open>
  The calls of all hooked functions but \<^verbatim>\<open>dlsym\<close> and \<^verbatim>\<open>dlvsym\<close>, whose hooks keep state of their own.
  \<^verbatim>\<open>operator new[]\<close> and the sized and nothrow forms of \<^verbatim>\<open>delete\<close> are the same functions as the
  plain ones.
\<close>

datatype call =
    CMalloc usize | CCalloc usize usize | CRealloc addr usize | CFree addr | CCfree addr
  | CMemalign usize usize | CAlignedAlloc usize usize | CValloc usize | CPvalloc usize
  | CPosixMemalign addr usize usize
  | CMmap addr usize int u32 int int | CMmap64 addr usize int u32 int int
  | CMunmap addr usize | CMremap addr usize usize u32 addr
  | CNew usize bool | CDelete addr
  | CDlopen string int | CDlmopen int string int | CDlclose addr | CDlIteratePhdr addr addr
  | CResolver string "u64 list"

datatype result = RUnit | RAddr addr | RInt int | RPosix int addr | RCpp cpp_result | RWord u64

definition as_result :: "('r \<Rightarrow> result) \<Rightarrow> ('w, 's, 'r) hook \<Rightarrow> ('w, 's, result) hook" where
  "as_result f h p = map_option (\<lambda>(r, p). (f r, p)) (h p)"

fun hooked_call :: "'s storage_ops \<Rightarrow> 'w libc \<Rightarrow> call \<Rightarrow> ('w, 's, result) hook" where
  "hooked_call ops l (CMalloc n) = as_result RAddr (memhook_malloc ops l n)"
| "hooked_call ops l (CCalloc m n) = as_result RAddr (memhook_calloc ops l m n)"
| "hooked_call ops l (CRealloc a n) = as_result RAddr (memhook_realloc ops l a n)"
| "hooked_call ops l (CFree a) = as_result (\<lambda>_. RUnit) (memhook_free ops l a)"
| "hooked_call ops l (CCfree a) = as_result (\<lambda>_. RUnit) (memhook_cfree ops l a)"
| "hooked_call ops l (CMemalign al n) = as_result RAddr (memhook_memalign ops l al n)"
| "hooked_call ops l (CAlignedAlloc al n) = as_result RAddr (memhook_aligned_alloc ops l al n)"
| "hooked_call ops l (CValloc n) = as_result RAddr (memhook_valloc ops l n)"
| "hooked_call ops l (CPvalloc n) = as_result RAddr (memhook_pvalloc ops l n)"
| "hooked_call ops l (CPosixMemalign m al n) = as_result (\<lambda>(rs, a). RPosix rs a) (memhook_posix_memalign ops l m al n)"
| "hooked_call ops l (CMmap a n prot flags fd off) = as_result RAddr (memhook_mmap ops l a n prot flags fd off)"
| "hooked_call ops l (CMmap64 a n prot flags fd off) = as_result RAddr (memhook_mmap64 ops l a n prot flags fd off)"
| "hooked_call ops l (CMunmap a n) = as_result RInt (memhook_munmap ops l a n)"
| "hooked_call ops l (CMremap a n m flags b) = as_result RAddr (memhook_mremap ops l a n m flags b)"
| "hooked_call ops l (CNew n nothrow) =
     as_result RCpp (if nothrow then memhook_new_nothrow ops l n else memhook_new ops l n)"
| "hooked_call ops l (CDelete a) = as_result (\<lambda>_. RUnit) (memhook_delete ops l a)"
| "hooked_call ops l (CDlopen file mode) = as_result RAddr (memhook_dlopen l file mode)"
| "hooked_call ops l (CDlmopen nsid file mode) = as_result RAddr (memhook_dlmopen l nsid file mode)"
| "hooked_call ops l (CDlclose handle) = as_result RInt (memhook_dlclose l handle)"
| "hooked_call ops l (CDlIteratePhdr callback data) = as_result RInt (memhook_dl_iterate_phdr l callback data)"
| "hooked_call ops l (CResolver name args) = as_result RWord (passthrough_hook l name args)"

text \<open>The same call without the hooks, and the events the hooks should report for it.\<close>

definition ret :: "('r \<Rightarrow> result) \<Rightarrow> 'r \<times> 'w \<Rightarrow> (result \<times> 'w) option" where
  "ret f x = Some (f (fst x), snd x)"

fun libc_call :: "'w libc \<Rightarrow> call \<Rightarrow> 'w \<Rightarrow> (result \<times> 'w) option" where
  "libc_call l (CMalloc n) w = ret RAddr (l_malloc l n w)"
| "libc_call l (CCalloc m n) w = ret RAddr (l_calloc l m n w)"
| "libc_call l (CRealloc a n) w = ret RAddr (l_realloc l a n w)"
| "libc_call l (CFree a) w = Some (RUnit, l_free l a w)"
| "libc_call l (CCfree a) w = Some (RUnit, l_cfree l a w)"
| "libc_call l (CMemalign al n) w = ret RAddr (l_memalign l al n w)"
| "libc_call l (CAlignedAlloc al n) w = ret RAddr (l_aligned_alloc l al n w)"
| "libc_call l (CValloc n) w = ret RAddr (l_valloc l n w)"
| "libc_call l (CPvalloc n) w = ret RAddr (l_pvalloc l n w)"
| "libc_call l (CPosixMemalign m al n) w = ret (\<lambda>(rs, a). RPosix rs a) (l_posix_memalign l m al n w)"
| "libc_call l (CMmap a n prot flags fd off) w = ret RAddr (l_mmap l a n prot flags fd off w)"
| "libc_call l (CMmap64 a n prot flags fd off) w = ret RAddr (l_mmap64 l a n prot flags fd off w)"
| "libc_call l (CMunmap a n) w = ret RInt (l_munmap l a n w)"
| "libc_call l (CMremap a n m flags b) w = ret RAddr (l_mremap l a n m flags b w)"
| "libc_call l (CNew n nothrow) w = map_option (\<lambda>(r, w). (RCpp r, w)) (do_cpp_alloc2 l n nothrow w)"
| "libc_call l (CDelete a) w = Some (RUnit, l_free l a w)"
| "libc_call l (CDlopen file mode) w = ret RAddr (l_dlopen l file mode w)"
| "libc_call l (CDlmopen nsid file mode) w = ret RAddr (l_dlmopen l nsid file mode w)"
| "libc_call l (CDlclose handle) w = ret RInt (l_dlclose l handle w)"
| "libc_call l (CDlIteratePhdr callback data) w = ret RInt (l_dl_iterate_phdr l callback data w)"
| "libc_call l (CResolver name args) w = ret RWord (l_resolver l name args w)"

fun on_addr :: "(addr \<Rightarrow> hook_event list) \<Rightarrow> result \<Rightarrow> hook_event list" where
  "on_addr f (RAddr a) = f a"
| "on_addr f (RPosix rs a) = f a"
| "on_addr f (RCpp (Mem a)) = f a"
| "on_addr f _ = []"

fun call_events :: "hook_ctx \<Rightarrow> call \<Rightarrow> result \<Rightarrow> hook_event list" where
  "call_events ctx (CMalloc n) r = on_addr (\<lambda>a. [EvAlloc ctx a n]) r"
| "call_events ctx (CCalloc m n) r = on_addr (\<lambda>a. [EvAlloc ctx a (m * n)]) r"
| "call_events ctx (CRealloc b n) r = on_addr (\<lambda>a. [EvRealloc ctx b a n]) r"
| "call_events ctx (CFree a) r = [EvFree a]"
| "call_events ctx (CCfree a) r = [EvFree a]"
| "call_events ctx (CMemalign al n) r = on_addr (\<lambda>a. [EvAlloc ctx a n]) r"
| "call_events ctx (CAlignedAlloc al n) r = on_addr (\<lambda>a. [EvAlloc ctx a n]) r"
| "call_events ctx (CValloc n) r = on_addr (\<lambda>a. [EvAlloc ctx a n]) r"
| "call_events ctx (CPvalloc n) r = on_addr (\<lambda>a. [EvAlloc ctx a n]) r"
| "call_events ctx (CPosixMemalign m al n) r = on_addr (\<lambda>a. [EvAlloc ctx a n]) r"
| "call_events ctx (CMmap b n prot flags fd off) r =
     (if fd < 0 \<and> flags AND MAP_STACK = 0 then on_addr (\<lambda>a. [EvAlloc ctx a n]) r else [])"
| "call_events ctx (CMmap64 b n prot flags fd off) r =
     (if fd < 0 \<and> flags AND (MAP_ANONYMOUS OR MAP_PRIVATE) = MAP_ANONYMOUS OR MAP_PRIVATE
      then on_addr (\<lambda>a. [EvAlloc ctx a n]) r else [])"
| "call_events ctx (CMunmap a n) r = (if r = RInt 0 then [EvFree a] else [])"
| "call_events ctx (CMremap a n m flags b) r = (if r \<noteq> RAddr MAP_FAILED then on_addr (\<lambda>c. [EvRealloc ctx a c m]) r else [])"
| "call_events ctx (CNew n nothrow) r = on_addr (\<lambda>a. [EvAlloc ctx a n]) r"
| "call_events ctx (CDelete a) r = [EvFree a]"
| "call_events ctx (CDlopen file mode) r = []"
| "call_events ctx (CDlmopen nsid file mode) r = []"
| "call_events ctx (CDlclose handle) r = [EvFlushCallStackCache]"
| "call_events ctx (CDlIteratePhdr callback data) r = []"
| "call_events ctx (CResolver name args) r = []"

definition inst_run :: "'s storage_ops \<Rightarrow> hook_event list \<Rightarrow> 's Engine option \<Rightarrow> 's Engine option option" where
  "inst_run ops evs inst = (case inst of None \<Rightarrow> Some None | Some e \<Rightarrow> map_option Some (engine_run ops evs e))"

subsection \<open>What a hook does\<close>

lemma NoHook_sel [simp]:
  "p_world (NoHook p) = p_world p" "p_engine (NoHook p) = p_engine p" "p_depth (NoHook p) = p_depth p + 1"
  by (simp_all add: NoHook_def)

lemma NoHook_back:
  "NoHook_end (NoHook p\<lparr>p_world := w\<rparr>) = p\<lparr>p_world := w\<rparr>"
  "NoHook_end (NoHook p\<lparr>p_world := w, p_engine := e\<rparr>) = p\<lparr>p_world := w, p_engine := e\<rparr>"
  "NoHook_end (NoHook p\<lparr>p_engine := e, p_world := w\<rparr>) = p\<lparr>p_world := w, p_engine := e\<rparr>"
  by (cases p; simp add: NoHook_def NoHook_end_def)+

lemma engine_run_single: "x \<bind> engine_run ops [] = x"
  by (cases x) simp_all

lemma inst_run_events:
  "engine_call (HookAlloc ops ctx a n) p = map_option (\<lambda>e. p\<lparr>p_engine := e\<rparr>) (inst_run ops [EvAlloc ctx a n] (p_engine p))"
  "engine_call (\<lambda>e. Some (HookFree ops a e)) p = map_option (\<lambda>e. p\<lparr>p_engine := e\<rparr>) (inst_run ops [EvFree a] (p_engine p))"
  "engine_call (HookRealloc ops ctx a b n) p =
     map_option (\<lambda>e. p\<lparr>p_engine := e\<rparr>) (inst_run ops [EvRealloc ctx a b n] (p_engine p))"
  "engine_call FlushCallStackCache p = map_option (\<lambda>e. p\<lparr>p_engine := e\<rparr>) (inst_run ops [EvFlushCallStackCache] (p_engine p))"
  by (simp_all add: engine_call_def HookAlloc_def HookFree_def HookRealloc_def FlushCallStackCache_def inst_run_def
      engine_run_single split: option.split)

lemma inst_run_Nil [simp]: "inst_run ops [] inst = Some inst"
  by (simp add: inst_run_def split: option.split)

lemma process_same [simp]: "p\<lparr>p_world := w, p_engine := p_engine p\<rparr> = p\<lparr>p_world := w\<rparr>"
  by (cases p) simp

lemmas hook_defs = with_no_hook_def do_call_def do_void_def hook_alloc_def hook_free_def hook_realloc_def
  inst_run_events(1-3) IsNested_def NoHook_back

definition tracked :: "'s storage_ops \<Rightarrow> hook_event list \<Rightarrow> 'r \<Rightarrow> 'w \<Rightarrow> ('w, 's) process \<Rightarrow> ('r \<times> ('w, 's) process) option" where
  "tracked ops evs r w p = map_option (\<lambda>e. (r, p\<lparr>p_world := w, p_engine := e\<rparr>)) (inst_run ops evs (p_engine p))"

lemma tracked_Nil [simp]: "tracked ops [] r w p = Some (r, p\<lparr>p_world := w\<rparr>)"
  by (simp add: tracked_def)

lemma alloc_hook_eq:
  assumes "p_depth p = 0" "f (p_world p) = (a, w)"
  shows "alloc_hook ops l f n p = tracked ops [EvAlloc (l_ctx l w) a n] a w p"
  using assms by (cases "inst_run ops [EvAlloc (l_ctx l w) a n] (p_engine p)")
    (simp_all add: alloc_hook_def hook_defs tracked_def)

lemma free_hook_eq:
  assumes "p_depth p = 0"
  shows "free_hook ops f a p = tracked ops [EvFree a] () (f a (p_world p)) p"
  using assms by (cases "inst_run ops [EvFree a] (p_engine p)")
    (simp_all add: free_hook_def hook_defs tracked_def)

lemma realloc_eq:
  assumes "p_depth p = 0" "l_realloc l a n (p_world p) = (b, w)"
  shows "memhook_realloc ops l a n p = tracked ops [EvRealloc (l_ctx l w) a b n] b w p"
  using assms by (cases "inst_run ops [EvRealloc (l_ctx l w) a b n] (p_engine p)")
    (simp_all add: memhook_realloc_def hook_defs tracked_def)

lemma posix_memalign_eq:
  assumes "p_depth p = 0" "l_posix_memalign l m al n (p_world p) = ((rs, a), w)"
  shows "memhook_posix_memalign ops l m al n p = tracked ops [EvAlloc (l_ctx l w) a n] (rs, a) w p"
  using assms by (cases "inst_run ops [EvAlloc (l_ctx l w) a n] (p_engine p)")
    (simp_all add: memhook_posix_memalign_def hook_defs tracked_def)

lemma mmap_eq:
  assumes "p_depth p = 0"
  shows "l_mmap l b n prot flags fd off (p_world p) = (a, w) \<Longrightarrow>
      memhook_mmap ops l b n prot flags fd off p =
        tracked ops (call_events (l_ctx l w) (CMmap b n prot flags fd off) (RAddr a)) a w p"
    and "l_mmap64 l b n prot flags fd off (p_world p) = (a, w) \<Longrightarrow>
      memhook_mmap64 ops l b n prot flags fd off p =
        tracked ops (call_events (l_ctx l w) (CMmap64 b n prot flags fd off) (RAddr a)) a w p"
  using assms by (cases "inst_run ops [EvAlloc (l_ctx l w) a n] (p_engine p)";
      simp add: memhook_mmap_def memhook_mmap64_def hook_defs tracked_def)+

lemma munmap_eq:
  assumes "p_depth p = 0" "l_munmap l a n (p_world p) = (rs, w)"
  shows "memhook_munmap ops l a n p = tracked ops (call_events ctx (CMunmap a n) (RInt rs)) rs w p"
  using assms by (cases "inst_run ops [EvFree a] (p_engine p)")
    (simp_all add: memhook_munmap_def hook_defs tracked_def)

lemma mremap_eq:
  assumes "p_depth p = 0" "l_mremap l a n m flags b (p_world p) = (c, w)"
  shows "memhook_mremap ops l a n m flags b p =
           tracked ops (call_events (l_ctx l w) (CMremap a n m flags b) (RAddr c)) c w p"
  using assms by (cases "inst_run ops [EvRealloc (l_ctx l w) a c m] (p_engine p)")
    (simp_all add: memhook_mremap_def hook_defs tracked_def)

lemma cpp_alloc_eq:
  assumes "p_depth p = 0"
  shows "do_cpp_alloc ops l n nothrow p =
     do { (r, w) \<leftarrow> do_cpp_alloc2 l n nothrow (p_world p);
          tracked ops (call_events (l_ctx l w) (CNew n nothrow) (RCpp r)) r w p }"
proof (cases "do_cpp_alloc2 l n nothrow (p_world p)")
  case (Some x)
  obtain r w where x: "x = (r, w)" by (cases x)
  show ?thesis
  proof (cases r)
    case (Mem a)
    with assms Some x show ?thesis
      by (cases "inst_run ops [EvAlloc (l_ctx l w) a n] (p_engine p)")
        (simp_all add: do_cpp_alloc_def cpp_alloc2_call_def hook_defs tracked_def)
  qed (use assms Some x in \<open>simp_all add: do_cpp_alloc_def cpp_alloc2_call_def hook_defs\<close>)
qed (use assms in \<open>simp add: do_cpp_alloc_def cpp_alloc2_call_def hook_defs\<close>)

lemma cpp_free_eq: "p_depth p = 0 \<Longrightarrow> do_cpp_free ops l a p = tracked ops [EvFree a] () (l_free l a (p_world p)) p"
  using free_hook_eq [of p ops "l_free l" a] by (simp add: do_cpp_free_def free_hook_def)

text \<open>The flush of the call stack cache, which \<^verbatim>\<open>dlclose\<close> does whether it is called in a hook or not.\<close>

lemma dlclose_eq:
  assumes "l_dlclose l handle (p_world p) = (rs, w)"
  shows "memhook_dlclose l handle p = tracked ops [EvFlushCallStackCache] rs w p"
  using assms by (cases "inst_run ops [EvFlushCallStackCache] (p_engine p)")
    (simp_all add: memhook_dlclose_def hook_defs inst_run_events(4) [where ops = ops] tracked_def NoHook_def NoHook_end_def)

lemma as_result_tracked:
  "h p = tracked ops evs r w p \<Longrightarrow> as_result f h p = tracked ops evs (f r) w p"
  by (simp add: as_result_def tracked_def option.map_comp comp_def)

text \<open>
  A hook in a thread that is not already inside one is the library's call followed by the
  engine's step on the events of the call; nothing else of the process changes.
\<close>

lemmas alloc_family = memhook_malloc_def memhook_calloc_def memhook_memalign_def memhook_aligned_alloc_def
  memhook_valloc_def memhook_pvalloc_def

lemma hooked_call_eq:
  assumes "p_depth p = 0"
  shows "hooked_call ops l c p =
     do { (r, w) \<leftarrow> libc_call l c (p_world p); tracked ops (call_events (l_ctx l w) c r) r w p }"
proof -
  note eqs = alloc_hook_eq [OF assms] free_hook_eq [OF assms] realloc_eq [OF assms] posix_memalign_eq [OF assms]
    mmap_eq [OF assms] mremap_eq [OF assms] cpp_free_eq [OF assms]
  note unfold = as_result_tracked ret_def alloc_family memhook_free_def memhook_cfree_def memhook_delete_def
    memhook_new_def memhook_new_nothrow_def
  show ?thesis
  proof (cases c)
    case (CPosixMemalign m al n)
    obtain rs a w where "l_posix_memalign l m al n (p_world p) = ((rs, a), w)" by (metis prod.exhaust)
    with CPosixMemalign eqs show ?thesis by (simp add: unfold)
  next
    case (CMunmap a n)
    obtain rs w where "l_munmap l a n (p_world p) = (rs, w)" by (metis prod.exhaust)
    with CMunmap munmap_eq [OF assms this, of ops "l_ctx l w"] show ?thesis by (simp add: unfold del: call_events.simps)
  next
    case (CNew n nothrow)
    have "as_result RCpp (do_cpp_alloc ops l n nothrow) p =
      do { (r, w) \<leftarrow> libc_call l c (p_world p); tracked ops (call_events (l_ctx l w) c r) r w p }"
      using CNew by (cases "do_cpp_alloc2 l n nothrow (p_world p)")
        (auto simp: cpp_alloc_eq [OF assms] as_result_def tracked_def option.map_comp comp_def)
    with CNew show ?thesis by (cases nothrow) (simp_all add: unfold)
  next
    case (CDlopen path mode)
    then show ?thesis
      by (cases "l_dlopen l path mode (p_world p)") (simp add: memhook_dlopen_def as_result_def hook_defs ret_def)
  next
    case (CDlmopen nsid path mode)
    then show ?thesis
      by (cases "l_dlmopen l nsid path mode (p_world p)") (simp add: memhook_dlmopen_def as_result_def hook_defs ret_def)
  next
    case (CDlclose handle)
    obtain rs w where "l_dlclose l handle (p_world p) = (rs, w)" by (metis prod.exhaust)
    with CDlclose dlclose_eq [OF this, of ops] show ?thesis by (simp add: unfold)
  next
    case (CDlIteratePhdr callback data)
    then show ?thesis
      by (cases "l_dl_iterate_phdr l callback data (p_world p)") (simp add: memhook_dl_iterate_phdr_def as_result_def hook_defs ret_def)
  next
    case (CResolver name args)
    then show ?thesis
      by (cases "l_resolver l name args (p_world p)") (simp add: passthrough_hook_def as_result_def hook_defs ret_def)
  next
    case (CMmap a n prot flags fd off)
    with eqs show ?thesis by (cases "l_mmap l a n prot flags fd off (p_world p)")
        (simp_all add: unfold del: call_events.simps)
  next
    case (CMmap64 a n prot flags fd off)
    with eqs show ?thesis by (cases "l_mmap64 l a n prot flags fd off (p_world p)")
        (simp_all add: unfold del: call_events.simps)
  next
    case (CMremap a n m flags b)
    with eqs show ?thesis by (cases "l_mremap l a n m flags b (p_world p)") (simp add: unfold del: call_events.simps)
  qed (use eqs in \<open>auto simp: unfold split: prod.split\<close>)
qed

text \<open>Inside another hook a call is only forwarded, and \<^verbatim>\<open>dlclose\<close> flushes the call stack cache.\<close>

lemma map_option_bind_pair:
  "map_option (\<lambda>(r, p). (f r, p)) (x \<bind> (\<lambda>(r, w). Some (r, g w))) =
   map_option (\<lambda>(r, w). (f r, w)) x \<bind> (\<lambda>(r, w). Some (r, g w))"
  by (cases x) auto

fun nested_events :: "call \<Rightarrow> hook_event list" where
  "nested_events (CDlclose handle) = [EvFlushCallStackCache]"
| "nested_events _ = []"

lemma hooked_call_nested:
  assumes "p_depth p \<noteq> 0"
  shows "hooked_call ops l c p =
     do { (r, w) \<leftarrow> libc_call l c (p_world p); tracked ops (nested_events c) r w p }"
proof (cases c)
  case (CDlclose handle)
  obtain rs w where "l_dlclose l handle (p_world p) = (rs, w)" by (metis prod.exhaust)
  with CDlclose dlclose_eq [OF this, of ops] show ?thesis by (simp add: as_result_tracked ret_def)
qed (use assms in \<open>auto simp: as_result_def ret_def map_option_bind_pair alloc_family alloc_hook_def free_hook_def memhook_free_def
      memhook_cfree_def memhook_realloc_def memhook_posix_memalign_def memhook_mmap_def memhook_mmap64_def
      memhook_munmap_def memhook_mremap_def memhook_new_def memhook_new_nothrow_def memhook_delete_def
      do_cpp_alloc_def cpp_alloc2_call_def do_cpp_free_def memhook_dlopen_def memhook_dlmopen_def memhook_dl_iterate_phdr_def
      passthrough_hook_def hook_defs split: prod.split option.split\<close>)

subsection \<open>Programs\<close>

fun run_hooked :: "'s storage_ops \<Rightarrow> 'w libc \<Rightarrow> call list \<Rightarrow> ('w, 's, result list) hook" where
  "run_hooked ops l [] p = Some ([], p)"
| "run_hooked ops l (c # cs) p =
     do { (r, p) \<leftarrow> hooked_call ops l c p; (rs, p) \<leftarrow> run_hooked ops l cs p; Some (r # rs, p) }"

text \<open>The same program without hooks; the events are those its calls amount to.\<close>

fun run_libc :: "'w libc \<Rightarrow> call list \<Rightarrow> 'w \<Rightarrow> (result list \<times> hook_event list \<times> 'w) option" where
  "run_libc l [] w = Some ([], [], w)"
| "run_libc l (c # cs) w =
     do { (r, w) \<leftarrow> libc_call l c w;
          (rs, evs, w') \<leftarrow> run_libc l cs w;
          Some (r # rs, call_events (l_ctx l w) c r @ evs, w') }"

lemma engine_run_append: "engine_run ops (xs @ ys) e = engine_run ops xs e \<bind> engine_run ops ys"
  by (induction xs arbitrary: e) (simp_all split: bind_splits)

lemma inst_run_append: "inst_run ops (xs @ ys) inst = inst_run ops xs inst \<bind> inst_run ops ys"
  by (cases inst) (auto simp: inst_run_def engine_run_append split: bind_splits)

lemma run_hooked_tracks:
  "p_depth p = 0 \<Longrightarrow> p_engine p = Some e \<Longrightarrow> run_libc l cs (p_world p) = Some (rs, evs, w) \<Longrightarrow>
   engine_run ops evs e = Some e' \<Longrightarrow>
   run_hooked ops l cs p = Some (rs, p\<lparr>p_world := w, p_engine := Some e'\<rparr>)"
proof (induction cs arbitrary: p e rs evs)
  case (Cons c cs)
  from Cons.prems(3) obtain r w1 rs1 evs1 where c: "libc_call l c (p_world p) = Some (r, w1)"
      "run_libc l cs w1 = Some (rs1, evs1, w)" "rs = r # rs1" "evs = call_events (l_ctx l w1) c r @ evs1"
    by (auto simp: bind_eq_Some_conv)
  with Cons.prems(4) obtain e1 where e1: "engine_run ops (call_events (l_ctx l w1) c r) e = Some e1"
      "engine_run ops evs1 e1 = Some e'"
    by (auto simp: engine_run_append bind_eq_Some_conv)
  let ?p = "p\<lparr>p_world := w1, p_engine := Some e1\<rparr>"
  have "hooked_call ops l c p = Some (r, ?p)"
    using hooked_call_eq [OF Cons.prems(1), of ops l c] c(1) e1(1) Cons.prems(2)
    by (simp add: tracked_def inst_run_def)
  moreover have "run_hooked ops l cs ?p = Some (rs1, ?p\<lparr>p_world := w, p_engine := Some e'\<rparr>)"
    using Cons.IH [of ?p e1 rs1 evs1] Cons.prems(1) c(2) e1(2) by simp
  ultimately show ?case using c(3) by (cases p) simp
qed (cases p; simp)

text \<open>
  C13. The hooks are transparent and complete: a program whose thread is outside any hook
  gets from every call of the allocation functions, the mapping functions, operator new and
  delete, \<^verbatim>\<open>dlopen\<close>, \<^verbatim>\<open>dlmopen\<close>, \<^verbatim>\<open>dlclose\<close>, \<^verbatim>\<open>dl_iterate_phdr\<close> and the resolver functions the
  result the library gives, leaves the library's state as it would without the hooks, with
  the hook depth back at 0; and the engine's table of live allocations is the one the
  program's calls amount to. The hypothesis on the program is that the allocator does not
  hand out an address that the table still has (\<open>run_ok\<close>). The hooks of \<^verbatim>\<open>dlsym\<close> and
  \<^verbatim>\<open>dlvsym\<close>, which answer a request for themselves with their own address, are not among
  these calls.
\<close>

theorem hooks_transparent_and_complete:
  assumes "p_depth p = 0" and "p_engine p = Some e" and "engine_inv bms_tbl bms_inv e"
    and "run_libc l cs (p_world p) = Some (rs, evs, w)" and "run_ok evs (etable bms_tbl e)"
  shows "\<exists>p' e'. run_hooked bms_ops l cs p = Some (rs, p') \<and> p_world p' = w \<and> p_depth p' = 0 \<and>
           p_engine p' = Some e' \<and> engine_inv bms_tbl bms_inv e' \<and>
           etable bms_tbl e' = spec_run evs (etable bms_tbl e)"
proof -
  obtain e' where "engine_run bms_ops evs e = Some e'" "engine_inv bms_tbl bms_inv e'"
      "etable bms_tbl e' = spec_run evs (etable bms_tbl e)"
    using bms.engine_run_ok [OF assms(3,5)] by blast
  with run_hooked_tracks [OF assms(1,2,4)] assms(1) show ?thesis by auto
qed

text \<open>
  C31. No recursion into the tool: in a thread that is inside a hook, every function of
  \<open>call\<close> gives the result of the library's function and leaves the library's state as that
  function does, the depth stays, and nothing is reported to the engine; the only thing the
  engine is asked for is the flush of its call stack cache, once for each \<^verbatim>\<open>dlclose\<close>.
\<close>

theorem hooks_nested_forward:
  assumes "p_depth p \<noteq> 0"
  shows "run_hooked ops l cs p =
     do { (rs, evs, w) \<leftarrow> run_libc l cs (p_world p);
          inst \<leftarrow> inst_run ops (concat (map nested_events cs)) (p_engine p);
          Some (rs, p\<lparr>p_world := w, p_engine := inst\<rparr>) }"
  using assms
proof (induction cs arbitrary: p)
  case (Cons c cs)
  show ?case
  proof (cases "libc_call l c (p_world p)")
    case (Some x)
    then obtain r w where c: "libc_call l c (p_world p) = Some (r, w)" by (cases x) auto
    then have h: "hooked_call ops l c p = tracked ops (nested_events c) r w p"
      using hooked_call_nested [OF Cons.prems] by simp
    show ?thesis
    proof (cases "inst_run ops (nested_events c) (p_engine p)")
      case None
      with h c show ?thesis by (cases "run_libc l cs w") (auto simp: tracked_def inst_run_append)
    next
      case (Some inst)
      with h c Cons.IH [of "p\<lparr>p_world := w, p_engine := inst\<rparr>"] Cons.prems show ?thesis
        by (cases "run_libc l cs w") (auto simp: tracked_def inst_run_append split: bind_splits)
    qed
  qed (use hooked_call_nested [OF Cons.prems] in simp)
qed (cases p; simp)

subsection \<open>A concrete library\<close>

text \<open>
  A library with a bump allocator, to evaluate the theorems on: the state is the next
  address and the map of blocks. It reuses nothing, resizes in place, and has no
  new-handler.
\<close>

type_synonym bump = "addr \<times> (addr \<rightharpoonup> usize)"

definition bump_alloc :: "usize \<Rightarrow> bump \<Rightarrow> addr \<times> bump" where
  "bump_alloc n w = (case w of (nxt, h) \<Rightarrow>
     if nxt \<noteq> 0 \<and> h nxt = None then (nxt, (nxt + 4096, h(nxt \<mapsto> n))) else (0, w))"

definition bump_free :: "addr \<Rightarrow> bump \<Rightarrow> bump" where
  "bump_free a w = (case w of (nxt, h) \<Rightarrow> (nxt, if a = 0 then h else h(a := None)))"

definition bump_realloc :: "addr \<Rightarrow> usize \<Rightarrow> bump \<Rightarrow> addr \<times> bump" where
  "bump_realloc a n w =
     (if a = 0 then bump_alloc n w
      else if n = 0 then (0, bump_free a w)
      else case w of (nxt, h) \<Rightarrow> (a, (nxt, h(a \<mapsto> n))))"

definition bump_libc :: "bump libc" where
  "bump_libc = \<lparr>l_free = bump_free, l_malloc = bump_alloc, l_calloc = (\<lambda>m n. bump_alloc (m * n)),
     l_realloc = bump_realloc, l_memalign = (\<lambda>al. bump_alloc),
     l_posix_memalign = (\<lambda>m al n w. case bump_alloc n w of (a, w') \<Rightarrow> if a = 0 then ((12, m), w') else ((0, a), w')),
     l_cfree = bump_free, l_aligned_alloc = (\<lambda>al. bump_alloc), l_valloc = bump_alloc, l_pvalloc = bump_alloc,
     l_mmap = (\<lambda>a n prot flags fd off w. (MAP_FAILED, w)), l_mmap64 = (\<lambda>a n prot flags fd off w. (MAP_FAILED, w)),
     l_mremap = (\<lambda>a n m flags b w. (MAP_FAILED, w)), l_munmap = (\<lambda>a n w. (- 1, w)),
     l_new_handler_set = (\<lambda>w. False), l_new_handler = (\<lambda>w. (NhReturns, w)),
     l_dlopen = (\<lambda>file mode w. (0, w)), l_dlmopen = (\<lambda>nsid file mode w. (0, w)),
     l_dlclose = (\<lambda>handle w. (0, w)), l_dl_iterate_phdr = (\<lambda>cb data w. (0, w)), l_resolver = (\<lambda>name args w. (0, w)),
     l_find_dl_symbol = (\<lambda>name w. (64, w)), l_dl_sym = (\<lambda>handle name w. (64, w)),
     l_dl_vsym = (\<lambda>handle name version w. (64, w)), l_call_dlsym = (\<lambda>fn handle name w. (128, w)),
     l_call_dlvsym = (\<lambda>fn handle name version w. (128, w)), l_ctx = (\<lambda>w. demo_ctx 0)\<rparr>"

definition demo_process :: "BasicMappedStorage Engine option \<Rightarrow> int \<Rightarrow> (bump, BasicMappedStorage) process" where
  "demo_process e d = \<lparr>p_world = (4096, Map.empty), p_engine = e, p_depth = d, p_dlsym = 0, p_dlvsym = 0\<rparr>"

definition demo_program :: "call list" where
  "demo_program = [CMalloc 16, CCalloc 4 8, CRealloc 4096 24, CFree 8192]"

lemma demo_program_run:
  "run_libc bump_libc demo_program (4096, Map.empty) =
     Some ([RAddr 4096, RAddr 8192, RAddr 4096, RUnit],
       [EvAlloc (demo_ctx 0) 4096 16, EvAlloc (demo_ctx 0) 8192 32, EvRealloc (demo_ctx 0) 4096 4096 24, EvFree 8192],
       (12288, [4096 \<mapsto> 24]))"
  by (simp add: demo_program_def bump_libc_def bump_alloc_def bump_realloc_def bump_free_def ret_def fun_eq_iff)

lemma demo_program_ok:
  "run_ok [EvAlloc (demo_ctx 0) 4096 16, EvAlloc (demo_ctx 0) 8192 32, EvRealloc (demo_ctx 0) 4096 4096 24, EvFree 8192]
     Map.empty"
  "spec_run [EvAlloc (demo_ctx 0) 4096 16, EvAlloc (demo_ctx 0) 8192 32, EvRealloc (demo_ctx 0) 4096 4096 24, EvFree 8192]
     Map.empty = [4096 \<mapsto> (24, 0, [(3, 300), (4, 400)])]"
  by (simp_all add: spec_alloc_def spec_resize_def spec_free_def tbl_resize_def demo_recorded)
    (simp add: demo_ctx_def fun_eq_iff)

theorem hooks_transparent_and_complete_witness:
  "\<exists>p' e'. run_hooked bms_ops bump_libc demo_program (demo_process (Some demo_engine) 0) =
       Some ([RAddr 4096, RAddr 8192, RAddr 4096, RUnit], p') \<and>
     p_world p' = (12288, [4096 \<mapsto> 24]) \<and> p_depth p' = 0 \<and> p_engine p' = Some e' \<and>
     etable bms_tbl e' = [4096 \<mapsto> (24, 0, [(3, 300), (4, 400)])]"
proof -
  have "p_depth (demo_process (Some demo_engine) 0) = 0" "p_engine (demo_process (Some demo_engine) 0) = Some demo_engine"
      "p_world (demo_process (Some demo_engine) 0) = (4096, Map.empty)"
    by (simp_all add: demo_process_def)
  with hooks_transparent_and_complete [of "demo_process (Some demo_engine) 0" demo_engine bump_libc demo_program]
    demo_engine_inv demo_engine_tbl demo_program_run demo_program_ok
  show ?thesis by fastforce
qed

theorem hooks_nested_forward_witness:
  "run_hooked bms_ops bump_libc demo_program (demo_process (Some demo_engine) 1) =
     Some ([RAddr 4096, RAddr 8192, RAddr 4096, RUnit],
       (demo_process (Some demo_engine) 1)\<lparr>p_world := (12288, [4096 \<mapsto> 24])\<rparr>)"
  using hooks_nested_forward [of "demo_process (Some demo_engine) 1" bms_ops bump_libc demo_program]
  by (simp add: demo_process_def demo_program_run) (simp add: demo_program_def)

end
