(* ===== verification/Leak_Report.thy ===== *)
theory Leak_Report
  imports Memhook_Hooks
begin

unbundle bit_operations_syntax

text \<open>
  What the tool is for: after a program has run under the hooks, the storage holds the
  blocks the program did not free. \<open>allocator_ok\<close> states what the C library's allocator
  documents, over a map \<open>heap\<close> of the blocks it has handed out; \<open>prog_ok\<close> says which
  programs are meant. A program calls one hooked function after the other, where \<^verbatim>\<open>realloc\<close>
  and \<^verbatim>\<open>mremap\<close> are called only on blocks, \<^verbatim>\<open>realloc\<close>, \<^verbatim>\<open>posix_memalign\<close> and a watched
  \<^verbatim>\<open>mmap\<close> do not fail, no new-handler runs, \<^verbatim>\<open>munmap\<close> takes a block away as a whole, and the
  calls that the hooks do not watch (mappings of files and of stacks, the loader, the
  resolver) neither hand out nor take away a block. The theorems at the end show what
  happens outside of these conditions.
\<close>

definition allocs :: "('w \<Rightarrow> addr \<rightharpoonup> usize) \<Rightarrow> usize \<Rightarrow> 'w \<Rightarrow> addr \<times> 'w \<Rightarrow> bool" where
  "allocs heap n w x \<longleftrightarrow>
     (if fst x = 0 then heap (snd x) = heap w
      else heap w (fst x) = None \<and> heap (snd x) = (heap w)(fst x \<mapsto> n))"

definition frees :: "('w \<Rightarrow> addr \<rightharpoonup> usize) \<Rightarrow> addr \<Rightarrow> 'w \<Rightarrow> 'w \<Rightarrow> bool" where
  "frees heap a w w' \<longleftrightarrow> heap w' = (if a = 0 then heap w else (heap w)(a := None))"

definition reallocs :: "('w \<Rightarrow> addr \<rightharpoonup> usize) \<Rightarrow> addr \<Rightarrow> usize \<Rightarrow> 'w \<Rightarrow> addr \<times> 'w \<Rightarrow> bool" where
  "reallocs heap a n w x \<longleftrightarrow>
     (if a = 0 then allocs heap n w x
      else if fst x = 0 then heap (snd x) = (if n = 0 then (heap w)(a := None) else heap w)
      else (fst x = a \<or> heap w (fst x) = None) \<and> heap (snd x) = (heap w)(a := None, fst x \<mapsto> n))"

definition allocator_ok :: "('w \<Rightarrow> addr \<rightharpoonup> usize) \<Rightarrow> 'w libc \<Rightarrow> bool" where
  "allocator_ok heap l \<longleftrightarrow>
     (\<forall>n w. allocs heap n w (l_malloc l n w)) \<and> (\<forall>m n w. allocs heap (m * n) w (l_calloc l m n w)) \<and>
     (\<forall>al n w. allocs heap n w (l_memalign l al n w)) \<and> (\<forall>al n w. allocs heap n w (l_aligned_alloc l al n w)) \<and>
     (\<forall>n w. allocs heap n w (l_valloc l n w)) \<and> (\<forall>n w. allocs heap n w (l_pvalloc l n w)) \<and>
     (\<forall>a w. frees heap a w (l_free l a w)) \<and> (\<forall>a w. frees heap a w (l_cfree l a w)) \<and>
     (\<forall>a n w. reallocs heap a n w (l_realloc l a n w))"

text \<open>The calls in question, on a heap, and with their result.\<close>

definition maps_block :: "('w \<Rightarrow> addr \<rightharpoonup> usize) \<Rightarrow> bool \<Rightarrow> usize \<Rightarrow> 'w \<Rightarrow> addr \<times> 'w \<Rightarrow> bool" where
  "maps_block heap watched n w x \<longleftrightarrow>
     (if watched then fst x \<noteq> MAP_FAILED \<and> allocs heap n w x else heap (snd x) = heap w)"

fun call_ok :: "('w \<Rightarrow> addr \<rightharpoonup> usize) \<Rightarrow> 'w libc \<Rightarrow> call \<Rightarrow> 'w \<Rightarrow> bool" where
  "call_ok heap l (CRealloc a n) w \<longleftrightarrow>
     a = 0 \<or> heap w a \<noteq> None \<and> (n \<noteq> 0 \<longrightarrow> fst (l_realloc l a n w) \<noteq> 0)"
| "call_ok heap l (CNew n nothrow) w \<longleftrightarrow>
     fst (l_malloc l n w) \<noteq> 0 \<or> \<not> l_new_handler_set l (snd (l_malloc l n w))"
| "call_ok heap l (CPosixMemalign m al n) w \<longleftrightarrow>
     (case l_posix_memalign l m al n w of ((rs, a), w') \<Rightarrow> rs = 0 \<and> allocs heap n w (a, w'))"
| "call_ok heap l (CMmap a n prot flags fd off) w \<longleftrightarrow>
     maps_block heap (fd < 0 \<and> flags AND MAP_STACK = 0) n w (l_mmap l a n prot flags fd off w)"
| "call_ok heap l (CMmap64 a n prot flags fd off) w \<longleftrightarrow>
     maps_block heap (fd < 0 \<and> flags AND MAP_ANONYMOUS \<noteq> 0 \<and> flags AND MAP_PRIVATE \<noteq> 0) n w
       (l_mmap64 l a n prot flags fd off w)"
| "call_ok heap l (CMunmap a n) w \<longleftrightarrow>
     (case l_munmap l a n w of (rs, w') \<Rightarrow> if rs = 0 then frees heap a w w' else heap w' = heap w)"
| "call_ok heap l (CMremap a n m flags b) w \<longleftrightarrow>
     (case l_mremap l a n m flags b w of (c, w') \<Rightarrow>
        if c = MAP_FAILED then heap w' = heap w
        else a \<noteq> 0 \<and> c \<noteq> 0 \<and> heap w a \<noteq> None \<and> reallocs heap a m w (c, w'))"
| "call_ok heap l (CDlopen file mode) w \<longleftrightarrow> heap (snd (l_dlopen l file mode w)) = heap w"
| "call_ok heap l (CDlmopen nsid file mode) w \<longleftrightarrow> heap (snd (l_dlmopen l nsid file mode w)) = heap w"
| "call_ok heap l (CDlclose handle) w \<longleftrightarrow> heap (snd (l_dlclose l handle w)) = heap w"
| "call_ok heap l (CDlIteratePhdr callback data) w \<longleftrightarrow> heap (snd (l_dl_iterate_phdr l callback data w)) = heap w"
| "call_ok heap l (CResolver name args) w \<longleftrightarrow> heap (snd (l_resolver l name args w)) = heap w"
| "call_ok heap l _ w \<longleftrightarrow> True"

lemma private_anonymous:
  "flags AND (MAP_ANONYMOUS OR MAP_PRIVATE) = MAP_ANONYMOUS OR MAP_PRIVATE \<longleftrightarrow>
   flags AND MAP_ANONYMOUS \<noteq> 0 \<and> flags AND MAP_PRIVATE \<noteq> 0"
proof -
  have flag: "MAP_ANONYMOUS = push_bit 5 1" "MAP_PRIVATE = push_bit 1 1"
    by (simp_all add: MAP_ANONYMOUS_def MAP_PRIVATE_def push_bit_eq_mult)
  have bits: "bit MAP_ANONYMOUS k \<longleftrightarrow> k = 5" "bit MAP_PRIVATE k \<longleftrightarrow> k = 1" for k
    unfolding flag bit_push_bit_iff bit_1_iff possible_bit_word by auto
  have "flags AND (MAP_ANONYMOUS OR MAP_PRIVATE) = MAP_ANONYMOUS OR MAP_PRIVATE \<longleftrightarrow> bit flags 5 \<and> bit flags 1"
  proof
    assume e: "flags AND (MAP_ANONYMOUS OR MAP_PRIVATE) = MAP_ANONYMOUS OR MAP_PRIVATE"
    have "bit (MAP_ANONYMOUS OR MAP_PRIVATE) 5" "bit (MAP_ANONYMOUS OR MAP_PRIVATE) 1" by (simp_all add: bit_or_iff bits)
    then have "bit (flags AND (MAP_ANONYMOUS OR MAP_PRIVATE)) 5" "bit (flags AND (MAP_ANONYMOUS OR MAP_PRIVATE)) 1"
      by (simp_all only: e)
    then show "bit flags 5 \<and> bit flags 1" unfolding bit_and_iff by blast
  next
    assume "bit flags 5 \<and> bit flags 1"
    then show "flags AND (MAP_ANONYMOUS OR MAP_PRIVATE) = MAP_ANONYMOUS OR MAP_PRIVATE"
      by (intro bit_eqI) (auto simp: bit_and_iff bit_or_iff bits)
  qed
  moreover have "flags AND MAP_ANONYMOUS \<noteq> 0 \<longleftrightarrow> bit flags 5" "flags AND MAP_PRIVATE \<noteq> 0 \<longleftrightarrow> bit flags 1"
    unfolding bit_eq_iff by (auto simp: bit_and_iff bits)
  ultimately show ?thesis by simp
qed

fun prog_ok :: "('w \<Rightarrow> addr \<rightharpoonup> usize) \<Rightarrow> 'w libc \<Rightarrow> call list \<Rightarrow> 'w \<Rightarrow> bool" where
  "prog_ok heap l [] w \<longleftrightarrow> True"
| "prog_ok heap l (c # cs) w \<longleftrightarrow> call_ok heap l c w \<and>
     (case libc_call l c w of None \<Rightarrow> False | Some (r, w) \<Rightarrow> prog_ok heap l cs w)"

definition sizes :: "table \<Rightarrow> addr \<rightharpoonup> usize" where
  "sizes m = (\<lambda>a. map_option fst (m a))"

lemma sizes_upd [simp]:
  "sizes (m(a := v)) = (sizes m)(a := map_option fst v)" "sizes m a = None \<longleftrightarrow> m a = None"
  "sizes Map.empty = Map.empty"
  by (auto simp: sizes_def fun_eq_iff)

lemma alloc_event:
  assumes "allocs heap n w (a, w')" "sizes m = heap w"
  shows "event_ok (EvAlloc ctx a n) m" "sizes (spec_alloc ctx a n m) = heap w'"
  using assms sizes_upd(2) [of m a] by (auto simp: allocs_def spec_alloc_def split: if_splits)

lemma free_event:
  "frees heap a w w' \<Longrightarrow> sizes m = heap w \<Longrightarrow> sizes (spec_free a m) = heap w'"
  by (simp add: frees_def spec_free_def)

lemma realloc_event:
  assumes "reallocs heap b n w (a, w')" "sizes m = heap w"
    and "b = 0 \<or> heap w b \<noteq> None \<and> (n \<noteq> 0 \<longrightarrow> a \<noteq> 0)"
  shows "event_ok (EvRealloc ctx b a n) m \<and> sizes (spec_step (EvRealloc ctx b a n) m) = heap w'"
proof (cases "b = a")
  case True
  show ?thesis
  proof (cases "b = 0")
    case False
    with True assms have "heap w' = (heap w)(b \<mapsto> n)" "m b \<noteq> None"
      using sizes_upd(2) [of m b] by (auto simp: reallocs_def)
    with True False assms(2) show ?thesis by (auto simp: spec_resize_def tbl_resize_def)
  qed (use True assms in \<open>simp add: reallocs_def allocs_def spec_resize_def\<close>)
next
  case False
  with assms sizes_upd(2) [of m a] show ?thesis
    by (auto simp: reallocs_def allocs_def spec_alloc_def spec_free_def split: if_splits)
qed

lemma cpp_alloc2_no_handler:
  assumes "fst (l_malloc l n w) \<noteq> 0 \<or> \<not> l_new_handler_set l (snd (l_malloc l n w))"
  shows "do_cpp_alloc2 l n nothrow w =
     Some (if fst (l_malloc l n w) \<noteq> 0 \<or> nothrow then Mem (fst (l_malloc l n w)) else ThrowBadAlloc, snd (l_malloc l n w))"
  using assms by (subst do_cpp_alloc2.simps) (auto split: prod.split)

lemma call_step:
  assumes ok: "allocator_ok heap l" "call_ok heap l c w" and m: "sizes m = heap w"
    and c: "libc_call l c w = Some (r, w')"
  shows "run_ok (call_events ctx c r) m \<and> sizes (spec_run (call_events ctx c r) m) = heap w'"
proof -
  have A: "event_ok (EvAlloc ctx a n) m \<and> sizes (spec_alloc ctx a n m) = heap w'"
    if "x = (a, w')" "allocs heap n w x" for x a n
    using alloc_event [of heap n w a w' m ctx] that m by simp
  have B: "run_ok (call_events ctx c r) m \<and> sizes (spec_run (call_events ctx c r) m) = heap w'"
    if "ret RAddr x = Some (r, w')" "allocs heap n w x" "\<And>a. call_events ctx c (RAddr a) = [EvAlloc ctx a n]" for x n
    using A [of x "fst x" n] that by (auto simp: ret_def prod_eq_iff simp del: event_ok.simps)
  have mapped: "run_ok (call_events ctx c r) m \<and> sizes (spec_run (call_events ctx c r) m) = heap w'"
    if "ret RAddr x = Some (r, w')" "maps_block heap watched n w x"
      "\<And>a. call_events ctx c (RAddr a) = (if watched then [EvAlloc ctx a n] else [])" for x n watched
    using A [of x "fst x" n] that m by (auto simp: ret_def prod_eq_iff maps_block_def simp del: event_ok.simps)
  note laws = ok(1) [unfolded allocator_ok_def]
  show ?thesis
  proof (cases c)
    case (CRealloc b n)
    obtain a where a: "l_realloc l b n w = (a, w')" "r = RAddr a" using CRealloc c by (auto simp: ret_def prod_eq_iff)
    moreover have "reallocs heap b n w (l_realloc l b n w)" using laws by simp
    ultimately show ?thesis
      using realloc_event [of heap b n w a w' m ctx] m ok(2) CRealloc by simp
  next
    case (CNew n nothrow)
    have al: "allocs heap n w (l_malloc l n w)" using laws by simp
    have w': "w' = snd (l_malloc l n w)"
      and r: "r = RCpp (if fst (l_malloc l n w) \<noteq> 0 \<or> nothrow then Mem (fst (l_malloc l n w)) else ThrowBadAlloc)"
      using c ok(2) CNew by (auto simp: cpp_alloc2_no_handler)
    show ?thesis
    proof (cases "fst (l_malloc l n w) \<noteq> 0 \<or> nothrow")
      case True
      with A [of "l_malloc l n w"] al w' r CNew show ?thesis by (simp add: prod_eq_iff)
    next
      case False
      with al w' r CNew m show ?thesis by (simp add: allocs_def)
    qed
  next
    case (CFree a)
    have "frees heap a w (l_free l a w)" using laws by simp
    with CFree c m free_event show ?thesis by auto
  next
    case (CCfree a)
    have "frees heap a w (l_cfree l a w)" using laws by simp
    with CCfree c m free_event show ?thesis by auto
  next
    case (CDelete a)
    have "frees heap a w (l_free l a w)" using laws by simp
    with CDelete c m free_event show ?thesis by auto
  next
    case (CMalloc n)
    then show ?thesis using B [of "l_malloc l n w"] laws c by simp
  next
    case (CCalloc k n)
    then show ?thesis using B [of "l_calloc l k n w" "k * n"] laws c by simp
  next
    case (CMemalign al n)
    then show ?thesis using B [of "l_memalign l al n w"] laws c by simp
  next
    case (CAlignedAlloc al n)
    then show ?thesis using B [of "l_aligned_alloc l al n w"] laws c by simp
  next
    case (CValloc n)
    then show ?thesis using B [of "l_valloc l n w"] laws c by simp
  next
    case (CPvalloc n)
    then show ?thesis using B [of "l_pvalloc l n w"] laws c by simp
  next
    case (CPosixMemalign p al n)
    obtain rs a where "l_posix_memalign l p al n w = ((rs, a), w')" "r = RPosix rs a"
      using CPosixMemalign c by (cases "fst (l_posix_memalign l p al n w)") (auto simp: ret_def prod_eq_iff)
    then show ?thesis using A [of "(a, w')" a n] ok(2) CPosixMemalign by simp
  next
    case (CMmap b n prot flags fd off)
    then show ?thesis using mapped [of "l_mmap l b n prot flags fd off w"] ok(2) c by simp
  next
    case (CMmap64 b n prot flags fd off)
    then show ?thesis using mapped [of "l_mmap64 l b n prot flags fd off w"] ok(2) c by (simp add: private_anonymous)
  next
    case (CMunmap a n)
    obtain rs where "l_munmap l a n w = (rs, w')" "r = RInt rs" using CMunmap c by (auto simp: ret_def prod_eq_iff)
    then show ?thesis using free_event [of heap a w w' m] ok(2) CMunmap m by (auto split: if_splits)
  next
    case (CMremap a n k flags b)
    obtain d where d: "l_mremap l a n k flags b w = (d, w')" "r = RAddr d" using CMremap c by (auto simp: ret_def prod_eq_iff)
    then show ?thesis
      using realloc_event [of heap a k w d w' m ctx] ok(2) CMremap m by (auto split: if_splits simp del: event_ok.simps spec_step.simps)
  qed (use ok(2) c m in \<open>auto simp: ret_def\<close>)
qed

lemma run_ok_append: "run_ok (xs @ ys) m \<longleftrightarrow> run_ok xs m \<and> run_ok ys (spec_run xs m)"
  by (induction xs arbitrary: m) auto

lemma spec_run_append: "spec_run (xs @ ys) m = spec_run ys (spec_run xs m)"
  by (induction xs arbitrary: m) auto

lemma prog_run:
  "allocator_ok heap l \<Longrightarrow> prog_ok heap l cs w \<Longrightarrow> sizes m = heap w \<Longrightarrow>
   \<exists>rs evs w'. run_libc l cs w = Some (rs, evs, w') \<and> run_ok evs m \<and> sizes (spec_run evs m) = heap w'"
proof (induction cs arbitrary: w m)
  case (Cons c cs)
  from Cons.prems(2) obtain r w1 where c: "libc_call l c w = Some (r, w1)" "call_ok heap l c w" "prog_ok heap l cs w1"
    by (auto split: option.splits)
  let ?evs = "call_events (l_ctx l w1) c r"
  have 1: "run_ok ?evs m" "sizes (spec_run ?evs m) = heap w1"
    using call_step [OF Cons.prems(1) c(2) Cons.prems(3) c(1)] by blast+
  from Cons.IH [OF Cons.prems(1) c(3) 1(2)] obtain rs evs w' where
    "run_libc l cs w1 = Some (rs, evs, w')" "run_ok evs (spec_run ?evs m)"
    "sizes (spec_run evs (spec_run ?evs m)) = heap w'" by blast
  with c(1) 1(1) show ?case by (simp add: run_ok_append spec_run_append)
qed simp

definition memhook_process ::
    "environ \<Rightarrow> (storage_choice \<Rightarrow> 's option) \<Rightarrow> (string \<Rightarrow> int option) \<Rightarrow> 's storage_ops \<Rightarrow> 'w libc \<Rightarrow> call list \<Rightarrow>
     ('w, 's, result list \<times> 's option) hook" where
  "memhook_process env create pd ops l cs p =
     do { (u, p) \<leftarrow> MemHook_InitHelper env create pd p;
          (rs, p) \<leftarrow> run_hooked ops l cs p;
          (s, p) \<leftarrow> MemHook_InitHelper_end ops l p;
          Some ((rs, s), p) }"

lemma process_report:
  assumes "allocator_ok heap l" and "prog_ok heap l cs (p_world p)" and "heap (p_world p) = Map.empty"
    and "p_depth p = 0" and "create (NewStorage env) = Some (new_BasicMappedStorage name n)"
    and "0 < m_cache_max_size (new_Unwinder env)"
  shows "\<exists>rs evs w s p'. run_libc l cs (p_world p) = Some (rs, evs, w) \<and>
           memhook_process env create pd bms_ops l cs p = Some ((rs, Some s), p') \<and>
           p_world p' = w \<and> p_depth p' = 0 \<and> bms_inv s \<and>
           (\<lambda>a. map_option fst (bms_tbl s a)) = heap w"
proof -
  let ?e0 = "OnInitialize env create pd" and ?l = l
  let ?p0 = "p\<lparr>p_engine := Some ?e0\<rparr>"
  have start: "MemHook_InitHelper env create pd p = Some ((), ?p0)"
    by (cases p) (simp add: MemHook_InitHelper_def with_no_hook_def NoHook_def NoHook_end_def)
  have inv: "engine_inv bms_tbl bms_inv ?e0" "etable bms_tbl ?e0 = Map.empty"
    using engine_inv_OnInitialize [of create env _ bms_inv bms_tbl pd] assms(5,6) by simp_all
  from prog_run [OF assms(1,2), of Map.empty] assms(3) obtain rs evs w where run:
    "run_libc l cs (p_world p) = Some (rs, evs, w)" "run_ok evs Map.empty" "sizes (spec_run evs Map.empty) = heap w"
    by auto
  from bms.engine_run_ok [OF inv(1)] inv(2) run(2) obtain e where e: "engine_run bms_ops evs ?e0 = Some e"
      "engine_inv bms_tbl bms_inv e" "etable bms_tbl e = spec_run evs Map.empty" by auto
  have "m_storage e \<noteq> None" using engine_run_storage [OF e(1)] assms(5) by (simp add: OnInitialize_def)
  from bms.OnDestroy_ok [OF e(2) this, of "c_unw (l_ctx l w)" "c_now (l_ctx l w)"] obtain s e' where s:
    "OnDestroy bms_ops (c_unw (l_ctx l w)) (c_now (l_ctx l w)) e = Some (Some s, e')" "bms_tbl s = etable bms_tbl e" "bms_inv s"
    by blast
  have "run_hooked bms_ops l cs ?p0 = Some (rs, ?p0\<lparr>p_world := w, p_engine := Some e\<rparr>)"
    by (rule run_hooked_tracks) (use assms(4) run(1) e(1) in simp_all)
  then have "memhook_process env create pd bms_ops l cs p = Some ((rs, Some s), p\<lparr>p_world := w, p_engine := None\<rparr>)"
    using start s(1) by (cases p) (simp add: memhook_process_def MemHook_InitHelper_end_def with_no_hook_def
        NoHook_def NoHook_end_def Let_def)
  then show ?thesis using run(1,3) s(2,3) e(3) assms(4) by (simp add: sizes_def)
qed

text \<open>
  C1. The report of leaks is exact: a process with one thread that loads the tool, runs a
  program and exits behaves for the program as without the tool, and leaves in the storage
  exactly the blocks that are still allocated at exit, each with the size last requested for
  it. The program may call every hooked function but \<^verbatim>\<open>dlsym\<close>, under the conditions of
  \<open>prog_ok\<close>: \<^verbatim>\<open>realloc\<close> and \<^verbatim>\<open>mremap\<close> are called on blocks, \<^verbatim>\<open>realloc\<close>, \<^verbatim>\<open>posix_memalign\<close> and
  watched calls of \<^verbatim>\<open>mmap\<close> succeed, no new-handler is run, \<^verbatim>\<open>munmap\<close> takes away whole blocks,
  and unwatched mappings, the loader and the resolver neither hand out nor take away a block
  that counts. The cache of the unwinder has a size other than 0.
\<close>

theorem leak_report_exact:
  assumes "allocator_ok heap l" and "prog_ok heap l cs (p_world p)" and "heap (p_world p) = Map.empty"
    and "p_depth p = 0" and "create (NewStorage env) = Some (new_BasicMappedStorage name n)"
    and "0 < m_cache_max_size (new_Unwinder env)"
  shows "\<exists>rs evs w s p'. run_libc l cs (p_world p) = Some (rs, evs, w) \<and>
           memhook_process env create pd bms_ops l cs p = Some ((rs, Some s), p') \<and>
           p_world p' = w \<and> p_depth p' = 0 \<and>
           (\<lambda>a. map_option fst (bms_tbl s a)) = heap w"
  using process_report [of heap l cs p create env name n pd] assms by blast

lemma bump_allocator_ok: "allocator_ok snd (bump_libc :: bump libc)"
  by (auto simp: allocator_ok_def allocs_def frees_def reallocs_def bump_libc_def bump_alloc_def bump_free_def
      bump_realloc_def fun_eq_iff split: prod.splits)

theorem leak_report_exact_witness:
  "\<exists>s p'. memhook_process [] (\<lambda>c. Some (new_BasicMappedStorage ''ShmMemHook'' 4096)) (\<lambda>s. None) bms_ops bump_libc
       (CNew 64 False # demo_program) (demo_process None 0) =
     Some (([RCpp (Mem 4096), RAddr 8192, RAddr 12288, RAddr 4096, RUnit], Some s), p') \<and>
     (\<lambda>a. map_option fst (bms_tbl s a)) = [4096 \<mapsto> 24, 12288 \<mapsto> 32]"
proof -
  let ?cs = "CNew 64 False # demo_program" and ?p = "demo_process None 0"
  let ?l = "bump_libc :: bump libc"
  have sel: "snd (p_world ?p) = Map.empty" "p_depth ?p = 0" by (simp_all add: demo_process_def)
  have "prog_ok snd ?l ?cs (p_world ?p)"
    by (simp add: demo_program_def demo_process_def bump_libc_def bump_alloc_def bump_realloc_def bump_free_def ret_def
        do_cpp_alloc2.simps)
  moreover have "run_libc ?l ?cs (p_world ?p) =
      Some ([RCpp (Mem 4096), RAddr 8192, RAddr 12288, RAddr 4096, RUnit],
        [EvAlloc (demo_ctx 0) 4096 64, EvAlloc (demo_ctx 0) 8192 16, EvAlloc (demo_ctx 0) 12288 32,
         EvRealloc (demo_ctx 0) 4096 4096 24, EvFree 8192], (16384, [4096 \<mapsto> 24, 12288 \<mapsto> 32]))"
    by (simp add: demo_program_def demo_process_def bump_libc_def bump_alloc_def bump_realloc_def bump_free_def ret_def
        do_cpp_alloc2.simps fun_eq_iff)
  moreover have "0 < m_cache_max_size (new_Unwinder [])" by (simp add: new_Unwinder_def getenv_def)
  ultimately show ?thesis
    using leak_report_exact [OF bump_allocator_ok, of ?cs ?p "\<lambda>c. Some (new_BasicMappedStorage ''ShmMemHook'' 4096)"
        "[]" "''ShmMemHook''" 4096 "\<lambda>s. None"]
      sel by (auto simp del: run_libc.simps prog_ok.simps)
qed

subsection \<open>Outside the conditions\<close>

lemma single_event:
  assumes "p_depth p = 0" "p_engine p = Some e" "engine_inv bms_tbl bms_inv e"
    and "libc_call l c (p_world p) = Some (r, w)" "call_events (l_ctx l w) c r = [ev]" "event_ok ev (etable bms_tbl e)"
  shows "\<exists>e'. hooked_call bms_ops l c p = Some (r, p\<lparr>p_world := w, p_engine := Some e'\<rparr>) \<and>
           etable bms_tbl e' = spec_step ev (etable bms_tbl e)"
proof -
  obtain e' where "engine_step bms_ops ev e = Some e'" "etable bms_tbl e' = spec_step ev (etable bms_tbl e)"
    using bms.engine_step_ok [OF assms(3,6)] by blast
  then show ?thesis
    using hooked_call_eq [OF assms(1), of bms_ops l c] assms(2,4,5) by (auto simp: tracked_def inst_run_def)
qed

text \<open>
  C38. A realloc that fails loses the record of the block: the library keeps the block, the
  program can still use and leak it, and the tool no longer knows it.
\<close>

theorem realloc_failure_forgets_block:
  assumes "allocator_ok heap l" and "p_depth p = 0" and "p_engine p = Some e" and "engine_inv bms_tbl bms_inv e"
    and "a \<noteq> 0" and "n \<noteq> 0" and "l_realloc l a n (p_world p) = (0, w)"
  shows "\<exists>p' e'. hooked_call bms_ops l (CRealloc a n) p = Some (RAddr 0, p') \<and> p_engine p' = Some e' \<and>
           heap (p_world p') = heap (p_world p) \<and> etable bms_tbl e' = (etable bms_tbl e)(a := None)"
proof -
  have "reallocs heap a n (p_world p) (0, w)" using assms(1,7) by (metis allocator_ok_def)
  then have "heap w = heap (p_world p)" using assms(5,6) by (simp add: reallocs_def)
  moreover obtain e' where "hooked_call bms_ops l (CRealloc a n) p = Some (RAddr 0, p\<lparr>p_world := w, p_engine := Some e'\<rparr>)"
      "etable bms_tbl e' = (etable bms_tbl e)(a := None)"
    using single_event [OF assms(2-4), of l "CRealloc a n" "RAddr 0" w] assms(5,7)
    by (auto simp: ret_def spec_alloc_def spec_free_def)
  ultimately show ?thesis by auto
qed

definition full_libc :: "bump libc" where
  "full_libc = bump_libc\<lparr>l_realloc := (\<lambda>a n w. if a = 0 then bump_alloc n w else if n = 0 then (0, bump_free a w) else (0, w))\<rparr>"

lemma full_allocator_ok: "allocator_ok snd (full_libc :: bump libc)"
  by (auto simp: allocator_ok_def allocs_def frees_def reallocs_def full_libc_def bump_libc_def bump_alloc_def
      bump_free_def fun_eq_iff split: prod.splits)

theorem realloc_failure_forgets_block_witness:
  "\<exists>p' e'. hooked_call bms_ops full_libc (CRealloc 4096 64) (demo_process (Some demo_cached) 0) = Some (RAddr 0, p') \<and>
     p_engine p' = Some e' \<and> etable bms_tbl e' = (etable bms_tbl demo_cached)(4096 := None)"
proof -
  have "p_depth (demo_process (Some demo_cached) 0) = 0" "p_engine (demo_process (Some demo_cached) 0) = Some demo_cached"
      "l_realloc (full_libc :: bump libc) 4096 64 (p_world (demo_process (Some demo_cached) 0)) = (0, (4096, Map.empty))"
    by (simp_all add: demo_process_def full_libc_def)
  from realloc_failure_forgets_block [OF full_allocator_ok this(1,2) demo_cached_inv(1) _ _ this(3)]
  show ?thesis by auto
qed

text \<open>
  A failed mmap is recorded as an allocation: the hook does not look at the result, so
  \<^verbatim>\<open>MAP_FAILED\<close> becomes the address of a live block of the requested size.
\<close>

theorem mmap_failure_recorded:
  assumes "p_depth p = 0" and "p_engine p = Some e" and "engine_inv bms_tbl bms_inv e"
    and "l_mmap l a n prot flags fd off (p_world p) = (MAP_FAILED, w)" and "fd < 0" and "flags AND MAP_STACK = 0"
    and "etable bms_tbl e MAP_FAILED = None"
  shows "\<exists>p' e'. hooked_call bms_ops l (CMmap a n prot flags fd off) p = Some (RAddr MAP_FAILED, p') \<and>
           p_engine p' = Some e' \<and>
           etable bms_tbl e' MAP_FAILED = Some (n, c_now (l_ctx l w), recorded_frames (l_ctx l w))"
proof -
  obtain e' where "hooked_call bms_ops l (CMmap a n prot flags fd off) p =
      Some (RAddr MAP_FAILED, p\<lparr>p_world := w, p_engine := Some e'\<rparr>)"
      "etable bms_tbl e' = spec_step (EvAlloc (l_ctx l w) MAP_FAILED n) (etable bms_tbl e)"
    using single_event [OF assms(1-3), of l "CMmap a n prot flags fd off" "RAddr MAP_FAILED" w
        "EvAlloc (l_ctx l w) MAP_FAILED n"] assms(4-7)
    by (auto simp: ret_def)
  then show ?thesis by (auto simp: spec_alloc_def MAP_FAILED_def)
qed

theorem mmap_failure_recorded_witness:
  "\<exists>p' e'. hooked_call bms_ops bump_libc (CMmap 0 65536 3 (MAP_PRIVATE OR MAP_ANONYMOUS) (- 1) 0)
       (demo_process (Some demo_engine) 0) = Some (RAddr MAP_FAILED, p') \<and>
     p_engine p' = Some e' \<and> etable bms_tbl e' MAP_FAILED = Some (65536, 0, [(3, 300), (4, 400)])"
proof -
  let ?l = "bump_libc :: bump libc"
  have "p_depth (demo_process (Some demo_engine) 0) = 0" "p_engine (demo_process (Some demo_engine) 0) = Some demo_engine"
      "l_mmap ?l 0 65536 3 (MAP_PRIVATE OR MAP_ANONYMOUS) (- 1) 0 (p_world (demo_process (Some demo_engine) 0)) =
        (MAP_FAILED, (4096, Map.empty))"
    by (simp_all add: demo_process_def bump_libc_def)
  moreover have "(MAP_PRIVATE OR MAP_ANONYMOUS) AND MAP_STACK = 0"
    by (simp add: MAP_PRIVATE_def MAP_ANONYMOUS_def MAP_STACK_def)
  moreover have "l_ctx ?l (4096, Map.empty) = demo_ctx 0" by (simp add: bump_libc_def)
  moreover have "c_now (demo_ctx 0) = 0" by (simp add: demo_ctx_def)
  ultimately show ?thesis
    using mmap_failure_recorded [OF _ _ demo_engine_inv, of "demo_process (Some demo_engine) 0" bump_libc 0 65536 3
        "MAP_PRIVATE OR MAP_ANONYMOUS" "- 1" 0 "(4096, Map.empty)"] demo_engine_tbl demo_recorded [of 0] by auto
qed

subsection \<open>operator new\<close>

text \<open>
  C32. The new-handler loop ends as long as the handler makes progress, by any measure, and
  operator new keeps its contract: it never returns a null pointer when it may throw, and
  never throws \<^verbatim>\<open>bad_alloc\<close> when it may not.
\<close>

theorem cpp_alloc_returns:
  fixes progress :: "'w \<Rightarrow> nat"
  assumes "\<And>w w1 w2. l_malloc l n w = (0, w1) \<Longrightarrow> l_new_handler_set l w1 \<Longrightarrow>
             l_new_handler l w1 = (NhReturns, w2) \<Longrightarrow> progress w2 < progress w"
  shows "\<exists>r w'. do_cpp_alloc2 l n nothrow w = Some (r, w') \<and> (\<not> nothrow \<longrightarrow> r \<noteq> Mem 0) \<and>
           (nothrow \<longrightarrow> r \<noteq> ThrowBadAlloc)"
proof (induction "progress w" arbitrary: w rule: less_induct)
  case less
  obtain a w1 where m: "l_malloc l n w = (a, w1)" by (metis prod.exhaust)
  obtain h w2 where h: "l_new_handler l w1 = (h, w2)" by (metis prod.exhaust)
  show ?case
  proof (cases "a = 0 \<and> l_new_handler_set l w1 \<and> h = NhReturns")
    case True
    then have "do_cpp_alloc2 l n nothrow w = do_cpp_alloc2 l n nothrow w2"
      using m h by (subst do_cpp_alloc2.simps) simp
    with less [of w2] assms [of w w1 w2] m h True show ?thesis by simp
  next
    case False
    then show ?thesis
      using m h by (subst (1) do_cpp_alloc2.simps) (cases h; auto)
  qed
qed

definition reserve_libc :: "bump libc" where
  "reserve_libc = bump_libc\<lparr>l_new_handler_set := (\<lambda>w. fst w = 0), l_new_handler := (\<lambda>w. (NhReturns, (4096, snd w)))\<rparr>"

theorem cpp_alloc_returns_witness:
  "\<exists>r w'. do_cpp_alloc2 (reserve_libc :: bump libc) 16 False (0, Map.empty) = Some (r, w') \<and> r \<noteq> Mem 0"
proof -
  have "(if fst w2 = 0 then 1 else 0) < (if fst w = 0 then 1 else 0 :: nat)"
    if "l_malloc (reserve_libc :: bump libc) 16 w = (0, w1)" "l_new_handler_set (reserve_libc :: bump libc) w1"
      "l_new_handler (reserve_libc :: bump libc) w1 = (NhReturns, w2)" for w w1 w2
    using that by (auto simp: reserve_libc_def bump_libc_def bump_alloc_def split: prod.splits if_splits)
  from cpp_alloc_returns [where progress = "\<lambda>w. if fst w = 0 then 1 else 0" and l = "reserve_libc :: bump libc"
      and n = 16 and nothrow = False and w = "(0, Map.empty)", OF this]
  show ?thesis by auto
qed

end
