(* ===== verification/Memview_Main.thy ===== *)
theory Memview_Main
  imports View_Printer Segments Leak_Report "HOL-Library.List_Lexorder" "HOL-Library.Char_ord"
begin

text \<open>
  The viewer program, \<^verbatim>\<open>src/memview/memview.cpp\<close>, on the segments of the machine: the command
  line, the choice of segment and view, the options in the order of their names, and the exit
  code. The command line parser and the parsers of durations and dates belong to other
  packages: \<open>po_parse\<close> gives the variables map (a map ordered by name) or an error, and a
  duration or date that cannot be read leaves the default value 0. \<open>clock name\<close> is the time
  at which the option \<open>name\<close> is created.
\<close>

subsection \<open>The command line\<close>

datatype opt_value = OptNone | OptStr string | OptBool bool | OptSize usize | OptInt int

type_synonym variables_map = "(string \<times> opt_value) list"

definition opt_count :: "variables_map \<Rightarrow> string \<Rightarrow> bool" where
  "opt_count m name \<longleftrightarrow> name \<in> fst ` set m"

text \<open>The typed access throws when the value has another type.\<close>

fun as_string :: "opt_value \<Rightarrow> string option" where
  "as_string (OptStr s) = Some s" | "as_string _ = None"

fun as_bool :: "opt_value \<Rightarrow> bool option" where
  "as_bool (OptBool b) = Some b" | "as_bool _ = None"

fun as_size :: "opt_value \<Rightarrow> usize option" where
  "as_size (OptSize n) = Some n" | "as_size _ = None"

definition parse_command_line_arguments :: "(string list \<Rightarrow> variables_map option) \<Rightarrow> string list \<Rightarrow> variables_map option" where
  "parse_command_line_arguments po_parse argv =
     (case po_parse argv of
        None \<Rightarrow> None
      | Some m \<Rightarrow>
          if opt_count m ''help'' then None
          else if opt_count m ''shared-memory'' \<and> opt_count m ''mapped-file'' then None
          else Some m)"

subsection \<open>Options of the view\<close>

record main_env =
  me_view :: view_env
  me_clock :: "string \<Rightarrow> time"
  me_duration :: "string \<Rightarrow> int option"
  me_time_point :: "string \<Rightarrow> time option"

definition chrono_DurationFromString :: "(string \<Rightarrow> int option) \<Rightarrow> string \<Rightarrow> int \<Rightarrow> int" where
  "chrono_DurationFromString parse s duration = (case parse s of Some d \<Rightarrow> d | None \<Rightarrow> duration)"

definition chrono_TimePointFromString :: "(string \<Rightarrow> time option) \<Rightarrow> string \<Rightarrow> time \<Rightarrow> time" where
  "chrono_TimePointFromString parse s time_point = (case parse s of Some t \<Rightarrow> t | None \<Rightarrow> time_point)"

definition ChronoDurationFromString :: "main_env \<Rightarrow> string \<Rightarrow> int" where
  "ChronoDurationFromString env s = chrono_DurationFromString (me_duration env) s 0"

definition ChronoTimePointFromString :: "main_env \<Rightarrow> string \<Rightarrow> time" where
  "ChronoTimePointFromString env s = chrono_TimePointFromString (me_time_point env) s 0"

definition set_option :: "main_env \<Rightarrow> string \<times> opt_value \<Rightarrow> MappedViewBase \<Rightarrow> MappedViewBase option" where
  "set_option env p v =
     (case p of (name, val) \<Rightarrow>
        if name = ''sort-by-address'' then Some (SetOptionFlag kSortByAddress True v)
        else if name = ''sort-by-size'' then Some (SetOptionFlag kSortBySize True v)
        else if name = ''sort-by-time'' then Some (SetOptionFlag kSortByTime True v)
        else if name = ''show-callstack'' then do { b \<leftarrow> as_bool val; Some (SetOptionFlag kShowCallStack b v) }
        else if name = ''min-time-from-now''
        then do { s \<leftarrow> as_string val; Some (SetOption (MinTimeFromNow (me_clock env name) (ChronoDurationFromString env s)) v) }
        else if name = ''max-time-from-now''
        then do { s \<leftarrow> as_string val; Some (SetOption (MaxTimeFromNow (me_clock env name) (ChronoDurationFromString env s)) v) }
        else if name = ''min-time-from-start''
        then do { s \<leftarrow> as_string val; Some (SetOption (MinTimeFromStart 0 (ChronoDurationFromString env s)) v) }
        else if name = ''max-time-from-start''
        then do { s \<leftarrow> as_string val; Some (SetOption (MaxTimeFromStart 0 (ChronoDurationFromString env s)) v) }
        else if name = ''min-time''
        then do { s \<leftarrow> as_string val; Some (SetOption (MinTime (ChronoTimePointFromString env s)) v) }
        else if name = ''max-time''
        then do { s \<leftarrow> as_string val; Some (SetOption (MaxTime (ChronoTimePointFromString env s)) v) }
        else if name = ''min-size'' then do { n \<leftarrow> as_size val; Some (SetOption (MinSize n) v) }
        else Some v)"

fun set_options :: "main_env \<Rightarrow> variables_map \<Rightarrow> MappedViewBase \<Rightarrow> MappedViewBase option" where
  "set_options env [] v = Some v"
| "set_options env (p # ps) v = do { v \<leftarrow> set_option env p v; set_options env ps v }"

subsection \<open>main\<close>

datatype memview_result = ExitFailure | ExitSuccess string | NullContainer

definition view_target :: "variables_map \<Rightarrow> (segment_kind \<times> string) option" where
  "view_target m =
     (if opt_count m ''mapped-file''
      then do { val \<leftarrow> map_of m ''mapped-file''; path \<leftarrow> as_string val; Some (MMF, path) }
      else if opt_count m ''shared-memory''
      then do { val \<leftarrow> map_of m ''shared-memory''; path \<leftarrow> as_string val; Some (SHM, path) }
      else Some (SHM, MEMHOOK_SHARED_MEMORY))"

definition view_kind_of :: "variables_map \<Rightarrow> view_kind" where
  "view_kind_of m = (if opt_count m ''aggregate'' then AggregatedView else SimpleView)"

definition initial_view :: "variables_map \<Rightarrow> MappedViewBase option" where
  "initial_view m =
     (case map_of m ''no-lock'' of
        None \<Rightarrow> Some new_MappedViewBase
      | Some val \<Rightarrow> do { b \<leftarrow> as_bool val; Some (SetOptionFlag kNoLock b new_MappedViewBase) })"

text \<open>\<open>usage kind name\<close> is the size and the free memory of a segment.\<close>

definition memview_main ::
    "main_env \<Rightarrow> (string list \<Rightarrow> variables_map option) \<Rightarrow> (segment_kind \<Rightarrow> string \<Rightarrow> usize \<times> usize) \<Rightarrow> segments \<Rightarrow>
     (nat \<Rightarrow> bool) \<Rightarrow> string list \<Rightarrow> sig_state \<Rightarrow> memview_result \<times> sig_state" where
  "memview_main env po_parse usage g intr argv s =
     (case parse_command_line_arguments po_parse argv of
        None \<Rightarrow> (ExitFailure, s)
      | Some m \<Rightarrow>
          (case view_target m of
             None \<Rightarrow> (ExitFailure, s)
           | Some (kind, path) \<Rightarrow>
               (case new_BasicMappedView kind path g of
                  None \<Rightarrow> (ExitFailure, s)
                | Some container \<Rightarrow>
                    (case initial_view m of
                       None \<Rightarrow> (ExitFailure, s)
                     | Some v \<Rightarrow>
                         if opt_count m ''get-storage-info''
                         then (case container of
                                 None \<Rightarrow> (NullContainer, s)
                               | Some c \<Rightarrow> (ExitSuccess (''size='' @ nat_to_string (unat (fst (usage kind path))) @
                                   '', free='' @ nat_to_string (unat (snd (usage kind path))) @ [CHR 0x0A]), s))
                         else (case set_options env m v of
                                 None \<Rightarrow> (ExitFailure, s)
                               | Some v \<Rightarrow>
                                   (case container of
                                      None \<Rightarrow> (NullContainer, s)
                                    | Some c \<Rightarrow>
                                        (case view_Write (me_view env) (view_kind_of m) c intr v s of
                                           (Inl err, s) \<Rightarrow> (ExitFailure, s)
                                         | (Inr (out, v), s) \<Rightarrow> (ExitSuccess out, s))))))))"

subsection \<open>The order of the options\<close>

definition sort_of :: "string \<Rightarrow> u32 option" where
  "sort_of name =
     (if name = ''sort-by-address'' then Some kSortByAddress
      else if name = ''sort-by-size'' then Some kSortBySize
      else if name = ''sort-by-time'' then Some kSortByTime else None)"

lemma set_option_sort:
  assumes "set_option env (name, val) v = Some v'"
  shows "sort_bits v' = (case sort_of name of Some b \<Rightarrow> b | None \<Rightarrow> sort_bits v)"
proof -
  have sc: "sort_bits (SetOptionFlag kShowCallStack b v) = sort_bits v" for b
    by (rule set_other_flag) (simp add: flag_defs)
  have op: "sort_bits (SetOption p v) = sort_bits v" for p
    by (simp add: sort_bits_def SetOption_def)
  show ?thesis
    using assms sc op set_sort_flag
    by (auto simp: set_option_def sort_of_def bind_eq_Some_conv split: if_splits)
qed

lemma set_options_sort:
  "set_options env m v = Some v' \<Longrightarrow>
   sort_bits v' = fold (\<lambda>(name, val) b. case sort_of name of Some b' \<Rightarrow> b' | None \<Rightarrow> b) m (sort_bits v)"
proof (induction m arbitrary: v)
  case (Cons p ps)
  obtain name val where p: "p = (name, val)" by (cases p)
  from Cons.prems obtain v1 where v1: "set_option env (name, val) v = Some v1" "set_options env ps v1 = Some v'"
    by (auto simp: p bind_eq_Some_conv)
  show ?case using Cons.IH [OF v1(2)] set_option_sort [OF v1(1)] by (simp add: p)
qed simp

lemma sort_names_order: "''sort-by-address'' < ''sort-by-size''" "''sort-by-size'' < ''sort-by-time''"
    "''sort-by-address'' < ''sort-by-time''"
  by (simp_all add: less_char_def)

lemma fold_sort_of:
  assumes "sorted_wrt (<) (map fst m)"
  shows "fold (\<lambda>(name, val) b. case sort_of name of Some b' \<Rightarrow> b' | None \<Rightarrow> b) m b0 =
     (if opt_count m ''sort-by-time'' then kSortByTime
      else if opt_count m ''sort-by-size'' then kSortBySize
      else if opt_count m ''sort-by-address'' then kSortByAddress else b0)"
  using assms
proof (induction m rule: rev_induct)
  case Nil
  then show ?case by (simp add: opt_count_def)
next
  case (snoc p ps)
  obtain name val where p: "p = (name, val)" by (cases p)
  have "\<And>x. x \<in> fst ` set ps \<Longrightarrow> x < name" using snoc.prems by (auto simp: p sorted_wrt_append)
  then have lt: "opt_count ps x \<Longrightarrow> x < name" for x by (simp add: opt_count_def)
  have cnt: "opt_count (ps @ [p]) x \<longleftrightarrow> opt_count ps x \<or> x = name" for x by (auto simp: opt_count_def p)
  have IH: "fold (\<lambda>(name, val) b. case sort_of name of Some b' \<Rightarrow> b' | None \<Rightarrow> b) ps b0 =
     (if opt_count ps ''sort-by-time'' then kSortByTime
      else if opt_count ps ''sort-by-size'' then kSortBySize
      else if opt_count ps ''sort-by-address'' then kSortByAddress else b0)"
    using snoc by (simp add: sorted_wrt_append)
  consider "name = ''sort-by-time''" | "name = ''sort-by-size''" | "name = ''sort-by-address''"
    | "sort_of name = None" "name \<noteq> ''sort-by-time''" "name \<noteq> ''sort-by-size''" "name \<noteq> ''sort-by-address''"
    by (auto simp: sort_of_def)
  then show ?case
  proof cases
    case 2
    then have "\<not> opt_count ps ''sort-by-time''" using lt sort_names_order(2) by (metis order_less_asym)
    then show ?thesis using 2 cnt by (simp add: p sort_of_def)
  next
    case 3
    then have "\<not> opt_count ps ''sort-by-time''" "\<not> opt_count ps ''sort-by-size''"
      using lt sort_names_order by (metis order_less_asym)+
    then show ?thesis using 3 cnt by (simp add: p sort_of_def)
  qed (use IH cnt in \<open>auto simp: p sort_of_def\<close>)
qed

lemma initial_view_sort:
  assumes "initial_view m = Some v"
  shows "sort_bits v = kSortByTime"
proof -
  have "sort_bits (SetOptionFlag kNoLock b new_MappedViewBase) = sort_bits new_MappedViewBase" for b
    by (rule set_other_flag) (simp add: flag_defs)
  moreover have "sort_bits new_MappedViewBase = kSortByTime"
    by (simp add: sort_bits_def new_MappedViewBase_def flag_defs)
  ultimately show ?thesis using assms by (auto simp: initial_view_def bind_eq_Some_conv split: option.splits)
qed

text \<open>
  C37. The sort order the command line asks for: a view always has exactly one sort flag, and it
  is the one whose option is last in the order of the names: time before size before
  address, whatever their order on the command line, and time when there is none.
\<close>

theorem memview_sort_choice:
  assumes "sorted_wrt (<) (map fst m)" and "initial_view m = Some v0" and "set_options env m v0 = Some v"
  shows "one_sort_flag v \<and> sort_bits v =
     (if opt_count m ''sort-by-time'' then kSortByTime
      else if opt_count m ''sort-by-size'' then kSortBySize
      else if opt_count m ''sort-by-address'' then kSortByAddress else kSortByTime)"
  using set_options_sort [OF assms(3)] fold_sort_of [OF assms(1)] initial_view_sort [OF assms(2)]
  by (auto simp: one_sort_flag_def)

theorem memview_sort_choice_witness:
  "\<exists>v. set_options \<lparr>me_view = demo_env, me_clock = (\<lambda>_. 0), me_duration = (\<lambda>_. None), me_time_point = (\<lambda>_. None)\<rparr>
       [(''sort-by-address'', OptNone), (''sort-by-size'', OptNone)] new_MappedViewBase = Some v \<and> sort_bits v = kSortBySize"
proof -
  let ?env = "\<lparr>me_view = demo_env, me_clock = (\<lambda>_. 0), me_duration = (\<lambda>_. None), me_time_point = (\<lambda>_. None)\<rparr>"
  let ?m = "[(''sort-by-address'', OptNone), (''sort-by-size'', OptNone)]"
  obtain v where v: "set_options ?env ?m new_MappedViewBase = Some v" by (simp add: set_option_def)
  have "sorted_wrt (<) (map fst ?m)" using sort_names_order by simp
  moreover have "initial_view ?m = Some new_MappedViewBase" by (simp add: initial_view_def)
  ultimately show ?thesis using memview_sort_choice [of ?m new_MappedViewBase ?env v] v by (simp add: opt_count_def)
qed

subsection \<open>From the allocation to the report\<close>

lemma map_of_records: "map_of (map (\<lambda>x. (address x, memsize x)) c) a = map_option memsize (ic_find a c)"
  by (induction c) auto

lemma map_of_perm:
  assumes "mset xs = mset c" "ic_inv c"
  shows "map_of (map (\<lambda>x. (address x, memsize x)) xs) = (\<lambda>a. map_option memsize (ic_find a c))"
proof -
  have d: "distinct (map fst (map (\<lambda>x. (address x, memsize x)) c))" using assms(2) by (simp add: ic_inv_def comp_def)
  have "distinct (map fst (map (\<lambda>x. (address x, memsize x)) xs)) = distinct (map fst (map (\<lambda>x. (address x, memsize x)) c))"
    by (rule mset_eq_imp_distinct_iff) (simp add: assms(1))
  moreover have "set (map (\<lambda>x. (address x, memsize x)) xs) = set (map (\<lambda>x. (address x, memsize x)) c)"
    using mset_eq_setD [OF assms(1)] by simp
  ultimately have "map_of (map (\<lambda>x. (address x, memsize x)) xs) = map_of (map (\<lambda>x. (address x, memsize x)) c)"
    using d map_of_inject_set by blast
  then show ?thesis by (simp add: map_of_records fun_eq_iff)
qed

lemma bms_sizes: "map_option fst (bms_tbl st a) = map_option memsize (ic_find a (indexed_container (m_container st)))"
  by (simp add: bms_tbl_def ic.view_def option.map_comp comp_def trace_view_of_def)

lemma plain_view_lists:
  assumes "indices_ok (me_view env)" and "new_BasicMappedView MMF path g = Some (Some c)" and "ic_inv (indexed_container c)"
  shows "\<exists>xs. memview_main env (\<lambda>_. Some [(''mapped-file'', OptStr path)]) usage g (\<lambda>_. False) argv sig =
           (ExitSuccess (concat (map (record_line (me_view env) c False) xs)), sig) \<and>
         sorted (map timestamp xs) \<and> distinct (map address xs) \<and>
         map_of (map (\<lambda>x. (address x, memsize x)) xs) = (\<lambda>a. map_option memsize (ic_find a (indexed_container c)))"
proof -
  let ?xs = "ix_timestamp (me_view env) (indexed_container c)"
  have perm: "mset ?xs = mset (indexed_container c)" "sorted (map timestamp ?xs)"
    using assms(1) by (simp_all add: indices_ok_def ordered_by_def)
  have flags: "\<not> GetOptionFlag kShowCallStack new_MappedViewBase" "\<not> GetOptionFlag kSortByAddress new_MappedViewBase"
      "\<not> GetOptionFlag kSortBySize new_MappedViewBase" "m_options new_MappedViewBase = []"
    by (simp_all add: new_MappedViewBase_def GetOptionFlag_def flag_defs)
  have "view_Write (me_view env) SimpleView c (\<lambda>_. False) new_MappedViewBase sig =
      (Inr (concat (map (record_line (me_view env) c False) ?xs), new_MappedViewBase), sig)"
    using simple_printer_plain [of new_MappedViewBase "\<lambda>_. False"] flags
    by (simp add: view_Write_eq WriteImpl_def simple_WriteImpl_def simple_index_def)
  then have "memview_main env (\<lambda>_. Some [(''mapped-file'', OptStr path)]) usage g (\<lambda>_. False) argv sig =
      (ExitSuccess (concat (map (record_line (me_view env) c False) ?xs)), sig)"
    using assms(2) by (simp add: memview_main_def parse_command_line_arguments_def opt_count_def view_target_def
        initial_view_def set_option_def view_kind_of_def)
  moreover have "distinct (map address ?xs)"
  proof -
    have "distinct (map address ?xs) = distinct (map address (indexed_container c))"
      by (rule mset_eq_imp_distinct_iff) (simp add: perm)
    then show ?thesis using assms(3) by (simp add: ic_inv_def)
  qed
  ultimately show ?thesis using perm map_of_perm [OF perm(1) assms(3)] by blast
qed

text \<open>
  The storage a process opens, its segment while the process runs, and after it ended.
\<close>

definition segment_create ::
    "(segment_kind \<Rightarrow> string \<Rightarrow> usize \<Rightarrow> bool) \<Rightarrow> segments \<Rightarrow> storage_choice \<Rightarrow> BasicMappedStorage option" where
  "segment_create can_create g ch =
     (case ch of
        MMFStorage path n \<Rightarrow> fst (NewMMFMappedStorage can_create path n g)
      | SHMStorage name n \<Rightarrow> fst (NewSHMMappedStorage can_create name n g)
      | NetworkStorage host port \<Rightarrow> None)"

definition segments_after :: "segment_kind \<Rightarrow> string \<Rightarrow> BasicMappedStorage \<Rightarrow> segments \<Rightarrow> segments" where
  "segments_after kind name st g = storage_close kind name (storage_sync kind MEMHOOK_SHARED_CONTAINER name st g)"

lemma segment_create_file:
  assumes "NewStorage env = MMFStorage path n" "can MMF path n"
  shows "segment_create can g (NewStorage env) = Some (new_BasicMappedStorage path n)"
  using assms by (simp add: segment_create_def NewMMFMappedStorage_def storage_open_eq)

text \<open>
  C6. From the first allocation to the printed report: a process that records into a file runs
  a program and exits; the viewer, started on that file, exits successfully and prints, oldest
  first, one line for every block that was still allocated when the process ended, with the
  address and the size of that block, and no other line. The program has one thread and keeps
  to \<open>prog_ok\<close>, as for C1: \<^verbatim>\<open>realloc\<close>, \<^verbatim>\<open>posix_memalign\<close> and watched calls of \<^verbatim>\<open>mmap\<close> succeed, no
  new-handler is run, and \<^verbatim>\<open>munmap\<close> takes away whole blocks. The cache of the unwinder has a size
  other than 0, the file can be created, and the viewer has the option of the file only and is
  not interrupted.
\<close>

theorem memview_lists_leaks:
  assumes "allocator_ok heap l" and "prog_ok heap l cs (p_world p)" and "heap (p_world p) = Map.empty"
    and "p_depth p = 0" and "0 < m_cache_max_size (new_Unwinder env)"
    and "NewStorage env = MMFStorage path n" and "can_create MMF path n" and "indices_ok (me_view me)"
  shows "\<exists>rs evs w st p' xs. run_libc l cs (p_world p) = Some (rs, evs, w) \<and>
           memhook_process env (segment_create can_create g) pd bms_ops l cs p = Some ((rs, Some st), p') \<and> p_world p' = w \<and>
           memview_main me (\<lambda>_. Some [(''mapped-file'', OptStr path)]) usage (segments_after MMF path st g) (\<lambda>_. False) argv sig =
             (ExitSuccess (concat (map (record_line (me_view me) (m_container st) False) xs)), sig) \<and>
           sorted (map timestamp xs) \<and> distinct (map address xs) \<and>
           map_of (map (\<lambda>x. (address x, memsize x)) xs) = heap w"
proof -
  have "segment_create can_create g (NewStorage env) = Some (new_BasicMappedStorage path n)"
    using segment_create_file assms(6,7) by simp
  then obtain rs evs w st p' where
    1: "run_libc l cs (p_world p) = Some (rs, evs, w)"
      "memhook_process env (segment_create can_create g) pd bms_ops l cs p = Some ((rs, Some st), p')"
      "p_world p' = w" "bms_inv st" "(\<lambda>a. map_option fst (bms_tbl st a)) = heap w"
    using process_report [of heap l cs p "segment_create can_create g" env path n pd] assms(1-5) by blast
  have "new_BasicMappedView MMF path (segments_after MMF path st g) = Some (Some (m_container st))"
    by (simp add: segments_after_def view_after_close)
  from plain_view_lists [OF assms(8) this, of usage argv sig] 1(4) 1(5) obtain xs where
    "memview_main me (\<lambda>_. Some [(''mapped-file'', OptStr path)]) usage (segments_after MMF path st g) (\<lambda>_. False) argv sig =
      (ExitSuccess (concat (map (record_line (me_view me) (m_container st) False) xs)), sig)"
    "sorted (map timestamp xs)" "distinct (map address xs)" "map_of (map (\<lambda>x. (address x, memsize x)) xs) = heap w"
    by (auto simp: bms_inv_def bms_sizes)
  with 1 show ?thesis by blast
qed

definition demo_main_env :: main_env where
  "demo_main_env = \<lparr>me_view = demo_env, me_clock = (\<lambda>_. 0), me_duration = (\<lambda>_. None), me_time_point = (\<lambda>_. None)\<rparr>"

theorem memview_lists_leaks_witness:
  "\<exists>st p' xs. memhook_process [(''MEMHOOK_FILE'', ''/tmp/heap'')] (segment_create (\<lambda>_ _ _. True) \<lparr>sg_files = Map.empty, sg_shm = Map.empty\<rparr>)
       (\<lambda>s. None) bms_ops bump_libc (CNew 64 False # demo_program) (demo_process None 0) =
     Some (([RCpp (Mem 4096), RAddr 8192, RAddr 12288, RAddr 4096, RUnit], Some st), p') \<and>
     memview_main demo_main_env (\<lambda>_. Some [(''mapped-file'', OptStr ''/tmp/heap'')]) (\<lambda>_ _. (0, 0))
       (segments_after MMF ''/tmp/heap'' st \<lparr>sg_files = Map.empty, sg_shm = Map.empty\<rparr>) (\<lambda>_. False) [] demo_signals =
       (ExitSuccess (concat (map (record_line demo_env (m_container st) False) xs)), demo_signals) \<and>
     map_of (map (\<lambda>x. (address x, memsize x)) xs) = [4096 \<mapsto> 24, 12288 \<mapsto> 32]"
proof -
  let ?cs = "CNew 64 False # demo_program" and ?p = "demo_process None 0"
  let ?l = "bump_libc :: bump libc"
  let ?e = "[(''MEMHOOK_FILE'', ''/tmp/heap'')]" and ?g = "\<lparr>sg_files = Map.empty, sg_shm = Map.empty\<rparr> :: segments"
  have sel: "snd (p_world ?p) = Map.empty" "p_depth ?p = 0" by (simp_all add: demo_process_def)
  have "prog_ok snd ?l ?cs (p_world ?p)"
    by (simp add: demo_program_def demo_process_def bump_libc_def bump_alloc_def bump_realloc_def bump_free_def ret_def
        do_cpp_alloc2.simps)
  moreover have "run_libc ?l ?cs (p_world ?p) =
      Some ([RCpp (Mem 4096), RAddr 8192, RAddr 12288, RAddr 4096, RUnit],
        [EvAlloc (demo_ctx 0) 4096 64, EvAlloc (demo_ctx 0) 8192 16, EvAlloc (demo_ctx 0) 12288 32,
         EvRealloc (demo_ctx 0) 4096 4096 24, EvFree 8192], (16384, [4096 \<mapsto> 24, 12288 \<mapsto> 32]))"
    by (simp add: demo_program_def demo_process_def bump_libc_def bump_alloc_def bump_realloc_def bump_free_def ret_def
        do_cpp_alloc2.simps fun_eq_iff)
  moreover have "0 < m_cache_max_size (new_Unwinder ?e)" by (simp add: new_Unwinder_def getenv_def)
  moreover have "NewStorage ?e = MMFStorage ''/tmp/heap'' (push_bit 30 8)"
    by (simp add: NewStorage_def getenv_def ipc_size_of_def)
  moreover have "indices_ok (me_view demo_main_env)" using demo_env_ok by (simp add: demo_main_env_def)
  ultimately show ?thesis
    using memview_lists_leaks [OF bump_allocator_ok, of ?cs ?p ?e "''/tmp/heap''" "push_bit 30 8" "\<lambda>_ _ _. True"
        demo_main_env ?g "\<lambda>s. None" "\<lambda>_ _. (0, 0)" "[]" demo_signals]
      sel by (auto simp: demo_main_env_def simp del: run_libc.simps prog_ok.simps)
qed

text \<open>
  Shared memory does not outlive the process: after a process that recorded into a shared
  memory object has ended, the viewer finds no object of that name and fails.
\<close>

theorem memview_fails_after_shm_exit:
  assumes "parse_command_line_arguments po_parse argv = Some m" and "view_target m = Some (SHM, name)"
  shows "memview_main me po_parse usage (segments_after SHM name st g) intr argv sig = (ExitFailure, sig)"
  using assms by (simp add: memview_main_def segments_after_def view_after_close)

theorem memview_fails_after_shm_exit_witness:
  "memview_main demo_main_env (\<lambda>_. Some []) (\<lambda>_ _. (0, 0))
     (segments_after SHM ''ShmMemHook'' (new_BasicMappedStorage ''ShmMemHook'' 4096) \<lparr>sg_files = Map.empty, sg_shm = Map.empty\<rparr>)
     (\<lambda>_. False) [] demo_signals = (ExitFailure, demo_signals)"
  by (rule memview_fails_after_shm_exit [of _ _ "[]"])
    (simp_all add: parse_command_line_arguments_def opt_count_def view_target_def MEMHOOK_SHARED_MEMORY_def)

end
