(* ===== verification/Memdb_Main.thy ===== *)
theory Memdb_Main
  imports Memdb_Server Memview_Main
begin

text \<open>
  The main program of the server, \<^verbatim>\<open>src/memdb/memdb.cpp\<close>: command line, storage creator,
  listening, and the service threads. The command line parser, the resolver and the network
  are parameters; the parser fills in the default values of the options that have one.
\<close>

fun as_int :: "opt_value \<Rightarrow> int option" where
  "as_int (OptInt n) = Some n" | "as_int _ = None"

definition default_storage_size :: usize where
  "default_storage_size = push_bit 30 8"

definition memdb_parse_command_line_arguments ::
    "(string list \<Rightarrow> variables_map option) \<Rightarrow> string list \<Rightarrow> variables_map option" where
  "memdb_parse_command_line_arguments po_parse argv =
     (case po_parse argv of
        None \<Rightarrow> None
      | Some m \<Rightarrow>
          if opt_count m ''shared-memory'' \<and> opt_count m ''mapped-file'' then None
          else if opt_count m ''help'' \<or> \<not> opt_count m ''host'' \<or> \<not> opt_count m ''port'' then None
          else Some m)"

text \<open>The typed value of an option; both a missing option and another type throw.\<close>

definition opt_as :: "(opt_value \<Rightarrow> 'a option) \<Rightarrow> variables_map \<Rightarrow> string \<Rightarrow> 'a option" where
  "opt_as f m name = do { v \<leftarrow> map_of m name; f v }"

definition storage_creator :: "variables_map \<Rightarrow> (segment_kind \<times> BasicMappedStorageCreator) option" where
  "storage_creator m =
     (if opt_count m ''mapped-file''
      then do { file_path \<leftarrow> opt_as as_string m ''mapped-file''; n \<leftarrow> opt_as as_size m ''size'';
                Some (MMF, \<lparr>bc_path = file_path, bc_size = n\<rparr>) }
      else do { name \<leftarrow> (if opt_count m ''shared-memory'' then opt_as as_string m ''shared-memory'' else Some MEMHOOK_SHARED_MEMORY);
                n \<leftarrow> opt_as as_size m ''size'';
                Some (SHM, \<lparr>bc_path = name, bc_size = n\<rparr>) })"

record memdb_host =
  mh_fs :: fs_env
  mh_getpid :: u32
  mh_can_create :: "string \<Rightarrow> usize \<Rightarrow> bool"
  mh_listen :: "string \<Rightarrow> string \<Rightarrow> bool"
  mh_hardware_concurrency :: nat

text \<open>
  The end of \<^verbatim>\<open>main\<close> before any client, or the server that its threads run. The constructor of
  the server resolves the host and the port and listens there, which throws when it fails.
\<close>

datatype memdb_result = MemdbFailure | MemdbSuccess | Serving memdb_env memdb_server nat

definition memdb_main :: "memdb_host \<Rightarrow> (string list \<Rightarrow> variables_map option) \<Rightarrow> string list \<Rightarrow> memdb_result" where
  "memdb_main h po_parse argv =
     (case memdb_parse_command_line_arguments po_parse argv of
        None \<Rightarrow> MemdbFailure
      | Some m \<Rightarrow>
          (case do { (kind, creator) \<leftarrow> storage_creator m;
                     host \<leftarrow> opt_as as_string m ''host'';
                     port \<leftarrow> opt_as as_int m ''port'';
                     if mh_listen h host (int_to_string port)
                     then Some \<lparr>sv_kind = kind, sv_creator = creator, sv_fs = mh_fs h, sv_getpid = mh_getpid h,
                                sv_can_create = mh_can_create h\<rparr>
                     else None } of
             None \<Rightarrow> MemdbFailure
           | Some e \<Rightarrow>
               if mh_hardware_concurrency h = 0 then MemdbSuccess
               else Serving e new_MemDBServer (mh_hardware_concurrency h)))"

text \<open>
  Without options the server keeps shared memory objects under the one default name.
\<close>

lemma memdb_main_default:
  assumes "po_parse argv = Some [(''host'', OptStr host), (''port'', OptInt port), (''size'', OptSize default_storage_size)]"
    "mh_listen h host (int_to_string port)" "0 < mh_hardware_concurrency h"
  shows "\<exists>e. memdb_main h po_parse argv = Serving e new_MemDBServer (mh_hardware_concurrency h) \<and>
    sv_kind e = SHM \<and> sv_creator e = \<lparr>bc_path = MEMHOOK_SHARED_MEMORY, bc_size = default_storage_size\<rparr>"
  using assms
  by (simp add: memdb_main_def memdb_parse_command_line_arguments_def opt_count_def storage_creator_def opt_as_def)

end
