(* ===== verification/Network_Engine.thy ===== *)
theory Network_Engine
  imports Engine Memdb_Session
begin

text \<open>
  The whole path of an allocation record over the network: the engine's cache, the
  network storage, the bytes on the wire, the session of \<^verbatim>\<open>memdb\<close> and its shared-memory
  storage. The engine uses a storage only through its methods, so engines on two
  storages whose methods correspond run alike: the locale \<open>storage_hom\<close>. It is used
  with a storage that records the operations it is asked for, whose states map to those
  of the network storage.
\<close>

definition map_engine :: "('s \<Rightarrow> 't) \<Rightarrow> 's Engine \<Rightarrow> 't Engine" where
  "map_engine f e =
     \<lparr>m_storage = map_option f (m_storage e), m_cache = m_cache e, m_callstack_unwinder = m_callstack_unwinder e,
      m_cache_flush_timeout = m_cache_flush_timeout e, m_cache_flush_max_items = m_cache_flush_max_items e,
      m_getprocinfo_policy = m_getprocinfo_policy e\<rparr>"

lemma map_engine_sel [simp]:
  "m_storage (map_engine f e) = map_option f (m_storage e)" "m_cache (map_engine f e) = m_cache e"
  "m_callstack_unwinder (map_engine f e) = m_callstack_unwinder e"
  "m_cache_flush_timeout (map_engine f e) = m_cache_flush_timeout e"
  "m_cache_flush_max_items (map_engine f e) = m_cache_flush_max_items e"
  "m_getprocinfo_policy (map_engine f e) = m_getprocinfo_policy e"
  by (simp_all add: map_engine_def)

lemma map_engine_upd [simp]:
  "(map_engine f e)\<lparr>m_cache := c\<rparr> = map_engine f (e\<lparr>m_cache := c\<rparr>)"
  "(map_engine f e)\<lparr>m_callstack_unwinder := u\<rparr> = map_engine f (e\<lparr>m_callstack_unwinder := u\<rparr>)"
  "(map_engine f e)\<lparr>m_storage := Some (f s)\<rparr> = map_engine f (e\<lparr>m_storage := Some s\<rparr>)"
  "(map_engine f e)\<lparr>m_storage := None\<rparr> = map_engine f (e\<lparr>m_storage := None\<rparr>)"
  by (simp_all add: map_engine_def)

locale storage_hom =
  fixes ops :: "'s storage_ops" and ops' :: "'t storage_ops" and f :: "'s \<Rightarrow> 't"
  assumes hom_Add: "f (s_Add ops a n cs t s) = s_Add ops' a n cs t (f s)"
    and hom_Remove: "f (snd (s_Remove ops a s)) = snd (s_Remove ops' a (f s))"
    and hom_UpdateSize: "f (snd (s_UpdateSize ops a n s)) = snd (s_UpdateSize ops' a n (f s))"
    and hom_Flush: "f (s_Flush ops s) = s_Flush ops' (f s)"
begin

lemma flush_items_hom:
  "flush_items ops' env policy xs u (f s) = map_option (map_prod id f) (flush_items ops env policy xs u s)"
proof (induction xs arbitrary: u s)
  case (Cons x xs)
  show ?case
  proof (cases "policy = kFlushLocalCacheWhen")
    case True
    show ?thesis
    proof (cases "u \<bind> GetCallStackUnwindProcInfo env (e_callstack x)")
      case None
      with True show ?thesis by (cases u) simp_all
    next
      case (Some y)
      with True Cons.IH show ?thesis by (cases u; cases y) (simp_all flip: hom_Add)
    qed
  qed (use Cons.IH in \<open>simp flip: hom_Add\<close>)
qed simp

lemma flush_range_map [simp]: "flush_range now timeout all (map_engine f e) = flush_range now timeout all e"
  by (simp add: flush_range_def)

lemma FlushLocalCache_hom:
  "FlushLocalCache ops' env now timeout all (map_engine f e) =
   map_option (map_engine f) (FlushLocalCache ops env now timeout all e)"
proof (cases "m_storage e")
  case (Some s)
  let ?items = "flush_range now timeout all e"
  show ?thesis
  proof (cases "flush_items ops env (m_getprocinfo_policy e) ?items (m_callstack_unwinder e) s")
    case S: (Some y)
    obtain u s' where y: "y = (u, s')" by (cases y)
    show ?thesis
      using Some S y by (simp add: FlushLocalCache_def Let_def flush_items_hom flip: hom_Flush)
  qed (use Some in \<open>simp add: FlushLocalCache_def Let_def flush_items_hom\<close>)
qed (simp add: FlushLocalCache_def)

lemma DoHookAlloc_hom:
  "DoHookAlloc ops' ctx a n (map_engine f e) = map_option (map_engine f) (DoHookAlloc ops ctx a n e)"
proof (cases "a = 0 \<or> m_callstack_unwinder e = None")
  case False
  then obtain u where u: "m_callstack_unwinder e = Some u" "a \<noteq> 0" by auto
  then show ?thesis
    by (cases "GetCallStackInfo (c_unw ctx) (c_frames ctx) 2 (m_getprocinfo_policy e = kUnwindCallStackWhen) u";
        cases "ic_emplace (new_EngineTraceInfo a n (c_now ctx)) (m_cache e)")
      (auto simp: DoHookAlloc_def FlushLocalCache_hom)
qed (auto simp: DoHookAlloc_def)

lemma DoHookFree_hom: "DoHookFree ops' a (map_engine f e) = map_engine f (DoHookFree ops a e)"
  by (simp add: DoHookFree_def split: option.split) (simp flip: hom_Remove)

lemma DoHookUpdateSize_hom: "DoHookUpdateSize ops' a n (map_engine f e) = map_engine f (DoHookUpdateSize ops a n e)"
  by (simp add: DoHookUpdateSize_def split: option.split) (simp flip: hom_UpdateSize)

lemma engine_step_hom:
  "engine_step ops' ev (map_engine f e) = map_option (map_engine f) (engine_step ops ev e)"
proof (cases ev)
  case EvFlushCallStackCache
  then show ?thesis by (cases "m_callstack_unwinder e") (simp_all add: DoFlushCallStackCache_def)
qed (simp_all add: DoHookAlloc_hom DoHookFree_hom DoHookUpdateSize_hom DoHookRealloc_def)

lemma engine_run_hom:
  "engine_run ops' evs (map_engine f e) = map_option (map_engine f) (engine_run ops evs e)"
proof (induction evs arbitrary: e)
  case (Cons ev evs)
  then show ?case by (cases "engine_step ops ev e") (simp_all add: engine_step_hom)
qed simp

lemma OnDestroy_hom:
  "OnDestroy ops' env now (map_engine f e) =
   map_option (map_prod (map_option f) (map_engine f)) (OnDestroy ops env now e)"
  by (cases "FlushLocalCache ops env now 0 True e") (simp_all add: OnDestroy_def FlushLocalCache_hom)

end

subsection \<open>Recording the operations\<close>

definition log_ops :: "storage_op list storage_ops" where
  "log_ops = \<lparr>s_Add = (\<lambda>a n cs t s. s @ [OpAdd a n cs t]), s_Remove = (\<lambda>a s. (True, s @ [OpRemove a])),
     s_UpdateSize = (\<lambda>a n s. (True, s @ [OpUpdateSize a n])), s_Clear = (\<lambda>s. s @ [OpClear]),
     s_Flush = (\<lambda>s. s @ [OpFlush]), s_GetName = (\<lambda>s. ''log'')\<rparr>"

definition log_tbl :: "storage_op list \<Rightarrow> table" where
  "log_tbl s = fold tbl_op s Map.empty"

definition log_inv :: "storage_op list \<Rightarrow> bool" where
  "log_inv s \<longleftrightarrow> OpClear \<notin> set s"

interpretation logged: mapped_storage log_ops log_tbl log_inv
  by unfold_locales (simp_all add: log_ops_def log_tbl_def log_inv_def)

interpretation net: storage_hom log_ops "net_ops be" "\<lambda>s. run_ops (net_ops be) s c" for be c
  by unfold_locales (simp_all add: log_ops_def run_ops_def net_ops_def net_Remove_def net_UpdateSize_def)

lemma log_tbl_flush: "log_tbl (removeAll OpFlush s) = log_tbl s"
proof -
  have "fold tbl_op (removeAll OpFlush s) m = fold tbl_op s m" for m
    by (induction s arbitrary: m) auto
  then show ?thesis by (simp add: log_tbl_def)
qed

text \<open>
  From the hooks to the database on another host: an engine whose storage is the
  network storage serves a history of hooks and is destroyed; the session of the server,
  on a host of any byte order, with the bytes arriving in any first chunk, ends at the end
  of the stream, and its shared-memory storage holds exactly the allocations that are
  still live. The hypothesis on the log says that every request fits the wire format.
\<close>

theorem engine_over_network_persisted:
  assumes "new_NetworkMappedStorage be True host port pid now = Some c" and "int64_ok now"
    and "create (NewStorage env) = Some c" and "0 < m_cache_max_size (new_Unwinder env)"
    and "run_ok evs Map.empty"
    and "engine_run log_ops evs (OnInitialize env (\<lambda>_. Some []) pd) = Some e"
    and "OnDestroy log_ops unw t e = Some (Some log, e')" and "ops_ok log"
    and "creator (ucast pid) = Some (new_BasicMappedStorage path n)"
  shows "\<exists>en c' en' se s. engine_run (net_ops be) evs (OnInitialize env create pd) = Some en \<and>
           OnDestroy (net_ops be) unw t en = Some (Some c', en') \<and>
           Start be' bms_ops creator chunk (wire c') new_MemDBSession = Inr (EndOfFile, se) \<and>
           storage se = Some s \<and> bms_tbl s = spec_run evs Map.empty"
proof -
  let ?f = "\<lambda>s. run_ops (net_ops be) s c" and ?e0 = "OnInitialize env (\<lambda>_. Some []) pd"
  have start: "OnInitialize env create pd = map_engine ?f ?e0"
    using assms(3) by (simp add: OnInitialize_def map_engine_def run_ops_def)
  have inv: "engine_inv log_tbl log_inv ?e0" "etable log_tbl ?e0 = Map.empty"
    using engine_inv_OnInitialize [of "\<lambda>_. Some []" env "[]" log_inv log_tbl pd] assms(4)
    by (simp_all add: log_inv_def log_tbl_def)
  with logged.engine_run_ok [of ?e0 evs] assms(5,6) have e: "engine_inv log_tbl log_inv e"
      "etable log_tbl e = spec_run evs Map.empty" by auto
  have "m_storage e \<noteq> None" using engine_run_storage [OF assms(6)] by (simp add: OnInitialize_def)
  with logged.OnDestroy_ok [OF e(1), of unw t] assms(7) have log: "log_inv log" "log_tbl log = spec_run evs Map.empty"
    using e(2) by auto
  have "engine_run (net_ops be) evs (OnInitialize env create pd) = Some (map_engine ?f e)"
    using net.engine_run_hom [of be evs c ?e0] assms(6) start by simp
  moreover have "OnDestroy (net_ops be) unw t (map_engine ?f e) = Some (Some (?f log), map_engine ?f e')"
    using net.OnDestroy_hom [of be unw t c e] assms(7) by simp
  moreover
  let ?s = "run_ops bms_ops (removeAll OpFlush log) (new_BasicMappedStorage path n)"
  let ?rs = "new_NetRequest kNetReqNewStorage (ucast pid) 0 now [] # concat (map op_requests log)"
  have "\<forall>r\<in>set ?rs. request_ok r" using assms(2,8) by (auto simp: ops_ok_def request_ok_short)
  with Start_frames [of ?rs bms_ops creator "(EndOfFile, Some ?s)" be' chunk]
    serve_client [of creator pid _ log bms_ops now] assms(9) log(1) client_wire [OF assms(1,2,8)]
  have "\<exists>se. Start be' bms_ops creator chunk (wire (?f log)) new_MemDBSession = Inr (EndOfFile, se) \<and> storage se = Some ?s"
    by (auto simp: log_inv_def)
  moreover have "bms_tbl ?s = spec_run evs Map.empty"
    using bms.run_ops_ok [of "new_BasicMappedStorage path n" "removeAll OpFlush log"] log(2) log_tbl_flush [of log]
    by (simp add: log_tbl_def)
  ultimately show ?thesis by blast
qed

text \<open>A history with empty call stacks, whose operations are few enough to write down.\<close>

definition plain_ctx :: "time \<Rightarrow> hook_ctx" where
  "plain_ctx t = \<lparr>c_now = t, c_frames = [], c_unw = demo_unw\<rparr>"

definition net_history :: "hook_event list" where
  "net_history = [EvAlloc (plain_ctx 0) 4096 16, EvAlloc (plain_ctx (10 * 10 ^ 9)) 8192 32, EvFree 4096]"

definition net_log :: "storage_op list" where
  "net_log = [OpAdd 4096 16 [] 0, OpFlush, OpRemove 4096, OpAdd 8192 32 [] (10 * 10 ^ 9), OpFlush]"

lemma net_history_ok: "run_ok net_history Map.empty"
    "spec_run net_history Map.empty = [8192 \<mapsto> (32, 10 * 10 ^ 9, [])]"
  by (simp_all add: net_history_def spec_alloc_def spec_free_def recorded_frames_def plain_ctx_def fun_eq_iff)

lemmas engine_eval = DoHookAlloc_def DoHookFree_def FlushLocalCache_def flush_range_def GetCallStackInfo_def
  ic_emplace_def ic_find_def ic_erase_def ic_modify_def by_timestamp_def new_EngineTraceInfo_def OnInitialize_def
  getenv_def new_Unwinder_def log_ops_def unsigned_minus_1_eq_mask mask_eq_exp_minus_1

lemma net_log_run:
  "\<exists>e e'. engine_run log_ops net_history (OnInitialize [] (\<lambda>_. Some []) (\<lambda>s. None)) = Some e \<and>
     OnDestroy log_ops demo_unw (12 * 10 ^ 9) e = Some (Some net_log, e')"
  by (simp add: net_history_def plain_ctx_def net_log_def OnDestroy_def engine_eval)

lemma net_log_ok: "ops_ok net_log"
  by (auto simp: net_log_def ops_ok_def int64_ok_def intro!: request_ok_short)

theorem engine_over_network_persisted_witness:
  "\<exists>c en c' en' se s. new_NetworkMappedStorage False True ''db'' 20015 77 5 = Some c \<and>
     engine_run (net_ops False) net_history (OnInitialize [] (\<lambda>_. Some c) (\<lambda>s. None)) = Some en \<and>
     OnDestroy (net_ops False) demo_unw (12 * 10 ^ 9) en = Some (Some c', en') \<and>
     Start True bms_ops demo_creator 20 (wire c') new_MemDBSession = Inr (EndOfFile, se) \<and>
     storage se = Some s \<and> bms_tbl s = [8192 \<mapsto> (32, 10 * 10 ^ 9, [])]"
proof -
  obtain c where c: "new_NetworkMappedStorage False True ''db'' 20015 77 5 = Some c"
    by (simp add: new_NetworkMappedStorage_def)
  obtain e e' where e: "engine_run log_ops net_history (OnInitialize [] (\<lambda>_. Some []) (\<lambda>s. None)) = Some e"
      "OnDestroy log_ops demo_unw (12 * 10 ^ 9) e = Some (Some net_log, e')" using net_log_run by blast
  have "demo_creator (ucast (77 :: u32)) = Some (new_BasicMappedStorage (''memdb.'' @ nat_to_string 77) 65536)"
    by (simp add: demo_creator_def)
  moreover have "0 < m_cache_max_size (new_Unwinder [])" "int64_ok 5"
    by (simp_all add: new_Unwinder_def getenv_def int64_ok_def)
  ultimately show ?thesis
    using engine_over_network_persisted [of False "''db''" 20015 77 5 c "\<lambda>_. Some c" "[]" net_history "\<lambda>s. None" e
        demo_unw "12 * 10 ^ 9" net_log e' demo_creator "''memdb.'' @ nat_to_string 77" 65536 True 20]
      c e net_history_ok net_log_ok by (simp only: simp_thms) blast
qed

end
