(* ===== verification/Whole_System.thy ===== *)
theory Whole_System
  imports Memdb_Server Network_Engine Memview_Main
begin

text \<open>
  The three programs together: a hooked process that records over the network, the
  database server \<^verbatim>\<open>memdb\<close> with its mapped files and other clients, and the viewer
  \<^verbatim>\<open>memview\<close>, started on the server's host after the process has ended.
\<close>

subsection \<open>Files outlive their connections\<close>

text \<open>A file of the server that no connection uses any more.\<close>

definition settled_file :: "string \<Rightarrow> nat \<Rightarrow> MappedContainer \<Rightarrow> memdb_server \<Rightarrow> bool" where
  "settled_file p g k s \<longleftrightarrow> sv_names s p = Some g \<and> sv_content s g = Some k \<and> g < sv_next_segment s \<and>
     (\<forall>j d. sv_conns s j = Some d \<longrightarrow> cn_segment d \<noteq> Some g)"

lemma settled_frame:
  assumes "settled_file p g k s" "sv_names s' = sv_names s" "sv_content s' = sv_content s"
    "sv_next_segment s' = sv_next_segment s"
    "\<And>j d. sv_conns s' j = Some d \<Longrightarrow> cn_segment d = None \<or> (\<exists>d'. sv_conns s j = Some d' \<and> cn_segment d' = cn_segment d)"
  shows "settled_file p g k s'"
  using assms unfolding settled_file_def by fastforce

lemma settled_open:
  assumes mmf: "sv_kind e = MMF" and inv: "server_inv e s" and fin: "finite (other_files e)"
      "card (other_files e) + sv_next_segment s < 2 ^ 64"
    and f: "settled_file p g k s" and run: "server_open e i pid c s = Inr s'"
  shows "settled_file p g k s'"
proof -
  from choose_fresh [OF mmf inv fin] obtain path where
    path: "GenerateUniquePath (fs_now e s) (sv_getpid e) (bc_path (sv_creator e)) pid = Some path"
      "sv_names s path = None" by blast
  with f have "path \<noteq> p" by (auto simp: settled_file_def)
  with f run path(1) show ?thesis
    by (auto simp: server_open_def choose_name_def create_segment_def Let_def destroy_mapped_file [OF mmf]
        settled_file_def split: if_splits)
qed

lemma settled_other:
  assumes "sv_kind e = MMF" "settled_file p g k s" "sv_conns s i = Some c" "serve_other e i r c s = Inr s'"
  shows "settled_file p g k s'"
proof -
  from assms(2,3) have "cn_segment c \<noteq> Some g" by (auto simp: settled_file_def)
  with assms(2-4) show ?thesis
    by (auto simp: serve_other_def put_session_def close_conn_def destroy_mapped_file [OF assms(1)] settled_file_def
        split: sum.splits bool.splits option.splits if_splits)
qed

lemma settled_step:
  assumes mmf: "sv_kind e = MMF" and inv: "server_inv e s" and fin: "finite (other_files e)"
      "card (other_files e) + sv_next_segment s < 2 ^ 64"
    and f: "settled_file p g k s" and run: "server_step e ev s = Inr s'"
  shows "settled_file p g k s'"
proof (cases ev)
  case (Accept err)
  with run show ?thesis
    by (auto simp: HandleAccept_def StartAccept_def new_conn_def split: if_splits intro!: settled_frame [OF f])
next
  case (Hangup i)
  with run f show ?thesis
    by (auto simp: close_conn_def destroy_mapped_file [OF mmf] split: option.splits if_splits intro!: settled_frame [OF f])
next
  case (Request i r)
  show ?thesis
  proof (cases "sv_conns s i")
    case None
    with Request run f show ?thesis by simp
  next
    case (Some c)
    with Request run settled_open [OF mmf inv fin f] settled_other [OF mmf f Some] show ?thesis
      by (cases "r_type r = kNetReqNewStorage") auto
  qed
qed

lemma server_step_run:
  assumes "sv_kind e = MMF" "server_inv e s" "finite (other_files e)" "card (other_files e) + sv_next_segment s < 2 ^ 64"
    "server_step e ev s = Inr s'"
  shows "server_inv e s' \<and> sv_next_segment s' \<le> Suc (sv_next_segment s)"
  using server_step_inv [OF assms(1-4), of ev] assms(5) by simp

lemma server_run_bound:
  assumes "sv_kind e = MMF" "finite (other_files e)"
  shows "server_inv e s \<Longrightarrow> card (other_files e) + sv_next_segment s + length evs < 2 ^ 64 \<Longrightarrow>
    server_run e evs s = Inr s' \<Longrightarrow> server_inv e s' \<and> sv_next_segment s' \<le> sv_next_segment s + length evs"
proof (induction evs arbitrary: s)
  case (Cons ev evs)
  then obtain s1 where s1: "server_step e ev s = Inr s1" "server_run e evs s1 = Inr s'" by (auto split: sum.splits)
  from server_step_run [OF assms(1) Cons.prems(1) assms(2) _ s1(1)] Cons.prems(2)
  have "server_inv e s1" "sv_next_segment s1 \<le> Suc (sv_next_segment s)" by simp_all
  with Cons.IH [OF _ _ s1(2)] Cons.prems(2) show ?case by simp
qed simp

lemma settled_run:
  assumes "sv_kind e = MMF" "finite (other_files e)"
  shows "server_inv e s \<Longrightarrow> card (other_files e) + sv_next_segment s + length evs < 2 ^ 64 \<Longrightarrow>
    settled_file p g k s \<Longrightarrow> server_run e evs s = Inr s' \<Longrightarrow> settled_file p g k s'"
proof (induction evs arbitrary: s)
  case (Cons ev evs)
  then obtain s1 where s1: "server_step e ev s = Inr s1" "server_run e evs s1 = Inr s'" by (auto split: sum.splits)
  from Cons.prems(2) have b: "card (other_files e) + sv_next_segment s < 2 ^ 64" by simp
  from server_step_run [OF assms(1) Cons.prems(1) assms(2) b s1(1)] Cons.prems(2)
    settled_step [OF assms(1) Cons.prems(1) assms(2) b Cons.prems(3) s1(1)] Cons.IH [OF _ _ _ s1(2)]
  show ?case by simp
qed simp

subsection \<open>A client's connection until it hangs up\<close>

definition known_request :: "NetRequest \<Rightarrow> bool" where
  "known_request r \<longleftrightarrow> r_type r \<in> {kNetReqAdd, kNetReqRemove, kNetReqUpdateSize, kNetReqNewStorage}"

lemma map_sum_True: "map_sum id (Pair True) x = Inr (b, y) \<Longrightarrow> b"
  by (cases x) auto

lemma known_open:
  assumes "known_request r" "HandleNetRequest ops creator r se = Inr (b, se')"
  shows b
  using assms by (auto simp: known_request_def HandleNetRequest_def split: if_splits dest: map_sum_True)

lemma known_step:
  assumes "server_step e ev s = Inr s'" "sv_conns s i = Some c" "ids_ok s" "ev \<noteq> Hangup i"
    "\<And>r. ev = Request i r \<Longrightarrow> known_request r"
  shows "\<exists>c'. sv_conns s' i = Some c'"
proof (cases "\<exists>r. ev = Request i r")
  case True
  then obtain r where ev: "ev = Request i r" ..
  show ?thesis
  proof (cases "r_type r = kNetReqNewStorage")
    case True
    with assms(1,2) ev server_open_conns [of e i "address (r_traceinfo r)" c s s'] show ?thesis by auto
  next
    case False
    with assms(1,2) ev obtain b se where h: "HandleNetRequest bms_ops (\<lambda>_. None) r (cn_session c) = Inr (b, se)"
      "s' = (if b then put_session i c se s else close_conn e i (c\<lparr>cn_session := se\<rparr>) s)"
      by (auto simp: serve_other_def split: sum.splits bool.splits)
    with known_open [OF assms(5) [OF ev] h(1)] show ?thesis by (auto simp: put_session_def)
  qed
next
  case False
  show ?thesis
  proof (cases ev)
    case (Request j r)
    with False request_frame(3) [of e j r s s' i] assms(1,2) show ?thesis by auto
  next
    case (Accept err)
    from assms(2,3) have "i < sv_accepting s" by (auto simp: ids_ok_def)
    with Accept assms(1,2) show ?thesis by (auto simp: HandleAccept_def StartAccept_def)
  next
    case (Hangup j)
    with assms show ?thesis by (auto simp: close_conns split: option.splits)
  qed
qed

lemma known_run:
  "server_run e evs s = Inr s' \<Longrightarrow> sv_conns s i = Some c \<Longrightarrow> ids_ok s \<Longrightarrow> Hangup i \<notin> set evs \<Longrightarrow>
   \<forall>r\<in>set (requests_of i evs). known_request r \<Longrightarrow> \<exists>c'. sv_conns s' i = Some c'"
proof (induction evs arbitrary: s c)
  case (Cons ev evs)
  then obtain s1 where s1: "server_step e ev s = Inr s1" "server_run e evs s1 = Inr s'" by (auto split: sum.splits)
  have "known_request r" if "ev = Request i r" for r using Cons.prems(5) that by simp
  with known_step [OF s1(1) Cons.prems(2,3)] Cons.prems(4) obtain c1 where c1: "sv_conns s1 i = Some c1" by auto
  have "\<forall>r\<in>set (requests_of i evs). known_request r" using Cons.prems(5) by (cases ev) (auto split: if_splits)
  with Cons.IH [OF s1(2) c1 server_step_ids [OF Cons.prems(3) s1(1)]] Cons.prems(4) show ?case by simp
qed simp

lemma server_run_append:
  "server_run e (xs @ ys) s = (case server_run e xs s of Inl err \<Rightarrow> Inl err | Inr s \<Rightarrow> server_run e ys s)"
  by (induction xs arbitrary: s) (auto split: sum.splits)

text \<open>
  A client that sends its requests and hangs up leaves a file with the records of these
  requests, whatever the others do before, in between and afterwards.
\<close>

lemma client_leaves_file:
  assumes mmf: "sv_kind e = MMF" and fin: "finite (other_files e)"
      "card (other_files e) + length (evs0 @ Accept False # evs @ Hangup i # evs') < 2 ^ 64"
    and s0: "server_run e evs0 new_MemDBServer = Inr s0" "i = sv_accepting s0"
    and run: "server_run e (evs0 @ Accept False # evs @ Hangup i # evs') new_MemDBServer = Inr s"
    and own: "Hangup i \<notin> set evs" "\<forall>r\<in>set (requests_of i evs). known_request r"
    and serve: "serve_requests bms_ops (own_creator e) (requests_of i evs) None = Some (EndOfFile, Some st)"
  shows "\<exists>path g. settled_file path g (m_container st) s"
proof -
  let ?sa = "HandleAccept False s0"
  from run s0(1) obtain s1 where s1: "server_run e evs ?sa = Inr s1" "server_run e (Hangup i # evs') s1 = Inr s"
    by (auto simp: server_run_append split: sum.splits)
  have n0: "sv_next_segment new_MemDBServer = 0" "ids_ok new_MemDBServer"
    by (simp_all add: ids_ok_def new_MemDBServer_def StartAccept_def)
  have i0: "server_inv e s0" "sv_next_segment s0 \<le> length evs0"
    using server_run_bound [OF mmf fin(1) new_server_inv _ s0(1)] fin(2) n0(1) by simp_all
  have ids: "ids_ok ?sa" using server_step_ids [of s0 e "Accept False"] server_run_ids [OF n0(2) s0(1)] by simp
  have na: "sv_next_segment ?sa = sv_next_segment s0" by (simp add: HandleAccept_def StartAccept_def)
  have i1: "server_inv e s1" "sv_next_segment s1 \<le> length evs0 + length evs"
    using server_run_bound [OF mmf fin(1) accept_inv [OF i0(1)] _ s1(1)] fin(2) na i0(2) by simp_all
  have new: "sv_conns ?sa i = Some new_conn" "same_records (storage (cn_session new_conn)) None"
    using s0(2) by (simp_all add: HandleAccept_def StartAccept_def same_records_def new_conn_def new_MemDBSession_def)
  obtain c where c: "sv_conns s1 i = Some c" using known_run [OF s1(1) new(1) ids own] by blast
  from server_run_own [OF ids new s1(1) own(1) c] serve obtain st' where
    st': "storage (cn_session c) = Some st'" "m_container st' = m_container st" by (auto simp: same_records_def)
  have "conn_ok e s1 c" using i1(1) c unfolding server_inv_def by blast
  with st' obtain g where g: "cn_segment c = Some g" "g < sv_next_segment s1" "sv_names s1 (m_name st') = Some g"
      "sv_content s1 g = Some (m_container st)" by (auto simp: conn_ok_def split: option.splits)
  let ?s2 = "close_conn e i c s1"
  have "j = i" if "sv_conns s1 j = Some d" "cn_segment d = Some g" for j d
    using i1(1) c g(1) that unfolding server_inv_def by blast
  then have "settled_file (m_name st') g (m_container st) ?s2"
    using g by (auto simp: settled_file_def close_conn_def destroy_mapped_file [OF mmf] split: if_splits)
  moreover from s1(2) c have "server_run e evs' ?s2 = Inr s" by simp
  moreover have "sv_next_segment ?s2 = sv_next_segment s1" by (simp add: close_conn_def destroy_mapped_file [OF mmf])
  ultimately show ?thesis
    using settled_run [OF mmf fin(1) close_inv [OF mmf i1(1)], of i c evs' "m_name st'" g _ s] fin(2) i1(2) by auto
qed

subsection \<open>The process\<close>

lemma process_run:
  assumes "p_depth p = 0" and "run_libc l cs (p_world p) = Some (rs, evs, w)"
    and "engine_run ops evs (OnInitialize env create pd) = Some e"
    and "OnDestroy ops (c_unw (l_ctx l w)) (c_now (l_ctx l w)) e = Some (st, e')"
  shows "memhook_process env create pd ops l cs p = Some ((rs, st), p\<lparr>p_world := w, p_engine := None\<rparr>)"
proof -
  let ?p = "p\<lparr>p_engine := Some (OnInitialize env create pd)\<rparr>"
  have "MemHook_InitHelper env create pd p = Some ((), ?p)"
    by (cases p) (simp add: MemHook_InitHelper_def with_no_hook_def NoHook_def NoHook_end_def)
  moreover have "run_hooked ops l cs ?p = Some (rs, ?p\<lparr>p_world := w, p_engine := Some e\<rparr>)"
    by (rule run_hooked_tracks) (use assms in simp_all)
  ultimately show ?thesis using assms(4)
    by (cases p) (simp add: memhook_process_def MemHook_InitHelper_end_def with_no_hook_def
        NoHook_def NoHook_end_def Let_def)
qed

text \<open>The operations the engine asks its storage for, from its start to its end.\<close>

definition storage_log ::
    "environ \<Rightarrow> (string \<Rightarrow> int option) \<Rightarrow> hook_event list \<Rightarrow> unw_env \<Rightarrow> time \<Rightarrow> storage_op list" where
  "storage_log env pd evs unw t =
     (case engine_run log_ops evs (OnInitialize env (\<lambda>_. Some []) pd) of
        None \<Rightarrow> []
      | Some e \<Rightarrow> (case OnDestroy log_ops unw t e of Some (Some log, e') \<Rightarrow> log | _ \<Rightarrow> []))"

lemma storage_log_run:
  assumes "0 < m_cache_max_size (new_Unwinder env)" and "run_ok evs Map.empty"
  shows "\<exists>e e'. engine_run log_ops evs (OnInitialize env (\<lambda>_. Some []) pd) = Some e \<and>
     OnDestroy log_ops unw t e = Some (Some (storage_log env pd evs unw t), e') \<and>
     log_inv (storage_log env pd evs unw t) \<and> log_tbl (storage_log env pd evs unw t) = spec_run evs Map.empty"
proof -
  let ?e0 = "OnInitialize env (\<lambda>_. Some []) pd"
  have inv: "engine_inv log_tbl log_inv ?e0" "etable log_tbl ?e0 = Map.empty"
    using engine_inv_OnInitialize [of "\<lambda>_. Some []" env "[]" log_inv log_tbl pd] assms(1)
    by (simp_all add: log_inv_def log_tbl_def)
  with logged.engine_run_ok [of ?e0 evs] assms(2) obtain e where
    e: "engine_run log_ops evs ?e0 = Some e" "engine_inv log_tbl log_inv e" "etable log_tbl e = spec_run evs Map.empty"
    by auto
  have "m_storage e \<noteq> None" using engine_run_storage [OF e(1)] by (simp add: OnInitialize_def)
  from logged.OnDestroy_ok [OF e(2) this, of unw t] obtain log e' where
    "OnDestroy log_ops unw t e = Some (Some log, e')" "log_inv log" "log_tbl log = etable log_tbl e" by blast
  with e show ?thesis by (simp add: storage_log_def)
qed

text \<open>The requests a client sends for such a log.\<close>

definition client_requests :: "u32 \<Rightarrow> time \<Rightarrow> storage_op list \<Rightarrow> NetRequest list" where
  "client_requests pid now log =
     new_NetRequest kNetReqNewStorage (ucast pid) 0 now [] # concat (map op_requests log)"

lemma client_requests_known: "log_inv log \<Longrightarrow> \<forall>r\<in>set (client_requests pid now log). known_request r"
proof -
  assume "log_inv log"
  then have "known_request r" if "x \<in> set log" "r \<in> set (op_requests x)" for x r
    using that by (cases x) (auto simp: log_inv_def known_request_def new_NetRequest_def)
  then show ?thesis by (auto simp: client_requests_def known_request_def new_NetRequest_def)
qed

lemma process_over_network:
  assumes "p_depth p = 0" and "run_libc l cs (p_world p) = Some (rs, evs, w)" and "run_ok evs Map.empty"
    and "0 < m_cache_max_size (new_Unwinder env)"
    and "new_NetworkMappedStorage be True host port pid now = Some c" and "int64_ok now"
    and "create (NewStorage env) = Some c"
    and "log = storage_log env pd evs (c_unw (l_ctx l w)) (c_now (l_ctx l w))" and "ops_ok log"
  shows "\<exists>c' p'. memhook_process env create pd (net_ops be) l cs p = Some ((rs, Some c'), p') \<and> p_world p' = w \<and>
     wire c' = concat (map frame (client_requests pid now log))"
proof -
  let ?f = "\<lambda>s. run_ops (net_ops be) s c" and ?e0 = "OnInitialize env (\<lambda>_. Some []) pd"
  obtain e e' where e: "engine_run log_ops evs ?e0 = Some e"
      "OnDestroy log_ops (c_unw (l_ctx l w)) (c_now (l_ctx l w)) e = Some (Some log, e')"
    using storage_log_run [OF assms(4,3), of pd "c_unw (l_ctx l w)" "c_now (l_ctx l w)"] assms(8) by blast
  have start: "OnInitialize env create pd = map_engine ?f ?e0"
    using assms(7) by (simp add: OnInitialize_def map_engine_def run_ops_def)
  have "engine_run (net_ops be) evs (OnInitialize env create pd) = Some (map_engine ?f e)"
    using net.engine_run_hom [of be evs c ?e0] e(1) start by simp
  moreover have "OnDestroy (net_ops be) (c_unw (l_ctx l w)) (c_now (l_ctx l w)) (map_engine ?f e) =
      Some (Some (?f log), map_engine ?f e')"
    using net.OnDestroy_hom [of be "c_unw (l_ctx l w)" "c_now (l_ctx l w)" c e] e(2) by simp
  ultimately have "memhook_process env create pd (net_ops be) l cs p =
      Some ((rs, Some (?f log)), p\<lparr>p_world := w, p_engine := None\<rparr>)"
    using process_run [OF assms(1,2)] by blast
  with client_wire [OF assms(5,6,9)] show ?thesis by (auto simp: client_requests_def)
qed

subsection \<open>From the process to the report\<close>

text \<open>The mapped files of the server's host, as another program opens them.\<close>

definition server_files :: "memdb_server \<Rightarrow> segments" where
  "server_files s =
     \<lparr>sg_files = (\<lambda>p. do { g \<leftarrow> sv_names s p; k \<leftarrow> sv_content s g; Some [MEMHOOK_SHARED_CONTAINER \<mapsto> k] }),
      sg_shm = Map.empty\<rparr>"

lemma settled_view: "settled_file p g k s \<Longrightarrow> new_BasicMappedView MMF p (server_files s) = Some (Some k)"
  by (simp add: settled_file_def new_BasicMappedView_def seg_lookup_def server_files_def)

text \<open>
  C2. The whole system: a program runs under the hooks in a process that records over the
  network and exits; the server receives the requests of that process among those of any
  other clients, before, in between and after it, and keeps mapped files; then the viewer,
  started on the server's host with one of these files, prints, oldest first, one line for every block
  that the program had not freed, with its address and size, and no other line. The bytes the process
  sent are the requests the server served. The program has one thread and keeps to \<open>prog_ok\<close>, as
  for C1 (no failing \<^verbatim>\<open>realloc\<close>, \<^verbatim>\<open>posix_memalign\<close> or watched \<^verbatim>\<open>mmap\<close>, no new-handler that is run, \<^verbatim>\<open>munmap\<close> of
  whole blocks only); the cache of the unwinder has a size other than 0; every request fits the
  wire format. The server serves one request after another, as it does with one service
  thread, and has not failed; the viewer has the option of the file only and is not interrupted.
\<close>

theorem leaks_reported_through_server:
  assumes "allocator_ok heap l" and "prog_ok heap l cs (p_world p)" and "heap (p_world p) = Map.empty"
    and "p_depth p = 0" and "0 < m_cache_max_size (new_Unwinder env)"
    and "new_NetworkMappedStorage be True host port pid now = Some c" and "int64_ok now"
    and "create (NewStorage env) = Some c"
    and "run_libc l cs (p_world p) = Some (rs, evs, w)"
    and "log = storage_log env pd evs (c_unw (l_ctx l w)) (c_now (l_ctx l w))" and "ops_ok log"
    and "sv_kind e = MMF" and "finite (other_files e)"
    and "card (other_files e) + length (evs0 @ Accept False # sevs @ Hangup i # sevs') < 2 ^ 64"
    and "server_run e evs0 new_MemDBServer = Inr s0" and "i = sv_accepting s0"
    and "server_run e (evs0 @ Accept False # sevs @ Hangup i # sevs') new_MemDBServer = Inr s"
    and "Hangup i \<notin> set sevs" and "requests_of i sevs = client_requests pid now log"
    and "indices_ok (me_view me)"
  shows "\<exists>c' p' path k xs. memhook_process env create pd (net_ops be) l cs p = Some ((rs, Some c'), p') \<and> p_world p' = w \<and>
           wire c' = concat (map frame (requests_of i sevs)) \<and>
           memview_main me (\<lambda>_. Some [(''mapped-file'', OptStr path)]) usage (server_files s) (\<lambda>_. False) argv sig =
             (ExitSuccess (concat (map (record_line (me_view me) k False) xs)), sig) \<and>
           sorted (map timestamp xs) \<and> distinct (map address xs) \<and>
           map_of (map (\<lambda>x. (address x, memsize x)) xs) = heap w"
proof -
  from prog_run [OF assms(1,2), of Map.empty] assms(3,9) have evs: "run_ok evs Map.empty" "sizes (spec_run evs Map.empty) = heap w"
    by auto
  obtain c' p' where p': "memhook_process env create pd (net_ops be) l cs p = Some ((rs, Some c'), p')" "p_world p' = w"
      "wire c' = concat (map frame (requests_of i sevs))"
    using process_over_network [where create = create, OF assms(4,9) evs(1) assms(5-8,10,11)] assms(19) by auto
  have log: "log_inv log" "log_tbl log = spec_run evs Map.empty"
    using storage_log_run [OF assms(5) evs(1)] assms(10) by blast+
  let ?st = "run_ops bms_ops (removeAll OpFlush log) (new_BasicMappedStorage '''' (bc_size (sv_creator e)))"
  have "serve_requests bms_ops (own_creator e) (requests_of i sevs) None = Some (EndOfFile, Some ?st)"
    using serve_client [of "own_creator e" pid _ log bms_ops now] log(1) assms(19)
    by (simp add: own_creator_def client_requests_def log_inv_def)
  moreover have "\<forall>r\<in>set (requests_of i sevs). known_request r" using client_requests_known log(1) assms(19) by simp
  ultimately obtain path g where f: "settled_file path g (m_container ?st) s"
    using client_leaves_file [OF assms(12-18)] by blast
  have st: "bms_inv ?st" "bms_tbl ?st = spec_run evs Map.empty"
    using bms.run_ops_ok [of "new_BasicMappedStorage '''' (bc_size (sv_creator e))" "removeAll OpFlush log"] log(2) log_tbl_flush [of log]
    by (simp_all add: log_tbl_def)
  have "(\<lambda>a. map_option memsize (ic_find a (indexed_container (m_container ?st)))) = heap w"
    using st(2) evs(2) bms_sizes [of ?st] by (simp add: sizes_def fun_eq_iff)
  with plain_view_lists [OF assms(20) settled_view [OF f], of usage argv sig] st(1) obtain xs where
    "memview_main me (\<lambda>_. Some [(''mapped-file'', OptStr path)]) usage (server_files s) (\<lambda>_. False) argv sig =
       (ExitSuccess (concat (map (record_line (me_view me) (m_container ?st) False) xs)), sig)"
    "sorted (map timestamp xs)" "distinct (map address xs)" "map_of (map (\<lambda>x. (address x, memsize x)) xs) = heap w"
    by (auto simp: bms_inv_def)
  with p' show ?thesis by blast
qed

text \<open>Two blocks allocated, one freed; another client comes after this one.\<close>

definition plain_libc :: "bump libc" where
  "plain_libc = bump_libc\<lparr>l_ctx := \<lambda>w. plain_ctx 0\<rparr>"

lemma plain_allocator_ok: "allocator_ok snd (plain_libc :: bump libc)"
  using bump_allocator_ok by (simp add: plain_libc_def allocator_ok_def)

definition plain_program :: "call list" where
  "plain_program = [CMalloc 16, CMalloc 32, CFree 4096]"

definition plain_log :: "storage_op list" where
  "plain_log = [OpAdd 8192 32 [] 0, OpFlush]"

definition whole_events :: "server_event list" where
  "whole_events = [Request 0 (new_NetRequest kNetReqNewStorage 77 0 5 []), Request 0 (new_NetRequest kNetReqAdd 8192 32 0 [])]"

lemma plain_run:
  "run_libc plain_libc plain_program (4096, Map.empty) =
     Some ([RAddr 4096, RAddr 8192, RUnit],
       [EvAlloc (plain_ctx 0) 4096 16, EvAlloc (plain_ctx 0) 8192 32, EvFree 4096], (12288, [8192 \<mapsto> 32]))"
    "prog_ok snd plain_libc plain_program (4096, Map.empty)"
  by (simp_all add: plain_program_def plain_libc_def bump_libc_def bump_alloc_def bump_free_def ret_def fun_eq_iff)

lemma plain_log_eq:
  "storage_log [] (\<lambda>s. None) [EvAlloc (plain_ctx 0) 4096 16, EvAlloc (plain_ctx 0) 8192 32, EvFree 4096] demo_unw 0 = plain_log"
  by (simp add: storage_log_def plain_ctx_def OnDestroy_def plain_log_def engine_eval)

lemma plain_log_ok: "ops_ok plain_log"
  by (auto simp: plain_log_def ops_ok_def int64_ok_def intro!: request_ok_short)

lemma whole_run:
  "\<exists>s. server_run (demo_memdb MMF) ([] @ Accept False # whole_events @ Hangup 0 # [Accept False]) new_MemDBServer = Inr s"
  by (simp add: whole_events_def demo_memdb_def HandleAccept_def StartAccept_def new_MemDBServer_def server_open_def
      choose_name_def create_segment_def destroy_storage_def Let_def GenerateUniquePath_def fs_now_def
      new_BasicMappedStorage_def new_conn_def new_MemDBSession_def new_NetRequest_def serve_other_def put_session_def
      HandleNetRequest_def OnAdd_def bms_ops_def bms_Add_def new_MappedContainer_def ic_emplace_def close_conn_def
      kNetReqAdd_def kNetReqNewStorage_def)

theorem leaks_reported_through_server_witness:
  "\<exists>c s c' p' path k xs. new_NetworkMappedStorage False True ''db'' 20015 77 5 = Some c \<and>
     memhook_process [] (\<lambda>_. Some c) (\<lambda>s. None) (net_ops False) plain_libc plain_program
       \<lparr>p_world = (4096, Map.empty), p_engine = None, p_depth = 0, p_dlsym = 0, p_dlvsym = 0\<rparr> =
       Some (([RAddr 4096, RAddr 8192, RUnit], Some c'), p') \<and>
     wire c' = concat (map frame (requests_of 0 whole_events)) \<and>
     server_run (demo_memdb MMF) ([] @ Accept False # whole_events @ Hangup 0 # [Accept False]) new_MemDBServer = Inr s \<and>
     memview_main demo_main_env (\<lambda>_. Some [(''mapped-file'', OptStr path)]) (\<lambda>_ _. (0, 0)) (server_files s) (\<lambda>_. False) [] demo_signals =
       (ExitSuccess (concat (map (record_line demo_env k False) xs)), demo_signals) \<and>
     map_of (map (\<lambda>x. (address x, memsize x)) xs) = [8192 \<mapsto> 32]"
proof -
  let ?p = "\<lparr>p_world = (4096, Map.empty), p_engine = None, p_depth = 0, p_dlsym = 0, p_dlvsym = 0\<rparr>
    :: (bump, NetworkMappedStorage) process"
  let ?l = "plain_libc :: bump libc"
  let ?evs = "[EvAlloc (plain_ctx 0) 4096 16, EvAlloc (plain_ctx 0) 8192 32, EvFree 4096]"
  obtain c where c: "new_NetworkMappedStorage False True ''db'' 20015 77 5 = Some c"
    by (simp add: new_NetworkMappedStorage_def)
  obtain s where s: "server_run (demo_memdb MMF) ([] @ Accept False # whole_events @ Hangup 0 # [Accept False]) new_MemDBServer = Inr s"
    using whole_run by blast
  have l: "l_ctx ?l w = plain_ctx 0" "c_unw (plain_ctx 0) = demo_unw" "c_now (plain_ctx 0) = 0" for w :: bump
    by (simp_all add: plain_libc_def plain_ctx_def)
  have o: "other_files (demo_memdb MMF) = {''/tmp/old.shm''}" by (simp add: other_files_def demo_memdb_def)
  have r: "requests_of 0 whole_events = client_requests 77 5 plain_log"
    by (simp add: whole_events_def client_requests_def plain_log_def)
  have e: "server_run (demo_memdb MMF) [] new_MemDBServer = Inr new_MemDBServer" "0 = sv_accepting new_MemDBServer"
      "sv_kind (demo_memdb MMF) = MMF" "finite (other_files (demo_memdb MMF))"
      "card (other_files (demo_memdb MMF)) + length ([] @ Accept False # whole_events @ Hangup 0 # [Accept False]) < 2 ^ 64"
      "Hangup 0 \<notin> set whole_events"
    unfolding o by (simp_all add: new_MemDBServer_def StartAccept_def demo_memdb_def whole_events_def)
  have i: "0 < m_cache_max_size (new_Unwinder [])" "int64_ok 5" "indices_ok (me_view demo_main_env)"
    using demo_env_ok by (simp_all add: new_Unwinder_def getenv_def int64_ok_def demo_main_env_def)
  have run: "run_libc ?l plain_program (p_world ?p) = Some ([RAddr 4096, RAddr 8192, RUnit], ?evs, (12288, [8192 \<mapsto> 32]))"
      "prog_ok snd ?l plain_program (p_world ?p)" "snd (p_world ?p) = Map.empty" "p_depth ?p = 0"
    using plain_run by simp_all
  have log: "plain_log = storage_log [] (\<lambda>s. None) ?evs (c_unw (l_ctx ?l (12288, [8192 \<mapsto> 32]))) (c_now (l_ctx ?l (12288, [8192 \<mapsto> 32])))"
    using plain_log_eq l by simp
  from leaks_reported_through_server [where create = "\<lambda>_. Some c" and env = "[]" and heap = snd and usage = "\<lambda>_ _. (0, 0)" and
      argv = "[]" and sig = demo_signals, OF plain_allocator_ok run(2-4) i(1) c i(2) _ run(1) log plain_log_ok
        e(3-5,1,2) s e(6) r i(3)] c s
  show ?thesis by (auto simp: demo_main_env_def)
qed

end
