(* ===== verification/Concurrent_Hooks.thy ===== *)
theory Concurrent_Hooks
  imports Leak_Report
begin

unbundle bit_operations_syntax

text \<open>
  The hooks of \<^verbatim>\<open>src/memhook/memhook.cpp\<close> in a process with several threads. Each hook is cut
  where another thread can come in between: the C library's call, every critical section
  of the engine's \<^verbatim>\<open>m_cache_mutex\<close>, and in \<^verbatim>\<open>DoHookAlloc\<close> also the reading of the clock and
  of the stack, which comes before the lock is taken. \<^verbatim>\<open>DoHookRealloc\<close> takes the lock twice.
  A step of one thread is one of these parts; threads interleave freely.

  With the default policy the unwinder's cache is used only under \<^verbatim>\<open>m_cache_mutex\<close>; with
  the other policy the reading of the stack is taken here as one step.
\<close>

subsection \<open>DoHookAlloc in two parts\<close>

definition alloc_capture :: "hook_ctx \<Rightarrow> 's Engine \<Rightarrow> (CallStackInfo \<times> 's Engine) option" where
  "alloc_capture ctx e =
     do { u \<leftarrow> m_callstack_unwinder e;
          (cs, u) \<leftarrow> GetCallStackInfo (c_unw ctx) (c_frames ctx) 2
                      (m_getprocinfo_policy e = kUnwindCallStackWhen) u;
          Some (cs, e\<lparr>m_callstack_unwinder := Some u\<rparr>) }"

definition alloc_insert ::
    "'s storage_ops \<Rightarrow> unw_env \<Rightarrow> addr \<Rightarrow> usize \<Rightarrow> time \<Rightarrow> CallStackInfo \<Rightarrow> 's Engine \<Rightarrow> 's Engine option" where
  "alloc_insert ops env mem n now cs e =
     (let (cache, inserted) = ic_emplace (new_EngineTraceInfo mem n now) (m_cache e);
          cache = (if inserted then ic_modify mem (\<lambda>x. x\<lparr>e_callstack := cs\<rparr>) cache else cache)
      in FlushLocalCache ops env now (m_cache_flush_timeout e) False (e\<lparr>m_cache := cache\<rparr>))"

lemma DoHookAlloc_parts:
  "mem \<noteq> 0 \<Longrightarrow> DoHookAlloc ops ctx mem n e =
     do { (cs, e) \<leftarrow> alloc_capture ctx e; alloc_insert ops (c_unw ctx) mem n (c_now ctx) cs e }"
  by (cases "m_callstack_unwinder e"; cases "GetCallStackInfo (c_unw ctx) (c_frames ctx) 2
      (m_getprocinfo_policy e = kUnwindCallStackWhen) (the (m_callstack_unwinder e))")
    (auto simp: DoHookAlloc_def alloc_capture_def alloc_insert_def Let_def split: prod.splits)

context mapped_storage
begin

lemma alloc_capture_ok:
  assumes "engine_inv tbl sinv e"
  shows "\<exists>cs e'. alloc_capture ctx e = Some (cs, e') \<and> frames_of cs = recorded_frames ctx \<and>
           engine_inv tbl sinv e' \<and> etable tbl e' = etable tbl e \<and> m_cache e' = m_cache e"
proof -
  from assms obtain u where u: "m_callstack_unwinder e = Some u" "0 < m_cache_max_size u"
    by (auto simp: engine_inv_def unwinder_ready_def split: option.splits)
  obtain cs v where "GetCallStackInfo (c_unw ctx) (c_frames ctx) 2
        (m_getprocinfo_policy e = kUnwindCallStackWhen) u = Some (cs, v)"
      "m_cache_max_size v = m_cache_max_size u" "frames_of cs = recorded_frames ctx"
    using GetCallStackInfo_defined [OF u(2), of "c_unw ctx" "c_frames ctx" 2
        "m_getprocinfo_policy e = kUnwindCallStackWhen"]
    by (auto simp: frames_of_def recorded_frames_def skip_two)
  then show ?thesis using assms u
    by (simp add: alloc_capture_def engine_inv_eq unwinder_ready_def etable_eq stable_def)
qed

lemma alloc_insert_ok:
  assumes inv: "engine_inv tbl sinv e" and new: "etable tbl e mem = None"
  shows "\<exists>e'. alloc_insert ops env mem n now cs e = Some e' \<and> engine_inv tbl sinv e' \<and>
           etable tbl e' = (etable tbl e)(mem \<mapsto> (n, now, frames_of cs))"
proof -
  from new have free: "ic_find mem (m_cache e) = None" "stable tbl e mem = None"
    by (simp_all add: etable_eq map_add_None cache_tbl_find)
  let ?new = "new_EngineTraceInfo mem n now"
  define c where "c = ic_modify mem (\<lambda>x. x\<lparr>e_callstack := cs\<rparr>) (fst (ic_emplace ?new (m_cache e)))"
  define e1 where "e1 = e\<lparr>m_cache := c\<rparr>"
  have tab: "cache_tbl c = (cache_tbl (m_cache e))(mem \<mapsto> (n, now, frames_of cs))"
    using cache_tbl_emplace [OF free(1)] by (simp add: c_def)
  obtain c0 where "ic_emplace ?new (m_cache e) = (c0, True)"
    using free(1) by (simp add: ic_emplace_def)
  then have run: "alloc_insert ops env mem n now cs e =
      FlushLocalCache ops env now (m_cache_flush_timeout e) False e1"
    by (simp add: alloc_insert_def c_def e1_def)
  have "ic_inv c" using inv by (simp add: c_def engine_inv_def ic.invar_modify ic.invar_insert)
  with inv tab free(2) have "engine_inv tbl sinv e1"
    by (auto simp: engine_inv_eq e1_def stable_def intro!: disjoint_upd)
  moreover have "etable tbl e1 = (etable tbl e)(mem \<mapsto> (n, now, frames_of cs))"
    by (simp add: etable_eq e1_def stable_def tab)
  ultimately show ?thesis using FlushLocalCache_ok [of e1 env now "m_cache_flush_timeout e" False] run by metis
qed

text \<open>An address the cache already holds keeps its record.\<close>

lemma alloc_insert_present:
  assumes "engine_inv tbl sinv e" and "ic_find mem (m_cache e) \<noteq> None"
  shows "\<exists>e'. alloc_insert ops env mem n now cs e = Some e' \<and> engine_inv tbl sinv e' \<and>
           etable tbl e' = etable tbl e"
proof -
  have "ic_emplace (new_EngineTraceInfo mem n now) (m_cache e) = (m_cache e, False)"
    using assms(2) by (auto simp: ic_emplace_def)
  then have "alloc_insert ops env mem n now cs e =
      FlushLocalCache ops env now (m_cache_flush_timeout e) False e"
    by (simp add: alloc_insert_def)
  with FlushLocalCache_ok [OF assms(1)] show ?thesis by metis
qed

end

subsection \<open>The threads of a process\<close>

text \<open>
  What a hook has still to tell the engine. \<open>RepInsert\<close> is the second half of an allocation
  whose time and stack have been read. A thread's position is the reports it has still to
  make and the library call it makes after them (the functions that free report first);
  a thread with neither is outside the hooks.
\<close>

datatype report =
    RepAlloc addr usize
  | RepInsert addr usize time CallStackInfo
  | RepFree addr
  | RepSize addr usize
  | RepFlush

type_synonym hook_pc = "report list \<times> call option"

record ('w, 's) thread_state =
  t_world :: 'w
  t_engine :: "'s Engine option"
  t_pc :: "nat \<Rightarrow> hook_pc"

fun realloc_reports :: "addr \<Rightarrow> addr \<Rightarrow> usize \<Rightarrow> report list" where
  "realloc_reports old_mem new_mem n =
     (if old_mem = new_mem then [RepSize old_mem n] else [RepFree old_mem, RepAlloc new_mem n])"

fun event_reports :: "hook_event \<Rightarrow> report list" where
  "event_reports (EvAlloc ctx a n) = [RepAlloc a n]"
| "event_reports (EvFree a) = [RepFree a]"
| "event_reports (EvUpdateSize a n) = [RepSize a n]"
| "event_reports (EvRealloc ctx a b n) = realloc_reports a b n"
| "event_reports EvFlushCallStackCache = [RepFlush]"

text \<open>The context is that of the step that reads the clock and the stack, so it does not matter here.\<close>

definition unread_ctx :: hook_ctx where
  "unread_ctx = \<lparr>c_now = 0, c_frames = [], c_unw = \<lparr>unw_get_proc_name = Map.empty,
     unw_accessor_get_proc_name = None, dladdr = Map.empty\<rparr>\<rparr>"

definition call_reports :: "call \<Rightarrow> result \<Rightarrow> report list" where
  "call_reports c r = concat (map event_reports (call_events unread_ctx c r))"

fun freed_by :: "call \<Rightarrow> addr option" where
  "freed_by (CFree a) = Some a"
| "freed_by (CCfree a) = Some a"
| "freed_by (CDelete a) = Some a"
| "freed_by _ = None"

text \<open>One step of a report: what is left of it, and the engine.\<close>

fun report_step ::
    "'s storage_ops \<Rightarrow> hook_ctx \<Rightarrow> report \<Rightarrow> 's Engine option \<Rightarrow> (report list \<times> 's Engine option) option" where
  "report_step ops ctx x None = Some ([], None)"
| "report_step ops ctx (RepAlloc a n) (Some e) =
     (if a = 0 then Some ([], Some e)
      else do { (cs, e) \<leftarrow> alloc_capture ctx e; Some ([RepInsert a n (c_now ctx) cs], Some e) })"
| "report_step ops ctx (RepInsert a n now cs) (Some e) =
     do { e \<leftarrow> alloc_insert ops (c_unw ctx) a n now cs e; Some ([], Some e) }"
| "report_step ops ctx (RepFree a) (Some e) = Some ([], Some (DoHookFree ops a e))"
| "report_step ops ctx (RepSize a n) (Some e) = Some ([], Some (DoHookUpdateSize ops a n e))"
| "report_step ops ctx RepFlush (Some e) = do { e \<leftarrow> DoFlushCallStackCache e; Some ([], Some e) }"

datatype hook_action = Begin nat call | Next nat hook_ctx

fun hook_step ::
    "'s storage_ops \<Rightarrow> 'w libc \<Rightarrow> hook_action \<Rightarrow> ('w, 's) thread_state \<Rightarrow> ('w, 's) thread_state option" where
  "hook_step ops l (Begin i c) s =
     (if t_pc s i \<noteq> ([], None) then None
      else if freed_by c \<noteq> None
      then Some (s\<lparr>t_pc := (t_pc s)(i := (call_reports c RUnit, Some c))\<rparr>)
      else do { (r, w) \<leftarrow> libc_call l c (t_world s);
                Some (s\<lparr>t_world := w, t_pc := (t_pc s)(i := (call_reports c r, None))\<rparr>) })"
| "hook_step ops l (Next i ctx) s =
     (case t_pc s i of
        (x # xs, after) \<Rightarrow>
          do { (ys, e) \<leftarrow> report_step ops ctx x (t_engine s);
               Some (s\<lparr>t_engine := e, t_pc := (t_pc s)(i := (ys @ xs, after))\<rparr>) }
      | ([], Some c) \<Rightarrow>
          do { (r, w) \<leftarrow> libc_call l c (t_world s);
               Some (s\<lparr>t_world := w, t_pc := (t_pc s)(i := ([], None))\<rparr>) }
      | ([], None) \<Rightarrow> None)"

fun hook_steps ::
    "'s storage_ops \<Rightarrow> 'w libc \<Rightarrow> hook_action list \<Rightarrow> ('w, 's) thread_state \<Rightarrow> ('w, 's) thread_state option" where
  "hook_steps ops l [] s = Some s"
| "hook_steps ops l (a # as) s = do { s \<leftarrow> hook_step ops l a s; hook_steps ops l as s }"

definition all_idle :: "('w, 's) thread_state \<Rightarrow> bool" where
  "all_idle s \<longleftrightarrow> (\<forall>i. t_pc s i = ([], None))"

subsection \<open>A hook that is not interrupted\<close>

lemma hook_steps_append:
  "hook_steps ops l (xs @ ys) s = do { s \<leftarrow> hook_steps ops l xs s; hook_steps ops l ys s }"
proof (induction xs arbitrary: s)
  case (Cons a xs)
  then show ?case by (cases "hook_step ops l a s") simp_all
qed simp

lemma on_addr_cases: "(\<forall>f. on_addr f r = []) \<or> (\<exists>a. \<forall>f. on_addr f r = f a)"
proof (cases r)
  case (RCpp x)
  then show ?thesis by (cases x) auto
qed auto

lemma call_events_shape:
  "call_events ctx c r = [] \<or> (\<exists>a n. call_events ctx c r = [EvAlloc ctx a n] \<and> call_reports c r = [RepAlloc a n]) \<or>
   (\<exists>a. call_events ctx c r = [EvFree a] \<and> call_reports c r = [RepFree a]) \<or>
   (\<exists>a b n. call_events ctx c r = [EvRealloc ctx a b n] \<and> call_reports c r = realloc_reports a b n) \<or>
   call_events ctx c r = [EvFlushCallStackCache] \<and> call_reports c r = [RepFlush]"
  using on_addr_cases [of r]
proof (elim disjE exE)
  assume "\<forall>f. on_addr f r = []"
  then show ?thesis by (cases c) (simp_all add: call_reports_def)
next
  fix a assume "\<forall>f. on_addr f r = f a"
  then show ?thesis by (cases c) (simp_all add: call_reports_def)
qed

lemma call_events_Nil: "call_events ctx c r = [] \<Longrightarrow> call_reports c r = []"
  using on_addr_cases [of r]
proof (elim disjE exE)
  assume "call_events ctx c r = []" "\<forall>f. on_addr f r = []"
  then show ?thesis by (cases c) (auto simp: call_reports_def split: if_splits)
next
  fix a assume "call_events ctx c r = []" "\<forall>f. on_addr f r = f a"
  then show ?thesis by (cases c) (auto simp: call_reports_def split: if_splits)
qed

lemma alloc_report_alone:
  assumes "HookAlloc ops ctx a n inst = Some inst'" and "t_pc s i = ([RepAlloc a n], after)" "t_engine s = inst"
  shows "\<exists>k. hook_steps ops l (replicate k (Next i ctx)) s =
           Some (s\<lparr>t_engine := inst', t_pc := (t_pc s)(i := ([], after))\<rparr>)"
proof (cases "inst = None \<or> a = 0")
  case True
  then have "hook_steps ops l (replicate 1 (Next i ctx)) s =
      Some (s\<lparr>t_engine := inst', t_pc := (t_pc s)(i := ([], after))\<rparr>)"
    using assms by (cases inst) (auto simp: HookAlloc_def DoHookAlloc_def)
  then show ?thesis by blast
next
  case False
  then obtain e where e: "inst = Some e" "a \<noteq> 0" by auto
  with assms(1) obtain cs e1 e2 where "alloc_capture ctx e = Some (cs, e1)"
      "alloc_insert ops (c_unw ctx) a n (c_now ctx) cs e1 = Some e2" "inst' = Some e2"
    by (auto simp: HookAlloc_def DoHookAlloc_parts bind_eq_Some_conv)
  then have "hook_steps ops l (replicate 2 (Next i ctx)) s =
      Some (s\<lparr>t_engine := inst', t_pc := (t_pc s)(i := ([], after))\<rparr>)"
    using assms(2,3) e by (simp add: numeral_2_eq_2)
  then show ?thesis by blast
qed

lemma free_report_alone:
  assumes "t_pc s i = (RepFree a # xs, after)"
  shows "hook_step ops l (Next i ctx) s =
           Some (s\<lparr>t_engine := HookFree ops a (t_engine s), t_pc := (t_pc s)(i := (xs, after))\<rparr>)"
  using assms by (cases "t_engine s") (simp_all add: HookFree_def)

lemma realloc_report_alone:
  assumes "HookRealloc ops ctx a b n (t_engine s) = Some inst'" and "t_pc s i = (realloc_reports a b n, after)"
  shows "\<exists>k. hook_steps ops l (replicate k (Next i ctx)) s =
           Some (s\<lparr>t_engine := inst', t_pc := (t_pc s)(i := ([], after))\<rparr>)"
proof (cases "a = b")
  case True
  then have "hook_steps ops l (replicate 1 (Next i ctx)) s =
      Some (s\<lparr>t_engine := inst', t_pc := (t_pc s)(i := ([], after))\<rparr>)"
    using assms by (cases "t_engine s") (auto simp: HookRealloc_def DoHookRealloc_def)
  then show ?thesis by blast
next
  case False
  let ?s = "s\<lparr>t_engine := HookFree ops a (t_engine s), t_pc := (t_pc s)(i := ([RepAlloc b n], after))\<rparr>"
  have "HookAlloc ops ctx b n (HookFree ops a (t_engine s)) = Some inst'"
    using assms(1) False by (cases "t_engine s") (auto simp: HookRealloc_def DoHookRealloc_def HookAlloc_def HookFree_def)
  from alloc_report_alone [OF this, of ?s i after l] obtain k where
    "hook_steps ops l (replicate k (Next i ctx)) ?s = Some (s\<lparr>t_engine := inst', t_pc := (t_pc s)(i := ([], after))\<rparr>)"
    by auto
  moreover have "hook_step ops l (Next i ctx) s = Some ?s"
    using free_report_alone [of s i a "[RepAlloc b n]" after] assms(2) False by simp
  ultimately have "hook_steps ops l (replicate (Suc k) (Next i ctx)) s =
      Some (s\<lparr>t_engine := inst', t_pc := (t_pc s)(i := ([], after))\<rparr>)" by simp
  then show ?thesis by blast
qed

lemma reports_alone:
  assumes "inst_run ops (call_events ctx c r) (t_engine s) = Some inst'" and "t_pc s i = (call_reports c r, after)"
  shows "\<exists>k. hook_steps ops l (replicate k (Next i ctx)) s =
           Some (s\<lparr>t_engine := inst', t_pc := (t_pc s)(i := ([], after))\<rparr>)"
proof -
  consider "call_events ctx c r = []" "call_reports c r = []"
    | a n where "call_events ctx c r = [EvAlloc ctx a n]" "call_reports c r = [RepAlloc a n]"
    | a where "call_events ctx c r = [EvFree a]" "call_reports c r = [RepFree a]"
    | a b n where "call_events ctx c r = [EvRealloc ctx a b n]" "call_reports c r = realloc_reports a b n"
    | "call_events ctx c r = [EvFlushCallStackCache]" "call_reports c r = [RepFlush]"
    using call_events_shape [of ctx c r] call_events_Nil [of ctx c r] by blast
  then show ?thesis
  proof cases
    case 1
    with assms have "hook_steps ops l (replicate 0 (Next i ctx)) s =
        Some (s\<lparr>t_engine := inst', t_pc := (t_pc s)(i := ([], after))\<rparr>)"
      by (cases s) (simp add: fun_upd_idem)
    then show ?thesis by blast
  next
    case (2 a n)
    with assms(1) have "HookAlloc ops ctx a n (t_engine s) = Some inst'"
      by (auto simp: inst_run_def HookAlloc_def engine_run_single split: option.splits)
    with alloc_report_alone 2 assms(2) show ?thesis by metis
  next
    case (3 a)
    with assms(1) have "HookFree ops a (t_engine s) = inst'"
      by (auto simp: inst_run_def HookFree_def split: option.splits)
    with 3 assms(2) free_report_alone [of s i a "[]" after ops l ctx]
    have "hook_steps ops l (replicate 1 (Next i ctx)) s =
        Some (s\<lparr>t_engine := inst', t_pc := (t_pc s)(i := ([], after))\<rparr>)" by simp
    then show ?thesis by blast
  next
    case (4 a b n)
    with assms(1) have "HookRealloc ops ctx a b n (t_engine s) = Some inst'"
      by (auto simp: inst_run_def HookRealloc_def engine_run_single split: option.splits)
    with realloc_report_alone 4 assms(2) show ?thesis by metis
  next
    case 5
    with assms have "hook_steps ops l (replicate 1 (Next i ctx)) s =
        Some (s\<lparr>t_engine := inst', t_pc := (t_pc s)(i := ([], after))\<rparr>)"
      by (cases "t_engine s") (auto simp: inst_run_def engine_run_single)
    then show ?thesis by blast
  qed
qed

lemma freed_by_events:
  "freed_by c = Some a \<Longrightarrow> call_events ctx c r = [EvFree a] \<and> call_reports c r' = [RepFree a]"
  by (cases c) (simp_all add: call_reports_def)

text \<open>
  The parts are the whole: a hook whose steps run one after the other, with the context
  the process has after the call, does what the hook of the single-threaded model does.
\<close>

theorem hook_parts_compose:
  assumes "p_depth p = 0" and "hooked_call ops l c p = Some (r, p')"
    and "t_pc s i = ([], None)" and "t_world s = p_world p" and "t_engine s = p_engine p"
  shows "\<exists>k. hook_steps ops l (Begin i c # replicate k (Next i (l_ctx l (p_world p')))) s =
           Some (s\<lparr>t_world := p_world p', t_engine := p_engine p'\<rparr>)"
proof -
  from assms(2) obtain w inst where c: "libc_call l c (p_world p) = Some (r, w)"
      "inst_run ops (call_events (l_ctx l w) c r) (p_engine p) = Some inst" "p' = p\<lparr>p_world := w, p_engine := inst\<rparr>"
    by (auto simp: hooked_call_eq [OF assms(1)] tracked_def bind_eq_Some_conv)
  have same: "(t_pc s)(i := ([], None)) = t_pc s" using assms(3) by (simp add: fun_upd_idem)
  show ?thesis
  proof (cases "freed_by c")
    case None
    let ?s = "s\<lparr>t_world := w, t_pc := (t_pc s)(i := (call_reports c r, None))\<rparr>"
    obtain k where "hook_steps ops l (replicate k (Next i (l_ctx l w))) ?s =
        Some (s\<lparr>t_world := w, t_engine := inst\<rparr>)"
      using reports_alone [of ops "l_ctx l w" c r ?s inst i None l] c(2) assms(5) same by auto
    moreover have "hook_step ops l (Begin i c) s = Some ?s" using None assms(3,4) c(1) by simp
    ultimately have "hook_steps ops l (Begin i c # replicate k (Next i (l_ctx l (p_world p')))) s =
        Some (s\<lparr>t_world := p_world p', t_engine := p_engine p'\<rparr>)" using c(3) by simp
    then show ?thesis by blast
  next
    case (Some a)
    have "HookFree ops a (p_engine p) = inst"
      using c(2) freed_by_events [OF Some] by (auto simp: inst_run_def HookFree_def split: option.splits)
    then have "hook_steps ops l (Begin i c # replicate 2 (Next i (l_ctx l w))) s =
        Some (s\<lparr>t_world := w, t_engine := inst\<rparr>)"
      using Some assms(3-5) c(1) freed_by_events [OF Some] same
      by (cases "p_engine p") (simp_all add: numeral_2_eq_2 HookFree_def)
    then have "hook_steps ops l (Begin i c # replicate 2 (Next i (l_ctx l (p_world p')))) s =
        Some (s\<lparr>t_world := p_world p', t_engine := p_engine p'\<rparr>)" using c(3) by simp
    then show ?thesis by blast
  qed
qed

subsection \<open>Programs without realloc\<close>

text \<open>
  Blocks that are in the heap and not in the engine's table while a hook is under way, and
  the blocks a hook is working on.
\<close>

fun in_flight :: "hook_pc \<Rightarrow> addr set" where
  "in_flight ([], Some c) = (case freed_by c of Some a \<Rightarrow> {a} - {0} | None \<Rightarrow> {})"
| "in_flight (RepAlloc a n # xs, None) = {a} - {0}"
| "in_flight (RepInsert a n now cs # xs, None) = {a} - {0}"
| "in_flight pc = {}"

fun claimed :: "hook_pc \<Rightarrow> addr set" where
  "claimed (RepFree a # xs, Some c) = {a} - {0}"
| "claimed pc = in_flight pc"

text \<open>
  A thread frees only blocks that have been returned to the program and that no other
  thread is freeing; it uses neither \<^verbatim>\<open>realloc\<close> nor \<^verbatim>\<open>mremap\<close> or \<^verbatim>\<open>munmap\<close>, which give a block
  back before they report it, and the other functions as \<open>call_ok\<close> admits.
\<close>

fun frees_first :: "call \<Rightarrow> bool" where
  "frees_first (CRealloc a n) \<longleftrightarrow> True"
| "frees_first (CMunmap a n) \<longleftrightarrow> True"
| "frees_first (CMremap a n m flags b) \<longleftrightarrow> True"
| "frees_first _ \<longleftrightarrow> False"

definition thread_call_ok :: "('w \<Rightarrow> addr \<rightharpoonup> usize) \<Rightarrow> 'w libc \<Rightarrow> call \<Rightarrow> ('w, 's) thread_state \<Rightarrow> bool" where
  "thread_call_ok heap l c s \<longleftrightarrow>
     (case freed_by c of
        Some a \<Rightarrow> a = 0 \<or> heap (t_world s) a \<noteq> None \<and> (\<forall>i. a \<notin> claimed (t_pc s i))
      | None \<Rightarrow> \<not> frees_first c \<and> call_ok heap l c (t_world s))"

fun action_ok :: "('w \<Rightarrow> addr \<rightharpoonup> usize) \<Rightarrow> 'w libc \<Rightarrow> hook_action \<Rightarrow> ('w, 's) thread_state \<Rightarrow> bool" where
  "action_ok heap l (Begin i c) s \<longleftrightarrow> t_pc s i = ([], None) \<and> thread_call_ok heap l c s"
| "action_ok heap l (Next i ctx) s \<longleftrightarrow> t_pc s i \<noteq> ([], None)"

fun schedule_ok ::
    "('w \<Rightarrow> addr \<rightharpoonup> usize) \<Rightarrow> 's storage_ops \<Rightarrow> 'w libc \<Rightarrow> hook_action list \<Rightarrow> ('w, 's) thread_state \<Rightarrow> bool" where
  "schedule_ok heap ops l [] s \<longleftrightarrow> True"
| "schedule_ok heap ops l (a # as) s \<longleftrightarrow> action_ok heap l a s \<and>
     (case hook_step ops l a s of None \<Rightarrow> True | Some s \<Rightarrow> schedule_ok heap ops l as s)"

fun pc_ok :: "(addr \<rightharpoonup> usize) \<Rightarrow> hook_pc \<Rightarrow> bool" where
  "pc_ok h ([], None) \<longleftrightarrow> True"
| "pc_ok h ([], Some c) \<longleftrightarrow> (\<exists>a. freed_by c = Some a \<and> (a = 0 \<or> h a \<noteq> None))"
| "pc_ok h ([RepFree a], Some c) \<longleftrightarrow> freed_by c = Some a \<and> (a = 0 \<or> h a \<noteq> None)"
| "pc_ok h ([RepAlloc a n], None) \<longleftrightarrow> a = 0 \<or> h a = Some n"
| "pc_ok h ([RepInsert a n now cs], None) \<longleftrightarrow> a \<noteq> 0 \<and> h a = Some n"
| "pc_ok h ([RepFlush], None) \<longleftrightarrow> True"
| "pc_ok h _ \<longleftrightarrow> False"

definition flight :: "(nat \<Rightarrow> hook_pc) \<Rightarrow> addr set" where
  "flight pcs = (\<Union>i. in_flight (pcs i))"

definition flight_elsewhere :: "nat \<Rightarrow> (nat \<Rightarrow> hook_pc) \<Rightarrow> addr set" where
  "flight_elsewhere i pcs = (\<Union>j\<in>- {i}. in_flight (pcs j))"

definition threads_inv ::
    "('s \<Rightarrow> table) \<Rightarrow> ('s \<Rightarrow> bool) \<Rightarrow> ('w \<Rightarrow> addr \<rightharpoonup> usize) \<Rightarrow> ('w, 's) thread_state \<Rightarrow> bool" where
  "threads_inv tbl sinv heap s \<longleftrightarrow>
     (\<exists>e. t_engine s = Some e \<and> engine_inv tbl sinv e \<and>
        sizes (etable tbl e) = heap (t_world s) |` (- flight (t_pc s))) \<and>
     (\<forall>i. pc_ok (heap (t_world s)) (t_pc s i)) \<and>
     (\<forall>i j. i \<noteq> j \<longrightarrow> claimed (t_pc s i) \<inter> claimed (t_pc s j) = {})"

lemma in_flight_claimed: "in_flight pc \<subseteq> claimed pc"
  by (cases pc rule: claimed.cases) auto

lemma claimed_heap: "pc_ok h pc \<Longrightarrow> b \<in> claimed pc \<Longrightarrow> h b \<noteq> None \<and> b \<noteq> 0"
  by (cases "(h, pc)" rule: pc_ok.cases) auto

lemma pc_ok_frame: "pc_ok h pc \<Longrightarrow> \<forall>b\<in>claimed pc. h' b = h b \<Longrightarrow> pc_ok h' pc"
  by (cases "(h, pc)" rule: pc_ok.cases) auto

lemma flight_split: "flight pcs = in_flight (pcs i) \<union> flight_elsewhere i pcs"
  by (auto simp: flight_def flight_elsewhere_def)

lemma flight_upd [simp]: "flight_elsewhere i (pcs(i := pc)) = flight_elsewhere i pcs"
  by (simp add: flight_elsewhere_def)

lemma flight_elsewhere_disjoint:
  assumes "threads_inv tbl sinv heap s" and "b \<in> claimed (t_pc s i)"
  shows "b \<notin> flight_elsewhere i (t_pc s)"
proof
  assume "b \<in> flight_elsewhere i (t_pc s)"
  then obtain j where j: "j \<noteq> i" "b \<in> in_flight (t_pc s j)" by (auto simp: flight_elsewhere_def)
  then have "b \<in> claimed (t_pc s j)" using in_flight_claimed by blast
  with j(1) assms show False unfolding threads_inv_def by blast
qed

text \<open>A step of thread \<open>i\<close> changes the world, the engine and its own position.\<close>

lemma threads_inv_upd:
  assumes inv: "threads_inv tbl sinv heap s" and e: "engine_inv tbl sinv e"
    and tab: "sizes (etable tbl e) = heap w |` (- (in_flight pc \<union> flight_elsewhere i (t_pc s)))"
    and pc: "pc_ok (heap w) pc"
    and others: "\<And>j b. j \<noteq> i \<Longrightarrow> b \<in> claimed (t_pc s j) \<Longrightarrow> heap w b = heap (t_world s) b \<and> b \<notin> claimed pc"
  shows "threads_inv tbl sinv heap (s\<lparr>t_world := w, t_engine := Some e, t_pc := (t_pc s)(i := pc)\<rparr>)"
proof -
  let ?pcs = "(t_pc s)(i := pc)"
  have ok: "pc_ok (heap w) (?pcs j)" for j
  proof (cases "j = i")
    case False
    have "pc_ok (heap (t_world s)) (t_pc s j)" using inv by (simp add: threads_inv_def)
    with False others show ?thesis by (auto intro: pc_ok_frame)
  qed (simp add: pc)
  have "claimed (?pcs j) \<inter> claimed (?pcs k) = {}" if "j \<noteq> k" for j k
  proof (cases "j = i \<or> k = i")
    case True
    then show ?thesis using that others [of j] others [of k] by auto
  next
    case False
    then show ?thesis using that inv by (simp add: threads_inv_def)
  qed
  with ok e tab show ?thesis unfolding threads_inv_def by (simp add: flight_split [of _ i])
qed

text \<open>What a call that does not free does to the heap, and what it reports.\<close>

lemma alloc_call_effect:
  assumes "allocator_ok heap l" and "thread_call_ok heap l c s" and "freed_by c = None"
  shows "\<exists>r w. libc_call l c (t_world s) = Some (r, w) \<and>
     ((call_reports c r = [] \<or> call_reports c r = [RepFlush]) \<and> heap w = heap (t_world s) \<or>
      (\<exists>a n. call_reports c r = [RepAlloc a n] \<and> allocs heap n (t_world s) (a, w)))"
proof -
  note laws = assms(1) [unfolded allocator_ok_def]
  have A: "\<exists>r w. ret RAddr x = Some (r, w) \<and>
     ((call_reports c r = [] \<or> call_reports c r = [RepFlush]) \<and> heap w = heap (t_world s) \<or>
      (\<exists>a n. call_reports c r = [RepAlloc a n] \<and> allocs heap n (t_world s) (a, w)))"
    if "allocs heap n (t_world s) x" "\<And>a. call_reports c (RAddr a) = [RepAlloc a n]" for x n
    using that by (cases x) (auto simp: ret_def)
  have mapped: "\<exists>r w. ret RAddr x = Some (r, w) \<and>
     ((call_reports c r = [] \<or> call_reports c r = [RepFlush]) \<and> heap w = heap (t_world s) \<or>
      (\<exists>a n. call_reports c r = [RepAlloc a n] \<and> allocs heap n (t_world s) (a, w)))"
    if "maps_block heap watched n (t_world s) x" "\<And>a. call_reports c (RAddr a) = (if watched then [RepAlloc a n] else [])"
    for watched n x
    using that by (cases x) (auto simp: ret_def maps_block_def split: if_splits)
  show ?thesis
  proof (cases c)
    case (CNew n nothrow)
    let ?x = "l_malloc l n (t_world s)"
    have "allocs heap n (t_world s) ?x" using laws by simp
    moreover have "fst ?x \<noteq> 0 \<or> \<not> l_new_handler_set l (snd ?x)"
      using assms(2) CNew by (simp add: thread_call_ok_def)
    note cpp_alloc2_no_handler [OF this, of nothrow]
    ultimately show ?thesis using CNew
      by (cases ?x) (auto simp: call_reports_def allocs_def)
  next
    case (CCalloc m n)
    then show ?thesis using A [of "m * n" "l_calloc l m n (t_world s)"] laws by (simp add: call_reports_def)
  next
    case (CPosixMemalign p al n)
    obtain rs a w where "l_posix_memalign l p al n (t_world s) = ((rs, a), w)" by (metis prod.exhaust)
    then show ?thesis using assms(2) CPosixMemalign by (auto simp: thread_call_ok_def call_reports_def ret_def)
  next
    case (CMmap b n prot flags fd off)
    then have "maps_block heap (fd < 0 \<and> flags AND MAP_STACK = 0) n (t_world s) (l_mmap l b n prot flags fd off (t_world s))"
      using assms(2) by (simp add: thread_call_ok_def)
    moreover have "call_reports c (RAddr a) = (if fd < 0 \<and> flags AND MAP_STACK = 0 then [RepAlloc a n] else [])" for a
      using CMmap by (simp add: call_reports_def)
    ultimately show ?thesis using mapped by (simp only: CMmap libc_call.simps)
  next
    case (CMmap64 b n prot flags fd off)
    let ?watched = "fd < 0 \<and> flags AND MAP_ANONYMOUS \<noteq> 0 \<and> flags AND MAP_PRIVATE \<noteq> 0"
    have "maps_block heap ?watched n (t_world s) (l_mmap64 l b n prot flags fd off (t_world s))"
      using assms(2) CMmap64 by (simp add: thread_call_ok_def)
    moreover have "call_reports c (RAddr a) = (if ?watched then [RepAlloc a n] else [])" for a
      using CMmap64 by (simp add: call_reports_def private_anonymous)
    ultimately show ?thesis using mapped by (simp only: CMmap64 libc_call.simps)
  qed (use assms(2,3) laws A in \<open>auto simp: thread_call_ok_def call_reports_def ret_def\<close>)
qed

lemma flight_other_heap:
  assumes "threads_inv tbl sinv heap s" and "b \<in> flight_elsewhere i (t_pc s)"
  shows "heap (t_world s) b \<noteq> None"
proof -
  from assms(2) obtain j where "b \<in> in_flight (t_pc s j)" by (auto simp: flight_elsewhere_def)
  then have "b \<in> claimed (t_pc s j)" using in_flight_claimed by blast
  moreover have "pc_ok (heap (t_world s)) (t_pc s j)" using assms(1) by (simp add: threads_inv_def)
  ultimately show ?thesis using claimed_heap by blast
qed

lemma threads_invE:
  assumes "threads_inv tbl sinv heap s"
  obtains e where "t_engine s = Some e" "engine_inv tbl sinv e"
    "sizes (etable tbl e) = heap (t_world s) |` (- (in_flight (t_pc s i) \<union> flight_elsewhere i (t_pc s)))"
    "pc_ok (heap (t_world s)) (t_pc s i)"
    "\<And>j b. j \<noteq> i \<Longrightarrow> b \<in> claimed (t_pc s j) \<Longrightarrow> b \<notin> claimed (t_pc s i) \<and> heap (t_world s) b \<noteq> None \<and> b \<noteq> 0"
proof -
  from assms obtain e where e: "t_engine s = Some e" "engine_inv tbl sinv e"
      "sizes (etable tbl e) = heap (t_world s) |` (- flight (t_pc s))" and pc: "pc_ok (heap (t_world s)) (t_pc s j)"
    and dis: "i \<noteq> j \<Longrightarrow> claimed (t_pc s i) \<inter> claimed (t_pc s j) = {}" for j
    unfolding threads_inv_def by blast
  show thesis
  proof (rule that [OF e(1,2) _ pc])
    show "sizes (etable tbl e) = heap (t_world s) |` (- (in_flight (t_pc s i) \<union> flight_elsewhere i (t_pc s)))"
      using e(3) flight_split [of "t_pc s" i] by simp
    show "b \<notin> claimed (t_pc s i) \<and> heap (t_world s) b \<noteq> None \<and> b \<noteq> 0" if "j \<noteq> i" "b \<in> claimed (t_pc s j)" for j b
      using dis [of j] that claimed_heap [OF pc that(2)] by auto
  qed
qed

context mapped_storage
begin

lemma begin_alloc_inv:
  assumes inv: "threads_inv tbl sinv heap s" and "allocator_ok heap l" and "action_ok heap l (Begin i c) s"
    and "freed_by c = None"
  shows "\<exists>s'. hook_step ops l (Begin i c) s = Some s' \<and> threads_inv tbl sinv heap s'"
proof -
  from inv obtain e where e: "t_engine s = Some e" "engine_inv tbl sinv e"
    "sizes (etable tbl e) = heap (t_world s) |` (- (in_flight (t_pc s i) \<union> flight_elsewhere i (t_pc s)))"
    and oth: "\<And>j b. j \<noteq> i \<Longrightarrow> b \<in> claimed (t_pc s j) \<Longrightarrow> heap (t_world s) b \<noteq> None \<and> b \<noteq> 0"
    by (rule threads_invE [of _ _ _ _ i]) blast
  from assms obtain r w where c: "libc_call l c (t_world s) = Some (r, w)"
    and eff: "(call_reports c r = [] \<or> call_reports c r = [RepFlush]) \<and> heap w = heap (t_world s) \<or>
      (\<exists>a n. call_reports c r = [RepAlloc a n] \<and> allocs heap n (t_world s) (a, w))"
    using alloc_call_effect [of heap l c s] by auto
  let ?pc = "(call_reports c r, None)"
  have idle: "t_pc s i = ([], None)" using assms(3) by simp
  have "threads_inv tbl sinv heap (s\<lparr>t_world := w, t_engine := Some e, t_pc := (t_pc s)(i := ?pc)\<rparr>)"
  proof (rule threads_inv_upd [OF inv e(2)])
    show "sizes (etable tbl e) = heap w |` (- (in_flight ?pc \<union> flight_elsewhere i (t_pc s)))"
      using eff e(3) idle by (auto simp: allocs_def restrict_map_def fun_eq_iff split: if_splits)
    show "pc_ok (heap w) ?pc" using eff by (auto simp: allocs_def split: if_splits)
    show "heap w b = heap (t_world s) b \<and> b \<notin> claimed ?pc" if "j \<noteq> i" "b \<in> claimed (t_pc s j)" for j b
      using eff oth [OF that] by (auto simp: allocs_def split: if_splits)
  qed
  moreover have "s\<lparr>t_world := w, t_engine := Some e, t_pc := x\<rparr> = s\<lparr>t_world := w, t_pc := x\<rparr>" for x
    using e(1) by (cases s) simp
  ultimately show ?thesis using idle assms(4) c by simp
qed

lemma begin_free_inv:
  assumes inv: "threads_inv tbl sinv heap s" and "action_ok heap l (Begin i c) s" and a: "freed_by c = Some a"
  shows "\<exists>s'. hook_step ops l (Begin i c) s = Some s' \<and> threads_inv tbl sinv heap s'"
proof -
  from inv obtain e where e: "t_engine s = Some e" "engine_inv tbl sinv e"
    "sizes (etable tbl e) = heap (t_world s) |` (- (in_flight (t_pc s i) \<union> flight_elsewhere i (t_pc s)))"
    by (rule threads_invE [of _ _ _ _ i]) blast
  let ?pc = "([RepFree a], Some c)"
  have idle: "t_pc s i = ([], None)" using assms(2) by simp
  have ok: "a = 0 \<or> heap (t_world s) a \<noteq> None \<and> (\<forall>i. a \<notin> claimed (t_pc s i))"
    using assms(2) a by (simp add: thread_call_ok_def)
  have "threads_inv tbl sinv heap (s\<lparr>t_world := t_world s, t_engine := Some e, t_pc := (t_pc s)(i := ?pc)\<rparr>)"
    by (rule threads_inv_upd [OF inv e(2)]) (use e(3) idle ok a in auto)
  moreover have "s\<lparr>t_world := t_world s, t_engine := Some e, t_pc := x\<rparr> = s\<lparr>t_pc := x\<rparr>" for x
    using e(1) by (cases s) simp
  ultimately show ?thesis using idle a freed_by_events [OF a, of _ _ RUnit] by simp
qed

end

text \<open>The positions a thread can be in.\<close>

lemma pc_ok_cases:
  assumes "pc_ok h pc" "pc \<noteq> ([], None)"
  obtains (fwd) c a where "pc = ([], Some c)" "freed_by c = Some a" "a = 0 \<or> h a \<noteq> None"
    | (free) c a where "pc = ([RepFree a], Some c)" "freed_by c = Some a" "a = 0 \<or> h a \<noteq> None"
    | (alloc) a n where "pc = ([RepAlloc a n], None)" "a = 0 \<or> h a = Some n"
    | (ins) a n now cs where "pc = ([RepInsert a n now cs], None)" "a \<noteq> 0" "h a = Some n"
    | (flush) "pc = ([RepFlush], None)"
  using assms by (cases "(h, pc)" rule: pc_ok.cases) auto

lemma libc_free_effect:
  assumes "allocator_ok heap l" "freed_by c = Some a"
  shows "\<exists>w'. libc_call l c w = Some (RUnit, w') \<and> heap w' = (if a = 0 then heap w else (heap w)(a := None))"
proof -
  have "frees heap a w (l_free l a w)" "frees heap a w (l_cfree l a w)"
    using assms(1) by (simp_all add: allocator_ok_def)
  with assms(2) show ?thesis by (cases c) (auto simp: frees_def)
qed

lemma same_world [simp]: "s\<lparr>t_world := t_world s, t_engine := e, t_pc := x\<rparr> = s\<lparr>t_engine := e, t_pc := x\<rparr>"
  by (cases s) simp

lemma same_engine: "t_engine s = e \<Longrightarrow> s\<lparr>t_world := w, t_engine := e, t_pc := x\<rparr> = s\<lparr>t_world := w, t_pc := x\<rparr>"
  by (cases s) simp

context mapped_storage
begin

lemma next_inv:
  assumes inv: "threads_inv tbl sinv heap s" and al: "allocator_ok heap l" and busy: "t_pc s i \<noteq> ([], None)"
  shows "\<exists>s'. hook_step ops l (Next i ctx) s = Some s' \<and> threads_inv tbl sinv heap s'"
proof -
  let ?h = "heap (t_world s)" and ?G = "flight_elsewhere i (t_pc s)"
  from inv obtain e where e: "t_engine s = Some e" "engine_inv tbl sinv e"
    "sizes (etable tbl e) = ?h |` (- (in_flight (t_pc s i) \<union> ?G))" "pc_ok ?h (t_pc s i)"
    and oth: "\<And>j b. j \<noteq> i \<Longrightarrow> b \<in> claimed (t_pc s j) \<Longrightarrow> b \<notin> claimed (t_pc s i) \<and> ?h b \<noteq> None \<and> b \<noteq> 0"
    by (rule threads_invE [of _ _ _ _ i]) blast
  note upd = threads_inv_upd [OF inv]
  from e(4) busy show ?thesis
  proof (cases rule: pc_ok_cases)
    case (fwd c a)
    from libc_free_effect [OF al fwd(2)] obtain w where w: "libc_call l c (t_world s) = Some (RUnit, w)"
      "heap w = (if a = 0 then ?h else ?h(a := None))" by blast
    have "threads_inv tbl sinv heap (s\<lparr>t_world := w, t_engine := Some e, t_pc := (t_pc s)(i := ([], None))\<rparr>)"
    proof (rule upd [OF e(2)])
      show "sizes (etable tbl e) = heap w |` (- (in_flight ([], None) \<union> ?G))"
        unfolding e(3) using fwd w(2) by (auto simp: restrict_map_def fun_eq_iff)
      show "heap w b = ?h b \<and> b \<notin> claimed ([], None)" if "j \<noteq> i" "b \<in> claimed (t_pc s j)" for j b
        using oth [OF that] fwd w(2) by auto
    qed simp
    with fwd w(1) e(1) show ?thesis by (simp add: same_engine)
  next
    case (free c a)
    let ?e = "DoHookFree ops a e"
    have e': "engine_inv tbl sinv ?e" "etable tbl ?e = spec_free a (etable tbl e)"
      using DoHookFree_spec [OF e(2)] by blast+
    have "threads_inv tbl sinv heap (s\<lparr>t_world := t_world s, t_engine := Some ?e, t_pc := (t_pc s)(i := ([], Some c))\<rparr>)"
    proof (rule upd [OF e'(1)])
      show "sizes (etable tbl ?e) = ?h |` (- (in_flight ([], Some c) \<union> ?G))"
        unfolding e'(2) spec_free_def using free by (auto simp: e(3) restrict_map_def fun_eq_iff)
    qed (use free oth in auto)
    with free e(1) show ?thesis by simp
  next
    case (alloc a n)
    show ?thesis
    proof (cases "a = 0")
      case True
      have "threads_inv tbl sinv heap (s\<lparr>t_world := t_world s, t_engine := Some e, t_pc := (t_pc s)(i := ([], None))\<rparr>)"
        by (rule upd [OF e(2)]) (use alloc True e(3) in auto)
      with alloc True e(1) show ?thesis by simp
    next
      case False
      obtain cs e' where e': "alloc_capture ctx e = Some (cs, e')" "engine_inv tbl sinv e'" "etable tbl e' = etable tbl e"
        using alloc_capture_ok [OF e(2)] by blast
      let ?pc = "([RepInsert a n (c_now ctx) cs], None)"
      have "threads_inv tbl sinv heap (s\<lparr>t_world := t_world s, t_engine := Some e', t_pc := (t_pc s)(i := ?pc)\<rparr>)"
        by (rule upd [OF e'(2)]) (use alloc False e(3) e'(3) oth in auto)
      with alloc False e(1) e'(1) show ?thesis by simp
    qed
  next
    case (ins a n now cs)
    have a: "a \<in> claimed (t_pc s i)" "a \<notin> ?G"
      using ins flight_elsewhere_disjoint [OF inv, of a i] by auto
    have "etable tbl e a = None"
      using e(3) ins sizes_upd(2) [of "etable tbl e" a] by simp
    from alloc_insert_ok [OF e(2) this, of "c_unw ctx" n now cs] obtain e' where e':
      "alloc_insert ops (c_unw ctx) a n now cs e = Some e'" "engine_inv tbl sinv e'"
      "etable tbl e' = (etable tbl e)(a \<mapsto> (n, now, frames_of cs))" by blast
    have "threads_inv tbl sinv heap (s\<lparr>t_world := t_world s, t_engine := Some e', t_pc := (t_pc s)(i := ([], None))\<rparr>)"
    proof (rule upd [OF e'(2)])
      show "sizes (etable tbl e') = ?h |` (- (in_flight ([], None) \<union> ?G))"
        unfolding e'(3) using ins a(2) by (auto simp: e(3) restrict_map_def fun_eq_iff)
    qed auto
    with ins e(1) e'(1) show ?thesis by simp
  next
    case flush
    obtain e' where e': "DoFlushCallStackCache e = Some e'" "engine_inv tbl sinv e'" "etable tbl e' = etable tbl e"
      using DoFlushCallStackCache_spec [OF e(2)] by blast
    have "threads_inv tbl sinv heap (s\<lparr>t_world := t_world s, t_engine := Some e', t_pc := (t_pc s)(i := ([], None))\<rparr>)"
      by (rule upd [OF e'(2)]) (use flush e(3) e'(3) in auto)
    with flush e(1) e'(1) show ?thesis by simp
  qed
qed

lemma hook_step_inv:
  assumes "threads_inv tbl sinv heap s" and "allocator_ok heap l" and "action_ok heap l a s"
  shows "\<exists>s'. hook_step ops l a s = Some s' \<and> threads_inv tbl sinv heap s'"
proof (cases a)
  case (Begin i c)
  then show ?thesis using begin_alloc_inv begin_free_inv assms by (cases "freed_by c") blast+
next
  case (Next i ctx)
  then show ?thesis using next_inv assms by simp
qed

lemma hook_steps_inv:
  "threads_inv tbl sinv heap s \<Longrightarrow> allocator_ok heap l \<Longrightarrow> schedule_ok heap ops l as s \<Longrightarrow>
   \<exists>s'. hook_steps ops l as s = Some s' \<and> threads_inv tbl sinv heap s'"
proof (induction as arbitrary: s)
  case (Cons a as)
  from Cons.prems(3) have "action_ok heap l a s" by simp
  from hook_step_inv [OF Cons.prems(1,2) this] obtain s1 where
    s1: "hook_step ops l a s = Some s1" "threads_inv tbl sinv heap s1" by blast
  with Cons.prems(3) have "schedule_ok heap ops l as s1" by simp
  from Cons.IH [OF s1(2) Cons.prems(2) this] s1(1) show ?case by simp
qed simp

end










subsection \<open>The race of realloc\<close>

text \<open>The schedule in which another thread gets the block a realloc has left, before that is reported.\<close>

definition realloc_race ::
    "nat \<Rightarrow> nat \<Rightarrow> addr \<Rightarrow> usize \<Rightarrow> usize \<Rightarrow> hook_ctx \<Rightarrow> hook_ctx \<Rightarrow> hook_action list" where
  "realloc_race i j a n k ctx ctx' =
     [Begin i (CRealloc a n), Begin j (CMalloc k), Next j ctx, Next j ctx, Next i ctx', Next i ctx', Next i ctx']"

context mapped_storage
begin

lemma race_engine:
  assumes "engine_inv tbl sinv e" and "ic_find a (m_cache e) \<noteq> None" and "etable tbl e b = None" and "b \<noteq> a"
  obtains cs e1 e2 cs' e3 e4 where "alloc_capture ctx e = Some (cs, e1)"
    "alloc_insert ops (c_unw ctx) a k (c_now ctx) cs e1 = Some e2"
    "alloc_capture ctx' (DoHookFree ops a e2) = Some (cs', e3)"
    "alloc_insert ops (c_unw ctx') b n (c_now ctx') cs' e3 = Some e4" "engine_inv tbl sinv e4"
    "etable tbl e4 = (spec_free a (etable tbl e))(b \<mapsto> (n, c_now ctx', recorded_frames ctx'))"
proof -
  obtain cs e1 where 1: "alloc_capture ctx e = Some (cs, e1)" "engine_inv tbl sinv e1"
      "etable tbl e1 = etable tbl e" "m_cache e1 = m_cache e"
    using alloc_capture_ok [OF assms(1)] by blast
  obtain e2 where 2: "alloc_insert ops (c_unw ctx) a k (c_now ctx) cs e1 = Some e2" "engine_inv tbl sinv e2"
      "etable tbl e2 = etable tbl e"
    using alloc_insert_present [OF 1(2)] 1(3,4) assms(2) by metis
  let ?e = "DoHookFree ops a e2"
  have e: "engine_inv tbl sinv ?e" "etable tbl ?e = spec_free a (etable tbl e)"
    using DoHookFree_spec [OF 2(2)] 2(3) by simp_all
  obtain cs' e3 where 3: "alloc_capture ctx' ?e = Some (cs', e3)" "frames_of cs' = recorded_frames ctx'"
      "engine_inv tbl sinv e3" "etable tbl e3 = etable tbl ?e"
    using alloc_capture_ok [OF e(1)] by blast
  have "etable tbl e3 b = None" using 3(4) e(2) assms(3,4) by (simp add: spec_free_def)
  from alloc_insert_ok [OF 3(3) this, of "c_unw ctx'" n "c_now ctx'" cs'] 3 e(2) that [OF 1(1) 2(1) 3(1)]
  show thesis by auto
qed

end

text \<open>
  C39. Realloc and a second thread: the library frees the old block before the hook reports
  it, so another thread can be given the same address; its report is dropped because the
  address is still known, and the late report of the realloc then removes it. Both hooks
  return, no hook is under way, the block is in the heap and the table does not have it. The
  record of the old block is still in the engine's cache, not yet flushed to the storage.
\<close>

theorem realloc_race_loses_block:
  assumes "allocator_ok heap l" and "engine_inv bms_tbl bms_inv e" and "t_engine s = Some e" and "all_idle s" and "i \<noteq> j"
    and "l_realloc l a n (t_world s) = (b, w)" and "a \<noteq> 0" and "b \<noteq> 0" and "b \<noteq> a"
    and "l_malloc l k w = (a, w')"
    and "ic_find a (m_cache e) \<noteq> None" and "etable bms_tbl e b = None"
  shows "\<exists>s' e'. hook_steps bms_ops l (realloc_race i j a n k ctx ctx') s = Some s' \<and> all_idle s' \<and>
           t_engine s' = Some e' \<and> engine_inv bms_tbl bms_inv e' \<and>
           heap (t_world s') a = Some k \<and> etable bms_tbl e' a = None"
proof -
  obtain cs e1 e2 cs' e3 e4 where e: "alloc_capture ctx e = Some (cs, e1)"
    "alloc_insert bms_ops (c_unw ctx) a k (c_now ctx) cs e1 = Some e2"
    "alloc_capture ctx' (DoHookFree bms_ops a e2) = Some (cs', e3)"
    "alloc_insert bms_ops (c_unw ctx') b n (c_now ctx') cs' e3 = Some e4" "engine_inv bms_tbl bms_inv e4"
    "etable bms_tbl e4 = (spec_free a (etable bms_tbl e))(b \<mapsto> (n, c_now ctx', recorded_frames ctx'))"
    using bms.race_engine [OF assms(2,11,12,9)] .
  have idle: "t_pc s i = ([], None)" "t_pc s j = ([], None)" using assms(4) by (simp_all add: all_idle_def)
  let ?s = "s\<lparr>t_world := w', t_engine := Some e4,
    t_pc := (t_pc s)(i := ([], None), j := ([], None), i := ([], None))\<rparr>"
  have "hook_steps bms_ops l (realloc_race i j a n k ctx ctx') s = Some ?s"
    using e(1-4) idle assms(3,5-10)
    by (simp add: realloc_race_def ret_def call_reports_def fun_upd_twist)
  moreover have "heap w' a = Some k"
    using assms(1,7,10) unfolding allocator_ok_def allocs_def by (metis fst_conv fun_upd_same snd_conv)
  moreover have "all_idle ?s" using assms(4) by (simp add: all_idle_def)
  moreover have "etable bms_tbl e4 a = None" using e(6) assms(7,9) by (simp add: spec_free_def)
  ultimately show ?thesis using e(5) by (intro exI [of _ ?s] exI [of _ e4]) simp
qed

text \<open>An allocator that reuses address 4096 first and whose realloc always moves.\<close>

definition moving_libc :: "bump libc" where
  "moving_libc = bump_libc\<lparr>
     l_malloc := (\<lambda>n (nxt, h). if h 4096 = None then (4096, (nxt, h(4096 \<mapsto> n))) else bump_alloc n (nxt, h)),
     l_realloc := (\<lambda>a n (nxt, h). if a = 0 then bump_alloc n (nxt, h) else if n = 0 then (0, bump_free a (nxt, h))
        else if nxt \<noteq> 0 \<and> h nxt = None \<and> nxt \<noteq> a then (nxt, (nxt + 4096, h(a := None, nxt \<mapsto> n))) else (0, (nxt, h)))\<rparr>"

lemma moving_allocator_ok: "allocator_ok snd (moving_libc :: bump libc)"
  by (auto simp: allocator_ok_def allocs_def frees_def reallocs_def moving_libc_def bump_libc_def bump_alloc_def
      bump_free_def fun_eq_iff split: prod.splits)

definition race_threads :: "(bump, BasicMappedStorage) thread_state" where
  "race_threads = \<lparr>t_world = (12288, [4096 \<mapsto> 16, 8192 \<mapsto> 32]), t_engine = Some demo_cached, t_pc = (\<lambda>i. ([], None))\<rparr>"

theorem realloc_race_loses_block_witness:
  "\<exists>s' e'. hook_steps bms_ops moving_libc (realloc_race 0 1 4096 64 24 (demo_ctx 6) (demo_ctx 7)) race_threads = Some s' \<and>
     all_idle s' \<and> t_engine s' = Some e' \<and> snd (t_world s') 4096 = Some 24 \<and> etable bms_tbl e' 4096 = None"
proof -
  have et: "etable bms_tbl demo_cached 12288 = None" and ic: "ic_find 4096 (m_cache demo_cached) \<noteq> None"
    by (simp_all add: demo_cached_def demo_engine_def OnInitialize_def etable_def cache_tbl_Cons ic_find_def)
  have re: "l_realloc (moving_libc :: bump libc) 4096 64 (t_world race_threads) =
        (12288, (16384, [8192 \<mapsto> 32, 12288 \<mapsto> 64]))"
    and ma: "l_malloc (moving_libc :: bump libc) 24 (16384, [8192 \<mapsto> 32, 12288 \<mapsto> 64]) =
        (4096, (16384, [8192 \<mapsto> 32, 12288 \<mapsto> 64, 4096 \<mapsto> 24]))"
    by (simp_all add: moving_libc_def race_threads_def fun_eq_iff)
  have idle: "all_idle race_threads" and te: "t_engine race_threads = Some demo_cached"
    by (simp_all add: all_idle_def race_threads_def)
  from realloc_race_loses_block [OF moving_allocator_ok demo_cached_inv(1) te idle _ re _ _ _ ma ic et,
      of 0 1 "demo_ctx 6" "demo_ctx 7"]
  obtain s' e' where "hook_steps bms_ops moving_libc (realloc_race 0 1 4096 64 24 (demo_ctx 6) (demo_ctx 7)) race_threads = Some s'"
      "all_idle s'" "t_engine s' = Some e'" "snd (t_world s') 4096 = Some 24" "etable bms_tbl e' 4096 = None" by auto
  then show ?thesis by blast
qed

end
