(* ===== verification/Atomic.thy ===== *)
theory Atomic
  imports Memhook_Prelude
begin

text \<open>
  The atomic operations, \<^verbatim>\<open>src/memhook/atomic-gcc.h\<close> (compiler builtins) and
  \<^verbatim>\<open>atomic-asm-x86.h\<close> (inline assembly), on one memory cell: an operation is one step that
  takes the cell's content and gives its result and the new content. The memory-order
  variants of an operation have the same effect on the cell. The cell is a word of 32
  or 64 bits, so addition wraps around.
\<close>

type_synonym 'a cell = "'a word"

subsection \<open>Builtins\<close>

definition atomic_load_n :: "'a::len cell \<Rightarrow> 'a word \<times> 'a cell" where
  "atomic_load_n m = (m, m)"

definition atomic_store_n :: "'a word \<Rightarrow> 'a::len cell \<Rightarrow> unit \<times> 'a cell" where
  "atomic_store_n v m = ((), v)"

definition atomic_exchange_n :: "'a word \<Rightarrow> 'a::len cell \<Rightarrow> 'a word \<times> 'a cell" where
  "atomic_exchange_n v m = (m, v)"

text \<open>\<^verbatim>\<open>__atomic_compare_exchange_n\<close> leaves the cell's content in \<^verbatim>\<open>old_value\<close> when it differs.\<close>

definition gcc_CompareAndSwap :: "'a word \<Rightarrow> 'a word \<Rightarrow> 'a::len cell \<Rightarrow> 'a word \<times> 'a cell" where
  "gcc_CompareAndSwap old_value new_value m =
     (if m = old_value then (old_value, new_value) else (m, m))"

definition gcc_AtomicFetchAndAdd :: "'a word \<Rightarrow> 'a::len cell \<Rightarrow> 'a word \<times> 'a cell" where
  "gcc_AtomicFetchAndAdd v m = (m, m + v)"

definition gcc_AtomicAddAndFetch :: "'a word \<Rightarrow> 'a::len cell \<Rightarrow> 'a word \<times> 'a cell" where
  "gcc_AtomicAddAndFetch v m = (m + v, m + v)"

subsection \<open>Assembly\<close>

text \<open>\<^verbatim>\<open>lock; cmpxchg\<close>: the accumulator is compared and receives the cell's content.\<close>

definition asm_cmpxchg :: "'a word \<Rightarrow> 'a word \<Rightarrow> 'a::len cell \<Rightarrow> 'a word \<times> 'a cell" where
  "asm_cmpxchg eax new_value m = (if eax = m then (eax, new_value) else (m, m))"

definition asm_xchg :: "'a word \<Rightarrow> 'a::len cell \<Rightarrow> 'a word \<times> 'a cell" where
  "asm_xchg r m = (m, r)"

definition asm_xadd :: "'a word \<Rightarrow> 'a::len cell \<Rightarrow> 'a word \<times> 'a cell" where
  "asm_xadd r m = (m, r + m)"

definition asm_AtomicExchange :: "'a word \<Rightarrow> 'a::len cell \<Rightarrow> 'a word \<times> 'a cell" where
  "asm_AtomicExchange new_value m = asm_xchg new_value m"

definition asm_CompareAndSwap :: "'a word \<Rightarrow> 'a word \<Rightarrow> 'a::len cell \<Rightarrow> 'a word \<times> 'a cell" where
  "asm_CompareAndSwap old_value new_value m = asm_cmpxchg old_value new_value m"

definition asm_AtomicFetchAndAdd :: "'a word \<Rightarrow> 'a::len cell \<Rightarrow> 'a word \<times> 'a cell" where
  "asm_AtomicFetchAndAdd v m = asm_xadd v m"

definition asm_AtomicAddAndFetch :: "'a word \<Rightarrow> 'a::len cell \<Rightarrow> 'a word \<times> 'a cell" where
  "asm_AtomicAddAndFetch v m = (case asm_xadd v m of (temp, m) \<Rightarrow> (temp + v, m))"

definition asm_Barrier_AtomicAddAndFetch_32 :: "u32 \<Rightarrow> 32 cell \<Rightarrow> u32 \<times> 32 cell" where
  "asm_Barrier_AtomicAddAndFetch_32 v m = asm_AtomicAddAndFetch v m"

definition asm_Barrier_AtomicAddAndFetch_64 :: "u64 \<Rightarrow> 64 cell \<Rightarrow> u64 \<times> 64 cell" where
  "asm_Barrier_AtomicAddAndFetch_64 v m = asm_AtomicFetchAndAdd v m"

lemma CompareAndSwap_eq: "gcc_CompareAndSwap a b m = (m, if m = a then b else m)"
  by (simp add: gcc_CompareAndSwap_def)

text \<open>
  The assembly is the builtins: exchange, compare-and-swap, fetch-and-add and
  add-and-fetch agree on every cell and operand, at both widths, including the 32-bit
  barrier variant that the reference counter of the engine uses.
\<close>

theorem asm_refines_builtins:
  fixes m v :: "'a::len word"
  shows "asm_AtomicExchange v m = atomic_exchange_n v m \<and>
         asm_CompareAndSwap old_value v m = gcc_CompareAndSwap old_value v m \<and>
         asm_AtomicFetchAndAdd v m = gcc_AtomicFetchAndAdd v m \<and>
         asm_AtomicAddAndFetch v m = gcc_AtomicAddAndFetch v m \<and>
         asm_Barrier_AtomicAddAndFetch_32 x y = gcc_AtomicAddAndFetch x y"
  by (simp add: asm_AtomicExchange_def asm_xchg_def atomic_exchange_n_def asm_CompareAndSwap_def
      asm_cmpxchg_def gcc_CompareAndSwap_def asm_AtomicFetchAndAdd_def asm_xadd_def gcc_AtomicFetchAndAdd_def
      asm_AtomicAddAndFetch_def gcc_AtomicAddAndFetch_def asm_Barrier_AtomicAddAndFetch_32_def add.commute)

text \<open>
  The 64-bit barrier add-and-fetch of the assembly version is not an add-and-fetch: it
  returns the old content, and so differs from the builtin for every operand but 0.
\<close>

theorem asm_barrier_add_and_fetch_64_differs:
  "fst (asm_Barrier_AtomicAddAndFetch_64 v m) = m \<and>
   (asm_Barrier_AtomicAddAndFetch_64 v m = gcc_AtomicAddAndFetch v m \<longleftrightarrow> v = 0)"
  by (auto simp: asm_Barrier_AtomicAddAndFetch_64_def asm_AtomicFetchAndAdd_def asm_xadd_def gcc_AtomicAddAndFetch_def)

end
