(* ===== verification/Spin_Lock.thy ===== *)
theory Spin_Lock
  imports Atomic
begin

text \<open>
  The spin lock, \<^verbatim>\<open>src/memhook/spin_lock.h\<close> and \<^verbatim>\<open>.cpp\<close>, as a step relation between any
  number of threads. A program counter names the next atomic operation of a thread, so
  every interleaving of the atomic operations is a sequence of steps. The lock's word
  is 0 (free), 1 (held) or 2 (held, and somebody sleeps). The two sleeps and the pause
  have no effect on the lock: a sleeper may wake at any time, by a signal or a timeout.
\<close>

definition kSpinLockFree :: u32 where "kSpinLockFree = 0"
definition kSpinLockHeld :: u32 where "kSpinLockHeld = 1"
definition kSpinLockSleeper :: u32 where "kSpinLockSleeper = 2"

lemmas lock_values = kSpinLockFree_def kSpinLockHeld_def kSpinLockSleeper_def

lemma lock_values_distinct [simp]:
  "kSpinLockFree \<noteq> kSpinLockHeld" "kSpinLockHeld \<noteq> kSpinLockFree" "kSpinLockFree \<noteq> kSpinLockSleeper"
  "kSpinLockSleeper \<noteq> kSpinLockFree" "kSpinLockHeld \<noteq> kSpinLockSleeper" "kSpinLockSleeper \<noteq> kSpinLockHeld"
  by (simp_all add: lock_values)

text \<open>
  \<open>Critical\<close> is a thread that has the lock; the other constructors are the places of
  \<^verbatim>\<open>Lock\<close>, \<^verbatim>\<open>SpinLoop\<close>, \<^verbatim>\<open>SlowLock\<close> and \<^verbatim>\<open>Unlock\<close> before an atomic operation. \<open>SlowCheck v k\<close>
  is the test of the loop of \<^verbatim>\<open>SlowLock\<close> with \<^verbatim>\<open>lock_value = v\<close> and \<^verbatim>\<open>loop = k\<close>.
\<close>

datatype pc =
    Idle
  | LockCas
  | SpinLoad int nat
  | SpinCas nat
  | SlowCheck u32 nat
  | SlowCasHeld nat
  | SlowCasFree nat
  | SlowDelay u32 nat
  | Critical
  | UnlockExchange
  | UnlockWake

subsection \<open>One thread\<close>

text \<open>\<open>spin\<close> is \<^verbatim>\<open>g_adaptive_spin_count\<close>. The functions give the next place and the word.\<close>

definition Lock_step :: "int \<Rightarrow> u32 \<Rightarrow> pc \<times> u32" where
  "Lock_step spin m =
     (case gcc_CompareAndSwap kSpinLockFree kSpinLockHeld m of
        (prev, m) \<Rightarrow> (if prev \<noteq> kSpinLockFree then SpinLoad spin 0 else Critical, m))"

definition SpinLoop_load :: "int \<Rightarrow> nat \<Rightarrow> u32 \<Rightarrow> pc" where
  "SpinLoop_load c loop m =
     (if m \<noteq> kSpinLockFree \<and> c - 1 > 0 then SpinLoad (c - 1) loop else SpinCas loop)"

definition SpinLoop_cas :: "nat \<Rightarrow> u32 \<Rightarrow> pc \<times> u32" where
  "SpinLoop_cas loop m =
     (case gcc_CompareAndSwap kSpinLockFree kSpinLockSleeper m of (prev, m) \<Rightarrow> (SlowCheck prev loop, m))"

definition SlowLock_check :: "u32 \<Rightarrow> nat \<Rightarrow> pc" where
  "SlowLock_check lock_value loop =
     (if lock_value = kSpinLockFree then Critical
      else if lock_value = kSpinLockHeld then SlowCasHeld loop
      else SlowDelay lock_value (Suc loop))"

definition SlowLock_casHeld :: "nat \<Rightarrow> u32 \<Rightarrow> pc \<times> u32" where
  "SlowLock_casHeld loop m =
     (case gcc_CompareAndSwap kSpinLockHeld kSpinLockSleeper m of
        (prev, m) \<Rightarrow>
          (if prev = kSpinLockHeld then SlowDelay kSpinLockSleeper (Suc loop)
           else if prev = kSpinLockFree then SlowCasFree loop
           else SlowDelay prev (Suc loop), m))"

definition SlowLock_casFree :: "nat \<Rightarrow> u32 \<Rightarrow> pc \<times> u32" where
  "SlowLock_casFree loop m =
     (case gcc_CompareAndSwap kSpinLockFree kSpinLockSleeper m of (prev, m) \<Rightarrow> (SlowCheck prev loop, m))"

definition Unlock_step :: "u32 \<Rightarrow> pc \<times> u32" where
  "Unlock_step m =
     (case atomic_exchange_n kSpinLockFree m of
        (prev, m) \<Rightarrow> (if prev \<noteq> kSpinLockHeld then UnlockWake else Idle, m))"

inductive thread_step :: "int \<Rightarrow> pc \<Rightarrow> u32 \<Rightarrow> pc \<Rightarrow> u32 \<Rightarrow> bool" for spin where
  call_Lock: "thread_step spin Idle m LockCas m"
| lock_cas: "Lock_step spin m = (q, m') \<Longrightarrow> thread_step spin LockCas m q m'"
| spin_load: "thread_step spin (SpinLoad c k) m (SpinLoop_load c k m) m"
| spin_cas: "SpinLoop_cas k m = (q, m') \<Longrightarrow> thread_step spin (SpinCas k) m q m'"
| slow_check: "thread_step spin (SlowCheck v k) m (SlowLock_check v k) m"
| slow_cas_held: "SlowLock_casHeld k m = (q, m') \<Longrightarrow> thread_step spin (SlowCasHeld k) m q m'"
| slow_cas_free: "SlowLock_casFree k m = (q, m') \<Longrightarrow> thread_step spin (SlowCasFree k) m q m'"
| slow_delay: "thread_step spin (SlowDelay v k) m (SpinLoad spin k) m"
| call_Unlock: "thread_step spin Critical m UnlockExchange m"
| unlock_exchange: "Unlock_step m = (q, m') \<Longrightarrow> thread_step spin UnlockExchange m q m'"
| unlock_wake: "thread_step spin UnlockWake m Idle m"

subsection \<open>Any number of threads\<close>

record lock_state =
  lk_word :: u32
  lk_pc :: "nat \<Rightarrow> pc"

definition lock_init :: lock_state where
  "lock_init = \<lparr>lk_word = kSpinLockFree, lk_pc = (\<lambda>t. Idle)\<rparr>"

inductive lock_step :: "int \<Rightarrow> nat \<Rightarrow> lock_state \<Rightarrow> lock_state \<Rightarrow> bool" for spin t where
  "thread_step spin (lk_pc s t) (lk_word s) q m \<Longrightarrow> lock_step spin t s (s\<lparr>lk_word := m, lk_pc := (lk_pc s)(t := q)\<rparr>)"

inductive_simps lock_step_simps: "lock_step spin t s s'"

inductive reachable :: "int \<Rightarrow> lock_state \<Rightarrow> bool" for spin where
  start: "reachable spin lock_init"
| more: "reachable spin s \<Longrightarrow> lock_step spin t s s' \<Longrightarrow> reachable spin s'"

text \<open>A thread owns the lock from the operation that took it to the exchange that frees it.\<close>

fun owns :: "pc \<Rightarrow> bool" where
  "owns Critical \<longleftrightarrow> True"
| "owns UnlockExchange \<longleftrightarrow> True"
| "owns (SlowCheck v k) \<longleftrightarrow> v = kSpinLockFree"
| "owns _ \<longleftrightarrow> False"

definition lock_inv :: "lock_state \<Rightarrow> bool" where
  "lock_inv s \<longleftrightarrow> lk_word s \<in> {kSpinLockFree, kSpinLockHeld, kSpinLockSleeper} \<and>
     (if lk_word s = kSpinLockFree then \<forall>t. \<not> owns (lk_pc s t) else \<exists>t. \<forall>u. owns (lk_pc s u) \<longleftrightarrow> u = t)"

lemmas step_defs = Lock_step_def SpinLoop_load_def SpinLoop_cas_def SlowLock_check_def SlowLock_casHeld_def
  SlowLock_casFree_def Unlock_step_def CompareAndSwap_eq atomic_exchange_n_def

text \<open>
  What a thread's step does to ownership: it takes a free lock, gives up its own, or
  leaves both ownership and freedom alone.
\<close>

lemma thread_step_effect:
  assumes "thread_step spin q m q' m'" "m \<in> {kSpinLockFree, kSpinLockHeld, kSpinLockSleeper}"
    and "owns q \<longrightarrow> m \<noteq> kSpinLockFree"
  shows "m' \<in> {kSpinLockFree, kSpinLockHeld, kSpinLockSleeper} \<and>
     (\<not> owns q \<and> owns q' \<and> m = kSpinLockFree \<and> m' \<noteq> kSpinLockFree \<or>
      owns q \<and> \<not> owns q' \<and> m' = kSpinLockFree \<or>
      owns q' = owns q \<and> (m' = kSpinLockFree \<longleftrightarrow> m = kSpinLockFree))"
proof -
  have m: "m = kSpinLockFree \<or> m = kSpinLockHeld \<or> m = kSpinLockSleeper" using assms(2) by simp
  from assms(1) show ?thesis
  proof (cases rule: thread_step.cases)
    case lock_cas
    then show ?thesis using m by (elim disjE) (auto simp: step_defs)
  next
    case spin_load
    then show ?thesis using m assms(2) by (simp add: step_defs)
  next
    case spin_cas
    then show ?thesis using m by (elim disjE) (auto simp: step_defs)
  next
    case slow_check
    then show ?thesis using m assms(2) by (simp add: step_defs)
  next
    case slow_cas_held
    then show ?thesis using m by (elim disjE) (auto simp: step_defs)
  next
    case slow_cas_free
    then show ?thesis using m by (elim disjE) (auto simp: step_defs)
  next
    case unlock_exchange
    then show ?thesis using m by (elim disjE) (auto simp: step_defs)
  qed (use assms(2) in simp_all)
qed

lemma lock_inv_step:
  assumes "lock_inv s" "lock_step spin t s s'"
  shows "lock_inv s'"
proof -
  from assms(2) obtain q m where st: "thread_step spin (lk_pc s t) (lk_word s) q m"
    and s': "s' = s\<lparr>lk_word := m, lk_pc := (lk_pc s)(t := q)\<rparr>" by (auto simp: lock_step_simps)
  have "owns (lk_pc s t) \<longrightarrow> lk_word s \<noteq> kSpinLockFree"
    using assms(1) by (auto simp: lock_inv_def split: if_splits)
  with thread_step_effect [OF st] assms(1) show ?thesis
    unfolding lock_inv_def s' by (auto split: if_splits)
qed

lemma reachable_inv: "reachable spin s \<Longrightarrow> lock_inv s"
proof (induction rule: reachable.induct)
  case start
  show ?case by (simp add: lock_inv_def lock_init_def)
qed (rule lock_inv_step)

text \<open>
  C18. Mutual exclusion: in every state that any interleaving of any number of threads can
  reach, at most one thread owns the lock, and the lock's word is free exactly when no
  thread owns it.
\<close>

theorem spin_lock_mutual_exclusion:
  assumes "reachable spin s"
  shows "(\<forall>t u. owns (lk_pc s t) \<longrightarrow> owns (lk_pc s u) \<longrightarrow> t = u) \<and>
         (lk_word s = kSpinLockFree \<longleftrightarrow> (\<forall>t. \<not> owns (lk_pc s t)))"
proof -
  have "lock_inv s" using assms by (rule reachable_inv)
  then show ?thesis
    by (cases "lk_word s = kSpinLockFree") (auto simp: lock_inv_def)
qed

definition put :: "lock_state \<Rightarrow> nat \<Rightarrow> pc \<Rightarrow> u32 \<Rightarrow> lock_state" where
  "put s t q m = s\<lparr>lk_word := m, lk_pc := (lk_pc s)(t := q)\<rparr>"

lemma put_put [simp]: "put (put s t q m) t q' m' = put s t q' m'"
  by (simp add: put_def)

lemma put_same: "put s t (lk_pc s t) (lk_word s) = s"
  by (simp add: put_def)

lemma put_sel [simp]: "lk_pc (put s t q m) t = q" "lk_word (put s t q m) = m"
  by (simp_all add: put_def)

lemma step_put: "thread_step spin q m q' m' \<Longrightarrow> lock_step spin t (put s t q m) (put s t q' m')"
  using lock_step.intros [of spin "put s t q m" t q' m'] by (simp add: put_def)

lemma steps_put:
  "thread_step spin q m q' m' \<Longrightarrow> (lock_step spin t)\<^sup>*\<^sup>* (put s t q' m') s' \<Longrightarrow> (lock_step spin t)\<^sup>*\<^sup>* (put s t q m) s'"
  using step_put by (rule converse_rtranclp_into_rtranclp)

definition demo_locking :: lock_state where
  "demo_locking = put (put lock_init 0 LockCas kSpinLockFree) 1 LockCas kSpinLockFree"

lemma demo_locking_reachable: "reachable spin demo_locking"
proof -
  have "lock_step spin 0 lock_init (put lock_init 0 LockCas kSpinLockFree)"
    using step_put [OF call_Lock, of spin 0 lock_init kSpinLockFree] put_same [of lock_init 0]
    by (simp add: lock_init_def)
  moreover have "lock_step spin 1 (put lock_init 0 LockCas kSpinLockFree) demo_locking"
    using step_put [OF call_Lock, of spin 1 "put lock_init 0 LockCas kSpinLockFree" kSpinLockFree]
      put_same [of "put lock_init 0 LockCas kSpinLockFree" 1]
    by (simp add: demo_locking_def lock_init_def put_def)
  ultimately show ?thesis using reachable.intros by blast
qed

definition demo_locked :: lock_state where
  "demo_locked = put demo_locking 0 Critical kSpinLockHeld"

lemma demo_locked_reachable: "reachable spin demo_locked"
proof -
  have "thread_step spin LockCas kSpinLockFree Critical kSpinLockHeld"
    by (rule lock_cas) (simp add: step_defs)
  from step_put [OF this, of 0 demo_locking] have "lock_step spin 0 demo_locking demo_locked"
    by (simp add: demo_locked_def demo_locking_def put_def fun_upd_twist)
  with demo_locking_reachable show ?thesis by (rule reachable.more)
qed

theorem spin_lock_mutual_exclusion_witness:
  "reachable 1000 demo_locked \<and> owns (lk_pc demo_locked 0) \<and> \<not> owns (lk_pc demo_locked 1)"
proof -
  have "owns (lk_pc demo_locked 0)" by (simp add: demo_locked_def)
  moreover from this spin_lock_mutual_exclusion [OF demo_locked_reachable [of 1000]] have "\<not> owns (lk_pc demo_locked 1)"
    by (metis zero_neq_one)
  ultimately show ?thesis using demo_locked_reachable by blast
qed

subsection \<open>Progress\<close>

fun wants :: "pc \<Rightarrow> bool" where
  "wants Idle \<longleftrightarrow> False"
| "wants Critical \<longleftrightarrow> False"
| "wants UnlockExchange \<longleftrightarrow> False"
| "wants UnlockWake \<longleftrightarrow> False"
| "wants _ \<longleftrightarrow> True"

lemma check_acquires: "thread_step spin (SlowCheck kSpinLockFree k) m Critical m"
  using slow_check [of spin kSpinLockFree k m] by (simp add: step_defs)

lemma SpinCas_acquires:
  "\<exists>s'. (lock_step spin t)\<^sup>*\<^sup>* (put s t (SpinCas k) kSpinLockFree) s' \<and> lk_pc s' t = Critical"
proof -
  have "thread_step spin (SpinCas k) kSpinLockFree (SlowCheck kSpinLockFree k) kSpinLockSleeper"
    by (rule spin_cas) (simp add: step_defs)
  from steps_put [OF this steps_put [OF check_acquires rtranclp.rtrancl_refl]]
  show ?thesis by (metis put_sel(1))
qed

lemma SpinLoad_acquires:
  "\<exists>s'. (lock_step spin t)\<^sup>*\<^sup>* (put s t (SpinLoad c k) kSpinLockFree) s' \<and> lk_pc s' t = Critical"
proof -
  have "thread_step spin (SpinLoad c k) kSpinLockFree (SpinCas k) kSpinLockFree"
    using spin_load [of spin c k kSpinLockFree] by (simp add: step_defs)
  with SpinCas_acquires show ?thesis using steps_put by metis
qed

lemma SlowDelay_acquires:
  "\<exists>s'. (lock_step spin t)\<^sup>*\<^sup>* (put s t (SlowDelay v k) kSpinLockFree) s' \<and> lk_pc s' t = Critical"
  using SpinLoad_acquires steps_put [OF slow_delay] by metis

lemma SlowCasFree_acquires:
  "\<exists>s'. (lock_step spin t)\<^sup>*\<^sup>* (put s t (SlowCasFree k) kSpinLockFree) s' \<and> lk_pc s' t = Critical"
proof -
  have "thread_step spin (SlowCasFree k) kSpinLockFree (SlowCheck kSpinLockFree k) kSpinLockSleeper"
    by (rule slow_cas_free) (simp add: step_defs)
  from steps_put [OF this steps_put [OF check_acquires rtranclp.rtrancl_refl]]
  show ?thesis by (metis put_sel(1))
qed

lemma SlowCasHeld_acquires:
  "\<exists>s'. (lock_step spin t)\<^sup>*\<^sup>* (put s t (SlowCasHeld k) kSpinLockFree) s' \<and> lk_pc s' t = Critical"
proof -
  have "thread_step spin (SlowCasHeld k) kSpinLockFree (SlowCasFree k) kSpinLockFree"
    by (rule slow_cas_held) (simp add: step_defs)
  with SlowCasFree_acquires show ?thesis using steps_put by metis
qed

text \<open>
  No thread is stuck at a free lock: in every reachable state in which the lock is free,
  a thread that is anywhere in \<^verbatim>\<open>Lock\<close> (spinning, sleeping or about to sleep) takes the
  lock by its own steps alone.
\<close>

theorem spin_lock_progress:
  assumes "reachable spin s" and "lk_word s = kSpinLockFree" and "wants (lk_pc s t)"
  shows "\<exists>s'. (lock_step spin t)\<^sup>*\<^sup>* s s' \<and> lk_pc s' t = Critical"
proof -
  have no: "\<not> owns (lk_pc s t)" using reachable_inv [OF assms(1)] assms(2) by (simp add: lock_inv_def)
  have "\<exists>s'. (lock_step spin t)\<^sup>*\<^sup>* (put s t (lk_pc s t) kSpinLockFree) s' \<and> lk_pc s' t = Critical"
  proof (cases "lk_pc s t")
    case LockCas
    have "thread_step spin LockCas kSpinLockFree Critical kSpinLockHeld"
      by (rule lock_cas) (simp add: step_defs)
    then have "(lock_step spin t)\<^sup>*\<^sup>* (put s t LockCas kSpinLockFree) (put s t Critical kSpinLockHeld)"
      by (rule steps_put) simp
    with LockCas show ?thesis by auto
  next
    case (SlowCheck v k)
    with no have "v \<noteq> kSpinLockFree" by simp
    then have step: "thread_step spin (SlowCheck v k) kSpinLockFree
        (if v = kSpinLockHeld then SlowCasHeld k else SlowDelay v (Suc k)) kSpinLockFree"
      using slow_check [of spin v k kSpinLockFree] by (simp add: SlowLock_check_def)
    obtain s' where "(lock_step spin t)\<^sup>*\<^sup>* (put s t (if v = kSpinLockHeld then SlowCasHeld k else SlowDelay v (Suc k))
        kSpinLockFree) s'" "lk_pc s' t = Critical"
      using SlowCasHeld_acquires [of spin t s k] SlowDelay_acquires [of spin t s v "Suc k"]
      by (cases "v = kSpinLockHeld") auto
    with steps_put [OF step] SlowCheck show ?thesis by auto
  qed (use assms(3) SpinLoad_acquires SpinCas_acquires SlowCasHeld_acquires SlowCasFree_acquires SlowDelay_acquires in auto)
  then show ?thesis using assms(2) put_same [of s t] by simp
qed

theorem spin_lock_progress_witness:
  "reachable 1000 demo_locking \<and> lk_word demo_locking = kSpinLockFree \<and>
   (\<exists>s'. (lock_step 1000 1)\<^sup>*\<^sup>* demo_locking s' \<and> lk_pc s' 1 = Critical)"
proof -
  have "lk_word demo_locking = kSpinLockFree" "wants (lk_pc demo_locking 1)" by (simp_all add: demo_locking_def)
  with spin_lock_progress [OF demo_locking_reachable] demo_locking_reachable show ?thesis by blast
qed

subsection \<open>Delays\<close>

text \<open>The result is a signed 32-bit number; the state of the generator is a 64-bit word.\<close>

definition clamp_loop :: "int \<Rightarrow> int" where
  "clamp_loop loop = (if loop < 0 \<or> loop > 32 then 32 else loop)"

definition GetSpinLockDelayNS :: "int \<Rightarrow> u64 \<Rightarrow> int \<times> u64" where
  "GetSpinLockDelayNS loop rand =
     (let r = 0x5deece66d * rand + 0xb
      in (sint (ucast (drop_bit (nat (44 - clamp_loop loop div 8)) (push_bit 16 r)) :: u32), r))"

definition GetSpinLockDelayNS_32 :: "int \<Rightarrow> u32 \<Rightarrow> int \<times> u32" where
  "GetSpinLockDelayNS_32 loop rand =
     (let r = 0x343fd * rand + 0x269ec3
      in (sint (drop_bit (nat (12 - clamp_loop loop div 8)) (push_bit 1 r)), r))"

datatype delay = NoDelay | Yield | FutexWait u32 int | NanoSleep int

definition SpinLockDelay :: "bool \<Rightarrow> u32 \<Rightarrow> nat \<Rightarrow> u64 \<Rightarrow> delay \<times> u64" where
  "SpinLockDelay have_futex val loop rand =
     (if loop = 0 then (NoDelay, rand)
      else if loop = 1 then (Yield, rand)
      else (case GetSpinLockDelayNS (int loop) rand of
              (tv_nsec, rand) \<Rightarrow>
                (if have_futex then FutexWait val (tv_nsec * 32) else NanoSleep tv_nsec, rand)))"

lemma drop_bit_less:
  "unat (drop_bit k (x :: 'a::len word)) < 2 ^ (LENGTH('a) - k)" if "k \<le> LENGTH('a)"
proof -
  have "unat x < 2 ^ (LENGTH('a) - k) * 2 ^ k"
    using that unsigned_less [where ?'a = nat, of x] by (simp flip: power_add)
  then show ?thesis unfolding unat_drop_bit_eq by (simp add: drop_bit_eq_div less_mult_imp_div_less)
qed

lemma sint_small: "unat (x :: u32) < 2 ^ 24 \<Longrightarrow> 0 \<le> sint x \<and> sint x < 2 ^ 24"
proof -
  assume "unat x < 2 ^ 24"
  then have x: "uint x < 2 ^ 24" by (metis of_nat_less_iff of_nat_numeral of_nat_power uint_nat)
  have "signed_take_bit 31 (uint x) = uint x"
  proof (rule signed_take_bit_int_eq_self)
    show "- (2 ^ 31) \<le> uint x" by (rule order_trans [OF _ uint_ge_0]) simp
    show "uint x < 2 ^ 31" using x by simp
  qed
  with x show ?thesis by (simp add: sint_uint)
qed

lemma clamp_loop_div: "0 \<le> clamp_loop loop div 8 \<and> clamp_loop loop div 8 \<le> 4"
  by (auto simp: clamp_loop_def)

lemma GetSpinLockDelayNS_bounds:
  "0 \<le> fst (GetSpinLockDelayNS loop rand) \<and> fst (GetSpinLockDelayNS loop rand) < 2 ^ 24"
proof -
  let ?k = "nat (44 - clamp_loop loop div 8)"
  let ?x = "drop_bit ?k (push_bit 16 (0x5deece66d * rand + 0xb)) :: u64"
  have k: "40 \<le> ?k" "?k \<le> 44" using clamp_loop_div [of loop] by auto
  have "unat ?x < 2 ^ (64 - ?k)" using drop_bit_less [of ?k "push_bit 16 (0x5deece66d * rand + 0xb) :: u64"] k by simp
  also have "\<dots> \<le> 2 ^ 24" using k by (intro power_increasing) auto
  finally have x: "unat ?x < 2 ^ 24" .
  then have "unat (ucast ?x :: u32) < 2 ^ 24"
    unfolding unsigned_ucast_eq by (rule le_less_trans [OF take_bit_nat_less_eq_self])
  with sint_small [of "ucast ?x"] show ?thesis by (simp add: GetSpinLockDelayNS_def Let_def)
qed

lemma GetSpinLockDelayNS_32_bounds:
  "0 \<le> fst (GetSpinLockDelayNS_32 loop rand) \<and> fst (GetSpinLockDelayNS_32 loop rand) < 2 ^ 24"
proof -
  let ?k = "nat (12 - clamp_loop loop div 8)"
  let ?x = "drop_bit ?k (push_bit 1 (0x343fd * rand + 0x269ec3)) :: u32"
  have k: "8 \<le> ?k" "?k \<le> 12" using clamp_loop_div [of loop] by auto
  have "unat ?x < 2 ^ (32 - ?k)" using drop_bit_less [of ?k "push_bit 1 (0x343fd * rand + 0x269ec3) :: u32"] k by simp
  also have "\<dots> \<le> 2 ^ 24" using k by (intro power_increasing) auto
  finally have x: "unat ?x < 2 ^ 24" .
  with sint_small [of ?x] show ?thesis by (simp add: GetSpinLockDelayNS_32_def Let_def)
qed

text \<open>
  The time a waiting thread sleeps is a valid and short time: whatever the loop count
  and the state of the random generator, the result of the 64-bit and of the 32-bit
  generator fits a non-negative signed 32-bit number below \<open>2 ^ 24\<close>, and the timeout given
  to the kernel is less than a second, so that its nanosecond field is valid.
\<close>

theorem spin_lock_delay_bounded:
  "(case fst (SpinLockDelay have_futex v loop rand) of
      NoDelay \<Rightarrow> loop = 0 | Yield \<Rightarrow> loop = 1
    | FutexWait v' ns \<Rightarrow> v' = v \<and> 0 \<le> ns \<and> ns < 10 ^ 9
    | NanoSleep ns \<Rightarrow> 0 \<le> ns \<and> ns < 2 ^ 24) \<and>
   0 \<le> fst (GetSpinLockDelayNS_32 k r) \<and> fst (GetSpinLockDelayNS_32 k r) < 2 ^ 24"
proof -
  obtain ns r' where g: "GetSpinLockDelayNS (int loop) rand = (ns, r')" by (metis prod.exhaust)
  with GetSpinLockDelayNS_bounds [of "int loop" rand] have "0 \<le> ns" "ns < 2 ^ 24" by simp_all
  with g GetSpinLockDelayNS_32_bounds [of k r] show ?thesis by (simp add: SpinLockDelay_def)
qed

end
