(* ===== verification/Memory_Order.thy ===== *)
theory Memory_Order
  imports Spin_Lock
begin

text \<open>
  The memory-order variants of the atomic operations, \<^verbatim>\<open>src/memhook/atomic-asm-x86.h\<close>, on the
  memory that the x86 architecture gives them: every processor has a store buffer, a store
  goes into the buffer and reaches the memory later and in order, a load sees the own
  buffer first, \<^verbatim>\<open>mfence\<close> and a locked instruction wait until the buffer is empty. An
  operation is the list of its machine operations; the compiler barrier is one of them and
  has no effect at run time (it and \<^verbatim>\<open>volatile\<close> keep the operations in their order).
  Cells are words of 32 or 64 bits.
\<close>

record 'v tso =
  tso_mem :: "addr \<Rightarrow> 'v"
  tso_buf :: "nat \<Rightarrow> (addr \<times> 'v) list"

datatype 'v machine_op =
    MovLoad addr
  | MovStore addr 'v
  | Mfence
  | CompilerBarrier
  | Xchg addr 'v
  | LockCmpxchg addr 'v 'v
  | LockXadd addr 'v

subsection \<open>Loads and stores\<close>

definition MemoryBarrier :: "'v machine_op list" where
  "MemoryBarrier = [Mfence]"

definition NoBarrier_Load :: "addr \<Rightarrow> 'v machine_op list" where
  "NoBarrier_Load ptr = [MovLoad ptr]"

definition Release_Load :: "addr \<Rightarrow> 'v machine_op list" where
  "Release_Load ptr = MemoryBarrier @ [MovLoad ptr]"

definition Acquire_Load :: "addr \<Rightarrow> 'v machine_op list" where
  "Acquire_Load ptr = [MovLoad ptr, CompilerBarrier]"

definition NoBarrier_Store :: "addr \<Rightarrow> 'v \<Rightarrow> 'v machine_op list" where
  "NoBarrier_Store ptr v = [MovStore ptr v]"

definition Release_Store :: "addr \<Rightarrow> 'v \<Rightarrow> 'v machine_op list" where
  "Release_Store ptr v = [CompilerBarrier, MovStore ptr v]"

definition Acquire_Store :: "addr \<Rightarrow> 'v \<Rightarrow> 'v machine_op list" where
  "Acquire_Store ptr v = MovStore ptr v # MemoryBarrier"

subsection \<open>Locked operations\<close>

definition NoBarrier_AtomicExchange :: "addr \<Rightarrow> 'v \<Rightarrow> 'v machine_op list" where
  "NoBarrier_AtomicExchange ptr v = [Xchg ptr v]"

definition Release_AtomicExchange :: "addr \<Rightarrow> 'v \<Rightarrow> 'v machine_op list" where
  "Release_AtomicExchange ptr v = NoBarrier_AtomicExchange ptr v"

definition Acquire_AtomicExchange :: "addr \<Rightarrow> 'v \<Rightarrow> 'v machine_op list" where
  "Acquire_AtomicExchange ptr v = NoBarrier_AtomicExchange ptr v"

definition NoBarrier_CompareAndSwap :: "addr \<Rightarrow> 'v \<Rightarrow> 'v \<Rightarrow> 'v machine_op list" where
  "NoBarrier_CompareAndSwap ptr old_value new_value = [LockCmpxchg ptr old_value new_value]"

definition Release_CompareAndSwap :: "addr \<Rightarrow> 'v \<Rightarrow> 'v \<Rightarrow> 'v machine_op list" where
  "Release_CompareAndSwap ptr old_value new_value = NoBarrier_CompareAndSwap ptr old_value new_value"

definition Acquire_CompareAndSwap :: "addr \<Rightarrow> 'v \<Rightarrow> 'v \<Rightarrow> 'v machine_op list" where
  "Acquire_CompareAndSwap ptr old_value new_value = NoBarrier_CompareAndSwap ptr old_value new_value"

definition NoBarrier_AtomicFetchAndAdd :: "addr \<Rightarrow> 'v \<Rightarrow> 'v machine_op list" where
  "NoBarrier_AtomicFetchAndAdd ptr v = [LockXadd ptr v]"

definition Barrier_AtomicFetchAndAdd :: "addr \<Rightarrow> 'v \<Rightarrow> 'v machine_op list" where
  "Barrier_AtomicFetchAndAdd ptr v = NoBarrier_AtomicFetchAndAdd ptr v"

subsection \<open>The machine\<close>

definition tso_read :: "nat \<Rightarrow> addr \<Rightarrow> 'v tso \<Rightarrow> 'v" where
  "tso_read t a s = (case map_of (rev (tso_buf s t)) a of Some v \<Rightarrow> v | None \<Rightarrow> tso_mem s a)"

definition tso_write :: "nat \<Rightarrow> addr \<Rightarrow> 'v \<Rightarrow> 'v tso \<Rightarrow> 'v tso" where
  "tso_write t a v s = s\<lparr>tso_buf := (tso_buf s)(t := tso_buf s t @ [(a, v)])\<rparr>"

text \<open>The oldest store of a buffer reaches the memory.\<close>

definition tso_drain :: "nat \<Rightarrow> 'v tso \<Rightarrow> 'v tso option" where
  "tso_drain t s =
     (case tso_buf s t of
        [] \<Rightarrow> None
      | (a, v) # b \<Rightarrow> Some (s\<lparr>tso_mem := (tso_mem s)(a := v), tso_buf := (tso_buf s)(t := b)\<rparr>))"

definition tso_locked ::
    "nat \<Rightarrow> addr \<Rightarrow> ('v \<Rightarrow> 'v \<times> 'v) \<Rightarrow> 'v tso \<Rightarrow> ('v list \<times> 'v tso) option" where
  "tso_locked t a f s =
     (if tso_buf s t \<noteq> [] then None
      else case f (tso_mem s a) of (r, m) \<Rightarrow> Some ([r], s\<lparr>tso_mem := (tso_mem s)(a := m)\<rparr>))"

text \<open>\<open>None\<close> is an operation that has to wait.\<close>

fun tso_exec :: "nat \<Rightarrow> 'a::len word machine_op \<Rightarrow> 'a word tso \<Rightarrow> ('a word list \<times> 'a word tso) option" where
  "tso_exec t (MovLoad a) s = Some ([tso_read t a s], s)"
| "tso_exec t (MovStore a v) s = Some ([], tso_write t a v s)"
| "tso_exec t Mfence s = (if tso_buf s t \<noteq> [] then None else Some ([], s))"
| "tso_exec t CompilerBarrier s = Some ([], s)"
| "tso_exec t (Xchg a v) s = tso_locked t a (asm_xchg v) s"
| "tso_exec t (LockCmpxchg a eax v) s = tso_locked t a (asm_cmpxchg eax v) s"
| "tso_exec t (LockXadd a v) s = tso_locked t a (asm_xadd v) s"

text \<open>Threads: what each has still to execute and what it has read.\<close>

record 'v machine =
  mc_tso :: "'v tso"
  mc_code :: "nat \<Rightarrow> 'v machine_op list"
  mc_read :: "nat \<Rightarrow> 'v list"

definition machine_start :: "(addr \<Rightarrow> 'v) \<Rightarrow> (nat \<Rightarrow> 'v machine_op list) \<Rightarrow> 'v machine" where
  "machine_start m code = \<lparr>mc_tso = \<lparr>tso_mem = m, tso_buf = (\<lambda>t. [])\<rparr>, mc_code = code, mc_read = (\<lambda>t. [])\<rparr>"

inductive machine_step :: "'a::len word machine \<Rightarrow> 'a word machine \<Rightarrow> bool" where
  exec: "mc_code s t = op # ops \<Longrightarrow> tso_exec t op (mc_tso s) = Some (rs, m) \<Longrightarrow>
    machine_step s (s\<lparr>mc_tso := m, mc_code := (mc_code s)(t := ops), mc_read := (mc_read s)(t := mc_read s t @ rs)\<rparr>)"
| drain: "tso_drain t (mc_tso s) = Some m \<Longrightarrow> machine_step s (s\<lparr>mc_tso := m\<rparr>)"

text \<open>The same as a function, for executions that are written down.\<close>

datatype machine_action = Exec nat | Drain nat

fun machine_do :: "machine_action \<Rightarrow> 'a::len word machine \<Rightarrow> 'a word machine option" where
  "machine_do (Exec t) s =
     (case mc_code s t of
        [] \<Rightarrow> None
      | op # ops \<Rightarrow>
          (case tso_exec t op (mc_tso s) of
             None \<Rightarrow> None
           | Some (rs, m) \<Rightarrow> Some (s\<lparr>mc_tso := m, mc_code := (mc_code s)(t := ops), mc_read := (mc_read s)(t := mc_read s t @ rs)\<rparr>)))"
| "machine_do (Drain t) s = map_option (\<lambda>m. s\<lparr>mc_tso := m\<rparr>) (tso_drain t (mc_tso s))"

fun machine_run :: "machine_action list \<Rightarrow> 'a::len word machine \<Rightarrow> 'a word machine option" where
  "machine_run [] s = Some s"
| "machine_run (a # as) s = (case machine_do a s of None \<Rightarrow> None | Some s \<Rightarrow> machine_run as s)"

lemma machine_do_step: "(\<exists>a. machine_do a s = Some s') \<longleftrightarrow> machine_step s s'"
proof
  assume "\<exists>a. machine_do a s = Some s'"
  then obtain a where "machine_do a s = Some s'" ..
  then show "machine_step s s'"
    by (cases a) (auto intro: machine_step.intros split: list.splits option.splits)
next
  assume "machine_step s s'"
  then show "\<exists>a. machine_do a s = Some s'"
  proof cases
    case (exec t op ops rs m)
    then have "machine_do (Exec t) s = Some s'" by simp
    then show ?thesis ..
  next
    case (drain t m)
    then have "machine_do (Drain t) s = Some s'" by simp
    then show ?thesis ..
  qed
qed

lemma machine_run_steps: "machine_run as s = Some s' \<Longrightarrow> machine_step\<^sup>*\<^sup>* s s'"
proof (induction as arbitrary: s)
  case (Cons a as)
  then obtain s1 where "machine_do a s = Some s1" "machine_run as s1 = Some s'" by (auto split: option.splits)
  with Cons.IH machine_do_step show ?case by (metis converse_rtranclp_into_rtranclp)
qed simp

subsection \<open>Publishing with Release\_Store and Acquire\_Load\<close>

definition apply_writes :: "(addr \<times> 'v) list \<Rightarrow> (addr \<Rightarrow> 'v) \<Rightarrow> addr \<Rightarrow> 'v" where
  "apply_writes ws m = fold (\<lambda>(a, v) m. m(a := v)) ws m"

definition publish_code :: "(addr \<times> 'a::len word) list \<Rightarrow> addr \<Rightarrow> 'a word machine_op list" where
  "publish_code ws flag = concat (map (\<lambda>(a, v). NoBarrier_Store a v) ws) @ Release_Store flag 1"

definition observe_code :: "addr \<Rightarrow> addr list \<Rightarrow> 'a::len word machine_op list" where
  "observe_code flag as = Acquire_Load flag @ concat (map NoBarrier_Load as)"

fun stores_of :: "'v machine_op list \<Rightarrow> (addr \<times> 'v) list" where
  "stores_of [] = []"
| "stores_of (MovStore a v # ops) = (a, v) # stores_of ops"
| "stores_of (op # ops) = stores_of ops"

fun loads_of :: "'v machine_op list \<Rightarrow> addr list" where
  "loads_of [] = []"
| "loads_of (MovLoad a # ops) = a # loads_of ops"
| "loads_of (op # ops) = loads_of ops"

lemma stores_of_append [simp]: "stores_of (xs @ ys) = stores_of xs @ stores_of ys"
  by (induction xs rule: stores_of.induct) auto

lemma loads_of_append [simp]: "loads_of (xs @ ys) = loads_of xs @ loads_of ys"
  by (induction xs rule: loads_of.induct) auto

lemma publish_stores: "stores_of (publish_code ws flag) = ws @ [(flag, 1)]"
  by (induction ws) (auto simp: publish_code_def NoBarrier_Store_def Release_Store_def)

lemma observe_loads: "loads_of (observe_code flag as) = flag # as"
  by (induction as) (auto simp: observe_code_def NoBarrier_Load_def Acquire_Load_def)

fun writes_only :: "'v machine_op \<Rightarrow> bool" where
  "writes_only (MovStore a v) \<longleftrightarrow> True"
| "writes_only CompilerBarrier \<longleftrightarrow> True"
| "writes_only _ \<longleftrightarrow> False"

fun reads_only :: "'v machine_op \<Rightarrow> bool" where
  "reads_only (MovLoad a) \<longleftrightarrow> True"
| "reads_only CompilerBarrier \<longleftrightarrow> True"
| "reads_only _ \<longleftrightarrow> False"

lemma publish_writes: "\<forall>op\<in>set (publish_code ws flag). writes_only op"
  by (auto simp: publish_code_def NoBarrier_Store_def Release_Store_def)

lemma observe_reads: "\<forall>op\<in>set (observe_code flag as). reads_only op"
  by (auto simp: observe_code_def NoBarrier_Load_def Acquire_Load_def)

lemma apply_writes_other: "a \<notin> fst ` set ws \<Longrightarrow> apply_writes ws m a = m a"
  unfolding apply_writes_def by (induction ws arbitrary: m) auto

lemma apply_writes_snoc: "apply_writes (ws @ [(a, v)]) m = (apply_writes ws m)(a := v)"
  by (simp add: apply_writes_def)

text \<open>What was read after the flag are the values published.\<close>

definition sees :: "(addr \<times> 'v) list \<Rightarrow> (addr \<Rightarrow> 'v) \<Rightarrow> addr list \<Rightarrow> 'v list \<Rightarrow> bool" where
  "sees ws m as rd \<longleftrightarrow> tl rd = map (apply_writes ws m) (take (length (tl rd)) as)"

definition committed ::
    "(addr \<times> 'a::len word) list \<Rightarrow> addr \<Rightarrow> addr list \<Rightarrow> (addr \<Rightarrow> 'a word) \<Rightarrow> (addr \<times> 'a word) list \<Rightarrow> 'a word machine \<Rightarrow> bool" where
  "committed ws flag as m com s \<longleftrightarrow>
     com @ tso_buf (mc_tso s) 0 @ stores_of (mc_code s 0) = ws @ [(flag, 1)] \<and>
     tso_mem (mc_tso s) = apply_writes com m \<and>
     (mc_read s 1 \<noteq> [] \<and> hd (mc_read s 1) \<noteq> 0 \<longrightarrow> com = ws @ [(flag, 1)] \<and> sees ws m as (mc_read s 1))"

definition publish_frame :: "addr \<Rightarrow> addr list \<Rightarrow> 'a::len word machine \<Rightarrow> bool" where
  "publish_frame flag as s \<longleftrightarrow>
     (\<forall>op\<in>set (mc_code s 0). writes_only op) \<and> (\<forall>op\<in>set (mc_code s 1). reads_only op) \<and>
     (\<forall>t. t \<noteq> 0 \<longrightarrow> tso_buf (mc_tso s) t = []) \<and> (\<forall>t. t \<notin> {0, 1} \<longrightarrow> mc_code s t = []) \<and>
     loads_of (mc_code s 1) = drop (length (mc_read s 1)) (flag # as)"

definition publish_inv ::
    "(addr \<times> 'a::len word) list \<Rightarrow> addr \<Rightarrow> addr list \<Rightarrow> (addr \<Rightarrow> 'a word) \<Rightarrow> 'a word machine \<Rightarrow> bool" where
  "publish_inv ws flag as m s \<longleftrightarrow> (\<exists>com. committed ws flag as m com s) \<and> publish_frame flag as s"

lemma publish_inv_start:
  "publish_inv ws flag as m
     (machine_start m ((\<lambda>t. [])(0 := publish_code ws flag, 1 := observe_code flag as)))" (is "publish_inv _ _ _ _ ?s")
proof -
  have "committed ws flag as m [] ?s"
    using publish_stores [of ws flag] by (simp add: committed_def machine_start_def apply_writes_def)
  moreover have "publish_frame flag as ?s"
    using publish_writes [of ws flag] observe_reads [of flag as] observe_loads [of flag as]
    by (simp add: publish_frame_def machine_start_def)
  ultimately show ?thesis unfolding publish_inv_def by blast
qed

text \<open>The flag is seen only when everything before it is in the memory.\<close>

lemma flag_committed:
  assumes "com @ rest = ws @ [(flag, 1)]" and "apply_writes com m flag \<noteq> 0"
    and "m flag = 0" and "flag \<notin> fst ` set ws"
  shows "com = ws @ [(flag, 1)]"
proof (cases rest rule: rev_cases)
  case (snoc rest' x)
  with assms(1) have "com @ rest' = ws" by simp
  then have "flag \<notin> fst ` set com" using assms(4) by auto
  with assms(2,3) apply_writes_other [of flag com m] show ?thesis by simp
qed (use assms(1) in simp)

lemma writer_step:
  assumes inv: "publish_inv ws flag as m s" and code: "mc_code s 0 = op # ops" and ex: "tso_exec 0 op (mc_tso s) = Some (rs, m')"
  shows "publish_inv ws flag as m (s\<lparr>mc_tso := m', mc_code := (mc_code s)(0 := ops), mc_read := (mc_read s)(0 := mc_read s 0 @ rs)\<rparr>)"
    (is "publish_inv _ _ _ _ ?s")
proof -
  from inv obtain com where com: "committed ws flag as m com s" and fr: "publish_frame flag as s"
    unfolding publish_inv_def by blast
  have op: "writes_only op" using fr code by (simp add: publish_frame_def)
  have "committed ws flag as m com ?s"
    using op com code ex by (cases op) (auto simp: committed_def tso_write_def)
  moreover have "publish_frame flag as ?s"
    using op fr code ex by (cases op) (auto simp: publish_frame_def tso_write_def)
  ultimately show ?thesis unfolding publish_inv_def by blast
qed

lemma load_committed:
  assumes com: "committed ws flag as m com s" and fr: "publish_frame flag as s"
    and code: "mc_code s 1 = MovLoad a # ops"
    and flag: "m flag = 0" "flag \<notin> fst ` set ws" "flag \<notin> set as"
    and x: "x = apply_writes com m a" and hd: "hd (mc_read s 1 @ [x]) \<noteq> 0"
  shows "com = ws @ [(flag, 1)] \<and> sees ws m as (mc_read s 1 @ [x])"
proof (cases "mc_read s 1 = []")
  case True
  with fr code have "a = flag" by (simp add: publish_frame_def)
  with hd True x have nz: "apply_writes com m flag \<noteq> 0" by simp
  have "com @ tso_buf (mc_tso s) 0 @ stores_of (mc_code s 0) = ws @ [(flag, 1)]" using com by (simp add: committed_def)
  from flag_committed [OF this nz flag(1,2)] True show ?thesis by (simp add: sees_def)
next
  case False
  then obtain k where k: "length (mc_read s 1) = Suc k" by (cases "mc_read s 1") auto
  with fr code have d: "drop k as = a # loads_of ops" by (simp add: publish_frame_def)
  then have a: "k < length as" "a = as ! k" using nth_via_drop [OF d] by (auto simp flip: not_le)
  from hd False com k have c: "com = ws @ [(flag, 1)]" "tl (mc_read s 1) = map (apply_writes ws m) (take k as)"
    unfolding committed_def sees_def by auto
  have "a \<noteq> flag" using a flag(3) by auto
  then have "x = apply_writes ws m a" using c(1) x by (simp add: apply_writes_snoc)
  with False c a k show ?thesis by (simp add: take_Suc_conv_app_nth sees_def)
qed

lemma reader_step:
  assumes inv: "publish_inv ws flag as m s" and code: "mc_code s 1 = op # ops"
    and ex: "tso_exec 1 op (mc_tso s) = Some (rs, m')"
    and flag: "m flag = 0" "flag \<notin> fst ` set ws" "flag \<notin> set as"
  shows "publish_inv ws flag as m (s\<lparr>mc_tso := m', mc_code := (mc_code s)(1 := ops), mc_read := (mc_read s)(1 := mc_read s 1 @ rs)\<rparr>)"
    (is "publish_inv _ _ _ _ ?s")
proof -
  from inv obtain com where com: "committed ws flag as m com s" and fr: "publish_frame flag as s"
    unfolding publish_inv_def by blast
  have "committed ws flag as m com ?s \<and> publish_frame flag as ?s"
  proof (cases op)
    case (MovLoad a)
    have rs: "rs = [apply_writes com m a]" "m' = mc_tso s"
      using ex MovLoad com fr by (auto simp: tso_read_def committed_def publish_frame_def)
    have ld: "a # loads_of ops = drop (length (mc_read s 1)) (flag # as)"
      using fr code MovLoad by (simp add: publish_frame_def)
    have "loads_of ops = drop (Suc (length (mc_read s 1))) (flag # as)"
      using arg_cong [OF ld, of tl] by (simp add: drop_Suc tl_drop)
    then have "publish_frame flag as ?s" using fr code rs by (simp add: publish_frame_def)
    moreover have "committed ws flag as m com ?s"
      using load_committed [OF com fr code [unfolded MovLoad] flag refl] com rs by (simp add: committed_def)
    ultimately show ?thesis by blast
  next
    case CompilerBarrier
    with com fr code ex show ?thesis by (simp add: committed_def publish_frame_def)
  qed (use fr code in \<open>auto simp: publish_frame_def\<close>)
  then show ?thesis unfolding publish_inv_def by blast
qed

lemma drain_step:
  assumes inv: "publish_inv ws flag as m s" and dr: "tso_drain t (mc_tso s) = Some m'"
  shows "publish_inv ws flag as m (s\<lparr>mc_tso := m'\<rparr>)" (is "publish_inv _ _ _ _ ?s")
proof -
  from inv obtain com where com: "committed ws flag as m com s" and fr: "publish_frame flag as s"
    unfolding publish_inv_def by blast
  have "t = 0" using dr fr by (cases "t = 0") (auto simp: publish_frame_def tso_drain_def)
  with dr obtain a v b where b: "tso_buf (mc_tso s) 0 = (a, v) # b"
      "m' = (mc_tso s)\<lparr>tso_mem := (tso_mem (mc_tso s))(a := v), tso_buf := (tso_buf (mc_tso s))(0 := b)\<rparr>"
    by (auto simp: tso_drain_def split: list.splits)
  have "\<not> (mc_read s 1 \<noteq> [] \<and> hd (mc_read s 1) \<noteq> 0)" using com b(1) by (auto simp: committed_def)
  then have "committed ws flag as m (com @ [(a, v)]) ?s" using com b by (auto simp: committed_def apply_writes_snoc)
  moreover have "publish_frame flag as ?s" using fr b(2) by (simp add: publish_frame_def)
  ultimately show ?thesis unfolding publish_inv_def by blast
qed

lemma publish_step:
  assumes "publish_inv ws flag as m s" "machine_step s s'" "m flag = 0" "flag \<notin> fst ` set ws" "flag \<notin> set as"
  shows "publish_inv ws flag as m s'"
  using assms(2)
proof cases
  case (exec t op ops rs m')
  consider "t = 0" | "t = 1" | "t \<noteq> 0" "t \<noteq> 1" by blast
  then show ?thesis
  proof cases
    case 1
    with writer_step [OF assms(1)] exec show ?thesis by blast
  next
    case 2
    with reader_step [OF assms(1) _ _ assms(3-5)] exec show ?thesis by blast
  next
    case 3
    with assms(1) exec(2) show ?thesis by (simp add: publish_inv_def publish_frame_def)
  qed
next
  case drain
  with drain_step [OF assms(1)] show ?thesis by blast
qed

text \<open>
  Release\_Store and Acquire\_Load publish: a thread writes data and then sets a flag with
  \<^verbatim>\<open>Release_Store\<close>; another reads the flag with \<^verbatim>\<open>Acquire_Load\<close> and then data. On a processor
  with store buffers, in every execution, if the flag was seen set, every value read is the one that
  was written before the flag, although neither operation is a fence.
\<close>

theorem release_acquire_publishes:
  assumes "machine_step\<^sup>*\<^sup>*
      (machine_start m ((\<lambda>t. [])(0 := publish_code ws flag, 1 := observe_code flag as))) s"
    and "m flag = 0" and "flag \<notin> fst ` set ws" and "flag \<notin> set as"
    and "mc_code s 1 = []" and "hd (mc_read s 1) \<noteq> 0"
  shows "tl (mc_read s 1) = map (apply_writes ws m) as"
proof -
  from assms(1) have inv: "publish_inv ws flag as m s"
    by (induction rule: rtranclp_induct) (use publish_inv_start publish_step assms(2-4) in blast)+
  then obtain com where com: "committed ws flag as m com s" and fr: "publish_frame flag as s"
    unfolding publish_inv_def by blast
  have len: "length (mc_read s 1) \<ge> Suc (length as)" using fr assms(5) by (simp add: publish_frame_def)
  then have "mc_read s 1 \<noteq> []" by auto
  with com assms(6) have "sees ws m as (mc_read s 1)" by (simp add: committed_def)
  with len show ?thesis by (simp add: sees_def)
qed

theorem release_acquire_publishes_witness:
  "\<exists>s. machine_step\<^sup>*\<^sup>*
       (machine_start (\<lambda>a. 0 :: u32) ((\<lambda>t. [])(0 := publish_code [(8, 7), (12, 9)] 16, 1 := observe_code 16 [12, 8]))) s \<and>
     mc_code s 1 = [] \<and> mc_read s 1 = [1, 9, 7]"
proof -
  let ?s = "machine_start (\<lambda>a. 0 :: u32) ((\<lambda>t. [])(0 := publish_code [(8, 7), (12, 9)] 16, 1 := observe_code 16 [12, 8]))"
  let ?acts = "[Exec 0, Exec 0, Exec 0, Exec 0, Drain 0, Drain 0, Drain 0, Exec 1, Exec 1, Exec 1, Exec 1]"
  obtain s where run: "machine_run ?acts ?s = Some s" and s: "mc_code s 1 = []" "hd (mc_read s 1) = 1" "length (mc_read s 1) = 3"
    by (simp add: machine_start_def publish_code_def observe_code_def NoBarrier_Store_def Release_Store_def NoBarrier_Load_def
        Acquire_Load_def tso_write_def tso_drain_def tso_read_def)
  have steps: "machine_step\<^sup>*\<^sup>* ?s s" using run by (rule machine_run_steps)
  have "tl (mc_read s 1) = map (apply_writes [(8, 7), (12, 9)] (\<lambda>a. 0)) [12, 8]"
    by (rule release_acquire_publishes [OF steps]) (use s in simp_all)
  moreover have "mc_read s 1 = hd (mc_read s 1) # tl (mc_read s 1)" using s(3) by (cases "mc_read s 1") auto
  ultimately have "mc_read s 1 = [1, 9, 7]" using s(2) by (simp add: apply_writes_def)
  with steps s(1) show ?thesis by blast
qed

subsection \<open>Acquire\_Store is a fence, Release\_Store is not\<close>

text \<open>Two threads that each set a flag of their own and look at the other's.\<close>

definition flag_code :: "(addr \<Rightarrow> 'a::len word \<Rightarrow> 'a word machine_op list) \<Rightarrow> addr \<Rightarrow> addr \<Rightarrow> 'a word machine_op list" where
  "flag_code store mine other = store mine 1 @ NoBarrier_Load other"

definition flags_start :: "(addr \<Rightarrow> 'a::len word \<Rightarrow> 'a word machine_op list) \<Rightarrow> addr \<Rightarrow> addr \<Rightarrow> 'a word machine" where
  "flags_start store x y = machine_start (\<lambda>a. 0) ((\<lambda>t. [])(0 := flag_code store x y, 1 := flag_code store y x))"

text \<open>Where a thread is: its flag has reached the memory when it is past the fence.\<close>

definition flag_pos :: "nat \<Rightarrow> addr \<Rightarrow> addr \<Rightarrow> 'a::len word machine \<Rightarrow> bool" where
  "flag_pos t mine other s \<longleftrightarrow>
     (mc_code s t = [MovStore mine 1, Mfence, MovLoad other] \<and> tso_buf (mc_tso s) t = [] \<and> mc_read s t = [] \<or>
      mc_code s t = [Mfence, MovLoad other] \<and> tso_buf (mc_tso s) t = [(mine, 1)] \<and> mc_read s t = [] \<or>
      (mc_code s t = [Mfence, MovLoad other] \<or> mc_code s t = [MovLoad other]) \<and> tso_buf (mc_tso s) t = [] \<and>
        mc_read s t = [] \<and> tso_mem (mc_tso s) mine = 1 \<or>
      mc_code s t = [] \<and> tso_buf (mc_tso s) t = [] \<and> length (mc_read s t) = 1 \<and> tso_mem (mc_tso s) mine = 1)"

definition flags_inv :: "addr \<Rightarrow> addr \<Rightarrow> 'a::len word machine \<Rightarrow> bool" where
  "flags_inv x y s \<longleftrightarrow> flag_pos 0 x y s \<and> flag_pos 1 y x s \<and> (\<forall>t. t \<notin> {0, 1} \<longrightarrow> mc_code s t = [] \<and> tso_buf (mc_tso s) t = []) \<and>
     (mc_code s 0 = [] \<and> mc_code s 1 = [] \<longrightarrow> mc_read s 0 = [1] \<or> mc_read s 1 = [1])"

lemma flags_inv_start: "flags_inv x y (flags_start Acquire_Store x y)"
  by (simp add: flags_inv_def flag_pos_def flags_start_def machine_start_def flag_code_def Acquire_Store_def
      MemoryBarrier_def NoBarrier_Load_def)

lemma flags_exec:
  assumes pos: "flag_pos t mine other s" "flag_pos u other mine s" and ne: "mine \<noteq> other" "t \<noteq> u"
    and ex: "mc_code s t = op # ops" "tso_exec t op (mc_tso s) = Some (rs, m)"
    and s': "s' = s\<lparr>mc_tso := m, mc_code := (mc_code s)(t := ops), mc_read := (mc_read s)(t := mc_read s t @ rs)\<rparr>"
  shows "flag_pos t mine other s' \<and> flag_pos u other mine s' \<and>
    (mc_code s' t = [] \<and> mc_code s' u = [] \<longrightarrow> mc_read s' t = [1])"
proof -
  consider "mc_code s t = [MovStore mine 1, Mfence, MovLoad other]" "tso_buf (mc_tso s) t = []" "mc_read s t = []"
    | "mc_code s t = [Mfence, MovLoad other]" "tso_buf (mc_tso s) t = [(mine, 1)]"
    | "mc_code s t = [Mfence, MovLoad other]" "tso_buf (mc_tso s) t = []" "mc_read s t = []" "tso_mem (mc_tso s) mine = 1"
    | "mc_code s t = [MovLoad other]" "tso_buf (mc_tso s) t = []" "mc_read s t = []" "tso_mem (mc_tso s) mine = 1"
    using pos(1) ex(1) unfolding flag_pos_def by auto
  then show ?thesis
  proof cases
    case 1
    with ex s' pos(2) ne show ?thesis by (auto simp: flag_pos_def tso_write_def)
  next
    case 2
    with ex show ?thesis by auto
  next
    case 3
    with ex s' pos(2) ne show ?thesis by (auto simp: flag_pos_def)
  next
    case 4
    with ex s' pos(2) ne show ?thesis by (auto simp: flag_pos_def tso_read_def)
  qed
qed

lemma flags_drain:
  assumes pos: "flag_pos t mine other s" "flag_pos u other mine s" and ne: "mine \<noteq> other" "t \<noteq> u"
    and dr: "tso_drain t (mc_tso s) = Some m"
  shows "flag_pos t mine other (s\<lparr>mc_tso := m\<rparr>) \<and> flag_pos u other mine (s\<lparr>mc_tso := m\<rparr>) \<and> mc_code s t \<noteq> []"
proof -
  have b: "tso_buf (mc_tso s) t = [(mine, 1)]" "mc_code s t = [Mfence, MovLoad other]" "mc_read s t = []"
    using pos(1) dr by (auto simp: flag_pos_def tso_drain_def)
  then have m: "m = (mc_tso s)\<lparr>tso_mem := (tso_mem (mc_tso s))(mine := 1), tso_buf := (tso_buf (mc_tso s))(t := [])\<rparr>"
    using dr by (simp add: tso_drain_def)
  have "flag_pos t mine other (s\<lparr>mc_tso := m\<rparr>)" using b m by (simp add: flag_pos_def)
  moreover have "flag_pos u other mine (s\<lparr>mc_tso := m\<rparr>)" using pos(2) ne m by (simp add: flag_pos_def)
  ultimately show ?thesis using b(2) by simp
qed

lemma flags_step:
  assumes inv: "flags_inv x y s" and ne: "x \<noteq> y" and step: "machine_step s s'"
  shows "flags_inv x y s'"
proof -
  from inv have pos: "flag_pos 0 x y s" "flag_pos 1 y x s" "t \<notin> {0, 1} \<Longrightarrow> mc_code s t = [] \<and> tso_buf (mc_tso s) t = []" for t
    unfolding flags_inv_def by blast+
  from step show ?thesis
  proof cases
    case (exec t op ops rs m)
    have t: "t = 0 \<or> t = 1"
    proof (rule ccontr)
      assume "\<not> (t = 0 \<or> t = 1)"
      with pos(3) [of t] exec(2) show False by simp
    qed
    have b: "tso_buf (mc_tso s') u = tso_buf (mc_tso s) u" "mc_code s' u = mc_code s u" if "u \<noteq> t" for u
      using exec that by (cases op; auto simp: tso_write_def tso_locked_def split: if_splits prod.splits)+
    from t show ?thesis
    proof
      assume t: "t = 0"
      have ex: "mc_code s 0 = op # ops" "tso_exec 0 op (mc_tso s) = Some (rs, m)" using exec(2,3) t by simp_all
      from flags_exec [OF pos(1,2) ne _ ex] exec(1) t b pos(3) show ?thesis unfolding flags_inv_def by auto
    next
      assume t: "t = 1"
      have ex: "mc_code s 1 = op # ops" "tso_exec 1 op (mc_tso s) = Some (rs, m)" using exec(2,3) t by simp_all
      from flags_exec [OF pos(2,1) ne [symmetric] _ ex] exec(1) t b pos(3) show ?thesis unfolding flags_inv_def by auto
    qed
  next
    case (drain t m)
    have t: "t = 0 \<or> t = 1"
    proof (rule ccontr)
      assume "\<not> (t = 0 \<or> t = 1)"
      with pos(3) [of t] drain(2) show False by (simp add: tso_drain_def)
    qed
    have b: "tso_buf m u = tso_buf (mc_tso s) u" if "u \<noteq> t" for u
      using drain(2) that by (auto simp: tso_drain_def split: list.splits)
    from t show ?thesis
    proof
      assume t: "t = 0"
      with flags_drain [OF pos(1,2) ne, of m] drain b pos(3) show ?thesis unfolding flags_inv_def by auto
    next
      assume t: "t = 1"
      with flags_drain [OF pos(2,1) ne [symmetric], of m] drain b pos(3) show ?thesis unfolding flags_inv_def by auto
    qed
  qed
qed

text \<open>With \<^verbatim>\<open>Acquire_Store\<close>, of two threads that set their flags and look, at least one sees the other's.\<close>

theorem acquire_store_fences:
  assumes "machine_step\<^sup>*\<^sup>* (flags_start Acquire_Store x y) s" and "x \<noteq> y" and "mc_code s 0 = []" and "mc_code s 1 = []"
  shows "mc_read s 0 = [1] \<or> mc_read s 1 = [1]"
proof -
  from assms(1) have "flags_inv x y s"
    by (induction rule: rtranclp_induct) (use flags_inv_start flags_step assms(2) in blast)+
  with assms(3,4) show ?thesis by (simp add: flags_inv_def)
qed

text \<open>With \<^verbatim>\<open>Release_Store\<close> both can miss it: the stores wait in the buffers while the loads are done.\<close>

theorem release_store_is_no_fence:
  "\<exists>s. machine_step\<^sup>*\<^sup>* (flags_start Release_Store 8 16 :: u32 machine) s \<and> mc_code s 0 = [] \<and> mc_code s 1 = [] \<and>
     mc_read s 0 = [0] \<and> mc_read s 1 = [0]"
proof -
  let ?acts = "[Exec 0, Exec 0, Exec 1, Exec 1, Exec 0, Exec 1]" and ?s = "flags_start Release_Store 8 16 :: u32 machine"
  obtain s where run: "machine_run ?acts ?s = Some s"
    and s: "mc_code s 0 = []" "mc_code s 1 = []" "mc_read s 0 = [0]" "mc_read s 1 = [0]"
    by (simp add: flags_start_def machine_start_def flag_code_def Release_Store_def NoBarrier_Load_def
        tso_write_def tso_read_def)
  from machine_run_steps [OF run] s show ?thesis by blast
qed

subsection \<open>The spin lock and the data it protects\<close>

text \<open>
  The lock's word is only touched by locked operations and plain loads, so it is never in a
  buffer; the data that the lock protects goes through the buffers. A step of the lock that
  is a locked operation waits until the thread's buffer is empty. \<open>tl_written\<close> is the last
  value written to each address by the critical sections, in the order in which they ran.
\<close>

fun locked_op :: "pc \<Rightarrow> bool" where
  "locked_op LockCas \<longleftrightarrow> True"
| "locked_op (SpinCas k) \<longleftrightarrow> True"
| "locked_op (SlowCasHeld k) \<longleftrightarrow> True"
| "locked_op (SlowCasFree k) \<longleftrightarrow> True"
| "locked_op UnlockExchange \<longleftrightarrow> True"
| "locked_op _ \<longleftrightarrow> False"

record 'v tso_lock =
  tl_lock :: lock_state
  tl_data :: "'v tso"
  tl_written :: "addr \<Rightarrow> 'v"

definition tso_lock_init :: "(addr \<Rightarrow> 'v) \<Rightarrow> 'v tso_lock" where
  "tso_lock_init m = \<lparr>tl_lock = lock_init, tl_data = \<lparr>tso_mem = m, tso_buf = (\<lambda>t. [])\<rparr>, tl_written = m\<rparr>"

inductive tso_lock_step :: "int \<Rightarrow> 'v tso_lock \<Rightarrow> 'v tso_lock \<Rightarrow> bool" for spin where
  lock: "lock_step spin t (tl_lock s) l \<Longrightarrow> locked_op (lk_pc (tl_lock s) t) \<longrightarrow> tso_buf (tl_data s) t = [] \<Longrightarrow>
    tso_lock_step spin s (s\<lparr>tl_lock := l\<rparr>)"
| store: "lk_pc (tl_lock s) t = Critical \<Longrightarrow>
    tso_lock_step spin s (s\<lparr>tl_data := tso_write t a v (tl_data s), tl_written := (tl_written s)(a := v)\<rparr>)"
| drain: "tso_drain t (tl_data s) = Some d \<Longrightarrow> tso_lock_step spin s (s\<lparr>tl_data := d\<rparr>)"

definition tso_lock_inv :: "'v tso_lock \<Rightarrow> bool" where
  "tso_lock_inv s \<longleftrightarrow> lock_inv (tl_lock s) \<and>
     (\<forall>t. tso_buf (tl_data s) t \<noteq> [] \<longrightarrow> lk_pc (tl_lock s) t \<in> {Critical, UnlockExchange}) \<and>
     (\<forall>t a. (\<forall>u. u \<noteq> t \<longrightarrow> tso_buf (tl_data s) u = []) \<longrightarrow> tso_read t a (tl_data s) = tl_written s a)"

lemma lock_inv_unique: "lock_inv s \<Longrightarrow> owns (lk_pc s t) \<Longrightarrow> owns (lk_pc s u) \<Longrightarrow> t = u"
  by (cases "lk_word s = kSpinLockFree") (auto simp: lock_inv_def)

lemma others_empty:
  assumes "tso_lock_inv s" "owns (lk_pc (tl_lock s) t)" "u \<noteq> t"
  shows "tso_buf (tl_data s) u = []"
proof (rule ccontr)
  assume "tso_buf (tl_data s) u \<noteq> []"
  with assms(1) have "lk_pc (tl_lock s) u = Critical \<or> lk_pc (tl_lock s) u = UnlockExchange"
    unfolding tso_lock_inv_def by blast
  then have "owns (lk_pc (tl_lock s) u)" by auto
  with assms lock_inv_unique show False unfolding tso_lock_inv_def by blast
qed

lemma tso_read_write: "tso_read t b (tso_write t a v d) = (if b = a then v else tso_read t b d)"
  by (simp add: tso_read_def tso_write_def split: option.split)

lemma tso_read_drain:
  assumes "tso_drain t d = Some d'"
  shows "tso_read t a d' = tso_read t a d"
  using assms by (auto simp: tso_drain_def tso_read_def map_add_def split: list.splits option.splits)

lemma tso_lock_inv_lock:
  assumes inv: "tso_lock_inv s" and st: "lock_step spin t (tl_lock s) l"
    and buf: "locked_op (lk_pc (tl_lock s) t) \<longrightarrow> tso_buf (tl_data s) t = []"
  shows "tso_lock_inv (s\<lparr>tl_lock := l\<rparr>)"
proof -
  from st obtain q m where q: "thread_step spin (lk_pc (tl_lock s) t) (lk_word (tl_lock s)) q m"
    and l: "l = (tl_lock s)\<lparr>lk_word := m, lk_pc := (lk_pc (tl_lock s))(t := q)\<rparr>" by (auto simp: lock_step_simps)
  have "lk_pc l u \<in> {Critical, UnlockExchange}" if "tso_buf (tl_data s) u \<noteq> []" for u
  proof (cases "u = t")
    case True
    have "lk_pc (tl_lock s) t = Critical \<or> lk_pc (tl_lock s) t = UnlockExchange"
      using inv that True unfolding tso_lock_inv_def by blast
    with buf that True have "lk_pc (tl_lock s) t = Critical" by auto
    with q have "q = UnlockExchange" by (auto elim: thread_step.cases)
    with l True show ?thesis by simp
  next
    case False
    with inv that l show ?thesis unfolding tso_lock_inv_def by simp
  qed
  moreover have "lock_inv l" using inv st lock_inv_step unfolding tso_lock_inv_def by blast
  ultimately show ?thesis using inv by (simp add: tso_lock_inv_def)
qed

lemma tso_lock_inv_store:
  assumes inv: "tso_lock_inv s" and t: "lk_pc (tl_lock s) t = Critical"
  shows "tso_lock_inv (s\<lparr>tl_data := tso_write t a v (tl_data s), tl_written := (tl_written s)(a := v)\<rparr>)"
proof -
  have e: "tso_buf (tl_data s) u = []" if "u \<noteq> t" for u using others_empty [OF inv _ that] t by simp
  then have "tso_read t b (tl_data s) = tl_written s b" for b using inv unfolding tso_lock_inv_def by blast
  then have r: "tso_read t b (tso_write t a v (tl_data s)) = ((tl_written s)(a := v)) b" for b
    by (simp add: tso_read_write)
  have "tso_read u b (tso_write t a v (tl_data s)) = ((tl_written s)(a := v)) b"
    if "\<forall>w. w \<noteq> u \<longrightarrow> tso_buf (tso_write t a v (tl_data s)) w = []" for u b
  proof (cases "u = t")
    case False
    with that have "tso_buf (tso_write t a v (tl_data s)) t = []" by auto
    then show ?thesis by (simp add: tso_write_def)
  qed (use r in simp)
  moreover have "lk_pc (tl_lock s) u \<in> {Critical, UnlockExchange}" if "tso_buf (tso_write t a v (tl_data s)) u \<noteq> []" for u
    using that e t by (cases "u = t") (auto simp: tso_write_def)
  moreover have "lock_inv (tl_lock s)" using inv by (simp add: tso_lock_inv_def)
  ultimately show ?thesis by (simp add: tso_lock_inv_def)
qed

lemma tso_lock_inv_drain:
  assumes inv: "tso_lock_inv s" and dr: "tso_drain t (tl_data s) = Some d"
  shows "tso_lock_inv (s\<lparr>tl_data := d\<rparr>)"
proof -
  have ne: "tso_buf (tl_data s) t \<noteq> []" using dr by (auto simp: tso_drain_def)
  then have pc: "lk_pc (tl_lock s) t \<in> {Critical, UnlockExchange}" using inv unfolding tso_lock_inv_def by blast
  then have own: "owns (lk_pc (tl_lock s) t)" by auto
  have e: "tso_buf (tl_data s) u = []" if "u \<noteq> t" for u using others_empty [OF inv own that] .
  have b: "tso_buf d u = tso_buf (tl_data s) u" if "u \<noteq> t" for u
    using dr that by (auto simp: tso_drain_def split: list.splits)
  have r: "tso_read t a d = tl_written s a" for a
    using inv e tso_read_drain [OF dr] unfolding tso_lock_inv_def by metis
  have "tso_read u a d = tl_written s a" if "\<forall>w. w \<noteq> u \<longrightarrow> tso_buf d w = []" for u a
    using that r [of a] e [of u] b [of u] by (cases "u = t") (auto simp: tso_read_def)
  moreover have "lk_pc (tl_lock s) u \<in> {Critical, UnlockExchange}" if "tso_buf d u \<noteq> []" for u
    using that pc e b by (cases "u = t") auto
  moreover have "lock_inv (tl_lock s)" using inv by (simp add: tso_lock_inv_def)
  ultimately show ?thesis by (simp add: tso_lock_inv_def)
qed

lemma tso_lock_inv_reach: "(tso_lock_step spin)\<^sup>*\<^sup>* (tso_lock_init m) s \<Longrightarrow> tso_lock_inv s"
proof (induction rule: rtranclp_induct)
  case base
  show ?case by (simp add: tso_lock_inv_def tso_lock_init_def lock_inv_def lock_init_def tso_read_def)
next
  case (step s s')
  from step(2,3) show ?case
    by cases (auto intro: tso_lock_inv_lock tso_lock_inv_store tso_lock_inv_drain)
qed

text \<open>
  C20. The lock protects data on a processor with store buffers: in every execution of any
  number of threads, a thread inside the critical section reads at each address the value last written there by
  any critical section, its own or an earlier one; and a thread that does not own the lock has no
  store outstanding. \<^verbatim>\<open>Unlock\<close> needs no fence because its exchange is a locked operation.
\<close>

theorem spin_lock_data_consistent:
  assumes "(tso_lock_step spin)\<^sup>*\<^sup>* (tso_lock_init m) s"
  shows "(\<forall>t a. lk_pc (tl_lock s) t = Critical \<longrightarrow> tso_read t a (tl_data s) = tl_written s a) \<and>
         (\<forall>t. \<not> owns (lk_pc (tl_lock s) t) \<longrightarrow> tso_buf (tl_data s) t = []) \<and>
         (\<forall>t u. owns (lk_pc (tl_lock s) t) \<longrightarrow> owns (lk_pc (tl_lock s) u) \<longrightarrow> t = u)"
proof -
  have inv: "tso_lock_inv s" using assms by (rule tso_lock_inv_reach)
  have "tso_read t a (tl_data s) = tl_written s a" if "lk_pc (tl_lock s) t = Critical" for t a
    using inv others_empty [OF inv, of t] that unfolding tso_lock_inv_def by simp
  moreover have "tso_buf (tl_data s) t = []" if "\<not> owns (lk_pc (tl_lock s) t)" for t
    using inv that unfolding tso_lock_inv_def by fastforce
  moreover have "t = u" if "owns (lk_pc (tl_lock s) t)" "owns (lk_pc (tl_lock s) u)" for t u
    using inv that lock_inv_unique unfolding tso_lock_inv_def by blast
  ultimately show ?thesis by blast
qed

theorem spin_lock_data_consistent_witness:
  "\<exists>s. (tso_lock_step 1000)\<^sup>*\<^sup>* (tso_lock_init (\<lambda>a. 0 :: u32)) s \<and> lk_pc (tl_lock s) 0 = Critical \<and>
     tso_mem (tl_data s) 8 = 0 \<and> tso_read 0 8 (tl_data s) = 7"
proof -
  let ?i = "tso_lock_init (\<lambda>a. 0 :: u32)"
  let ?l1 = "put lock_init 0 LockCas kSpinLockFree" and ?l2 = "put lock_init 0 Critical kSpinLockHeld"
  let ?s2 = "?i\<lparr>tl_lock := ?l1, tl_lock := ?l2\<rparr>"
  let ?s = "?s2\<lparr>tl_data := tso_write 0 8 7 (tl_data ?s2), tl_written := (tl_written ?s2)(8 := 7)\<rparr>"
  have "lock_step 1000 0 lock_init ?l1"
    using step_put [OF call_Lock, of 1000 0 lock_init kSpinLockFree] put_same [of lock_init 0] by (simp add: lock_init_def)
  then have 1: "tso_lock_step 1000 ?i (?i\<lparr>tl_lock := ?l1\<rparr>)"
    using tso_lock_step.lock [of 1000 0 ?i ?l1] by (simp add: tso_lock_init_def)
  have "thread_step 1000 LockCas kSpinLockFree Critical kSpinLockHeld" by (rule lock_cas) (simp add: step_defs)
  then have "lock_step 1000 0 ?l1 ?l2" using step_put [of 1000 LockCas kSpinLockFree Critical kSpinLockHeld 0 lock_init] by simp
  then have 2: "tso_lock_step 1000 (?i\<lparr>tl_lock := ?l1\<rparr>) ?s2"
    using tso_lock_step.lock [of 1000 0 "?i\<lparr>tl_lock := ?l1\<rparr>" ?l2] by (simp add: tso_lock_init_def)
  have 3: "tso_lock_step 1000 ?s2 ?s" by (rule tso_lock_step.store) simp
  from 1 2 3 have run: "(tso_lock_step 1000)\<^sup>*\<^sup>* ?i ?s" by (meson converse_rtranclp_into_rtranclp rtranclp.rtrancl_refl)
  have pc: "lk_pc (tl_lock ?s) 0 = Critical" by simp
  from spin_lock_data_consistent [OF run] pc have "tso_read 0 8 (tl_data ?s) = tl_written ?s 8" by blast
  then have "tso_read 0 8 (tl_data ?s) = 7" by simp
  moreover have "tso_mem (tl_data ?s) 8 = 0" by (simp add: tso_write_def tso_lock_init_def)
  ultimately show ?thesis using run pc by blast
qed

subsection \<open>The orders the builtins are asked for\<close>

text \<open>
  \<^verbatim>\<open>atomic-gcc.h\<close> leaves the order to the compiler: every function is one builtin with the order
  it asks for (compare-and-exchange has two, for success and for failure).
\<close>

datatype memory_order = RELAXED | ACQUIRE | RELEASE | SEQ_CST

datatype gcc_call =
    GccLoad memory_order
  | GccStore memory_order
  | GccExchange memory_order
  | GccCompareExchange memory_order memory_order
  | GccFetchAdd memory_order
  | GccAddFetch memory_order

datatype atomic_fn =
    FnNoBarrier_Store | FnRelease_Store | FnAcquire_Store
  | FnNoBarrier_Load | FnRelease_Load | FnAcquire_Load
  | FnNoBarrier_AtomicExchange | FnAcquire_AtomicExchange | FnRelease_AtomicExchange
  | FnNoBarrier_CompareAndSwap | FnAcquire_CompareAndSwap | FnRelease_CompareAndSwap
  | FnNoBarrier_AtomicFetchAndAdd | FnNoBarrier_AtomicAddAndFetch
  | FnBarrier_AtomicFetchAndAdd | FnBarrier_AtomicAddAndFetch

fun gcc_calls_32 :: "atomic_fn \<Rightarrow> gcc_call" where
  "gcc_calls_32 FnNoBarrier_Store = GccStore RELAXED"
| "gcc_calls_32 FnRelease_Store = GccStore RELEASE"
| "gcc_calls_32 FnAcquire_Store = GccStore SEQ_CST"
| "gcc_calls_32 FnNoBarrier_Load = GccLoad RELAXED"
| "gcc_calls_32 FnRelease_Load = GccLoad SEQ_CST"
| "gcc_calls_32 FnAcquire_Load = GccLoad ACQUIRE"
| "gcc_calls_32 FnNoBarrier_AtomicExchange = GccExchange RELAXED"
| "gcc_calls_32 FnAcquire_AtomicExchange = GccExchange ACQUIRE"
| "gcc_calls_32 FnRelease_AtomicExchange = GccExchange RELEASE"
| "gcc_calls_32 FnNoBarrier_CompareAndSwap = GccCompareExchange RELAXED RELAXED"
| "gcc_calls_32 FnAcquire_CompareAndSwap = GccCompareExchange ACQUIRE ACQUIRE"
| "gcc_calls_32 FnRelease_CompareAndSwap = GccCompareExchange RELEASE ACQUIRE"
| "gcc_calls_32 FnNoBarrier_AtomicFetchAndAdd = GccFetchAdd RELAXED"
| "gcc_calls_32 FnNoBarrier_AtomicAddAndFetch = GccAddFetch RELAXED"
| "gcc_calls_32 FnBarrier_AtomicFetchAndAdd = GccFetchAdd SEQ_CST"
| "gcc_calls_32 FnBarrier_AtomicAddAndFetch = GccAddFetch SEQ_CST"

fun gcc_calls_64 :: "atomic_fn \<Rightarrow> gcc_call" where
  "gcc_calls_64 FnNoBarrier_Store = GccStore RELAXED"
| "gcc_calls_64 FnRelease_Store = GccStore RELEASE"
| "gcc_calls_64 FnAcquire_Store = GccStore SEQ_CST"
| "gcc_calls_64 FnNoBarrier_Load = GccLoad RELAXED"
| "gcc_calls_64 FnRelease_Load = GccLoad SEQ_CST"
| "gcc_calls_64 FnAcquire_Load = GccLoad ACQUIRE"
| "gcc_calls_64 FnNoBarrier_AtomicExchange = GccExchange RELAXED"
| "gcc_calls_64 FnAcquire_AtomicExchange = GccExchange ACQUIRE"
| "gcc_calls_64 FnRelease_AtomicExchange = GccExchange RELEASE"
| "gcc_calls_64 FnNoBarrier_CompareAndSwap = GccCompareExchange RELAXED RELAXED"
| "gcc_calls_64 FnAcquire_CompareAndSwap = GccCompareExchange ACQUIRE ACQUIRE"
| "gcc_calls_64 FnRelease_CompareAndSwap = GccCompareExchange RELEASE ACQUIRE"
| "gcc_calls_64 FnNoBarrier_AtomicFetchAndAdd = GccFetchAdd RELAXED"
| "gcc_calls_64 FnNoBarrier_AtomicAddAndFetch = GccAddFetch RELAXED"
| "gcc_calls_64 FnBarrier_AtomicFetchAndAdd = GccFetchAdd SEQ_CST"
| "gcc_calls_64 FnBarrier_AtomicAddAndFetch = GccAddFetch SEQ_CST"

fun at_least :: "memory_order \<Rightarrow> memory_order \<Rightarrow> bool" where
  "at_least SEQ_CST b \<longleftrightarrow> True"
| "at_least a RELAXED \<longleftrightarrow> True"
| "at_least a b \<longleftrightarrow> a = b"

fun wanted_order :: "gcc_call \<Rightarrow> memory_order" where
  "wanted_order (GccLoad r) = r"
| "wanted_order (GccStore r) = r"
| "wanted_order (GccExchange r) = r"
| "wanted_order (GccCompareExchange r f) = r"
| "wanted_order (GccFetchAdd r) = r"
| "wanted_order (GccAddFetch r) = r"

text \<open>
  What the compiler's manual asks of the failure order: not release, and not stronger than
  the success order.
\<close>

fun orders_valid :: "gcc_call \<Rightarrow> bool" where
  "orders_valid (GccCompareExchange r f) \<longleftrightarrow> f \<noteq> RELEASE \<and> at_least r f"
| "orders_valid _ \<longleftrightarrow> True"

text \<open>The machine operations of the assembly versions, and the order they have on x86.\<close>

fun asm_ops :: "atomic_fn \<Rightarrow> 'a::len word machine_op list" where
  "asm_ops FnNoBarrier_Store = NoBarrier_Store 0 0"
| "asm_ops FnRelease_Store = Release_Store 0 0"
| "asm_ops FnAcquire_Store = Acquire_Store 0 0"
| "asm_ops FnNoBarrier_Load = NoBarrier_Load 0"
| "asm_ops FnRelease_Load = Release_Load 0"
| "asm_ops FnAcquire_Load = Acquire_Load 0"
| "asm_ops FnNoBarrier_AtomicExchange = NoBarrier_AtomicExchange 0 0"
| "asm_ops FnAcquire_AtomicExchange = Acquire_AtomicExchange 0 0"
| "asm_ops FnRelease_AtomicExchange = Release_AtomicExchange 0 0"
| "asm_ops FnNoBarrier_CompareAndSwap = NoBarrier_CompareAndSwap 0 0 0"
| "asm_ops FnAcquire_CompareAndSwap = Acquire_CompareAndSwap 0 0 0"
| "asm_ops FnRelease_CompareAndSwap = Release_CompareAndSwap 0 0 0"
| "asm_ops FnNoBarrier_AtomicFetchAndAdd = NoBarrier_AtomicFetchAndAdd 0 0"
| "asm_ops FnNoBarrier_AtomicAddAndFetch = NoBarrier_AtomicFetchAndAdd 0 0"
| "asm_ops FnBarrier_AtomicFetchAndAdd = Barrier_AtomicFetchAndAdd 0 0"
| "asm_ops FnBarrier_AtomicAddAndFetch = NoBarrier_AtomicFetchAndAdd 0 0"

fun machine_order :: "'v machine_op list \<Rightarrow> memory_order" where
  "machine_order [] = RELAXED"
| "machine_order (MovLoad a # ops) = ACQUIRE"
| "machine_order (MovStore a v # ops) = (if Mfence \<in> set ops then SEQ_CST else RELEASE)"
| "machine_order (CompilerBarrier # ops) = machine_order ops"
| "machine_order (op # ops) = SEQ_CST"

lemmas asm_op_defs = NoBarrier_Store_def Release_Store_def Acquire_Store_def NoBarrier_Load_def Release_Load_def
  Acquire_Load_def MemoryBarrier_def NoBarrier_AtomicExchange_def Acquire_AtomicExchange_def Release_AtomicExchange_def
  NoBarrier_CompareAndSwap_def Acquire_CompareAndSwap_def Release_CompareAndSwap_def NoBarrier_AtomicFetchAndAdd_def
  Barrier_AtomicFetchAndAdd_def

text \<open>
  The two headers fit: the widths agree, and on x86 every assembly version is at least as
  strong as the order the builtin version asks for.
\<close>

theorem asm_orders_suffice:
  "gcc_calls_64 f = gcc_calls_32 f \<and>
   at_least (machine_order (asm_ops f :: 'a::len word machine_op list)) (wanted_order (gcc_calls_32 f))"
  by (cases f) (simp_all add: asm_op_defs)

text \<open>
  One call is outside of what the builtin admits: the compare-and-swap with release order
  asks for acquire on failure, which is stronger than release.
\<close>

theorem release_cas_failure_order: "orders_valid (gcc_calls_32 f) \<longleftrightarrow> f \<noteq> FnRelease_CompareAndSwap"
  by (cases f) simp_all

end
