(* ===== verification/Spin_Lock_Futex.thy ===== *)
theory Spin_Lock_Futex
  imports Spin_Lock
begin

unbundle bit_operations_syntax

text \<open>
  How the spin lock sleeps, \<^verbatim>\<open>src/memhook/spin_lock.cpp\<close>: the probe of the kernel at start-up, and
  the waiting and waking by futex calls, on top of the steps of \<^verbatim>\<open>Spin_Lock\<close>. The kernel keeps a
  queue of sleeping threads; a wait sleeps only if the word still has the expected value, in
  one step with that test. A sleeper is woken by a wake call, or leaves because of its timeout
  or a signal.
\<close>

subsection \<open>The probe at start-up\<close>

definition FUTEX_WAIT :: u32 where "FUTEX_WAIT = 0"
definition FUTEX_WAKE :: u32 where "FUTEX_WAKE = 1"
definition FUTEX_PRIVATE_FLAG :: u32 where "FUTEX_PRIVATE_FLAG = 128"

text \<open>
  What the probe finds out: the number of processors, and what a futex call with an operation
  returns; a build without system calls has none.
\<close>

record machine_env =
  cpu_count :: int
  sys_futex :: "(u32 \<Rightarrow> int) option"

definition SysFutex :: "machine_env \<Rightarrow> u32 \<Rightarrow> int" where
  "SysFutex env futex_op = (case sys_futex env of None \<Rightarrow> - 1 | Some call \<Rightarrow> call futex_op)"

record spin_globals =
  g_adaptive_spin_count :: int
  g_have_futex :: bool
  g_futex_private_flag :: u32

definition static_globals :: spin_globals where
  "static_globals = \<lparr>g_adaptive_spin_count = 0, g_have_futex = False, g_futex_private_flag = FUTEX_PRIVATE_FLAG\<rparr>"

definition SpinLock_InitHelper :: "machine_env \<Rightarrow> spin_globals \<Rightarrow> spin_globals" where
  "SpinLock_InitHelper env g =
     (let g = (if cpu_count env > 1 then g\<lparr>g_adaptive_spin_count := 1000\<rparr> else g);
          g = g\<lparr>g_have_futex := SysFutex env FUTEX_WAKE \<ge> 0\<rparr>
      in if g_have_futex g \<and> SysFutex env (FUTEX_WAKE OR g_futex_private_flag g) < 0
         then g\<lparr>g_futex_private_flag := 0\<rparr> else g)"

text \<open>After the probe the operations that the lock uses are ones the kernel has.\<close>

lemma probe_supported:
  assumes "g_have_futex (SpinLock_InitHelper env static_globals)"
  shows "SysFutex env (FUTEX_WAKE OR g_futex_private_flag (SpinLock_InitHelper env static_globals)) \<ge> 0"
  using assms by (auto simp: SpinLock_InitHelper_def static_globals_def FUTEX_WAKE_def FUTEX_PRIVATE_FLAG_def Let_def)

subsection \<open>Sleeping and waking\<close>

text \<open>A queue entry is the kind of the futex, private or not, and the thread.\<close>

record futex_state = lock_state +
  fx_queue :: "(u32 \<times> nat) list"

definition asleep :: "futex_state \<Rightarrow> nat \<Rightarrow> bool" where
  "asleep s t \<longleftrightarrow> t \<in> snd ` set (fx_queue s)"

text \<open>
  \<open>futex_wait\<close> queues the caller or returns at once; \<open>futex_wake\<close> takes at most \<open>n\<close> threads of the
  given kind out of the queue, the longest waiting ones first.
\<close>

definition futex_wait :: "u32 \<Rightarrow> u32 \<Rightarrow> nat \<Rightarrow> futex_state \<Rightarrow> futex_state option" where
  "futex_wait flag val t s =
     (if lk_word s = val then Some (s\<lparr>fx_queue := fx_queue s @ [(flag, t)]\<rparr>) else None)"

fun futex_wake :: "u32 \<Rightarrow> nat \<Rightarrow> (u32 \<times> nat) list \<Rightarrow> nat list \<times> (u32 \<times> nat) list" where
  "futex_wake flag n [] = ([], [])"
| "futex_wake flag n ((f, t) # q) =
     (if n = 0 then ([], (f, t) # q)
      else if f = flag then (case futex_wake flag (n - 1) q of (ts, q) \<Rightarrow> (t # ts, q))
      else (case futex_wake flag n q of (ts, q) \<Rightarrow> (ts, (f, t) # q)))"

text \<open>A thread that leaves \<^verbatim>\<open>SpinLockDelay\<close> goes on with the spinning loop.\<close>

fun delay_end :: "spin_globals \<Rightarrow> pc \<Rightarrow> pc" where
  "delay_end g (SlowDelay v k) = SpinLoad (g_adaptive_spin_count g) k"
| "delay_end g q = q"

definition wake_threads :: "spin_globals \<Rightarrow> nat list \<Rightarrow> (nat \<Rightarrow> pc) \<Rightarrow> nat \<Rightarrow> pc" where
  "wake_threads g ts pcs u = (if u \<in> set ts then delay_end g (pcs u) else pcs u)"

text \<open>
  \<^verbatim>\<open>SpinLockDelay\<close>: nothing at loop 0, a yield at loop 1, then a futex wait with a timeout, or a
  plain sleep without futexes.
\<close>

definition SpinLockDelay_futex :: "spin_globals \<Rightarrow> nat \<Rightarrow> u32 \<Rightarrow> nat \<Rightarrow> futex_state \<Rightarrow> futex_state" where
  "SpinLockDelay_futex g t v loop s =
     (let returned = s\<lparr>lk_pc := (lk_pc s)(t := delay_end g (lk_pc s t))\<rparr> in
      if loop = 0 then returned
      else if loop = 1 then returned
      else if g_have_futex g then
        (case futex_wait (g_futex_private_flag g) v t s of Some s \<Rightarrow> s | None \<Rightarrow> returned)
      else returned)"

definition INT_MAX :: nat where "INT_MAX = 2147483647"

definition SpinLockWake :: "spin_globals \<Rightarrow> bool \<Rightarrow> futex_state \<Rightarrow> futex_state" where
  "SpinLockWake g all s =
     (if g_have_futex g then
        (case futex_wake (g_futex_private_flag g) (if all then INT_MAX else 1) (fx_queue s) of
           (ts, q) \<Rightarrow> s\<lparr>lk_pc := wake_threads g ts (lk_pc s), fx_queue := q\<rparr>)
      else s)"

definition SlowUnlock :: "spin_globals \<Rightarrow> nat \<Rightarrow> futex_state \<Rightarrow> futex_state" where
  "SlowUnlock g t s = SpinLockWake g False (s\<lparr>lk_pc := (lk_pc s)(t := Idle)\<rparr>)"

text \<open>Whether the next operation of a thread is a call of the kernel.\<close>

fun in_kernel :: "pc \<Rightarrow> bool" where
  "in_kernel (SlowDelay v k) \<longleftrightarrow> True"
| "in_kernel UnlockWake \<longleftrightarrow> True"
| "in_kernel _ \<longleftrightarrow> False"

inductive futex_step :: "spin_globals \<Rightarrow> nat \<Rightarrow> futex_state \<Rightarrow> futex_state \<Rightarrow> bool" for g t where
  atomic: "\<not> in_kernel (lk_pc s t) \<Longrightarrow> thread_step (g_adaptive_spin_count g) (lk_pc s t) (lk_word s) q m \<Longrightarrow>
    futex_step g t s (s\<lparr>lk_word := m, lk_pc := (lk_pc s)(t := q)\<rparr>)"
| delay: "lk_pc s t = SlowDelay v k \<Longrightarrow> \<not> asleep s t \<Longrightarrow> futex_step g t s (SpinLockDelay_futex g t v k s)"
| wake: "lk_pc s t = UnlockWake \<Longrightarrow> futex_step g t s (SlowUnlock g t s)"

inductive timeout_step :: "spin_globals \<Rightarrow> futex_state \<Rightarrow> futex_state \<Rightarrow> bool" for g where
  timeout: "asleep s t \<Longrightarrow>
    timeout_step g s (s\<lparr>lk_pc := (lk_pc s)(t := delay_end g (lk_pc s t)), fx_queue := filter (\<lambda>x. snd x \<noteq> t) (fx_queue s)\<rparr>)"

definition futex_init :: futex_state where
  "futex_init = \<lparr>lk_word = kSpinLockFree, lk_pc = (\<lambda>t. Idle), fx_queue = []\<rparr>"

inductive futex_reachable :: "spin_globals \<Rightarrow> futex_state \<Rightarrow> bool" for g where
  start: "futex_reachable g futex_init"
| step: "futex_reachable g s \<Longrightarrow> futex_step g t s s' \<Longrightarrow> futex_reachable g s'"
| timeout: "futex_reachable g s \<Longrightarrow> timeout_step g s s' \<Longrightarrow> futex_reachable g s'"

subsection \<open>The sleeping lock implements the lock\<close>

definition lock_of :: "futex_state \<Rightarrow> lock_state" where
  "lock_of s = \<lparr>lk_word = lk_word s, lk_pc = lk_pc s\<rparr>"

lemma lock_of_sel [simp]: "lk_word (lock_of s) = lk_word s" "lk_pc (lock_of s) = lk_pc s"
  by (simp_all add: lock_of_def)

lemma delay_end_same: "\<nexists>v k. q = SlowDelay v k \<Longrightarrow> delay_end g q = q"
  by (cases q) simp_all

lemma reachable_delay_end:
  assumes "reachable (g_adaptive_spin_count g) s"
  shows "reachable (g_adaptive_spin_count g) (s\<lparr>lk_pc := (lk_pc s)(t := delay_end g (lk_pc s t))\<rparr>)"
proof (cases "\<exists>v k. lk_pc s t = SlowDelay v k")
  case True
  then obtain v k where q: "lk_pc s t = SlowDelay v k" by blast
  then have "thread_step (g_adaptive_spin_count g) (lk_pc s t) (lk_word s) (delay_end g (lk_pc s t)) (lk_word s)"
    by (simp add: thread_step.slow_delay)
  from reachable.more [OF assms lock_step.intros [OF this]] show ?thesis by simp
next
  case False
  then have "(lk_pc s)(t := delay_end g (lk_pc s t)) = lk_pc s" by (simp add: delay_end_same)
  then show ?thesis using assms by simp
qed

lemma reachable_wake_threads:
  "reachable (g_adaptive_spin_count g) s \<Longrightarrow> reachable (g_adaptive_spin_count g) (s\<lparr>lk_pc := wake_threads g ts (lk_pc s)\<rparr>)"
proof (induction ts arbitrary: s)
  case Nil
  then show ?case by (simp add: wake_threads_def cong: if_cong)
next
  case (Cons t ts)
  let ?s = "s\<lparr>lk_pc := (lk_pc s)(t := delay_end g (lk_pc s t))\<rparr>"
  have idem: "delay_end g (delay_end g q) = delay_end g q" for q by (cases q) simp_all
  have "wake_threads g ts (lk_pc ?s) = wake_threads g (t # ts) (lk_pc s)"
    by (auto simp: wake_threads_def idem)
  then have "?s\<lparr>lk_pc := wake_threads g ts (lk_pc ?s)\<rparr> = s\<lparr>lk_pc := wake_threads g (t # ts) (lk_pc s)\<rparr>" by simp
  with Cons.IH [OF reachable_delay_end [OF Cons.prems, of t]] show ?case by metis
qed

lemma futex_step_refines:
  assumes "futex_step g t s s'" "reachable (g_adaptive_spin_count g) (lock_of s)"
  shows "reachable (g_adaptive_spin_count g) (lock_of s')"
  using assms(1)
proof cases
  case (atomic q m)
  then have "lock_step (g_adaptive_spin_count g) t (lock_of s) ((lock_of s)\<lparr>lk_word := m, lk_pc := (lk_pc (lock_of s))(t := q)\<rparr>)"
    by (intro lock_step.intros) simp
  from reachable.more [OF assms(2) this] atomic show ?thesis by (simp add: lock_of_def)
next
  case (delay v k)
  from reachable_delay_end [OF assms(2), of t] assms(2) delay show ?thesis
    by (auto simp: SpinLockDelay_futex_def futex_wait_def lock_of_def Let_def)
next
  case wake
  then have "thread_step (g_adaptive_spin_count g) (lk_pc s t) (lk_word s) Idle (lk_word s)"
    by (simp add: thread_step.unlock_wake)
  then have "lock_step (g_adaptive_spin_count g) t (lock_of s) ((lock_of s)\<lparr>lk_word := lk_word s, lk_pc := (lk_pc (lock_of s))(t := Idle)\<rparr>)"
    by (intro lock_step.intros) simp
  from reachable_wake_threads [OF reachable.more [OF assms(2) this]] reachable.more [OF assms(2) this] wake show ?thesis
    by (auto simp: SlowUnlock_def SpinLockWake_def lock_of_def split: prod.splits)
qed

lemma futex_refines_lock: "futex_reachable g s \<Longrightarrow> reachable (g_adaptive_spin_count g) (lock_of s)"
proof (induction rule: futex_reachable.induct)
  case start
  have "lock_of futex_init = lock_init" by (simp add: lock_of_def futex_init_def lock_init_def)
  then show ?case by (simp add: reachable.start)
next
  case (step s t s')
  then show ?case by (blast intro: futex_step_refines)
next
  case (timeout s s')
  from timeout.hyps(2) reachable_delay_end [OF timeout.IH] show ?case by cases (simp add: lock_of_def)
qed

subsection \<open>No wake-up is lost\<close>

text \<open>
  A thread that is neither idle nor asleep in \<^verbatim>\<open>SlowLock\<close> will mark the lock as one that
  somebody sleeps on, when it takes the lock and before it sleeps.
\<close>

fun slow :: "pc \<Rightarrow> bool" where
  "slow (SpinLoad c k) \<longleftrightarrow> True"
| "slow (SpinCas k) \<longleftrightarrow> True"
| "slow (SlowCheck v k) \<longleftrightarrow> v \<noteq> kSpinLockFree"
| "slow (SlowCasHeld k) \<longleftrightarrow> True"
| "slow (SlowCasFree k) \<longleftrightarrow> True"
| "slow (SlowDelay v k) \<longleftrightarrow> True"
| "slow _ \<longleftrightarrow> False"

fun pc_value_ok :: "pc \<Rightarrow> bool" where
  "pc_value_ok (SlowCheck v k) \<longleftrightarrow> v \<in> {kSpinLockFree, kSpinLockHeld, kSpinLockSleeper}"
| "pc_value_ok (SlowDelay v k) \<longleftrightarrow> v = kSpinLockSleeper"
| "pc_value_ok _ \<longleftrightarrow> True"

lemma thread_step_value_ok:
  assumes "thread_step spin q m q' m'" "m \<in> {kSpinLockFree, kSpinLockHeld, kSpinLockSleeper}" "pc_value_ok q"
  shows "pc_value_ok q'"
  using assms by cases (auto simp: step_defs split: if_splits)

lemma thread_step_slow:
  "thread_step spin q m q' m' \<Longrightarrow> slow q \<Longrightarrow> m' = kSpinLockSleeper \<or> slow q'"
  by (erule thread_step.cases) (auto simp: step_defs split: if_splits)

lemma thread_step_sleeper:
  "thread_step spin q kSpinLockSleeper q' m' \<Longrightarrow> m' = kSpinLockSleeper \<or> q' = UnlockWake"
  by (erule thread_step.cases) (auto simp: step_defs split: if_splits)

definition helper :: "futex_state \<Rightarrow> nat \<Rightarrow> bool" where
  "helper s u \<longleftrightarrow> \<not> asleep s u \<and> (lk_pc s u = UnlockWake \<or> slow (lk_pc s u))"

definition queue_ok :: "spin_globals \<Rightarrow> futex_state \<Rightarrow> bool" where
  "queue_ok g s \<longleftrightarrow> distinct (map snd (fx_queue s)) \<and> fst ` set (fx_queue s) \<subseteq> {g_futex_private_flag g} \<and>
     (\<forall>t. asleep s t \<longrightarrow> (\<exists>k. lk_pc s t = SlowDelay kSpinLockSleeper k))"

definition wake_inv :: "futex_state \<Rightarrow> bool" where
  "wake_inv s \<longleftrightarrow> (fx_queue s \<noteq> [] \<longrightarrow> lk_word s = kSpinLockSleeper \<or> (\<exists>u. helper s u))"

definition futex_inv :: "spin_globals \<Rightarrow> futex_state \<Rightarrow> bool" where
  "futex_inv g s \<longleftrightarrow> (\<forall>t. pc_value_ok (lk_pc s t)) \<and> queue_ok g s \<and> wake_inv s"

lemma asleep_simps [simp]:
  "asleep (s\<lparr>lk_word := m\<rparr>) u = asleep s u" "asleep (s\<lparr>lk_pc := pcs\<rparr>) u = asleep s u"
  "asleep (s\<lparr>fx_queue := q\<rparr>) u \<longleftrightarrow> u \<in> snd ` set q"
  by (simp_all add: asleep_def)

lemma futex_wake_none [simp]: "futex_wake flag 0 q = ([], q)"
  by (cases q) auto

lemma futex_wake_one:
  "fst ` set q \<subseteq> {flag} \<Longrightarrow> futex_wake flag 1 q = (case q of [] \<Rightarrow> ([], []) | x # q \<Rightarrow> ([snd x], q))"
  by (cases q) auto

lemma futex_inv_word: "futex_inv g s \<Longrightarrow> asleep s u \<Longrightarrow> \<exists>k. lk_pc s u = SlowDelay kSpinLockSleeper k"
  by (simp add: futex_inv_def queue_ok_def)

lemma atomic_inv:
  assumes inv: "futex_inv g s" and m: "lk_word s \<in> {kSpinLockFree, kSpinLockHeld, kSpinLockSleeper}"
    and t: "\<not> in_kernel (lk_pc s t)" "thread_step spin (lk_pc s t) (lk_word s) q m"
  shows "futex_inv g (s\<lparr>lk_word := m, lk_pc := (lk_pc s)(t := q)\<rparr>)" (is "futex_inv g ?s")
proof -
  have awake: "\<not> asleep s t" using futex_inv_word [OF inv] t(1) by fastforce
  have "pc_value_ok q" using thread_step_value_ok [OF t(2) m] inv by (simp add: futex_inv_def)
  moreover have "queue_ok g ?s" using inv awake by (auto simp: futex_inv_def queue_ok_def)
  moreover have "wake_inv ?s"
    unfolding wake_inv_def
  proof
    assume "fx_queue ?s \<noteq> []"
    then consider "lk_word s = kSpinLockSleeper" | u where "helper s u" "u = t" | u where "helper s u" "u \<noteq> t"
      using inv by (auto simp: futex_inv_def wake_inv_def)
    then show "lk_word ?s = kSpinLockSleeper \<or> (\<exists>u. helper ?s u)"
    proof cases
      case 1
      then have "m = kSpinLockSleeper \<or> q = UnlockWake" using t(2) thread_step_sleeper by simp
      then show ?thesis using awake by (auto simp: helper_def)
    next
      case 2
      then have "slow (lk_pc s t)" using t(1) by (auto simp: helper_def)
      with t(2) have "m = kSpinLockSleeper \<or> slow q" by (rule thread_step_slow)
      then show ?thesis using awake by (auto simp: helper_def)
    next
      case 3
      then show ?thesis by (auto simp: helper_def)
    qed
  qed
  ultimately show ?thesis using inv by (simp add: futex_inv_def)
qed

lemma slow_delay_end: "slow q \<Longrightarrow> slow (delay_end g q)" by (cases q) simp_all
lemma value_delay_end: "pc_value_ok q \<Longrightarrow> pc_value_ok (delay_end g q)" by (cases q) simp_all

text \<open>A thread that is not asleep and leaves the delay, or was asleep and is taken off the queue.\<close>

lemma leave_inv:
  assumes inv: "futex_inv g s" and t: "lk_pc s t = SlowDelay v k"
    and q: "q = filter (\<lambda>x. snd x \<noteq> t) (fx_queue s)"
  shows "futex_inv g (s\<lparr>lk_pc := (lk_pc s)(t := delay_end g (lk_pc s t)), fx_queue := q\<rparr>)" (is "futex_inv g ?s")
proof -
  have "helper ?s t" using t by (auto simp: helper_def q)
  then have "wake_inv ?s" by (auto simp: wake_inv_def)
  moreover have "queue_ok g ?s" using inv
    by (auto simp: futex_inv_def queue_ok_def q asleep_def distinct_map_filter)
  ultimately show ?thesis using inv by (simp add: futex_inv_def value_delay_end)
qed

lemma queue_same: "\<not> asleep s t \<Longrightarrow> filter (\<lambda>x. snd x \<noteq> t) (fx_queue s) = fx_queue s"
  by (auto simp: asleep_def intro: filter_True)

lemma delay_inv:
  assumes inv: "futex_inv g s" and t: "lk_pc s t = SlowDelay v k" "\<not> asleep s t"
  shows "futex_inv g (SpinLockDelay_futex g t v k s)"
proof -
  have "futex_inv g (s\<lparr>lk_pc := (lk_pc s)(t := delay_end g (lk_pc s t))\<rparr>)"
    using leave_inv [OF inv t(1) refl, unfolded queue_same [OF t(2)]] by simp
  moreover have "futex_inv g s'" if "futex_wait (g_futex_private_flag g) v t s = Some s'" for s'
  proof -
    have v: "v = kSpinLockSleeper" using inv t(1) by (metis futex_inv_def pc_value_ok.simps(2))
    with that have s': "s' = s\<lparr>fx_queue := fx_queue s @ [(g_futex_private_flag g, t)]\<rparr>" "lk_word s = kSpinLockSleeper"
      by (auto simp: futex_wait_def split: if_splits)
    have "queue_ok g s'" using inv t v by (auto simp: s'(1) futex_inv_def queue_ok_def asleep_def)
    then show ?thesis using inv s' by (simp add: futex_inv_def wake_inv_def)
  qed
  ultimately show ?thesis by (auto simp: SpinLockDelay_futex_def Let_def split: option.splits)
qed

lemma wake_step_inv:
  assumes inv: "futex_inv g s" and t: "lk_pc s t = UnlockWake" and q: "\<not> g_have_futex g \<longrightarrow> fx_queue s = []"
  shows "futex_inv g (SlowUnlock g t s)"
proof (cases "fx_queue s")
  case Nil
  then show ?thesis using inv
    by (auto simp: SlowUnlock_def SpinLockWake_def futex_inv_def queue_ok_def wake_inv_def wake_threads_def asleep_def)
next
  case (Cons x xs)
  obtain f u where x: "x = (f, u)" by (cases x)
  have have_futex: "g_have_futex g" using q Cons by auto
  have ok: "queue_ok g s" using inv by (simp add: futex_inv_def)
  then have u: "\<exists>k. lk_pc s u = SlowDelay kSpinLockSleeper k" "u \<noteq> t" "u \<notin> snd ` set xs"
    using Cons x t by (auto simp: queue_ok_def asleep_def)
  have "futex_wake (g_futex_private_flag g) (Suc 0) (fx_queue s) = ([u], xs)"
    using ok Cons x futex_wake_one [of "fx_queue s" "g_futex_private_flag g"] by (auto simp: queue_ok_def)
  then have s': "SlowUnlock g t s = s\<lparr>lk_pc := wake_threads g [u] ((lk_pc s)(t := Idle)), fx_queue := xs\<rparr>"
    by (simp add: SlowUnlock_def SpinLockWake_def have_futex)
  have "helper (SlowUnlock g t s) u" using u by (auto simp: s' helper_def wake_threads_def)
  then have "wake_inv (SlowUnlock g t s)" by (auto simp: wake_inv_def)
  moreover have "queue_ok g (SlowUnlock g t s)" using ok Cons x t
    by (auto simp: s' queue_ok_def asleep_def wake_threads_def)
  moreover have "pc_value_ok (lk_pc (SlowUnlock g t s) w)" for w
    using inv by (auto simp: s' futex_inv_def wake_threads_def value_delay_end)
  ultimately show ?thesis by (simp add: futex_inv_def)
qed

lemma queue_without_futex:
  "futex_reachable g s \<Longrightarrow> \<not> g_have_futex g \<Longrightarrow> fx_queue s = []"
proof (induction rule: futex_reachable.induct)
  case (step s t s')
  from step.hyps(2) step.IH step.prems show ?case
    by cases (auto simp: SpinLockDelay_futex_def SlowUnlock_def SpinLockWake_def Let_def)
next
  case (timeout s s')
  from timeout.hyps(2) timeout.IH timeout.prems show ?case by cases simp
qed (simp add: futex_init_def)

lemma futex_word:
  "futex_reachable g s \<Longrightarrow> lk_word s \<in> {kSpinLockFree, kSpinLockHeld, kSpinLockSleeper}"
  using reachable_inv [OF futex_refines_lock] by (auto simp: lock_inv_def)

lemma futex_inv_reachable: "futex_reachable g s \<Longrightarrow> futex_inv g s"
proof (induction rule: futex_reachable.induct)
  case start
  show ?case by (simp add: futex_inv_def futex_init_def queue_ok_def wake_inv_def asleep_def)
next
  case (step s t s')
  from step.hyps(2) show ?case
  proof cases
    case (atomic q m)
    then show ?thesis using atomic_inv [OF step.IH futex_word [OF step.hyps(1)]] by blast
  next
    case (delay v k)
    then show ?thesis using delay_inv [OF step.IH] by blast
  next
    case wake
    then show ?thesis using wake_step_inv [OF step.IH] queue_without_futex [OF step.hyps(1)] by blast
  qed
next
  case (timeout s s')
  from timeout.hyps(2) show ?case
  proof cases
    case (timeout t)
    then show ?thesis using futex_inv_word [OF timeout.IH] leave_inv [OF timeout.IH _ refl] by blast
  qed
qed

text \<open>Steps of a thread in the slow part of \<^verbatim>\<open>Lock\<close> at a free lock.\<close>

definition takes :: "spin_globals \<Rightarrow> nat \<Rightarrow> futex_state \<Rightarrow> bool" where
  "takes g u s \<longleftrightarrow> (\<exists>s'. (futex_step g u)\<^sup>*\<^sup>* s s' \<and> owns (lk_pc s' u) \<and> lk_word s' = kSpinLockSleeper)"

lemma takes_step: "futex_step g u s s' \<Longrightarrow> takes g u s' \<Longrightarrow> takes g u s"
  unfolding takes_def by (meson converse_rtranclp_into_rtranclp)

lemma takes_atomic:
  assumes "\<not> in_kernel (lk_pc s u)" "thread_step (g_adaptive_spin_count g) (lk_pc s u) (lk_word s) q m"
    and "takes g u (s\<lparr>lk_word := m, lk_pc := (lk_pc s)(u := q)\<rparr>)"
  shows "takes g u s"
  using takes_step [OF futex_step.atomic [OF assms(1,2)] assms(3)] .

lemma takes_cas:
  assumes "lk_word s = kSpinLockFree" "lk_pc s u = SpinCas k \<or> lk_pc s u = SlowCasFree k"
  shows "takes g u s"
proof (rule takes_atomic)
  show "\<not> in_kernel (lk_pc s u)" using assms by auto
  show "thread_step (g_adaptive_spin_count g) (lk_pc s u) (lk_word s) (SlowCheck kSpinLockFree k) kSpinLockSleeper"
    using assms by (auto intro!: thread_step.spin_cas thread_step.slow_cas_free simp: step_defs)
  show "takes g u (s\<lparr>lk_word := kSpinLockSleeper, lk_pc := (lk_pc s)(u := SlowCheck kSpinLockFree k)\<rparr>)"
    unfolding takes_def by (rule exI, rule conjI, rule rtranclp.rtrancl_refl) simp
qed

lemma takes_spin:
  assumes "lk_word s = kSpinLockFree" "lk_pc s u = SpinLoad c k"
  shows "takes g u s"
proof (rule takes_atomic)
  show "\<not> in_kernel (lk_pc s u)" using assms by auto
  show "thread_step (g_adaptive_spin_count g) (lk_pc s u) (lk_word s) (SpinCas k) kSpinLockFree"
    using thread_step.spin_load [of "g_adaptive_spin_count g" c k kSpinLockFree] assms by (simp add: step_defs)
  show "takes g u (s\<lparr>lk_word := kSpinLockFree, lk_pc := (lk_pc s)(u := SpinCas k)\<rparr>)"
    by (rule takes_cas [of _ _ k]) simp_all
qed

lemma takes_delay:
  assumes "lk_word s = kSpinLockFree" "lk_pc s u = SlowDelay kSpinLockSleeper k" "\<not> asleep s u"
  shows "takes g u s"
proof (rule takes_step [OF futex_step.delay [OF assms(2,3)]])
  have "SpinLockDelay_futex g u kSpinLockSleeper k s = s\<lparr>lk_pc := (lk_pc s)(u := SpinLoad (g_adaptive_spin_count g) k)\<rparr>"
    using assms by (simp add: SpinLockDelay_futex_def futex_wait_def Let_def)
  then show "takes g u (SpinLockDelay_futex g u kSpinLockSleeper k s)"
    using assms(1) by (auto intro: takes_spin)
qed

lemma takes_cas_held:
  assumes "lk_word s = kSpinLockFree" "lk_pc s u = SlowCasHeld k"
  shows "takes g u s"
proof (rule takes_atomic)
  show "\<not> in_kernel (lk_pc s u)" using assms by auto
  show "thread_step (g_adaptive_spin_count g) (lk_pc s u) (lk_word s) (SlowCasFree k) kSpinLockFree"
    using assms by (auto intro!: thread_step.slow_cas_held simp: step_defs)
  show "takes g u (s\<lparr>lk_word := kSpinLockFree, lk_pc := (lk_pc s)(u := SlowCasFree k)\<rparr>)"
    by (rule takes_cas [of _ _ k]) simp_all
qed

lemma takes_check:
  assumes "lk_word s = kSpinLockFree" "lk_pc s u = SlowCheck v k" "\<not> asleep s u"
    "v = kSpinLockHeld \<or> v = kSpinLockSleeper"
  shows "takes g u s"
proof (rule takes_atomic)
  show "\<not> in_kernel (lk_pc s u)" using assms by auto
  show "thread_step (g_adaptive_spin_count g) (lk_pc s u) (lk_word s) (SlowLock_check v k) (lk_word s)"
    using assms by (simp add: thread_step.slow_check)
  show "takes g u (s\<lparr>lk_word := lk_word s, lk_pc := (lk_pc s)(u := SlowLock_check v k)\<rparr>)"
    using assms(4)
  proof
    assume "v = kSpinLockHeld"
    with assms show ?thesis by (intro takes_cas_held [of _ _ k]) (simp_all add: step_defs)
  next
    assume "v = kSpinLockSleeper"
    with assms show ?thesis by (intro takes_delay [of _ _ "Suc k"]) (simp_all add: step_defs)
  qed
qed

lemma slow_takes:
  assumes "lk_word s = kSpinLockFree" "slow (lk_pc s u)" "pc_value_ok (lk_pc s u)" "\<not> asleep s u"
  shows "takes g u s"
  using assms takes_cas [of s u] takes_spin [of s u] takes_delay [of s u] takes_cas_held [of s u] takes_check [of s u]
  by (cases "lk_pc s u") auto

lemma wake_shortens:
  assumes "futex_inv g s" "g_have_futex g" "lk_pc s u = UnlockWake" "fx_queue s \<noteq> []"
  shows "\<exists>s'. futex_step g u s s' \<and> length (fx_queue s') < length (fx_queue s)"
proof -
  have "futex_wake (g_futex_private_flag g) (Suc 0) (fx_queue s) = ([snd (hd (fx_queue s))], tl (fx_queue s))"
    using assms(1,4) futex_wake_one [of "fx_queue s" "g_futex_private_flag g"]
    by (cases "fx_queue s") (auto simp: futex_inv_def queue_ok_def)
  then have "length (fx_queue (SlowUnlock g u s)) < length (fx_queue s)"
    using assms(2,4) by (simp add: SlowUnlock_def SpinLockWake_def)
  then show ?thesis using futex_step.wake [OF assms(3)] by blast
qed

text \<open>
  C19. No wake-up is lost, even if the timeouts of the sleeping threads never fire: whenever a
  thread sleeps in the kernel, the lock's word says so, or there is another thread, awake, that
  is about to wake one or is on its way through the slow part of \<^verbatim>\<open>Lock\<close>. If the lock is free
  then, some thread that is awake, by its own steps alone, takes a thread off the queue or
  takes the lock with the mark that makes its own unlocking wake one. Sleeping changes nothing
  about mutual exclusion.
\<close>

theorem spin_lock_no_lost_wakeup:
  assumes "futex_reachable g s" "asleep s t"
  shows "(\<forall>u w. owns (lk_pc s u) \<longrightarrow> owns (lk_pc s w) \<longrightarrow> u = w) \<and>
    (lk_word s = kSpinLockSleeper \<and> (\<exists>u. \<not> asleep s u \<and> owns (lk_pc s u)) \<or>
     (\<exists>u. \<not> asleep s u \<and> (lk_pc s u = UnlockWake \<or> slow (lk_pc s u)))) \<and>
    (lk_word s = kSpinLockFree \<longrightarrow>
       (\<exists>u s'. \<not> asleep s u \<and> (futex_step g u)\<^sup>*\<^sup>* s s' \<and>
          (length (fx_queue s') < length (fx_queue s) \<or> owns (lk_pc s' u) \<and> lk_word s' = kSpinLockSleeper)))"
proof -
  have inv: "futex_inv g s" by (rule futex_inv_reachable [OF assms(1)])
  have lock: "lock_inv (lock_of s)" by (rule reachable_inv [OF futex_refines_lock [OF assms(1)]])
  have q: "fx_queue s \<noteq> []" using assms(2) by (auto simp: asleep_def)
  have futex: "g_have_futex g" using queue_without_futex [OF assms(1)] q by blast
  have cases: "lk_word s = kSpinLockSleeper \<or> (\<exists>u. helper s u)" using inv q by (simp add: futex_inv_def wake_inv_def)
  have owner: "\<exists>u. \<not> asleep s u \<and> owns (lk_pc s u)" if word: "lk_word s = kSpinLockSleeper"
  proof -
    obtain u where "owns (lk_pc s u)" using lock word by (fastforce simp: lock_inv_def)
    then show ?thesis using futex_inv_word [OF inv, of u] by (intro exI [of _ u]) auto
  qed
  moreover have "\<exists>u s'. \<not> asleep s u \<and> (futex_step g u)\<^sup>*\<^sup>* s s' \<and>
      (length (fx_queue s') < length (fx_queue s) \<or> owns (lk_pc s' u) \<and> lk_word s' = kSpinLockSleeper)"
    if free: "lk_word s = kSpinLockFree"
  proof -
    from cases free obtain u where u: "\<not> asleep s u" "lk_pc s u = UnlockWake \<or> slow (lk_pc s u)" by (auto simp: helper_def)
    from u(2) show ?thesis
    proof
      assume "lk_pc s u = UnlockWake"
      with wake_shortens [OF inv futex _ q] u(1) show ?thesis by blast
    next
      assume "slow (lk_pc s u)"
      with slow_takes [OF free _ _ u(1), of g] inv u(1) show ?thesis by (auto simp: futex_inv_def takes_def)
    qed
  qed
  moreover have "owns (lk_pc s u) \<longrightarrow> owns (lk_pc s w) \<longrightarrow> u = w" for u w
    using lock by (auto simp: lock_inv_def split: if_splits)
  ultimately show ?thesis using cases unfolding helper_def by blast
qed

subsection \<open>An example\<close>

text \<open>The steps of a thread are determined; here they are as a function.\<close>

fun thread_next :: "int \<Rightarrow> pc \<Rightarrow> u32 \<Rightarrow> pc \<times> u32" where
  "thread_next spin Idle m = (LockCas, m)"
| "thread_next spin LockCas m = Lock_step spin m"
| "thread_next spin (SpinLoad c k) m = (SpinLoop_load c k m, m)"
| "thread_next spin (SpinCas k) m = SpinLoop_cas k m"
| "thread_next spin (SlowCheck v k) m = (SlowLock_check v k, m)"
| "thread_next spin (SlowCasHeld k) m = SlowLock_casHeld k m"
| "thread_next spin (SlowCasFree k) m = SlowLock_casFree k m"
| "thread_next spin (SlowDelay v k) m = (SpinLoad spin k, m)"
| "thread_next spin Critical m = (UnlockExchange, m)"
| "thread_next spin UnlockExchange m = Unlock_step m"
| "thread_next spin UnlockWake m = (Idle, m)"

lemma thread_next_step: "thread_step spin q m (fst (thread_next spin q m)) (snd (thread_next spin q m))"
  by (cases q) (auto intro: thread_step.intros)

definition futex_next :: "spin_globals \<Rightarrow> nat \<Rightarrow> futex_state \<Rightarrow> futex_state" where
  "futex_next g t s =
     (case lk_pc s t of
        SlowDelay v k \<Rightarrow> (if asleep s t then s else SpinLockDelay_futex g t v k s)
      | UnlockWake \<Rightarrow> SlowUnlock g t s
      | q \<Rightarrow> (case thread_next (g_adaptive_spin_count g) q (lk_word s) of
                (q, m) \<Rightarrow> s\<lparr>lk_word := m, lk_pc := (lk_pc s)(t := q)\<rparr>))"

lemma futex_next_reachable: "futex_reachable g s \<Longrightarrow> futex_reachable g (futex_next g t s)"
proof (cases "in_kernel (lk_pc s t)")
  case False
  have "futex_next g t s = s\<lparr>lk_word := snd (thread_next (g_adaptive_spin_count g) (lk_pc s t) (lk_word s)),
      lk_pc := (lk_pc s)(t := fst (thread_next (g_adaptive_spin_count g) (lk_pc s t) (lk_word s)))\<rparr>"
    using False by (cases "lk_pc s t") (simp_all add: futex_next_def case_prod_beta)
  then show "futex_reachable g s \<Longrightarrow> ?thesis"
    using futex_reachable.step [OF _ futex_step.atomic [OF False thread_next_step]] by simp
next
  case True
  then show "futex_reachable g s \<Longrightarrow> ?thesis"
    by (cases "lk_pc s t") (auto simp: futex_next_def intro: futex_reachable.step futex_step.delay futex_step.wake)
qed

fun futex_run :: "spin_globals \<Rightarrow> nat list \<Rightarrow> futex_state \<Rightarrow> futex_state" where
  "futex_run g [] s = s"
| "futex_run g (t # ts) s = futex_run g ts (futex_next g t s)"

lemma futex_run_reachable: "futex_reachable g s \<Longrightarrow> futex_reachable g (futex_run g ts s)"
  by (induction ts arbitrary: s) (simp_all add: futex_next_reachable)

text \<open>
  On one processor, thread 0 has the lock, thread 1 goes to sleep for it, and thread 0 has
  freed the lock and not yet made the call that wakes the sleeper.
\<close>

definition one_cpu :: machine_env where
  "one_cpu = \<lparr>cpu_count = 1, sys_futex = Some (\<lambda>_. 0)\<rparr>"

definition demo_globals :: spin_globals where
  "demo_globals = SpinLock_InitHelper one_cpu static_globals"

definition demo_order :: "nat list" where
  "demo_order = [0, 0, 1, 1, 1, 1, 1, 1, 1, 1, 1, 1, 1, 0, 0]"

lemma demo_globals_simp:
  "demo_globals = \<lparr>g_adaptive_spin_count = 0, g_have_futex = True, g_futex_private_flag = FUTEX_PRIVATE_FLAG\<rparr>"
  by (simp add: demo_globals_def SpinLock_InitHelper_def one_cpu_def static_globals_def SysFutex_def Let_def)

lemma demo_futex_run:
  "futex_run demo_globals demo_order futex_init =
     \<lparr>lk_word = kSpinLockFree, lk_pc = (\<lambda>t. Idle)(0 := UnlockWake, 1 := SlowDelay kSpinLockSleeper 2),
      fx_queue = [(FUTEX_PRIVATE_FLAG, 1)]\<rparr>"
  by (rule lock_state.equality)
    (auto simp: demo_globals_simp demo_order_def futex_init_def futex_next_def step_defs SpinLockDelay_futex_def futex_wait_def
      asleep_def fun_eq_iff)

theorem spin_lock_no_lost_wakeup_witness:
  "\<exists>s u. s = futex_run demo_globals demo_order futex_init \<and> asleep s 1 \<and> u \<noteq> 1 \<and> lk_pc s u = UnlockWake"
proof -
  define s where s: "s = futex_run demo_globals demo_order futex_init"
  have reach: "futex_reachable demo_globals s" unfolding s by (intro futex_run_reachable futex_reachable.start)
  have a: "asleep s 1" by (simp add: s demo_futex_run asleep_def)
  have "lk_word s \<noteq> kSpinLockSleeper" by (simp add: s demo_futex_run)
  with spin_lock_no_lost_wakeup [OF reach a] obtain u where u: "\<not> asleep s u" "lk_pc s u = UnlockWake \<or> slow (lk_pc s u)"
    by blast
  have "u \<noteq> 1" using u(1) a by metis
  moreover have "lk_pc s u \<in> {UnlockWake, Idle}" using \<open>u \<noteq> 1\<close> by (simp add: s demo_futex_run)
  ultimately show ?thesis using u(2) a s by auto
qed

end
