(* ===== verification/Singleton.thy ===== *)
theory Singleton
  imports Atomic
begin

text \<open>
  The reference-counted singleton that holds the engine, \<^verbatim>\<open>src/memhook/singleton.h\<close>, as a step
  relation between the thread that initialises and destroys it and \<open>n\<close> threads that call hooks.
  Each access to the pointer or the counter is a step. \<open>sg_bad_use\<close> records a use of the object
  after it was deleted.

  \<^verbatim>\<open>GetInstance\<close> reads the pointer twice, once to test it and once for the reset of the intrusive
  pointer, and then counts itself in: three steps, between which other threads may run.
\<close>

datatype getter = Outside | Tested | Loaded | Holding

datatype main_phase = Before | Created | Published | Ready | Destroying bool | Cleared bool | Finished

record singleton =
  sg_instance :: bool
  sg_refs :: u32
  sg_alive :: bool
  sg_initialised :: bool
  sg_destroyed :: nat
  sg_bad_use :: bool
  sg_main :: main_phase
  sg_getters :: "nat \<Rightarrow> getter"

definition singleton_init :: singleton where
  "singleton_init = \<lparr>sg_instance = False, sg_refs = 0, sg_alive = False, sg_initialised = False, sg_destroyed = 0,
     sg_bad_use = False, sg_main = Before, sg_getters = (\<lambda>_. Outside)\<rparr>"

subsection \<open>The operations\<close>

definition use_object :: "singleton \<Rightarrow> singleton" where
  "use_object s = s\<lparr>sg_bad_use := sg_bad_use s \<or> \<not> sg_alive s\<rparr>"

definition intrusive_ptr_add_ref :: "singleton \<Rightarrow> singleton" where
  "intrusive_ptr_add_ref s =
     (let (_, refs) = gcc_AtomicFetchAndAdd 1 (sg_refs s) in (use_object s)\<lparr>sg_refs := refs\<rparr>)"

definition intrusive_ptr_release :: "singleton \<Rightarrow> singleton" where
  "intrusive_ptr_release s =
     (let (r, refs) = gcc_AtomicAddAndFetch (- 1) (sg_refs s);
          s = (use_object s)\<lparr>sg_refs := refs\<rparr>
      in if r = 0 then s\<lparr>sg_alive := False, sg_destroyed := Suc (sg_destroyed s)\<rparr> else s)"

definition go :: "nat \<Rightarrow> getter \<Rightarrow> singleton \<Rightarrow> singleton" where
  "go i g s = s\<lparr>sg_getters := (sg_getters s)(i := g)\<rparr>"

text \<open>\<^verbatim>\<open>GetInstance\<close>: the test, the second read, and the reference.\<close>

definition GetInstance_test :: "nat \<Rightarrow> singleton \<Rightarrow> singleton" where
  "GetInstance_test i s = (if sg_instance s then go i Tested s else s)"

definition GetInstance_load :: "nat \<Rightarrow> singleton \<Rightarrow> singleton" where
  "GetInstance_load i s = (if sg_instance s then go i Loaded s else go i Outside s)"

definition GetInstance_ref :: "nat \<Rightarrow> singleton \<Rightarrow> singleton" where
  "GetInstance_ref i s = go i Holding (intrusive_ptr_add_ref s)"

text \<open>\<^verbatim>\<open>Initialize\<close>: the new object with its first reference, the pointer, \<^verbatim>\<open>OnInitialize\<close>.\<close>

definition Initialize_new :: "singleton \<Rightarrow> singleton" where
  "Initialize_new s = (intrusive_ptr_add_ref (s\<lparr>sg_alive := True\<rparr>))\<lparr>sg_main := Created\<rparr>"

definition Initialize_publish :: "singleton \<Rightarrow> singleton" where
  "Initialize_publish s = s\<lparr>sg_instance := True, sg_main := Published\<rparr>"

definition Initialize_object :: "singleton \<Rightarrow> singleton" where
  "Initialize_object s = (use_object s)\<lparr>sg_initialised := True, sg_main := Ready\<rparr>"

text \<open>\<^verbatim>\<open>Destroy\<close>: the pointer is read, cleared, and released if it was not null.\<close>

definition Destroy_load :: "singleton \<Rightarrow> singleton" where
  "Destroy_load s = s\<lparr>sg_main := Destroying (sg_instance s)\<rparr>"

definition Destroy_clear :: "bool \<Rightarrow> singleton \<Rightarrow> singleton" where
  "Destroy_clear p s = s\<lparr>sg_instance := False, sg_main := Cleared p\<rparr>"

definition Destroy_release :: "bool \<Rightarrow> singleton \<Rightarrow> singleton" where
  "Destroy_release p s = (if p then intrusive_ptr_release s else s)\<lparr>sg_main := Finished\<rparr>"

subsection \<open>Steps\<close>

inductive sg_step :: "nat \<Rightarrow> singleton \<Rightarrow> singleton \<Rightarrow> bool" for n where
  test: "i < n \<Longrightarrow> sg_getters s i = Outside \<Longrightarrow> sg_step n s (GetInstance_test i s)"
| load: "i < n \<Longrightarrow> sg_getters s i = Tested \<Longrightarrow> sg_step n s (GetInstance_load i s)"
| ref: "i < n \<Longrightarrow> sg_getters s i = Loaded \<Longrightarrow> sg_step n s (GetInstance_ref i s)"
| hook: "i < n \<Longrightarrow> sg_getters s i = Holding \<Longrightarrow> sg_step n s (use_object s)"
| release: "i < n \<Longrightarrow> sg_getters s i = Holding \<Longrightarrow> sg_step n s (go i Outside (intrusive_ptr_release s))"
| new: "sg_main s = Before \<Longrightarrow> sg_step n s (Initialize_new s)"
| publish: "sg_main s = Created \<Longrightarrow> sg_step n s (Initialize_publish s)"
| initialise: "sg_main s = Published \<Longrightarrow> sg_step n s (Initialize_object s)"
| destroy: "sg_main s = Ready \<Longrightarrow> sg_step n s (Destroy_load s)"
| clear: "sg_main s = Destroying p \<Longrightarrow> sg_step n s (Destroy_clear p s)"
| destroy_release: "sg_main s = Cleared p \<Longrightarrow> sg_step n s (Destroy_release p s)"

inductive sg_reachable :: "nat \<Rightarrow> singleton \<Rightarrow> bool" for n where
  start: "sg_reachable n singleton_init"
| more: "sg_reachable n s \<Longrightarrow> sg_step n s s' \<Longrightarrow> sg_reachable n s'"

text \<open>
  The executions in which the end of the process does not come upon a hook between its second
  read of the pointer and its counting itself in: when the singleton gives up its reference,
  no thread is there. A process that joins its threads before it ends is of this kind; hooks
  may still hold the engine.
\<close>

inductive sg_orderly :: "nat \<Rightarrow> singleton \<Rightarrow> bool" for n where
  start: "sg_orderly n singleton_init"
| more: "sg_orderly n s \<Longrightarrow> sg_step n s s' \<Longrightarrow>
    (sg_main s \<noteq> Finished \<and> sg_main s' = Finished \<longrightarrow> (\<forall>i. sg_getters s i \<noteq> Loaded)) \<Longrightarrow> sg_orderly n s'"

subsection \<open>The count\<close>

definition holders :: "(nat \<Rightarrow> getter) \<Rightarrow> nat set" where
  "holders gs = {i. gs i = Holding}"

text \<open>The reference of the singleton itself.\<close>

fun own_ref :: "main_phase \<Rightarrow> nat" where
  "own_ref Before = 0" | "own_ref Finished = 0" | "own_ref _ = 1"

fun may_publish :: "main_phase \<Rightarrow> bool" where
  "may_publish Published = True" | "may_publish Ready = True" | "may_publish (Destroying p) = p" | "may_publish _ = False"

fun phase_ok :: "main_phase \<Rightarrow> bool" where
  "phase_ok (Destroying p) = p" | "phase_ok (Cleared p) = p" | "phase_ok _ = True"

definition sg_inv :: "nat \<Rightarrow> singleton \<Rightarrow> bool" where
  "sg_inv n s \<longleftrightarrow>
     \<not> sg_bad_use s \<and> phase_ok (sg_main s) \<and>
     (\<forall>i. n \<le> i \<longrightarrow> sg_getters s i = Outside) \<and>
     (\<forall>i. sg_getters s i = Loaded \<longrightarrow> own_ref (sg_main s) = 1) \<and>
     (sg_instance s \<longleftrightarrow> may_publish (sg_main s)) \<and>
     unat (sg_refs s) = card (holders (sg_getters s)) + own_ref (sg_main s) \<and>
     (sg_alive s \<longleftrightarrow> 0 < card (holders (sg_getters s)) + own_ref (sg_main s)) \<and>
     (sg_main s = Before \<longrightarrow> card (holders (sg_getters s)) = 0) \<and>
     sg_destroyed s = (if sg_main s \<noteq> Before \<and> \<not> sg_alive s then 1 else 0)"

lemmas sg_ops = use_object_def intrusive_ptr_add_ref_def intrusive_ptr_release_def go_def gcc_AtomicFetchAndAdd_def
  gcc_AtomicAddAndFetch_def GetInstance_test_def GetInstance_load_def GetInstance_ref_def Initialize_new_def
  Initialize_publish_def Initialize_object_def Destroy_load_def Destroy_clear_def Destroy_release_def Let_def

lemma holders_upd [simp]: "holders (gs(i := g)) = (if g = Holding then insert i (holders gs) else holders gs - {i})"
  by (auto simp: holders_def)

lemma holders_below:
  assumes "sg_inv n s" shows "holders (sg_getters s) \<subseteq> {..<n}"
proof -
  have "i < n" if "sg_getters s i = Holding" for i
    using assms that unfolding sg_inv_def by (metis getter.distinct(5) linorder_not_le)
  then show ?thesis by (auto simp: holders_def)
qed

lemma holders_bound:
  assumes "sg_inv n s" shows "finite (holders (sg_getters s))" "card (holders (sg_getters s)) \<le> n"
  using holders_below [OF assms] finite_subset [of "holders (sg_getters s)" "{..<n}"]
    card_mono [of "{..<n}" "holders (sg_getters s)"] by auto

lemma unat_inc: "unat (w :: u32) + 1 < 2 ^ 32 \<Longrightarrow> unat (w + 1) = unat w + 1"
  by (simp add: unat_word_ariths)

lemma unat_dec: "0 < unat (w :: u32) \<Longrightarrow> unat (w + - 1) = unat w - 1"
  by (simp add: unat_minus_one word_neq_0_conv unat_gt_0)

text \<open>The two changes of the count that a thread makes, and the one of the destruction.\<close>

lemma ref_inv:
  assumes "sg_inv n s" "i < n" "n + 1 < 2 ^ 32" "sg_getters s i = Loaded"
  shows "sg_inv n (GetInstance_ref i s)"
proof -
  note b = holders_bound [OF assms(1)]
  have own: "own_ref (sg_main s) = 1" using assms(1,4) unfolding sg_inv_def by blast
  then have "sg_main s \<noteq> Before" by auto
  note own = own this
  have "i \<notin> holders (sg_getters s)" using assms(4) by (simp add: holders_def)
  with b have c: "card (insert i (holders (sg_getters s))) = Suc (card (holders (sg_getters s)))" by simp
  have "card (insert i (holders (sg_getters s))) \<le> card {..<n}"
    using holders_below [OF assms(1)] assms(2) by (intro card_mono) auto
  then have "card (holders (sg_getters s)) < n" using c by simp
  then have "unat (sg_refs s + 1) = unat (sg_refs s) + 1" using assms(1,3) own(1) by (intro unat_inc) (simp add: sg_inv_def)
  with assms own c show ?thesis by (auto simp: sg_inv_def sg_ops)
qed

lemma release_inv:
  assumes "sg_inv n s" "sg_getters s i = Holding"
  shows "sg_inv n (go i Outside (intrusive_ptr_release s))"
proof -
  note b = holders_bound [OF assms(1)]
  have i: "i \<in> holders (sg_getters s)" using assms(2) by (simp add: holders_def)
  with b have c: "card (holders (sg_getters s)) = Suc (card (holders (sg_getters s) - {i}))" by (metis card_Suc_Diff1)
  have u: "unat (sg_refs s + - 1) = card (holders (sg_getters s) - {i}) + own_ref (sg_main s)"
    using assms(1) c by (subst unat_dec) (auto simp: sg_inv_def)
  then have z: "sg_refs s + - 1 = 0 \<longleftrightarrow> card (holders (sg_getters s) - {i}) + own_ref (sg_main s) = 0"
    by (metis unat_eq_zero)
  from assms(1) c have m: "sg_main s \<noteq> Before" "sg_alive s" "sg_destroyed s = 0" "\<not> sg_bad_use s" by (auto simp: sg_inv_def)
  with assms(1) u z show ?thesis by (auto simp: sg_inv_def sg_ops)
qed

lemma destroy_release_inv:
  assumes "sg_inv n s" "sg_main s = Cleared p" "\<forall>i. sg_getters s i \<noteq> Loaded"
  shows "sg_inv n (Destroy_release p s)"
proof -
  have p: p using assms by (auto simp: sg_inv_def)
  have u: "unat (sg_refs s + - 1) = card (holders (sg_getters s))"
    using assms by (subst unat_dec) (auto simp: sg_inv_def)
  then have z: "sg_refs s + - 1 = 0 \<longleftrightarrow> card (holders (sg_getters s)) = 0" by (metis unat_eq_zero)
  from assms have m: "sg_alive s" "sg_destroyed s = 0" "\<not> sg_bad_use s" by (auto simp: sg_inv_def)
  from assms m u z p show ?thesis by (auto simp: sg_inv_def sg_ops)
qed

lemma new_inv:
  assumes "sg_inv n s" "sg_main s = Before"
  shows "sg_inv n (Initialize_new s)"
proof -
  from assms have h: "card (holders (sg_getters s)) = 0" "unat (sg_refs s) = 0" by (auto simp: sg_inv_def)
  then have "unat (sg_refs s + 1) = 1" by (subst unat_inc) auto
  with assms h show ?thesis by (auto simp: sg_inv_def sg_ops)
qed

lemma idle_inv:
  assumes "sg_inv n s" "sg_getters s i \<noteq> Holding" "g = Outside \<or> i < n \<and> (g = Tested \<or> g = Loaded \<and> own_ref (sg_main s) = 1)"
  shows "sg_inv n (go i g s)"
proof -
  have "holders ((sg_getters s)(i := g)) = holders (sg_getters s)" using assms(2,3) by (auto simp: holders_def)
  with assms show ?thesis by (auto simp: sg_inv_def go_def)
qed

lemma hook_inv:
  assumes "sg_inv n s" "sg_getters s i = Holding"
  shows "use_object s = s"
proof -
  have "i \<in> holders (sg_getters s)" using assms(2) by (simp add: holders_def)
  with holders_bound(1) [OF assms(1)] have "0 < card (holders (sg_getters s))" by (auto simp: card_gt_0_iff)
  with assms(1) show ?thesis by (simp add: sg_inv_def use_object_def)
qed

lemma orderly_step_inv:
  assumes "sg_step n s s'" "sg_inv n s" "n + 1 < 2 ^ 32"
    "sg_main s \<noteq> Finished \<and> sg_main s' = Finished \<longrightarrow> (\<forall>i. sg_getters s i \<noteq> Loaded)"
  shows "sg_inv n s'"
  using assms(1)
proof cases
  case (test i)
  with assms(2) idle_inv [of n s i Tested] show ?thesis by (simp add: GetInstance_test_def)
next
  case (load i)
  have "sg_instance s \<Longrightarrow> own_ref (sg_main s) = 1" using assms(2) by (cases "sg_main s") (auto simp: sg_inv_def)
  with load assms(2) idle_inv [of n s i Loaded] idle_inv [of n s i Outside] show ?thesis by (simp add: GetInstance_load_def)
next
  case (ref i)
  with ref_inv [OF assms(2) _ assms(3)] show ?thesis by simp
next
  case (hook i)
  with hook_inv assms(2) show ?thesis by simp
next
  case (release i)
  with release_inv assms(2) show ?thesis by simp
next
  case new
  with new_inv assms(2) show ?thesis by simp
next
  case publish
  with assms(2) show ?thesis by (auto simp: sg_inv_def sg_ops)
next
  case initialise
  with assms(2) show ?thesis by (auto simp: sg_inv_def sg_ops)
next
  case destroy
  with assms(2) show ?thesis by (auto simp: sg_inv_def sg_ops)
next
  case (clear p)
  with assms(2) show ?thesis by (auto simp: sg_inv_def sg_ops)
next
  case (destroy_release p)
  then have "\<forall>i. sg_getters s i \<noteq> Loaded" using assms(4) by (simp add: Destroy_release_def)
  with destroy_release destroy_release_inv assms(2) show ?thesis by simp
qed

lemma sg_orderly_inv: "sg_orderly n s \<Longrightarrow> n + 1 < 2 ^ 32 \<Longrightarrow> sg_inv n s"
proof (induction rule: sg_orderly.induct)
  case start
  show ?case by (simp add: sg_inv_def singleton_init_def holders_def)
next
  case (more s s')
  then show ?case using orderly_step_inv by blast
qed

lemma sg_orderly_reachable: "sg_orderly n s \<Longrightarrow> sg_reachable n s"
  by (induction rule: sg_orderly.induct) (auto intro: sg_reachable.intros)

text \<open>
  C29. The engine is destroyed once, and only when nobody uses it, as long as the end of the
  process does not come upon a hook between its reading the pointer and its counting itself in
  (\<open>sg_orderly\<close>): in every such interleaving of the hooks of any number of threads with
  initialisation and destruction, step by step as in the code, no deleted object is used, the
  counter is the number of hooks that hold the engine plus the reference of the singleton, and
  the engine has been destroyed, exactly once, if and only if the singleton has given up its
  reference and no hook holds one.
\<close>

theorem singleton_destroyed_once:
  assumes "sg_orderly n s" and "n + 1 < 2 ^ 32"
  shows "\<not> sg_bad_use s \<and>
    unat (sg_refs s) = card {i. sg_getters s i = Holding} + own_ref (sg_main s) \<and>
    sg_destroyed s = (if sg_main s = Finished \<and> (\<forall>i. sg_getters s i \<noteq> Holding) then 1 else 0)"
proof -
  have inv: "sg_inv n s" by (rule sg_orderly_inv [OF assms])
  then have "\<not> sg_bad_use s" "unat (sg_refs s) = card (holders (sg_getters s)) + own_ref (sg_main s)"
    by (simp_all add: sg_inv_def)
  moreover have "card (holders (sg_getters s)) = 0 \<longleftrightarrow> (\<forall>i. sg_getters s i \<noteq> Holding)"
    using holders_bound(1) [OF inv] by (auto simp: holders_def)
  with inv have "sg_destroyed s = (if sg_main s = Finished \<and> (\<forall>i. sg_getters s i \<noteq> Holding) then 1 else 0)"
    by (cases "sg_main s") (auto simp: sg_inv_def)
  ultimately show ?thesis by (simp add: holders_def)
qed

subsection \<open>Executions\<close>

definition ready_state :: singleton where
  "ready_state = Initialize_object (Initialize_publish (Initialize_new singleton_init))"

text \<open>A hook that holds the engine while it is destroyed.\<close>

definition held_state :: singleton where
  "held_state = GetInstance_ref 0 (GetInstance_load 0 (GetInstance_test 0 ready_state))"

definition orphan_state :: singleton where
  "orphan_state = Destroy_release True (Destroy_clear True (Destroy_load held_state))"

lemmas sg_states = ready_state_def held_state_def orphan_state_def singleton_init_def

lemma published_orderly: "sg_orderly n (Initialize_publish (Initialize_new singleton_init))"
proof -
  have "sg_orderly n (Initialize_new singleton_init)"
    by (rule sg_orderly.more [OF sg_orderly.start sg_step.new]) (simp_all add: singleton_init_def sg_ops)
  then show ?thesis by (rule sg_orderly.more [OF _ sg_step.publish]) (simp_all add: sg_ops)
qed

lemma get_orderly:
  assumes "sg_orderly n s" "i < n" "sg_getters s i = Outside" "sg_instance s" "sg_main s \<noteq> Finished"
  shows "sg_orderly n (GetInstance_load i (GetInstance_test i s))"
    "sg_orderly n (GetInstance_ref i (GetInstance_load i (GetInstance_test i s)))"
proof -
  have "sg_orderly n (GetInstance_test i s)"
    by (rule sg_orderly.more [OF assms(1) sg_step.test]) (use assms in \<open>simp_all add: sg_ops\<close>)
  then show l: "sg_orderly n (GetInstance_load i (GetInstance_test i s))"
    by (rule sg_orderly.more [OF _ sg_step.load]) (use assms in \<open>simp_all add: sg_ops\<close>)
  show "sg_orderly n (GetInstance_ref i (GetInstance_load i (GetInstance_test i s)))"
    by (rule sg_orderly.more [OF l sg_step.ref]) (use assms in \<open>simp_all add: sg_ops\<close>)
qed

lemma ready_orderly: "sg_orderly n ready_state"
  unfolding ready_state_def
  by (rule sg_orderly.more [OF published_orderly sg_step.initialise]) (simp_all add: sg_ops)

lemma held_orderly: "sg_orderly 1 held_state"
  unfolding held_state_def by (rule get_orderly(2) [OF ready_orderly]) (simp_all add: sg_states sg_ops)

lemma orphan_orderly: "sg_orderly 1 orphan_state"
proof -
  have "sg_orderly 1 (Destroy_load held_state)"
    by (rule sg_orderly.more [OF held_orderly sg_step.destroy]) (simp_all add: sg_states sg_ops)
  then have "sg_orderly 1 (Destroy_clear True (Destroy_load held_state))"
    by (rule sg_orderly.more [OF _ sg_step.clear]) (simp_all add: sg_states sg_ops)
  then show ?thesis unfolding orphan_state_def
    by (rule sg_orderly.more [OF _ sg_step.destroy_release]) (simp_all add: sg_states sg_ops)
qed

lemma released_orderly: "sg_orderly 1 (go 0 Outside (intrusive_ptr_release orphan_state))"
  by (rule sg_orderly.more [OF orphan_orderly sg_step.release]) (simp_all add: sg_states sg_ops)

theorem singleton_destroyed_once_witness:
  "sg_orderly 1 orphan_state \<and> sg_main orphan_state = Finished \<and> sg_destroyed orphan_state = 0 \<and>
   sg_orderly 1 (go 0 Outside (intrusive_ptr_release orphan_state)) \<and>
   sg_destroyed (go 0 Outside (intrusive_ptr_release orphan_state)) = 1"
proof -
  have h: "sg_main orphan_state = Finished" "sg_getters orphan_state = (\<lambda>_. Outside)(0 := Holding)"
    by (simp_all add: sg_states sg_ops)
  from h(2) have "\<not> (\<forall>i. sg_getters orphan_state i \<noteq> Holding)" by (auto intro!: exI [of _ 0])
  with singleton_destroyed_once [OF orphan_orderly] have "sg_destroyed orphan_state = 0" by simp
  moreover have "sg_main (go 0 Outside (intrusive_ptr_release orphan_state)) = Finished"
    "\<forall>i. sg_getters (go 0 Outside (intrusive_ptr_release orphan_state)) i \<noteq> Holding"
    using h by (simp_all add: go_def intrusive_ptr_release_def use_object_def Let_def gcc_AtomicAddAndFetch_def)
  with singleton_destroyed_once [OF released_orderly]
  have "sg_destroyed (go 0 Outside (intrusive_ptr_release orphan_state)) = 1" by simp
  ultimately show ?thesis using h(1) orphan_orderly released_orderly by blast
qed

text \<open>
  C40. As the code has it, the singleton is not safe between threads: a thread that has read the
  pointer and not yet counted itself in takes its reference from an engine that the end of the
  process has deleted meanwhile; and a hook can hold the engine before the engine is
  initialised, since the pointer is published first.
\<close>

theorem singleton_races:
  "(\<exists>s. sg_reachable 1 s \<and> sg_bad_use s) \<and>
   (\<exists>s. sg_reachable 1 s \<and> sg_getters s 0 = Holding \<and> \<not> sg_initialised s)"
proof
  let ?l = "GetInstance_load 0 (GetInstance_test 0 ready_state)"
  have "sg_orderly 1 ?l" by (rule get_orderly(1) [OF ready_orderly]) (simp_all add: sg_states sg_ops)
  then have "sg_reachable 1 ?l" by (rule sg_orderly_reachable)
  then have "sg_reachable 1 (Destroy_load ?l)"
    by (rule sg_reachable.more [OF _ sg_step.destroy]) (simp add: sg_states sg_ops)
  then have "sg_reachable 1 (Destroy_clear True (Destroy_load ?l))"
    by (rule sg_reachable.more [OF _ sg_step.clear]) (simp add: sg_states sg_ops)
  then have "sg_reachable 1 (Destroy_release True (Destroy_clear True (Destroy_load ?l)))" (is "sg_reachable 1 ?d")
    by (rule sg_reachable.more [OF _ sg_step.destroy_release]) (simp add: sg_states sg_ops)
  then have "sg_reachable 1 (GetInstance_ref 0 ?d)"
    by (rule sg_reachable.more [OF _ sg_step.ref]) (simp_all add: sg_states sg_ops)
  moreover have "sg_bad_use (GetInstance_ref 0 ?d)" by (simp add: sg_states sg_ops)
  ultimately show "\<exists>s. sg_reachable 1 s \<and> sg_bad_use s" by blast
  let ?p = "Initialize_publish (Initialize_new singleton_init)"
  let ?h = "GetInstance_ref 0 (GetInstance_load 0 (GetInstance_test 0 ?p))"
  have "sg_orderly 1 ?h" by (rule get_orderly(2) [OF published_orderly]) (simp_all add: sg_states sg_ops)
  then have "sg_reachable 1 ?h" by (rule sg_orderly_reachable)
  moreover have "sg_getters ?h 0 = Holding" "\<not> sg_initialised ?h" by (simp_all add: sg_states sg_ops)
  ultimately show "\<exists>s. sg_reachable 1 s \<and> sg_getters s 0 = Holding \<and> \<not> sg_initialised s" by blast
qed

end
