(* ===== verification/Interruptible_Thread.thy ===== *)
theory Interruptible_Thread
  imports Atomic
begin

text \<open>
  Threads, \<^verbatim>\<open>src/memhook/thread.h\<close> and \<^verbatim>\<open>.cpp\<close>: creating and joining a thread, the routine that
  runs in it, and, as a step relation, a thread that sleeps (\<^verbatim>\<open>SleepUntil\<close>) while another one
  interrupts it (\<^verbatim>\<open>Interrupt\<close>). Waiting on a condition variable releases the mutex and blocks
  in one step; a waiting thread is woken by a broadcast, by the deadline, or for no reason,
  and then has to take the mutex again.
\<close>

subsection \<open>Creating and joining\<close>

text \<open>A runnable is a function of the thread's private state; 0 is no thread.\<close>

record 'w Thread =
  m_thread :: nat
  m_runnable :: "('w \<Rightarrow> addr \<times> 'w) option"

definition new_Thread :: "'w Thread" where
  "new_Thread = \<lparr>m_thread = 0, m_runnable = None\<rparr>"

text \<open>A failed assertion or a failed call ends the process, which is \<open>None\<close>.\<close>

definition Thread_end :: "'w Thread \<Rightarrow> unit option" where
  "Thread_end t = (if m_thread t = 0 then Some () else None)"

definition Thread_Create :: "nat option \<Rightarrow> ('w \<Rightarrow> addr \<times> 'w) option \<Rightarrow> 'w Thread \<Rightarrow> 'w Thread option" where
  "Thread_Create pthread_create runnable t =
     (case runnable of
        None \<Rightarrow> None
      | Some _ \<Rightarrow> (case pthread_create of
                    None \<Rightarrow> None
                  | Some tid \<Rightarrow> Some \<lparr>m_thread = tid, m_runnable = runnable\<rparr>))"

definition Thread_Join :: "addr option \<Rightarrow> 'w Thread \<Rightarrow> (addr \<times> 'w Thread) option" where
  "Thread_Join pthread_join t =
     (case pthread_join of None \<Rightarrow> None | Some ret \<Rightarrow> Some (ret, t\<lparr>m_thread := 0\<rparr>))"

text \<open>\<open>current\<close> is the thread-local variable \<^verbatim>\<open>s_current_thread\<close>; the runnable may read it.\<close>

definition ThreadRoutine ::
    "'w Thread \<Rightarrow> 'w Thread option \<times> 'w \<Rightarrow> (addr \<times> 'w Thread option \<times> 'w) option" where
  "ThreadRoutine arg cw =
     (case cw of (current, w) \<Rightarrow>
        (let current = Some arg in
         case m_runnable arg of
           None \<Rightarrow> None
         | Some run \<Rightarrow> (let (res, w) = run w; current = None in Some (res, current, w))))"

definition Current :: "'w Thread option \<Rightarrow> 'w Thread option" where
  "Current current = current"

lemma thread_lifecycle:
  assumes "Thread_Create (Some tid) (Some run) new_Thread = Some t" "run w = (res, w')"
  shows "ThreadRoutine t (None, w) = Some (res, None, w') \<and>
    (\<exists>t'. Thread_Join (Some res) t = Some (res, t') \<and> Thread_end t' = Some ())"
  using assms by (auto simp: Thread_Create_def ThreadRoutine_def Thread_Join_def Thread_end_def)

subsection \<open>Sleeping and interrupting\<close>

datatype holder = NoOne | Sleeper | Interrupter

datatype sleeper =
    Enter
  | Check
  | Tested bool
  | Waiting
  | Relock bool
  | Expired
  | Slept bool

datatype interrupter = Store | TakeLock | WakeUpAll | Unlock | Returned

record sleep_state =
  m_interrupted :: u32
  m_sleep_mutex :: holder
  sl_pc :: sleeper
  in_pc :: interrupter

definition sleep_init :: sleep_state where
  "sleep_init = \<lparr>m_interrupted = 0, m_sleep_mutex = NoOne, sl_pc = Enter, in_pc = Store\<rparr>"

definition IsInterruptionRequested :: "sleep_state \<Rightarrow> bool" where
  "IsInterruptionRequested s \<longleftrightarrow> fst (atomic_load_n (m_interrupted s)) \<noteq> 0"

text \<open>
  \<^verbatim>\<open>SleepUntil\<close>, one step per access to what the threads share: taking the mutex, the test of the
  flag (\<open>Tested b\<close> is after it, the mutex still held, \<open>b\<close> what it has read), the start of the
  wait, which releases the mutex, the mutex taken again at the end of a wait (\<open>Relock woken\<close>,
  \<open>woken\<close> false for the deadline), and the release at each return. The result is true when the
  deadline has passed.
\<close>

inductive sleeper_step :: "sleep_state \<Rightarrow> sleep_state \<Rightarrow> bool" where
  enter: "sl_pc s = Enter \<Longrightarrow> m_sleep_mutex s = NoOne \<Longrightarrow> sleeper_step s (s\<lparr>sl_pc := Check, m_sleep_mutex := Sleeper\<rparr>)"
| test: "sl_pc s = Check \<Longrightarrow> sleeper_step s (s\<lparr>sl_pc := Tested (IsInterruptionRequested s)\<rparr>)"
| stop: "sl_pc s = Tested True \<Longrightarrow> sleeper_step s (s\<lparr>sl_pc := Slept False, m_sleep_mutex := NoOne\<rparr>)"
| wait: "sl_pc s = Tested False \<Longrightarrow> sleeper_step s (s\<lparr>sl_pc := Waiting, m_sleep_mutex := NoOne\<rparr>)"
| again: "sl_pc s = Relock True \<Longrightarrow> m_sleep_mutex s = NoOne \<Longrightarrow> sleeper_step s (s\<lparr>sl_pc := Check, m_sleep_mutex := Sleeper\<rparr>)"
| expire: "sl_pc s = Relock False \<Longrightarrow> m_sleep_mutex s = NoOne \<Longrightarrow> sleeper_step s (s\<lparr>sl_pc := Expired, m_sleep_mutex := Sleeper\<rparr>)"
| timeout: "sl_pc s = Expired \<Longrightarrow> sleeper_step s (s\<lparr>sl_pc := Slept True, m_sleep_mutex := NoOne\<rparr>)"

text \<open>The end of a wait that nobody causes: the deadline, or a spurious wake-up.\<close>

inductive wake_step :: "sleep_state \<Rightarrow> sleep_state \<Rightarrow> bool" where
  wake: "sl_pc s = Waiting \<Longrightarrow> wake_step s (s\<lparr>sl_pc := Relock woken\<rparr>)"

inductive interrupt_step :: "sleep_state \<Rightarrow> sleep_state \<Rightarrow> bool" where
  store: "in_pc s = Store \<Longrightarrow> interrupt_step s (s\<lparr>m_interrupted := snd (atomic_store_n 1 (m_interrupted s)), in_pc := TakeLock\<rparr>)"
| lock: "in_pc s = TakeLock \<Longrightarrow> m_sleep_mutex s = NoOne \<Longrightarrow> interrupt_step s (s\<lparr>m_sleep_mutex := Interrupter, in_pc := WakeUpAll\<rparr>)"
| wake_all: "in_pc s = WakeUpAll \<Longrightarrow>
    interrupt_step s (s\<lparr>sl_pc := (if sl_pc s = Waiting then Relock True else sl_pc s), in_pc := Unlock\<rparr>)"
| unlock: "in_pc s = Unlock \<Longrightarrow> interrupt_step s (s\<lparr>m_sleep_mutex := NoOne, in_pc := Returned\<rparr>)"

inductive sleep_reachable :: "sleep_state \<Rightarrow> bool" where
  start: "sleep_reachable sleep_init"
| sleeper: "sleep_reachable s \<Longrightarrow> sleeper_step s s' \<Longrightarrow> sleep_reachable s'"
| wake: "sleep_reachable s \<Longrightarrow> wake_step s s' \<Longrightarrow> sleep_reachable s'"
| interrupt: "sleep_reachable s \<Longrightarrow> interrupt_step s s' \<Longrightarrow> sleep_reachable s'"

text \<open>
  The mutex is held by whom the program counters say. A sleeper that has found the flag down
  holds the mutex until it waits, so the interrupting thread, which has to take the mutex
  before it wakes the others, cannot have come further than the store; once it has woken the
  others, nobody is about to wait or waits.
\<close>

definition sleeper_holds :: "sleeper \<Rightarrow> bool" where
  "sleeper_holds p \<longleftrightarrow> p = Check \<or> p = Tested True \<or> p = Tested False \<or> p = Expired"

definition sleep_inv :: "sleep_state \<Rightarrow> bool" where
  "sleep_inv s \<longleftrightarrow>
     (m_sleep_mutex s = Sleeper \<longleftrightarrow> sleeper_holds (sl_pc s)) \<and>
     (m_sleep_mutex s = Interrupter \<longleftrightarrow> in_pc s = WakeUpAll \<or> in_pc s = Unlock) \<and>
     (m_interrupted s = (if in_pc s = Store then 0 else 1)) \<and>
     (sl_pc s = Tested False \<longrightarrow> in_pc s = Store \<or> in_pc s = TakeLock) \<and>
     (in_pc s = Unlock \<or> in_pc s = Returned \<longrightarrow> sl_pc s \<noteq> Waiting) \<and>
     (sl_pc s = Tested True \<or> sl_pc s = Slept False \<longrightarrow> m_interrupted s \<noteq> 0)"

lemma sleep_inv_reachable: "sleep_reachable s \<Longrightarrow> sleep_inv s"
proof (induction rule: sleep_reachable.induct)
  case start
  show ?case by (simp add: sleep_inv_def sleeper_holds_def sleep_init_def)
next
  case (sleeper s s')
  from sleeper.hyps(2) sleeper.IH show ?case
    by cases (auto simp: sleep_inv_def sleeper_holds_def IsInterruptionRequested_def atomic_load_n_def split: if_splits)
next
  case (wake s s')
  from wake.hyps(2) wake.IH show ?case by cases (auto simp: sleep_inv_def sleeper_holds_def)
next
  case (interrupt s s')
  from interrupt.hyps(2) interrupt.IH show ?case
    by cases (auto simp: sleep_inv_def sleeper_holds_def atomic_store_n_def split: if_splits)
qed

lemma sleeper_stops:
  assumes "sl_pc s = Check \<and> IsInterruptionRequested s \<or> sl_pc s = Tested True"
  shows "\<exists>s'. sleeper_step\<^sup>*\<^sup>* s s' \<and> sl_pc s' = Slept False"
proof -
  have stop: "\<exists>s'. sleeper_step\<^sup>*\<^sup>* u s' \<and> sl_pc s' = Slept False" if "sl_pc u = Tested True" for u
    using sleeper_step.stop [OF that] by (intro exI [of _ "u\<lparr>sl_pc := Slept False, m_sleep_mutex := NoOne\<rparr>"]) auto
  show ?thesis
  proof (cases "sl_pc s = Tested True")
    case False
    with assms have "sleeper_step s (s\<lparr>sl_pc := Tested True\<rparr>)" using sleeper_step.test [of s] by simp
    moreover obtain s' where "sleeper_step\<^sup>*\<^sup>* (s\<lparr>sl_pc := Tested True\<rparr>) s'" "sl_pc s' = Slept False"
      using stop [of "s\<lparr>sl_pc := Tested True\<rparr>"] by auto
    ultimately show ?thesis by (blast intro: converse_rtranclp_into_rtranclp)
  qed (rule stop)
qed

lemma sleeper_relocks:
  assumes "sleeper_step s (s\<lparr>sl_pc := Check, m_sleep_mutex := Sleeper\<rparr>)" "IsInterruptionRequested s"
  shows "\<exists>s'. sleeper_step\<^sup>*\<^sup>* s s' \<and> sl_pc s' = Slept False"
proof -
  let ?u = "s\<lparr>sl_pc := Check, m_sleep_mutex := Sleeper\<rparr>"
  from assms(2) have "sl_pc ?u = Check \<and> IsInterruptionRequested ?u" by (simp add: IsInterruptionRequested_def)
  then obtain s' where "sleeper_step\<^sup>*\<^sup>* ?u s'" "sl_pc s' = Slept False" using sleeper_stops [of ?u] by blast
  with assms(1) show ?thesis by (blast intro: converse_rtranclp_into_rtranclp)
qed

lemma sleeper_expires:
  assumes "sl_pc s = Relock False \<and> m_sleep_mutex s = NoOne \<or> sl_pc s = Expired"
  shows "\<exists>s'. sleeper_step\<^sup>*\<^sup>* s s' \<and> sl_pc s' = Slept True"
proof -
  have expired: "\<exists>s'. sleeper_step\<^sup>*\<^sup>* u s' \<and> sl_pc s' = Slept True" if "sl_pc u = Expired" for u
    using sleeper_step.timeout [OF that] by (intro exI [of _ "u\<lparr>sl_pc := Slept True, m_sleep_mutex := NoOne\<rparr>"]) auto
  show ?thesis
  proof (cases "sl_pc s = Expired")
    case False
    with assms have "sleeper_step s (s\<lparr>sl_pc := Expired, m_sleep_mutex := Sleeper\<rparr>)"
      using sleeper_step.expire [of s] by simp
    moreover obtain s' where "sleeper_step\<^sup>*\<^sup>* (s\<lparr>sl_pc := Expired, m_sleep_mutex := Sleeper\<rparr>) s'" "sl_pc s' = Slept True"
      using expired [of "s\<lparr>sl_pc := Expired, m_sleep_mutex := Sleeper\<rparr>"] by auto
    ultimately show ?thesis by (blast intro: converse_rtranclp_into_rtranclp)
  qed (rule expired)
qed

definition deadline_passed :: "sleeper \<Rightarrow> bool" where
  "deadline_passed p \<longleftrightarrow> p = Relock False \<or> p = Expired \<or> p = Slept True"

lemma sleeper_finishes:
  assumes "sleep_inv s" "in_pc s = Returned"
  shows "\<exists>s'. sleeper_step\<^sup>*\<^sup>* s s' \<and> sl_pc s' = Slept (deadline_passed (sl_pc s))"
proof -
  from assms have i: "IsInterruptionRequested s" "sl_pc s \<noteq> Waiting" "sl_pc s \<noteq> Tested False"
    and mutex: "m_sleep_mutex s = Sleeper \<longleftrightarrow> sleeper_holds (sl_pc s)" "m_sleep_mutex s \<noteq> Interrupter"
    by (auto simp: sleep_inv_def IsInterruptionRequested_def atomic_load_n_def)
  then have m: "\<not> sleeper_holds (sl_pc s) \<Longrightarrow> m_sleep_mutex s = NoOne" by (cases "m_sleep_mutex s") auto
  show ?thesis
  proof (cases "sl_pc s")
    case Enter
    with m sleeper_step.enter [OF Enter] sleeper_relocks [OF _ i(1)] show ?thesis
      by (simp add: deadline_passed_def sleeper_holds_def)
  next
    case Check
    with sleeper_stops i(1) show ?thesis by (simp add: deadline_passed_def)
  next
    case (Tested b)
    with i(3) sleeper_stops show ?thesis by (cases b) (simp_all add: deadline_passed_def)
  next
    case (Relock w)
    then have free: "m_sleep_mutex s = NoOne" using m by (simp add: sleeper_holds_def)
    show ?thesis
    proof (cases w)
      case True
      with Relock free sleeper_step.again [of s] sleeper_relocks [OF _ i(1)] show ?thesis
        by (simp add: deadline_passed_def)
    next
      case False
      with Relock free sleeper_expires show ?thesis by (simp add: deadline_passed_def)
    qed
  next
    case Expired
    with sleeper_expires show ?thesis by (simp add: deadline_passed_def)
  next
    case (Slept r)
    then show ?thesis by (intro exI [of _ s]) (cases r; simp add: deadline_passed_def)
  qed (use i(2) in simp)
qed

text \<open>
  C30. An interrupt is not lost: whenever the thread that interrupts has returned, the sleeping
  thread neither waits nor is between the test that found the flag down and the wait, and it
  finishes by its own steps alone; it reports an interrupt unless its deadline had ended the
  wait before. It never reports an interrupt that nobody asked for. The test of the flag and
  the start of the wait are separate steps, and nothing but the mutex that \<^verbatim>\<open>Interrupt\<close> takes
  keeps the broadcast from falling between them.
\<close>

theorem interrupt_not_lost:
  assumes "sleep_reachable s"
  shows "(in_pc s = Returned \<longrightarrow> sl_pc s \<noteq> Waiting \<and> sl_pc s \<noteq> Tested False \<and>
      (\<exists>s'. sleeper_step\<^sup>*\<^sup>* s s' \<and> sl_pc s' = Slept (deadline_passed (sl_pc s)))) \<and>
    (sl_pc s = Slept False \<longrightarrow> in_pc s \<noteq> Store)"
proof -
  have inv: "sleep_inv s" by (rule sleep_inv_reachable [OF assms])
  then have "in_pc s = Returned \<Longrightarrow> sl_pc s \<noteq> Waiting \<and> sl_pc s \<noteq> Tested False" "sl_pc s = Slept False \<Longrightarrow> in_pc s \<noteq> Store"
    by (auto simp: sleep_inv_def)
  with sleeper_finishes [OF inv] show ?thesis by blast
qed

text \<open>An execution: the sleeper waits, and is interrupted.\<close>

definition demo_waiting :: sleep_state where
  "demo_waiting = \<lparr>m_interrupted = 0, m_sleep_mutex = NoOne, sl_pc = Waiting, in_pc = Store\<rparr>"

definition demo_interrupted :: sleep_state where
  "demo_interrupted = \<lparr>m_interrupted = 1, m_sleep_mutex = NoOne, sl_pc = Relock True, in_pc = Returned\<rparr>"

lemma demo_waiting_reachable: "sleep_reachable demo_waiting"
proof -
  have "sleeper_step sleep_init (sleep_init\<lparr>sl_pc := Check, m_sleep_mutex := Sleeper\<rparr>)"
    by (rule sleeper_step.enter) (simp_all add: sleep_init_def)
  with sleep_reachable.start have "sleep_reachable (sleep_init\<lparr>sl_pc := Check, m_sleep_mutex := Sleeper\<rparr>)"
    by (rule sleep_reachable.sleeper)
  moreover have "sleeper_step (sleep_init\<lparr>sl_pc := Check, m_sleep_mutex := Sleeper\<rparr>)
      (sleep_init\<lparr>sl_pc := Tested False, m_sleep_mutex := Sleeper\<rparr>)"
    using sleeper_step.test [of "sleep_init\<lparr>sl_pc := Check, m_sleep_mutex := Sleeper\<rparr>"]
    by (simp add: sleep_init_def IsInterruptionRequested_def atomic_load_n_def)
  ultimately have "sleep_reachable (sleep_init\<lparr>sl_pc := Tested False, m_sleep_mutex := Sleeper\<rparr>)"
    by (rule sleep_reachable.sleeper)
  moreover have "sleeper_step (sleep_init\<lparr>sl_pc := Tested False, m_sleep_mutex := Sleeper\<rparr>) demo_waiting"
    using sleeper_step.wait [of "sleep_init\<lparr>sl_pc := Tested False, m_sleep_mutex := Sleeper\<rparr>"]
    by (simp add: sleep_init_def demo_waiting_def)
  ultimately show ?thesis by (rule sleep_reachable.sleeper)
qed

lemma demo_interrupted_reachable: "sleep_reachable demo_interrupted"
proof -
  let ?s = "\<lambda>m p i. \<lparr>m_interrupted = 1, m_sleep_mutex = m, sl_pc = p, in_pc = i\<rparr>"
  have "interrupt_step demo_waiting (?s NoOne Waiting TakeLock)"
    using interrupt_step.store [of demo_waiting] by (simp add: demo_waiting_def atomic_store_n_def)
  with demo_waiting_reachable have "sleep_reachable (?s NoOne Waiting TakeLock)" by (rule sleep_reachable.interrupt)
  moreover have "interrupt_step (?s NoOne Waiting TakeLock) (?s Interrupter Waiting WakeUpAll)"
    using interrupt_step.lock [of "?s NoOne Waiting TakeLock"] by simp
  ultimately have "sleep_reachable (?s Interrupter Waiting WakeUpAll)" by (rule sleep_reachable.interrupt)
  moreover have "interrupt_step (?s Interrupter Waiting WakeUpAll) (?s Interrupter (Relock True) Unlock)"
    using interrupt_step.wake_all [of "?s Interrupter Waiting WakeUpAll"] by simp
  ultimately have "sleep_reachable (?s Interrupter (Relock True) Unlock)" by (rule sleep_reachable.interrupt)
  moreover have "interrupt_step (?s Interrupter (Relock True) Unlock) demo_interrupted"
    using interrupt_step.unlock [of "?s Interrupter (Relock True) Unlock"] by (simp add: demo_interrupted_def)
  ultimately show ?thesis by (rule sleep_reachable.interrupt)
qed

theorem interrupt_not_lost_witness:
  "sleep_reachable demo_interrupted \<and> (\<exists>s'. sleeper_step\<^sup>*\<^sup>* demo_interrupted s' \<and> sl_pc s' = Slept False)"
proof -
  have "in_pc demo_interrupted = Returned" "sl_pc demo_interrupted = Relock True" by (simp_all add: demo_interrupted_def)
  with interrupt_not_lost [OF demo_interrupted_reachable] obtain s' where
    "sleeper_step\<^sup>*\<^sup>* demo_interrupted s'" "sl_pc s' = Slept False" by (auto simp: deadline_passed_def)
  with demo_interrupted_reachable show ?thesis by auto
qed

end
