(* ===== verification/Process_Support.thy ===== *)
theory Process_Support
  imports Memhook_Prelude "HOL-Library.Sublist" "HOL-Library.Signed_Division"
begin

text \<open>
  The small pieces the rest of the tool stands on: the scoped mutex lock and the time
  arithmetic and sleeping loops of \<^verbatim>\<open>src/memhook/thread.h\<close> and \<^verbatim>\<open>thread.cpp\<close>, and the error
  log of \<^verbatim>\<open>src/memhook/log.cpp\<close>.
\<close>

subsection \<open>MutexLock\<close>

text \<open>
  The lock objects of one thread are numbered slots, \<open>None\<close> for an object that does not
  exist; \<open>lw_count m\<close> is how often the thread holds the recursive mutex \<open>m\<close>. The result
  \<open>None\<close> of an operation is the use of an object that does not exist or of a null mutex.
\<close>

record MutexLock =
  ml_mutex :: "nat option"
  ml_locked :: bool

record lock_world =
  lw_slots :: "MutexLock option list"
  lw_count :: "nat \<Rightarrow> int"

definition slot :: "nat \<Rightarrow> lock_world \<Rightarrow> MutexLock option" where
  "slot i W = (if i < length (lw_slots W) then lw_slots W ! i else None)"

definition put_slot :: "nat \<Rightarrow> MutexLock option \<Rightarrow> lock_world \<Rightarrow> lock_world" where
  "put_slot i l W = W\<lparr>lw_slots := (lw_slots W)[i := l]\<rparr>"

definition add_count :: "nat \<Rightarrow> int \<Rightarrow> lock_world \<Rightarrow> lock_world" where
  "add_count m d W = W\<lparr>lw_count := (lw_count W)(m := lw_count W m + d)\<rparr>"

definition ml_Lock :: "nat \<Rightarrow> lock_world \<Rightarrow> lock_world option" where
  "ml_Lock i W =
     do { l \<leftarrow> slot i W;
          if ml_locked l then Some W
          else do { m \<leftarrow> ml_mutex l; Some (put_slot i (Some (l\<lparr>ml_locked := True\<rparr>)) (add_count m 1 W)) } }"

definition ml_Unlock :: "nat \<Rightarrow> lock_world \<Rightarrow> lock_world option" where
  "ml_Unlock i W =
     do { l \<leftarrow> slot i W;
          if ml_locked l
          then do { m \<leftarrow> ml_mutex l; Some (put_slot i (Some (l\<lparr>ml_locked := False\<rparr>)) (add_count m (- 1) W)) }
          else Some W }"

definition ml_fresh :: "nat \<Rightarrow> lock_world \<Rightarrow> bool" where
  "ml_fresh i W \<longleftrightarrow> i < length (lw_slots W) \<and> slot i W = None"

definition ml_default :: "nat \<Rightarrow> lock_world \<Rightarrow> lock_world option" where
  "ml_default i W = (if ml_fresh i W then Some (put_slot i (Some \<lparr>ml_mutex = None, ml_locked = False\<rparr>) W) else None)"

definition ml_new :: "nat \<Rightarrow> nat \<Rightarrow> lock_world \<Rightarrow> lock_world option" where
  "ml_new i m W =
     (if ml_fresh i W then ml_Lock i (put_slot i (Some \<lparr>ml_mutex = Some m, ml_locked = False\<rparr>) W) else None)"

definition ml_move :: "nat \<Rightarrow> nat \<Rightarrow> lock_world \<Rightarrow> lock_world option" where
  "ml_move j i W =
     (if ml_fresh j W
      then do { l \<leftarrow> slot i W;
                Some (put_slot i (Some \<lparr>ml_mutex = None, ml_locked = False\<rparr>) (put_slot j (Some l) W)) }
      else None)"

definition ml_assign :: "nat \<Rightarrow> nat \<Rightarrow> lock_world \<Rightarrow> lock_world option" where
  "ml_assign j i W =
     do { W \<leftarrow> ml_Unlock j W;
          l \<leftarrow> slot i W;
          Some (put_slot i (Some \<lparr>ml_mutex = None, ml_locked = False\<rparr>) (put_slot j (Some l) W)) }"

definition ml_swap :: "nat \<Rightarrow> nat \<Rightarrow> lock_world \<Rightarrow> lock_world option" where
  "ml_swap i j W =
     do { l \<leftarrow> slot i W; k \<leftarrow> slot j W; Some (put_slot j (Some l) (put_slot i (Some k) W)) }"

definition ml_destroy :: "nat \<Rightarrow> lock_world \<Rightarrow> lock_world option" where
  "ml_destroy i W = do { W \<leftarrow> ml_Unlock i W; Some (put_slot i None W) }"

datatype ml_op = MLDefault nat | MLNew nat nat | MLLock nat | MLUnlock nat | MLMove nat nat | MLAssign nat nat
  | MLSwap nat nat | MLDestroy nat

fun ml_step :: "ml_op \<Rightarrow> lock_world \<Rightarrow> lock_world option" where
  "ml_step (MLDefault i) W = ml_default i W"
| "ml_step (MLNew i m) W = ml_new i m W"
| "ml_step (MLLock i) W = ml_Lock i W"
| "ml_step (MLUnlock i) W = ml_Unlock i W"
| "ml_step (MLMove j i) W = ml_move j i W"
| "ml_step (MLAssign j i) W = ml_assign j i W"
| "ml_step (MLSwap i j) W = ml_swap i j W"
| "ml_step (MLDestroy i) W = ml_destroy i W"

fun ml_run :: "ml_op list \<Rightarrow> lock_world \<Rightarrow> lock_world option" where
  "ml_run [] W = Some W"
| "ml_run (x # xs) W = do { W \<leftarrow> ml_step x W; ml_run xs W }"

definition no_locks :: "nat \<Rightarrow> lock_world" where
  "no_locks n = \<lparr>lw_slots = replicate n None, lw_count = (\<lambda>m. 0)\<rparr>"

text \<open>Each object holds its mutex once if it is locked and not at all otherwise.\<close>

definition holds :: "nat \<Rightarrow> MutexLock option \<Rightarrow> int" where
  "holds m l = (case l of None \<Rightarrow> 0 | Some l \<Rightarrow> if ml_locked l \<and> ml_mutex l = Some m then 1 else 0)"

definition ml_inv :: "lock_world \<Rightarrow> bool" where
  "ml_inv W \<longleftrightarrow> (\<forall>m. lw_count W m = sum_list (map (holds m) (lw_slots W))) \<and>
     (\<forall>l. Some l \<in> set (lw_slots W) \<longrightarrow> ml_locked l \<longrightarrow> ml_mutex l \<noteq> None)"

lemma sum_list_put:
  fixes f :: "'a \<Rightarrow> int"
  shows "i < length xs \<Longrightarrow> sum_list (map f (xs[i := x])) = sum_list (map f xs) - f (xs ! i) + f x"
proof (induction xs arbitrary: i)
  case (Cons a xs)
  then show ?case by (cases i) auto
qed simp

lemma slot_SomeD: "slot i W = Some l \<Longrightarrow> i < length (lw_slots W) \<and> lw_slots W ! i = Some l"
  by (simp add: slot_def split: if_splits)

lemma put_slot_inv:
  assumes "ml_inv W" "i < length (lw_slots W)" "\<And>k. l = Some k \<Longrightarrow> ml_locked k \<Longrightarrow> ml_mutex k \<noteq> None"
    and "\<And>m. c m = lw_count W m - holds m (lw_slots W ! i) + holds m l"
  shows "ml_inv (put_slot i l (W\<lparr>lw_count := c\<rparr>))"
proof -
  have "Some k \<in> set ((lw_slots W)[i := l]) \<Longrightarrow> l = Some k \<or> Some k \<in> set (lw_slots W)" for k
    using set_update_subset_insert [of "lw_slots W" i l] by auto
  with assms(1,3) have "\<forall>k. Some k \<in> set ((lw_slots W)[i := l]) \<longrightarrow> ml_locked k \<longrightarrow> ml_mutex k \<noteq> None"
    unfolding ml_inv_def by blast
  moreover have "c m = sum_list (map (holds m) ((lw_slots W)[i := l]))" for m
    using assms(1,2,4) by (simp add: ml_inv_def sum_list_put)
  ultimately show ?thesis by (simp add: ml_inv_def put_slot_def)
qed

lemma put_slot_inv_same:
  assumes "ml_inv W" "i < length (lw_slots W)" "\<And>k. l = Some k \<Longrightarrow> ml_locked k \<Longrightarrow> ml_mutex k \<noteq> None"
    and "\<And>m. holds m (lw_slots W ! i) = holds m l"
  shows "ml_inv (put_slot i l W)"
  using put_slot_inv [of W i l "lw_count W"] assms by simp

lemma ml_inv_mutex: "ml_inv W \<Longrightarrow> slot i W = Some l \<Longrightarrow> ml_locked l \<Longrightarrow> ml_mutex l \<noteq> None"
  unfolding ml_inv_def by (metis slot_SomeD nth_mem)

lemma ml_Lock_inv:
  assumes "ml_inv W" "ml_Lock i W = Some W'"
  shows "ml_inv W'"
proof -
  from assms(2) obtain l where l: "slot i W = Some l" by (auto simp: ml_Lock_def bind_eq_Some_conv)
  note sl = slot_SomeD [OF l]
  show ?thesis
  proof (cases "ml_locked l")
    case False
    then obtain m where m: "ml_mutex l = Some m"
      and W': "W' = put_slot i (Some (l\<lparr>ml_locked := True\<rparr>)) (add_count m 1 W)"
      using assms(2) l by (auto simp: ml_Lock_def bind_eq_Some_conv)
    show ?thesis unfolding W' add_count_def
      by (rule put_slot_inv) (use assms(1) sl m False in \<open>auto simp: holds_def\<close>)
  qed (use assms l in \<open>simp add: ml_Lock_def\<close>)
qed

lemma ml_Unlock_inv:
  assumes "ml_inv W" "ml_Unlock i W = Some W'"
  shows "ml_inv W'"
proof -
  from assms(2) obtain l where l: "slot i W = Some l" by (auto simp: ml_Unlock_def bind_eq_Some_conv)
  note sl = slot_SomeD [OF l]
  show ?thesis
  proof (cases "ml_locked l")
    case True
    then obtain m where m: "ml_mutex l = Some m"
      and W': "W' = put_slot i (Some (l\<lparr>ml_locked := False\<rparr>)) (add_count m (- 1) W)"
      using assms(2) l by (auto simp: ml_Unlock_def bind_eq_Some_conv)
    show ?thesis unfolding W' add_count_def
      by (rule put_slot_inv) (use assms(1) sl m True in \<open>auto simp: holds_def\<close>)
  qed (use assms l in \<open>simp add: ml_Unlock_def\<close>)
qed

lemma ml_Unlock_frees:
  assumes "ml_inv W" "slot i W = Some l"
  obtains W' k where "ml_Unlock i W = Some W'" "slot i W' = Some k" "\<not> ml_locked k" "ml_inv W'"
    "length (lw_slots W') = length (lw_slots W)"
proof -
  have "\<exists>W' k. ml_Unlock i W = Some W' \<and> slot i W' = Some k \<and> \<not> ml_locked k \<and>
      length (lw_slots W') = length (lw_slots W)"
  proof (cases "ml_locked l")
    case True
    then obtain m where "ml_mutex l = Some m" using ml_inv_mutex [OF assms] by auto
    then show ?thesis using True assms(2) slot_SomeD [OF assms(2)]
      by (auto simp: ml_Unlock_def put_slot_def add_count_def slot_def)
  qed (use assms in \<open>auto simp: ml_Unlock_def\<close>)
  then show thesis using that ml_Unlock_inv [OF assms(1)] by blast
qed

lemma holds_empty [simp]: "holds m (Some \<lparr>ml_mutex = x, ml_locked = False\<rparr>) = 0" "holds m None = 0"
  by (simp_all add: holds_def)

lemma holds_unlocked [simp]: "\<not> ml_locked l \<Longrightarrow> holds m (Some l) = 0"
  by (simp add: holds_def)

text \<open>Taking over a lock keeps the invariant: what one slot gives up the other gets.\<close>

lemma transfer_inv:
  assumes W: "ml_inv W" and i: "slot i W = Some l" and j: "j < length (lw_slots W)" "\<And>m. holds m (lw_slots W ! j) = 0"
  shows "ml_inv (put_slot i (Some \<lparr>ml_mutex = None, ml_locked = False\<rparr>) (put_slot j (Some l) W))"
proof -
  note sl = slot_SomeD [OF i]
  let ?c = "\<lambda>m. lw_count W m + holds m (Some l)" and ?e = "Some \<lparr>ml_mutex = None, ml_locked = False\<rparr>"
  let ?W = "put_slot j (Some l) (W\<lparr>lw_count := ?c\<rparr>)"
  have 1: "ml_inv ?W"
    by (rule put_slot_inv) (use W j ml_inv_mutex [OF W i] in auto)
  have e: "put_slot i ?e (put_slot j (Some l) W) = put_slot i ?e (?W\<lparr>lw_count := lw_count W\<rparr>)"
    by (simp add: put_slot_def)
  show ?thesis unfolding e
    by (rule put_slot_inv [OF 1]) (use sl j in \<open>auto simp: put_slot_def nth_list_update\<close>)
qed

lemma swap_inv:
  assumes W: "ml_inv W" and i: "slot i W = Some l" and j: "slot j W = Some k"
  shows "ml_inv (put_slot j (Some l) (put_slot i (Some k) W))"
proof -
  note si = slot_SomeD [OF i] and sj = slot_SomeD [OF j]
  let ?c = "\<lambda>m. lw_count W m - holds m (Some l) + holds m (Some k)"
  let ?W = "put_slot i (Some k) (W\<lparr>lw_count := ?c\<rparr>)"
  have 1: "ml_inv ?W"
    by (rule put_slot_inv) (use W si ml_inv_mutex [OF W j] in auto)
  have e: "put_slot j (Some l) (put_slot i (Some k) W) = put_slot j (Some l) (?W\<lparr>lw_count := lw_count W\<rparr>)"
    by (simp add: put_slot_def)
  show ?thesis unfolding e
    by (rule put_slot_inv [OF 1]) (use si sj ml_inv_mutex [OF W i] in \<open>auto simp: put_slot_def nth_list_update\<close>)
qed

lemma ml_fresh_new_inv: "ml_inv W \<Longrightarrow> ml_fresh i W \<Longrightarrow> ml_inv (put_slot i (Some \<lparr>ml_mutex = x, ml_locked = False\<rparr>) W)"
  by (rule put_slot_inv_same) (auto simp: ml_fresh_def slot_def)

lemma ml_assign_inv:
  assumes "ml_inv W" "ml_assign j i W = Some W'"
  shows "ml_inv W'"
proof -
  from assms(2) obtain V where V: "ml_Unlock j W = Some V" by (auto simp: ml_assign_def bind_eq_Some_conv)
  then obtain l where "slot j W = Some l" by (auto simp: ml_Unlock_def bind_eq_Some_conv)
  from ml_Unlock_frees [OF assms(1) this] V
  obtain k where k: "slot j V = Some k" "\<not> ml_locked k" "ml_inv V" by auto
  from assms(2) V obtain l where "slot i V = Some l"
    "W' = put_slot i (Some \<lparr>ml_mutex = None, ml_locked = False\<rparr>) (put_slot j (Some l) V)"
    by (auto simp: ml_assign_def bind_eq_Some_conv)
  with transfer_inv [of V i l j] k slot_SomeD [OF k(1)] show ?thesis by simp
qed

lemma ml_destroy_inv:
  assumes "ml_inv W" "ml_destroy i W = Some W'"
  shows "ml_inv W'"
proof -
  from assms(2) obtain l where "slot i W = Some l" by (auto simp: ml_destroy_def ml_Unlock_def bind_eq_Some_conv)
  from ml_Unlock_frees [OF assms(1) this] obtain V k
    where V: "ml_Unlock i W = Some V" "slot i V = Some k" "\<not> ml_locked k" "ml_inv V" by metis
  then have "W' = put_slot i None V" using assms(2) by (simp add: ml_destroy_def)
  with put_slot_inv_same [of V i None] V slot_SomeD [OF V(2)] show ?thesis by simp
qed

lemma ml_step_inv:
  assumes "ml_inv W" "ml_step x W = Some W'"
  shows "ml_inv W'"
proof (cases x)
  case (MLMove j i)
  with assms(2) obtain l where "ml_fresh j W" "slot i W = Some l"
    "W' = put_slot i (Some \<lparr>ml_mutex = None, ml_locked = False\<rparr>) (put_slot j (Some l) W)"
    by (auto simp: ml_move_def bind_eq_Some_conv split: if_splits)
  with transfer_inv [OF assms(1), of i l j] show ?thesis by (auto simp: ml_fresh_def slot_def)
next
  case (MLSwap i j)
  with assms swap_inv [OF assms(1), of i _ j] show ?thesis by (auto simp: ml_swap_def bind_eq_Some_conv)
next
  case (MLDefault i)
  with assms(2) have "ml_fresh i W" "W' = put_slot i (Some \<lparr>ml_mutex = None, ml_locked = False\<rparr>) W"
    by (simp_all add: ml_default_def split: if_splits)
  with ml_fresh_new_inv [OF assms(1)] show ?thesis by blast
next
  case (MLNew i m)
  with assms(2) have "ml_fresh i W" "ml_Lock i (put_slot i (Some \<lparr>ml_mutex = Some m, ml_locked = False\<rparr>) W) = Some W'"
    by (simp_all add: ml_new_def split: if_splits)
  with ml_Lock_inv ml_fresh_new_inv [OF assms(1)] show ?thesis by blast
next
  case (MLLock i)
  with ml_Lock_inv [OF assms(1)] assms(2) show ?thesis by (simp only: ml_step.simps)
next
  case (MLUnlock i)
  with ml_Unlock_inv [OF assms(1)] assms(2) show ?thesis by (simp only: ml_step.simps)
next
  case (MLAssign j i)
  with ml_assign_inv [OF assms(1)] assms(2) show ?thesis by (simp only: ml_step.simps)
next
  case (MLDestroy i)
  with ml_destroy_inv [OF assms(1)] assms(2) show ?thesis by (simp only: ml_step.simps)
qed

lemma put_slot_length [simp]: "length (lw_slots (put_slot i l W)) = length (lw_slots W)"
  "length (lw_slots (add_count m d W)) = length (lw_slots W)"
  by (simp_all add: put_slot_def add_count_def)

lemma ml_Lock_length: "ml_Lock i W = Some W' \<Longrightarrow> length (lw_slots W') = length (lw_slots W)"
  "ml_Unlock i W = Some W' \<Longrightarrow> length (lw_slots W') = length (lw_slots W)"
  by (auto simp: ml_Lock_def ml_Unlock_def bind_eq_Some_conv split: if_splits)

lemma ml_step_length: "ml_step x W = Some W' \<Longrightarrow> length (lw_slots W') = length (lw_slots W)"
  by (cases x)
    (auto simp: ml_default_def ml_new_def ml_move_def ml_assign_def ml_swap_def ml_destroy_def bind_eq_Some_conv
      split: if_splits dest!: ml_Lock_length)

lemma ml_run_length: "ml_run xs W = Some W' \<Longrightarrow> length (lw_slots W') = length (lw_slots W)"
  by (induction xs arbitrary: W) (auto simp: bind_eq_Some_conv dest: ml_step_length)

lemma ml_run_inv: "ml_inv W \<Longrightarrow> ml_run xs W = Some W' \<Longrightarrow> ml_inv W'"
  by (induction xs arbitrary: W) (auto simp: bind_eq_Some_conv dest: ml_step_inv)

lemma no_locks_inv: "ml_inv (no_locks n)"
  by (auto simp: ml_inv_def no_locks_def sum_list_replicate)

text \<open>
  C34. However a thread creates, locks, unlocks, moves, assigns, swaps and destroys its lock
  objects, each recursive mutex is held exactly as often as there are locked objects on it, so
  never unlocked more often than locked, and once every object is destroyed the thread holds
  no mutex.
\<close>

theorem mutex_locks_balanced:
  assumes "ml_run ops (no_locks n) = Some W"
  shows "lw_count W m = sum_list (map (holds m) (lw_slots W)) \<and> lw_count W m \<ge> 0 \<and>
    ((\<forall>i<n. slot i W = None) \<longrightarrow> lw_count W m = 0)"
proof (intro conjI impI)
  have inv: "ml_inv W" and len: "length (lw_slots W) = n"
    using ml_run_inv [OF no_locks_inv assms] ml_run_length [OF assms] by (simp_all add: no_locks_def)
  show eq: "lw_count W m = sum_list (map (holds m) (lw_slots W))" using inv by (simp add: ml_inv_def)
  show "lw_count W m \<ge> 0" unfolding eq
    by (rule sum_list_nonneg) (auto simp: holds_def split: option.splits)
  assume "\<forall>i<n. slot i W = None"
  then have "lw_slots W = replicate n None" using len by (intro nth_equalityI) (auto simp: slot_def)
  then show "lw_count W m = 0" unfolding eq by (simp add: sum_list_replicate)
qed

theorem mutex_locks_balanced_witness:
  "\<exists>W. ml_run [MLNew 0 7, MLNew 1 7, MLMove 2 0, MLAssign 1 2, MLDestroy 0, MLDestroy 1, MLDestroy 2] (no_locks 3) = Some W \<and>
     lw_count W 7 = 0"
proof -
  let ?ops = "[MLNew 0 7, MLNew 1 7, MLMove 2 0, MLAssign 1 2, MLDestroy 0, MLDestroy 1, MLDestroy 2]"
  have "\<exists>W. ml_run ?ops (no_locks 3) = Some W \<and> (\<forall>i<3. slot i W = None)"
    by (simp add: no_locks_def ml_new_def ml_fresh_def ml_Lock_def ml_move_def ml_assign_def ml_Unlock_def ml_destroy_def
        slot_def put_slot_def add_count_def numeral_3_eq_3 less_Suc_eq)
  then show ?thesis using mutex_locks_balanced by blast
qed

subsection \<open>Time arithmetic\<close>

record timespec =
  tv_sec :: int
  tv_nsec :: int

definition ConvToTimeSpec :: "int \<Rightarrow> timespec" where
  "ConvToTimeSpec ns =
     (let s = ns sdiv 1000000000 in \<lparr>tv_sec = s, tv_nsec = ns - s * 1000000000\<rparr>)"

text \<open>The operator takes both operands by reference to const and returns the sum.\<close>

definition timespec_plus_assign :: "timespec \<Rightarrow> timespec \<Rightarrow> timespec" where
  "timespec_plus_assign lhs rhs =
     (let res = \<lparr>tv_sec = tv_sec lhs + tv_sec rhs, tv_nsec = tv_nsec lhs + tv_nsec rhs\<rparr> in
      if tv_nsec res \<ge> 1000000000
      then res\<lparr>tv_nsec := tv_nsec res - 1000000000, tv_sec := tv_sec res + 1\<rparr>
      else res)"

definition timespec_ns :: "timespec \<Rightarrow> int" where
  "timespec_ns t = tv_sec t * 1000000000 + tv_nsec t"

definition timespec_ok :: "timespec \<Rightarrow> bool" where
  "timespec_ok t \<longleftrightarrow> 0 \<le> tv_nsec t \<and> tv_nsec t < 1000000000"

lemma ConvToTimeSpec_nonneg: "0 \<le> ns \<Longrightarrow> ConvToTimeSpec ns = \<lparr>tv_sec = ns div 1000000000, tv_nsec = ns mod 1000000000\<rparr>"
  by (simp add: ConvToTimeSpec_def Let_def signed_divide_int_def sgn_if minus_div_mult_eq_mod)

text \<open>
  Conversion of a duration to a \<open>timespec\<close> keeps the number of nanoseconds, is normalised
  for every duration that is not negative, and the sum of normalised values is normalised and
  exact.
\<close>

theorem timespec_conversion_exact:
  "timespec_ns (ConvToTimeSpec ns) = ns \<and> (0 \<le> ns \<longrightarrow> timespec_ok (ConvToTimeSpec ns)) \<and>
   (timespec_ok a \<longrightarrow> timespec_ok b \<longrightarrow>
      timespec_ok (timespec_plus_assign a b) \<and>
      timespec_ns (timespec_plus_assign a b) = timespec_ns a + timespec_ns b)"
  by (auto simp: ConvToTimeSpec_nonneg timespec_ns_def timespec_ok_def timespec_plus_assign_def Let_def algebra_simps)
    (simp add: ConvToTimeSpec_def Let_def)

theorem timespec_conversion_exact_witness:
  "timespec_ok (timespec_plus_assign (ConvToTimeSpec 1999999999) (ConvToTimeSpec 1)) \<and>
   timespec_ns (timespec_plus_assign (ConvToTimeSpec 1999999999) (ConvToTimeSpec 1)) = 2000000000"
  using timespec_conversion_exact [of 1999999999 "ConvToTimeSpec 1999999999" "ConvToTimeSpec 1"]
    timespec_conversion_exact [of 1 "ConvToTimeSpec 1999999999" "ConvToTimeSpec 1"] by simp

subsection \<open>Waiting\<close>

text \<open>
  A wait is one call of \<open>pthread_cond_timedwait\<close>, whose result is given; a result other than
  success and \<open>ETIMEDOUT\<close> is fatal.
\<close>

definition ETIMEDOUT :: int where "ETIMEDOUT = 110"

datatype wait_result = Waited bool | WaitAborted

definition WaitUntil :: "(timespec \<Rightarrow> int) \<Rightarrow> timespec \<Rightarrow> wait_result" where
  "WaitUntil timedwait abs_time =
     (let res = timedwait abs_time in
      if res = ETIMEDOUT then Waited False else if res = 0 then Waited True else WaitAborted)"

text \<open>The value of \<open>abs_time += rel_time\<close> is dropped, and the operator changes neither operand.\<close>

definition WaitFor :: "(timespec \<Rightarrow> int) \<Rightarrow> timespec \<Rightarrow> timespec \<Rightarrow> wait_result" where
  "WaitFor timedwait clock rel_time =
     (let abs_time = clock; dropped = timespec_plus_assign abs_time rel_time in WaitUntil timedwait abs_time)"

text \<open>
  The two sleeping loops, over the values \<open>m_interrupted\<close> has and the results the wait gives
  in iteration \<open>k\<close>. The loops need not end: \<open>None\<close>.
\<close>

partial_function (option) sleep_loop :: "(nat \<Rightarrow> int) \<Rightarrow> (nat \<Rightarrow> wait_result) \<Rightarrow> nat \<Rightarrow> wait_result option" where
  "sleep_loop m_interrupted wait k =
     (if m_interrupted k \<noteq> 0 then Some (Waited False)
      else case wait k of
          WaitAborted \<Rightarrow> Some WaitAborted
        | Waited woken \<Rightarrow> if \<not> woken then Some (Waited True) else sleep_loop m_interrupted wait (Suc k))"

definition SleepUntil :: "(nat \<Rightarrow> int) \<Rightarrow> (nat \<Rightarrow> timespec \<Rightarrow> int) \<Rightarrow> timespec \<Rightarrow> wait_result option" where
  "SleepUntil m_interrupted timedwait abs_time = sleep_loop m_interrupted (\<lambda>k. WaitUntil (timedwait k) abs_time) 0"

definition SleepFor ::
    "(nat \<Rightarrow> int) \<Rightarrow> (nat \<Rightarrow> timespec \<Rightarrow> int) \<Rightarrow> (nat \<Rightarrow> timespec) \<Rightarrow> timespec \<Rightarrow> wait_result option" where
  "SleepFor m_interrupted timedwait clock rel_time =
     sleep_loop m_interrupted (\<lambda>k. WaitFor (timedwait k) (clock k) rel_time) 0"

definition sleep_ends :: "(nat \<Rightarrow> int) \<Rightarrow> (nat \<Rightarrow> wait_result) \<Rightarrow> nat \<Rightarrow> bool" where
  "sleep_ends m_interrupted wait k \<longleftrightarrow> m_interrupted k \<noteq> 0 \<or> wait k \<noteq> Waited True"

lemma sleep_loop_skip:
  assumes "\<And>j. j < k \<Longrightarrow> \<not> sleep_ends i w j"
  shows "sleep_loop i w 0 = sleep_loop i w k"
  using assms
proof (induction k)
  case (Suc k)
  have "\<not> sleep_ends i w k" using Suc.prems by simp
  then have "sleep_loop i w k = sleep_loop i w (Suc k)"
    by (subst sleep_loop.simps) (simp add: sleep_ends_def)
  with Suc show ?case by simp
qed simp

text \<open>
  A sleep until a deadline ends at the first iteration in which the thread is interrupted
  or its wait does not just wake up: with \<open>false\<close> if it was interrupted, with \<open>true\<close> if the
  deadline passed; spurious wake-ups in between do not end it.
\<close>

theorem sleep_until_outcome:
  assumes "\<And>j. j < k \<Longrightarrow> m_interrupted j = 0 \<and> timedwait j t = 0"
    and "m_interrupted k \<noteq> 0 \<or> timedwait k t \<noteq> 0"
  shows "SleepUntil m_interrupted timedwait t =
     Some (if m_interrupted k \<noteq> 0 then Waited False
           else if timedwait k t = ETIMEDOUT then Waited True else WaitAborted)"
proof -
  let ?w = "\<lambda>k. WaitUntil (timedwait k) t"
  have "\<not> sleep_ends m_interrupted ?w j" if "j < k" for j
    using assms(1) [OF that] by (simp add: sleep_ends_def WaitUntil_def ETIMEDOUT_def)
  then have "SleepUntil m_interrupted timedwait t = sleep_loop m_interrupted ?w k"
    unfolding SleepUntil_def by (rule sleep_loop_skip)
  then show ?thesis using assms(2) by (subst (asm) sleep_loop.simps) (auto simp: WaitUntil_def Let_def)
qed

theorem sleep_until_outcome_witness:
  "SleepUntil (\<lambda>k. 0) (\<lambda>k t. if k = 2 then 110 else 0) \<lparr>tv_sec = 5, tv_nsec = 0\<rparr> = Some (Waited True)"
  using sleep_until_outcome [of 2 "\<lambda>k. 0" "\<lambda>k t. if k = 2 then 110 else 0" "\<lparr>tv_sec = 5, tv_nsec = 0\<rparr>"]
  by (simp add: ETIMEDOUT_def)

text \<open>
  Sleeping for a duration does not depend on the duration: the deadline of every wait is the
  current time, so a sleep of any length behaves like one of length zero, although the sum that
  is dropped would be a later point in time.
\<close>

theorem sleep_for_ignores_duration:
  assumes "timespec_ok now" "timespec_ok rel" "0 < timespec_ns rel"
  shows "SleepFor m_interrupted timedwait clock rel = SleepFor m_interrupted timedwait clock \<lparr>tv_sec = 0, tv_nsec = 0\<rparr> \<and>
    WaitFor tw now rel = WaitUntil tw now \<and> timespec_ns now < timespec_ns (timespec_plus_assign now rel)"
  using assms by (auto simp: SleepFor_def WaitFor_def timespec_ns_def timespec_ok_def timespec_plus_assign_def Let_def)

theorem sleep_for_ignores_duration_witness:
  "SleepFor (\<lambda>k. 0) (\<lambda>k t. if tv_sec t \<le> 100 then 110 else 0) (\<lambda>k. \<lparr>tv_sec = 100, tv_nsec = 0\<rparr>) \<lparr>tv_sec = 3600, tv_nsec = 0\<rparr> =
   Some (Waited True)"
proof -
  let ?tw = "\<lambda>k::nat. \<lambda>t. if tv_sec t \<le> 100 then 110 else 0"
  have "SleepFor (\<lambda>k. 0) ?tw (\<lambda>k. \<lparr>tv_sec = 100, tv_nsec = 0\<rparr>) \<lparr>tv_sec = 3600, tv_nsec = 0\<rparr> =
      SleepFor (\<lambda>k. 0) ?tw (\<lambda>k. \<lparr>tv_sec = 100, tv_nsec = 0\<rparr>) \<lparr>tv_sec = 0, tv_nsec = 0\<rparr>"
    using sleep_for_ignores_duration [of "\<lparr>tv_sec = 100, tv_nsec = 0\<rparr>" "\<lparr>tv_sec = 3600, tv_nsec = 0\<rparr>" "\<lambda>k. 0" ?tw]
    by (simp add: timespec_ok_def timespec_ns_def)
  also have "\<dots> = Some (Waited True)"
    unfolding SleepFor_def by (subst sleep_loop.simps) (simp add: WaitFor_def WaitUntil_def ETIMEDOUT_def)
  finally show ?thesis .
qed

subsection \<open>The error log\<close>

datatype LogSeverity = kINFO | kWARNING | kERROR | kFATAL

text \<open>
  \<open>text\<close> is what the format and its arguments expand to; \<open>vsnprintf\<close> keeps at most
  \<open>sizeof(buf) - 2\<close> characters of it and terminates them. The result is what goes to the
  standard error stream in one \<open>write\<close>, and whether the process aborts.
\<close>

definition LogVPrintf :: "LogSeverity \<Rightarrow> string \<Rightarrow> string \<times> bool" where
  "LogVPrintf sv text =
     (let buf = takeWhile (\<lambda>c. c \<noteq> CHR 0x00) (take (512 - 1 - 1) text);
          buf_len = length buf;
          out = (if buf_len \<noteq> 0 \<and> buf ! (buf_len - 1) \<noteq> CHR 0x0A then buf @ [CHR 0x0A] else buf)
      in (out, sv = kFATAL))"

text \<open>
  A log line fits its 512 byte buffer together with the added newline, is a prefix of the
  formatted text up to that newline, ends with a newline unless it is empty, and only a fatal
  message aborts the process.
\<close>

theorem log_line_bounded:
  assumes "LogVPrintf sv text = (out, aborts)"
  shows "length out \<le> 511 \<and> (out \<noteq> [] \<longrightarrow> last out = CHR 0x0A) \<and> (aborts \<longleftrightarrow> sv = kFATAL) \<and>
    (\<exists>buf. prefix buf text \<and> (out = buf \<or> out = buf @ [CHR 0x0A]))"
proof -
  let ?buf = "takeWhile (\<lambda>c. c \<noteq> CHR 0x00) (take 510 text)"
  have out: "out = (if ?buf \<noteq> [] \<and> last ?buf \<noteq> CHR 0x0A then ?buf @ [CHR 0x0A] else ?buf)" "aborts = (sv = kFATAL)"
    using assms by (cases "?buf = []"; force simp: LogVPrintf_def Let_def last_conv_nth)+
  have "length ?buf \<le> 510" using length_takeWhile_le [of "\<lambda>c. c \<noteq> CHR 0x00" "take 510 text"] by simp
  moreover have "prefix ?buf text"
    using prefix_order.trans [OF takeWhile_is_prefix take_is_prefix] .
  ultimately show ?thesis using out by auto
qed

theorem log_line_bounded_witness:
  "length (fst (LogVPrintf kERROR (replicate 600 CHR ''x''))) \<le> 511"
  using log_line_bounded [of kERROR "replicate 600 CHR ''x''" "fst (LogVPrintf kERROR (replicate 600 CHR ''x''))"
    "snd (LogVPrintf kERROR (replicate 600 CHR ''x''))"] by simp

end
