(* ===== verification/Pthread_Wrappers.thy ===== *)
theory Pthread_Wrappers
  imports Interruptible_Thread Process_Support "HOL-Library.Multiset"
begin

text \<open>
  The wrappers around the thread library, \<^verbatim>\<open>src/memhook/thread.h\<close> and \<^verbatim>\<open>.cpp\<close>, with the macros of
  \<^verbatim>\<open>src/memhook/check.h\<close> that look at the results of its calls and the log they write to: the
  recursive \<^verbatim>\<open>Mutex\<close>, the \<^verbatim>\<open>ConditionVariable\<close>, the bound member functions a thread runs, and
  the sleeping functions that take a duration of any unit. The state is that of the thread
  library: who holds a mutex and how often, and who waits on a condition. A call gives the
  error number it returns, or does not return yet, since the thread blocks in it.
\<close>

subsection \<open>Checks and the log\<close>

record pthread_mutex =
  pm_recursive :: bool
  pm_owner :: nat
  pm_count :: nat

text \<open>
  A condition has the threads that wait on it and the mutex they released; a thread that was
  woken is among the woken ones until it has the mutex again.
\<close>

record thread_world =
  mutexes :: "addr \<rightharpoonup> pthread_mutex"
  conditions :: "addr \<rightharpoonup> (nat \<times> addr) list"
  woken :: "(nat \<times> addr) list"
  stderr_text :: string

datatype 'a outcome = Goes 'a thread_world | Blocks thread_world | Aborts thread_world

fun digits :: "nat \<Rightarrow> string" where
  "digits n = (if n < 10 then [char_of (48 + n)] else digits (n div 10) @ [char_of (48 + n mod 10)])"

declare digits.simps [simp del]

definition STDERR_FILENO :: int where "STDERR_FILENO = 2"

text \<open>Of the descriptors only that of the error stream is followed.\<close>

definition LogWriteToFile :: "int \<Rightarrow> string \<Rightarrow> thread_world \<Rightarrow> thread_world" where
  "LogWriteToFile fileno buf p =
     (if fileno = STDERR_FILENO then p\<lparr>stderr_text := stderr_text p @ buf\<rparr> else p)"

text \<open>\<open>text\<close> is what the format and its arguments expand to.\<close>

definition LogPrintf :: "LogSeverity \<Rightarrow> string \<Rightarrow> thread_world \<Rightarrow> unit outcome" where
  "LogPrintf sv text p =
     (let (buf, aborts) = LogVPrintf sv text;
          p = LogWriteToFile STDERR_FILENO buf p
      in if aborts then Aborts p else Goes () p)"

definition check_text :: "string \<Rightarrow> string \<Rightarrow> nat \<Rightarrow> string" where
  "check_text expr file line = expr @ '' failed at '' @ file @ '':'' @ digits line @ '': '' @ [CHR 0x0A]"

definition MEMHOOK_CHECK :: "string \<times> string \<times> nat \<Rightarrow> bool \<Rightarrow> thread_world \<Rightarrow> bool outcome" where
  "MEMHOOK_CHECK loc status p =
     (case loc of (expr, file, line) \<Rightarrow>
        if \<not> status then
          (case LogPrintf kERROR (check_text expr file line) p of
             Goes _ p \<Rightarrow> Goes status p | Blocks p \<Rightarrow> Blocks p | Aborts p \<Rightarrow> Aborts p)
        else Goes status p)"

definition MEMHOOK_EXPECT :: "string \<times> string \<times> nat \<Rightarrow> bool \<Rightarrow> thread_world \<Rightarrow> bool outcome" where
  "MEMHOOK_EXPECT loc status p =
     (case loc of (expr, file, line) \<Rightarrow>
        if \<not> status then
          (case LogPrintf kFATAL (check_text expr file line) p of
             Goes _ p \<Rightarrow> Goes status p | Blocks p \<Rightarrow> Blocks p | Aborts p \<Rightarrow> Aborts p)
        else Goes status p)"

text \<open>\<^verbatim>\<open>BOOST_VERIFY\<close> evaluates its argument and asserts it.\<close>

definition BOOST_VERIFY :: "bool outcome \<Rightarrow> unit outcome" where
  "BOOST_VERIFY r = (case r of Goes b p \<Rightarrow> (if b then Goes () p else Aborts p) | Blocks p \<Rightarrow> Blocks p | Aborts p \<Rightarrow> Aborts p)"

text \<open>A failed check is a line of the log and goes on; a failed expectation is a line and the end.\<close>

definition check_line :: "LogSeverity \<Rightarrow> string \<times> string \<times> nat \<Rightarrow> string" where
  "check_line sv loc = fst (LogVPrintf sv (case loc of (expr, file, line) \<Rightarrow> check_text expr file line))"

lemma MEMHOOK_EXPECT_cases [simp]:
  "MEMHOOK_EXPECT loc True p = Goes True p"
  "MEMHOOK_EXPECT loc False p = Aborts (p\<lparr>stderr_text := stderr_text p @ check_line kFATAL loc\<rparr>)"
  by (simp_all add: MEMHOOK_EXPECT_def LogPrintf_def LogVPrintf_def LogWriteToFile_def check_line_def Let_def split: prod.splits)

lemma MEMHOOK_CHECK_cases [simp]:
  "MEMHOOK_CHECK loc True p = Goes True p"
  "MEMHOOK_CHECK loc False p = Goes False (p\<lparr>stderr_text := stderr_text p @ check_line kERROR loc\<rparr>)"
  by (simp_all add: MEMHOOK_CHECK_def LogPrintf_def LogVPrintf_def LogWriteToFile_def check_line_def Let_def split: prod.splits)

subsection \<open>The calls of the thread library\<close>

definition EPERM :: int where "EPERM = 1"
definition EAGAIN :: int where "EAGAIN = 11"
definition EBUSY :: int where "EBUSY = 16"
definition pthread_EINVAL :: int where "pthread_EINVAL = 22"

text \<open>The library counts the locks of a recursive mutex in 32 bits.\<close>

definition recursion_max :: nat where "recursion_max = 2 ^ 32 - 1"

definition pthread_mutex_init :: "addr \<Rightarrow> bool \<Rightarrow> thread_world \<Rightarrow> int \<times> thread_world" where
  "pthread_mutex_init a recursive p =
     (0, p\<lparr>mutexes := (mutexes p)(a \<mapsto> \<lparr>pm_recursive = recursive, pm_owner = 0, pm_count = 0\<rparr>)\<rparr>)"

definition pthread_mutex_destroy :: "addr \<Rightarrow> thread_world \<Rightarrow> int \<times> thread_world" where
  "pthread_mutex_destroy a p =
     (case mutexes p a of
        None \<Rightarrow> (pthread_EINVAL, p)
      | Some m \<Rightarrow> (if pm_count m \<noteq> 0 then (EBUSY, p) else (0, p\<lparr>mutexes := (mutexes p)(a := None)\<rparr>)))"

definition pthread_mutex_lock :: "nat \<Rightarrow> addr \<Rightarrow> thread_world \<Rightarrow> (int \<times> thread_world) option" where
  "pthread_mutex_lock tid a p =
     (case mutexes p a of
        None \<Rightarrow> Some (pthread_EINVAL, p)
      | Some m \<Rightarrow>
          if pm_count m = 0 then Some (0, p\<lparr>mutexes := (mutexes p)(a \<mapsto> m\<lparr>pm_owner := tid, pm_count := 1\<rparr>)\<rparr>)
          else if pm_owner m = tid \<and> pm_recursive m then
            (if pm_count m = recursion_max then Some (EAGAIN, p)
             else Some (0, p\<lparr>mutexes := (mutexes p)(a \<mapsto> m\<lparr>pm_count := pm_count m + 1\<rparr>)\<rparr>))
          else None)"

definition pthread_mutex_unlock :: "nat \<Rightarrow> addr \<Rightarrow> thread_world \<Rightarrow> int \<times> thread_world" where
  "pthread_mutex_unlock tid a p =
     (case mutexes p a of
        None \<Rightarrow> (pthread_EINVAL, p)
      | Some m \<Rightarrow>
          if pm_count m = 0 \<or> pm_owner m \<noteq> tid then (EPERM, p)
          else (0, p\<lparr>mutexes := (mutexes p)(a \<mapsto> m\<lparr>pm_count := pm_count m - 1\<rparr>)\<rparr>))"

definition pthread_cond_init :: "addr \<Rightarrow> thread_world \<Rightarrow> int \<times> thread_world" where
  "pthread_cond_init c p = (0, p\<lparr>conditions := (conditions p)(c \<mapsto> [])\<rparr>)"

definition pthread_cond_destroy :: "addr \<Rightarrow> thread_world \<Rightarrow> int \<times> thread_world" where
  "pthread_cond_destroy c p =
     (case conditions p c of
        None \<Rightarrow> (pthread_EINVAL, p)
      | Some ws \<Rightarrow> (if ws \<noteq> [] then (EBUSY, p) else (0, p\<lparr>conditions := (conditions p)(c := None)\<rparr>)))"

text \<open>Which of the waiting threads a signal wakes is up to the library, the choice \<open>k\<close>.\<close>

definition pthread_cond_signal :: "nat \<Rightarrow> addr \<Rightarrow> thread_world \<Rightarrow> int \<times> thread_world" where
  "pthread_cond_signal k c p =
     (case conditions p c of
        None \<Rightarrow> (pthread_EINVAL, p)
      | Some ws \<Rightarrow>
          (let k = k mod length ws in
           (0, p\<lparr>conditions := (conditions p)(c \<mapsto> take k ws @ drop (Suc k) ws),
                 woken := take 1 (drop k ws) @ woken p\<rparr>)))"

definition pthread_cond_broadcast :: "addr \<Rightarrow> thread_world \<Rightarrow> int \<times> thread_world" where
  "pthread_cond_broadcast c p =
     (case conditions p c of
        None \<Rightarrow> (pthread_EINVAL, p)
      | Some ws \<Rightarrow> (0, p\<lparr>conditions := (conditions p)(c \<mapsto> []), woken := ws @ woken p\<rparr>))"

text \<open>
  Waiting has two halves: the first one releases the mutex, once, and queues the thread; the
  second one returns, when the thread was woken and gets the mutex.
\<close>

definition pthread_cond_wait :: "nat \<Rightarrow> addr \<Rightarrow> addr \<Rightarrow> thread_world \<Rightarrow> (int \<times> thread_world) + thread_world" where
  "pthread_cond_wait tid c a p =
     (case conditions p c of
        None \<Rightarrow> Inl (pthread_EINVAL, p)
      | Some ws \<Rightarrow>
          (case pthread_mutex_unlock tid a p of
             (rc, p) \<Rightarrow> if rc \<noteq> 0 then Inl (rc, p)
                        else Inr (p\<lparr>conditions := (conditions p)(c \<mapsto> ws @ [(tid, a)])\<rparr>)))"

definition pthread_cond_wait_returns :: "nat \<Rightarrow> addr \<Rightarrow> thread_world \<Rightarrow> (int \<times> thread_world) option" where
  "pthread_cond_wait_returns tid a p =
     (if (tid, a) \<in> set (woken p)
      then map_option (\<lambda>(rc, p). (rc, p\<lparr>woken := remove1 (tid, a) (woken p)\<rparr>)) (pthread_mutex_lock tid a p)
      else None)"

subsection \<open>Mutex and ConditionVariable\<close>

text \<open>The places of the checks; the name of the file is the one the compiler was given.\<close>

definition here :: "string \<Rightarrow> nat \<Rightarrow> string \<times> string \<times> nat" where
  "here call line = (''('' @ call @ '') == 0'', ''thread.cpp'', line)"

definition EXPECT_SUCCEEDED :: "string \<times> string \<times> nat \<Rightarrow> int \<times> thread_world \<Rightarrow> bool outcome" where
  "EXPECT_SUCCEEDED loc r = (case r of (rc, p) \<Rightarrow> MEMHOOK_EXPECT loc (rc = 0) p)"

definition CHECK_SUCCEEDED :: "string \<times> string \<times> nat \<Rightarrow> int \<times> thread_world \<Rightarrow> bool outcome" where
  "CHECK_SUCCEEDED loc r = (case r of (rc, p) \<Rightarrow> MEMHOOK_CHECK loc (rc = 0) p)"

text \<open>
  \<open>attr\<close> holds what the three calls on the attribute object return; they have no other effect
  than the type of the mutex.
\<close>

definition and_then :: "'a outcome \<Rightarrow> (thread_world \<Rightarrow> 'b outcome) \<Rightarrow> 'b outcome" where
  "and_then r f = (case r of Goes _ p \<Rightarrow> f p | Blocks p \<Rightarrow> Blocks p | Aborts p \<Rightarrow> Aborts p)"

definition InitRecursiveMutex :: "int \<times> int \<times> int \<Rightarrow> addr \<Rightarrow> thread_world \<Rightarrow> bool outcome" where
  "InitRecursiveMutex attr mutex p =
     (case attr of (init, settype, destroy) \<Rightarrow>
        and_then (EXPECT_SUCCEEDED (here ''pthread_mutexattr_init(&mutexattr)'' 33) (init, p)) (\<lambda>p.
        and_then (EXPECT_SUCCEEDED (here ''pthread_mutexattr_settype(&mutexattr, PTHREAD_MUTEX_RECURSIVE)'' 34) (settype, p)) (\<lambda>p.
        and_then (EXPECT_SUCCEEDED (here ''pthread_mutex_init(mutex, &mutexattr)'' 36) (pthread_mutex_init mutex True p)) (\<lambda>p.
        EXPECT_SUCCEEDED (here ''pthread_mutexattr_destroy(&mutexattr)'' 37) (destroy, p)))))"

definition new_Mutex :: "int \<times> int \<times> int \<Rightarrow> addr \<Rightarrow> thread_world \<Rightarrow> bool outcome" where
  "new_Mutex attr this p = InitRecursiveMutex attr this p"

definition Mutex_end :: "addr \<Rightarrow> thread_world \<Rightarrow> unit outcome" where
  "Mutex_end this p =
     BOOST_VERIFY (CHECK_SUCCEEDED (here ''pthread_mutex_destroy(&m_mutex)'' 27) (pthread_mutex_destroy this p))"

definition Mutex_Lock :: "nat \<Rightarrow> addr \<Rightarrow> thread_world \<Rightarrow> bool outcome" where
  "Mutex_Lock tid this p =
     (case pthread_mutex_lock tid this p of
        None \<Rightarrow> Blocks p
      | Some r \<Rightarrow> EXPECT_SUCCEEDED (here ''pthread_mutex_lock(&m_mutex)'' 41) r)"

definition Mutex_Unlock :: "nat \<Rightarrow> addr \<Rightarrow> thread_world \<Rightarrow> bool outcome" where
  "Mutex_Unlock tid this p =
     EXPECT_SUCCEEDED (here ''pthread_mutex_unlock(&m_mutex)'' 45) (pthread_mutex_unlock tid this p)"

definition new_ConditionVariable :: "addr \<Rightarrow> thread_world \<Rightarrow> bool outcome" where
  "new_ConditionVariable this p =
     EXPECT_SUCCEEDED (here ''pthread_cond_init(&m_condition, __null)'' 49) (pthread_cond_init this p)"

definition ConditionVariable_end :: "addr \<Rightarrow> thread_world \<Rightarrow> unit outcome" where
  "ConditionVariable_end this p =
     BOOST_VERIFY (CHECK_SUCCEEDED (here ''pthread_cond_destroy(&m_condition)'' 53) (pthread_cond_destroy this p))"

definition WakeUp :: "nat \<Rightarrow> addr \<Rightarrow> thread_world \<Rightarrow> bool outcome" where
  "WakeUp k this p =
     EXPECT_SUCCEEDED (here ''pthread_cond_signal(&m_condition)'' 57) (pthread_cond_signal k this p)"

definition cv_WakeUpAll :: "addr \<Rightarrow> thread_world \<Rightarrow> bool outcome" where
  "cv_WakeUpAll this p =
     EXPECT_SUCCEEDED (here ''pthread_cond_broadcast(&m_condition)'' 61) (pthread_cond_broadcast this p)"

text \<open>\<open>lock\<close> is the mutex of the \<^verbatim>\<open>MutexLock\<close> the caller passes, null for one without a mutex.\<close>

definition Wait :: "nat \<Rightarrow> addr option \<Rightarrow> addr \<Rightarrow> thread_world \<Rightarrow> bool outcome" where
  "Wait tid lock this p =
     (case lock of
        None \<Rightarrow> Aborts p
      | Some mutex \<Rightarrow>
          (case pthread_cond_wait tid this mutex p of
             Inl r \<Rightarrow> EXPECT_SUCCEEDED (here ''pthread_cond_wait(&m_condition, mutex->GetPthreadMutex())'' 67) r
           | Inr p \<Rightarrow> Blocks p))"

definition Wait_returns :: "nat \<Rightarrow> addr \<Rightarrow> thread_world \<Rightarrow> bool outcome" where
  "Wait_returns tid mutex p =
     (case pthread_cond_wait_returns tid mutex p of
        None \<Rightarrow> Blocks p
      | Some r \<Rightarrow> EXPECT_SUCCEEDED (here ''pthread_cond_wait(&m_condition, mutex->GetPthreadMutex())'' 67) r)"

lemma EXPECT_SUCCEEDED_simps [simp]:
  "EXPECT_SUCCEEDED loc (0, p) = Goes True p"
  "rc \<noteq> 0 \<Longrightarrow> EXPECT_SUCCEEDED loc (rc, p) = Aborts (p\<lparr>stderr_text := stderr_text p @ check_line kFATAL loc\<rparr>)"
  by (simp_all add: EXPECT_SUCCEEDED_def)

subsection \<open>Threads that share a mutex and a condition\<close>

text \<open>
  What a thread knows of itself: how often it has the mutex, and whether it is in a wait. A
  call that does not return yet changes nothing and is made again; a wait that has begun
  leaves the thread waiting.
\<close>

datatype sync_op = SyncLock | SyncUnlock | SyncWait | SyncReturn | SyncWakeUp nat | SyncWakeUpAll

record sync_thread =
  depth :: nat
  waits :: bool

type_synonym sync_state = "(nat \<Rightarrow> sync_thread) \<times> thread_world"

definition sync_step :: "addr \<Rightarrow> addr \<Rightarrow> nat \<times> sync_op \<Rightarrow> sync_state \<Rightarrow> sync_state option" where
  "sync_step mutex cond e s =
     (case e of (t, op) \<Rightarrow> case s of (ts, p) \<Rightarrow>
        (case op of
           SyncLock \<Rightarrow> (case Mutex_Lock t mutex p of
                        Goes _ p \<Rightarrow> Some (ts(t := (ts t)\<lparr>depth := depth (ts t) + 1\<rparr>), p)
                      | Blocks p \<Rightarrow> Some (ts, p) | Aborts _ \<Rightarrow> None)
         | SyncUnlock \<Rightarrow> (case Mutex_Unlock t mutex p of
                        Goes _ p \<Rightarrow> Some (ts(t := (ts t)\<lparr>depth := depth (ts t) - 1\<rparr>), p)
                      | Blocks p \<Rightarrow> Some (ts, p) | Aborts _ \<Rightarrow> None)
         | SyncWait \<Rightarrow> (case Wait t (Some mutex) cond p of
                        Goes _ p \<Rightarrow> Some (ts, p)
                      | Blocks p \<Rightarrow> Some (ts(t := \<lparr>depth = depth (ts t) - 1, waits = True\<rparr>), p) | Aborts _ \<Rightarrow> None)
         | SyncReturn \<Rightarrow> (case Wait_returns t mutex p of
                        Goes _ p \<Rightarrow> Some (ts(t := \<lparr>depth = depth (ts t) + 1, waits = False\<rparr>), p)
                      | Blocks p \<Rightarrow> Some (ts, p) | Aborts _ \<Rightarrow> None)
         | SyncWakeUp k \<Rightarrow> (case WakeUp k cond p of
                        Goes _ p \<Rightarrow> Some (ts, p) | Blocks p \<Rightarrow> Some (ts, p) | Aborts _ \<Rightarrow> None)
         | SyncWakeUpAll \<Rightarrow> (case cv_WakeUpAll cond p of
                        Goes _ p \<Rightarrow> Some (ts, p) | Blocks p \<Rightarrow> Some (ts, p) | Aborts _ \<Rightarrow> None)))"

fun sync_steps :: "addr \<Rightarrow> addr \<Rightarrow> (nat \<times> sync_op) list \<Rightarrow> sync_state \<Rightarrow> sync_state option" where
  "sync_steps mutex cond [] s = Some s"
| "sync_steps mutex cond (e # es) s =
     (case sync_step mutex cond e s of None \<Rightarrow> None | Some s \<Rightarrow> sync_steps mutex cond es s)"

text \<open>
  What the callers keep to: a thread in a wait makes no other call, one unlocks only what it
  holds, waits with the mutex held once, as a \<^verbatim>\<open>MutexLock\<close> holds it, and does not nest deeper
  than the library can count.
\<close>

definition sync_ok :: "nat \<times> sync_op \<Rightarrow> sync_state \<Rightarrow> bool" where
  "sync_ok e s \<longleftrightarrow>
     (case e of (t, op) \<Rightarrow> case s of (ts, p) \<Rightarrow>
        (waits (ts t) \<longleftrightarrow> op = SyncReturn) \<and>
        (op = SyncLock \<longrightarrow> depth (ts t) < recursion_max) \<and>
        (op = SyncUnlock \<longrightarrow> 0 < depth (ts t)) \<and>
        (op = SyncWait \<longrightarrow> depth (ts t) = 1))"

fun sync_all_ok :: "addr \<Rightarrow> addr \<Rightarrow> (nat \<times> sync_op) list \<Rightarrow> sync_state \<Rightarrow> bool" where
  "sync_all_ok mutex cond [] s \<longleftrightarrow> True"
| "sync_all_ok mutex cond (e # es) s \<longleftrightarrow>
     sync_ok e s \<and> (case sync_step mutex cond e s of None \<Rightarrow> True | Some s \<Rightarrow> sync_all_ok mutex cond es s)"

text \<open>
  The library counts what the threads count: the mutex belongs to the thread with a positive
  depth, and that is its count; the waiting threads are those in the queue of the condition or
  among the woken ones, each of them once, and none of them has the mutex.
\<close>

definition mutex_inv :: "addr \<Rightarrow> (nat \<Rightarrow> sync_thread) \<Rightarrow> thread_world \<Rightarrow> bool" where
  "mutex_inv mutex ts p \<longleftrightarrow>
     (\<exists>m. mutexes p mutex = Some m \<and> pm_recursive m \<and> pm_count m \<le> recursion_max \<and>
        (\<forall>t. depth (ts t) = (if pm_count m \<noteq> 0 \<and> pm_owner m = t then pm_count m else 0)))"

definition queued :: "addr \<Rightarrow> (nat \<Rightarrow> sync_thread) \<Rightarrow> (nat \<times> addr) list \<Rightarrow> bool" where
  "queued mutex ts qs \<longleftrightarrow>
     distinct (map fst qs) \<and> snd ` set qs \<subseteq> {mutex} \<and>
     (\<forall>t. waits (ts t) \<longleftrightarrow> t \<in> fst ` set qs) \<and> (\<forall>t. waits (ts t) \<longrightarrow> depth (ts t) = 0)"

definition wait_inv :: "addr \<Rightarrow> addr \<Rightarrow> (nat \<Rightarrow> sync_thread) \<Rightarrow> thread_world \<Rightarrow> bool" where
  "wait_inv mutex cond ts p \<longleftrightarrow> (\<exists>ws. conditions p cond = Some ws \<and> queued mutex ts (ws @ woken p))"

definition sync_inv :: "addr \<Rightarrow> addr \<Rightarrow> sync_state \<Rightarrow> bool" where
  "sync_inv mutex cond s \<longleftrightarrow> mutex_inv mutex (fst s) (snd s) \<and> wait_inv mutex cond (fst s) (snd s)"

named_theorems pthread_defs

lemmas [pthread_defs] = Mutex_Lock_def Mutex_Unlock_def Wait_def Wait_returns_def WakeUp_def cv_WakeUpAll_def
  pthread_mutex_lock_def pthread_mutex_unlock_def pthread_cond_wait_def pthread_cond_wait_returns_def
  pthread_cond_signal_def pthread_cond_broadcast_def

lemma mutex_inv_frame:
  "mutexes p' = mutexes p \<Longrightarrow> mutex_inv mutex ts p \<Longrightarrow> mutex_inv mutex ts p'"
  by (simp add: mutex_inv_def)

text \<open>The order of the queues does not matter, so that waking threads keeps them queued.\<close>

lemma queued_mset: "mset qs = mset qs' \<Longrightarrow> queued mutex ts qs \<Longrightarrow> queued mutex ts qs'"
  unfolding queued_def by (metis distinct_count_atmost_1 mset_map set_mset_mset)

lemma queued_running:
  "queued mutex ts qs \<Longrightarrow> \<not> waits (ts t) \<Longrightarrow> queued mutex (ts(t := \<lparr>depth = d, waits = False\<rparr>)) qs"
  by (auto simp: queued_def)

lemma queued_add:
  "queued mutex ts qs \<Longrightarrow> \<not> waits (ts t) \<Longrightarrow> queued mutex (ts(t := \<lparr>depth = 0, waits = True\<rparr>)) ((t, mutex) # qs)"
  by (auto simp: queued_def)

lemma queued_del:
  "queued mutex ts ((t, mutex) # qs) \<Longrightarrow> queued mutex (ts(t := \<lparr>depth = d, waits = False\<rparr>)) qs"
  by (auto simp: queued_def)

text \<open>Taking the mutex: when nobody else has it, or the thread itself.\<close>

lemma pthread_lock_step:
  assumes inv: "mutex_inv mutex ts p" and deep: "depth (ts t) < recursion_max"
  shows "(\<exists>p'. pthread_mutex_lock t mutex p = Some (0, p') \<and> conditions p' = conditions p \<and> woken p' = woken p \<and>
      mutex_inv mutex (ts(t := \<lparr>depth = depth (ts t) + 1, waits = w\<rparr>)) p') \<or>
    pthread_mutex_lock t mutex p = None"
proof -
  from inv obtain m where m: "mutexes p mutex = Some m" "pm_recursive m" "pm_count m \<le> recursion_max"
    and d: "\<And>t. depth (ts t) = (if pm_count m \<noteq> 0 \<and> pm_owner m = t then pm_count m else 0)"
    unfolding mutex_inv_def by blast
  consider "pm_count m = 0" | "pm_count m \<noteq> 0" "pm_owner m = t" | "pm_count m \<noteq> 0" "pm_owner m \<noteq> t" by blast
  then show ?thesis
  proof cases
    case 1
    then show ?thesis using m d deep by (auto simp: pthread_mutex_lock_def mutex_inv_def)
  next
    case 2
    then have "pm_count m < recursion_max" using d [of t] deep by simp
    then show ?thesis using 2 m d by (auto simp: pthread_mutex_lock_def mutex_inv_def)
  next
    case 3
    then show ?thesis using m by (simp add: pthread_mutex_lock_def)
  qed
qed

lemma pthread_unlock_step:
  assumes inv: "mutex_inv mutex ts p" and held: "0 < depth (ts t)"
  obtains p' where "pthread_mutex_unlock t mutex p = (0, p')" "conditions p' = conditions p" "woken p' = woken p"
      "mutex_inv mutex (ts(t := \<lparr>depth = depth (ts t) - 1, waits = w\<rparr>)) p'"
proof -
  from inv obtain m where m: "mutexes p mutex = Some m" "pm_recursive m" "pm_count m \<le> recursion_max"
    and d: "\<And>t. depth (ts t) = (if pm_count m \<noteq> 0 \<and> pm_owner m = t then pm_count m else 0)"
    unfolding mutex_inv_def by blast
  have "pm_count m \<noteq> 0" "pm_owner m = t" using held d [of t] by (auto split: if_splits)
  then show ?thesis using m d that by (auto simp: pthread_mutex_unlock_def mutex_inv_def)
qed

lemma thread_eta: "\<not> waits (ts t) \<Longrightarrow> (ts t)\<lparr>depth := d\<rparr> = \<lparr>depth = d, waits = False\<rparr>" by (cases "ts t") simp

lemma sync_lock_inv:
  assumes inv: "sync_inv mutex cond (ts, p)" and ok: "\<not> waits (ts t)" "depth (ts t) < recursion_max"
  shows "\<exists>s'. sync_step mutex cond (t, SyncLock) (ts, p) = Some s' \<and> sync_inv mutex cond s'"
proof (cases "pthread_mutex_lock t mutex p")
  case None
  then show ?thesis using inv by (simp add: sync_step_def Mutex_Lock_def)
next
  case (Some r)
  with pthread_lock_step [of mutex ts p t False] inv ok obtain p'
    where l: "pthread_mutex_lock t mutex p = Some (0, p')" "conditions p' = conditions p" "woken p' = woken p"
      and m: "mutex_inv mutex (ts(t := \<lparr>depth = depth (ts t) + 1, waits = False\<rparr>)) p'" by (auto simp: sync_inv_def)
  then show ?thesis using inv ok
    by (auto simp: sync_step_def Mutex_Lock_def thread_eta sync_inv_def wait_inv_def queued_running)
qed

lemma sync_unlock_inv:
  assumes inv: "sync_inv mutex cond (ts, p)" and ok: "\<not> waits (ts t)" "0 < depth (ts t)"
  shows "\<exists>s'. sync_step mutex cond (t, SyncUnlock) (ts, p) = Some s' \<and> sync_inv mutex cond s'"
proof -
  have "mutex_inv mutex ts p" using inv by (simp add: sync_inv_def)
  then obtain p' where "pthread_mutex_unlock t mutex p = (0, p')" "conditions p' = conditions p" "woken p' = woken p"
      "mutex_inv mutex (ts(t := \<lparr>depth = depth (ts t) - 1, waits = False\<rparr>)) p'"
    using ok(2) by (rule pthread_unlock_step)
  then show ?thesis using inv ok
    by (auto simp: sync_step_def Mutex_Unlock_def thread_eta sync_inv_def wait_inv_def queued_running)
qed

lemma sync_wait_inv:
  assumes inv: "sync_inv mutex cond (ts, p)" and ok: "\<not> waits (ts t)" "depth (ts t) = 1"
  shows "\<exists>s'. sync_step mutex cond (t, SyncWait) (ts, p) = Some s' \<and> sync_inv mutex cond s'"
proof -
  from inv obtain ws where ws: "conditions p cond = Some ws" "queued mutex ts (ws @ woken p)"
    by (auto simp: sync_inv_def wait_inv_def)
  have "mutex_inv mutex ts p" "0 < depth (ts t)" using inv ok by (simp_all add: sync_inv_def)
  then obtain p' where l: "pthread_mutex_unlock t mutex p = (0, p')" "conditions p' = conditions p" "woken p' = woken p"
      and m: "mutex_inv mutex (ts(t := \<lparr>depth = depth (ts t) - 1, waits = True\<rparr>)) p'"
    by (rule pthread_unlock_step)
  then have m: "mutex_inv mutex (ts(t := \<lparr>depth = 0, waits = True\<rparr>)) p'" using ok by simp
  have "queued mutex (ts(t := \<lparr>depth = 0, waits = True\<rparr>)) ((ws @ [(t, mutex)]) @ woken p)"
    by (rule queued_mset [OF _ queued_add [OF ws(2) ok(1)]]) simp
  moreover have "mutex_inv mutex (ts(t := \<lparr>depth = 0, waits = True\<rparr>)) (p'\<lparr>conditions := cs\<rparr>)" for cs
    by (rule mutex_inv_frame [OF _ m]) simp
  ultimately show ?thesis using l ws ok
    by (auto simp: sync_step_def Wait_def pthread_cond_wait_def sync_inv_def wait_inv_def)
qed

lemma sync_return_inv:
  assumes inv: "sync_inv mutex cond (ts, p)" and ok: "waits (ts t)"
  shows "\<exists>s'. sync_step mutex cond (t, SyncReturn) (ts, p) = Some s' \<and> sync_inv mutex cond s'"
proof (cases "(t, mutex) \<in> set (woken p) \<and> pthread_mutex_lock t mutex p \<noteq> None")
  case False
  then have "pthread_cond_wait_returns t mutex p = None" by (auto simp: pthread_cond_wait_returns_def simp del: not_None_eq)
  then show ?thesis using inv by (simp add: sync_step_def Wait_returns_def)
next
  case True
  from inv obtain ws where ws: "conditions p cond = Some ws" "queued mutex ts (ws @ woken p)"
    by (auto simp: sync_inv_def wait_inv_def)
  then have "depth (ts t) = 0" using ok by (simp add: queued_def)
  with True pthread_lock_step [of mutex ts p t False] inv obtain p'
    where l: "pthread_mutex_lock t mutex p = Some (0, p')" "conditions p' = conditions p" "woken p' = woken p"
      and m: "mutex_inv mutex (ts(t := \<lparr>depth = depth (ts t) + 1, waits = False\<rparr>)) p'"
    by (auto simp: sync_inv_def recursion_max_def)
  have "mset (ws @ woken p) = mset ((t, mutex) # ws @ remove1 (t, mutex) (woken p))" using True by simp
  then have "queued mutex (ts(t := \<lparr>depth = depth (ts t) + 1, waits = False\<rparr>)) (ws @ remove1 (t, mutex) (woken p))"
    using queued_del queued_mset ws(2) by blast
  moreover have "mutex_inv mutex (ts(t := \<lparr>depth = depth (ts t) + 1, waits = False\<rparr>)) (p'\<lparr>woken := x\<rparr>)" for x
    by (rule mutex_inv_frame [OF _ m]) simp
  ultimately show ?thesis using l True ws
    by (auto simp: sync_step_def Wait_returns_def pthread_cond_wait_returns_def sync_inv_def wait_inv_def)
qed

lemma sync_wake_inv:
  assumes inv: "sync_inv mutex cond (ts, p)"
  shows "\<exists>s'. sync_step mutex cond (t, SyncWakeUp k) (ts, p) = Some s' \<and> sync_inv mutex cond s'"
    "\<exists>s'. sync_step mutex cond (t, SyncWakeUpAll) (ts, p) = Some s' \<and> sync_inv mutex cond s'"
proof -
  from inv obtain ws where ws: "conditions p cond = Some ws" "queued mutex ts (ws @ woken p)" and m: "mutex_inv mutex ts p"
    by (auto simp: sync_inv_def wait_inv_def)
  have f: "mutex_inv mutex ts (p\<lparr>conditions := cs, woken := x\<rparr>)" for cs x
    by (rule mutex_inv_frame [OF _ m]) simp
  have "mset (ws @ woken p) = mset ((take n ws @ drop (Suc n) ws) @ take 1 (drop n ws) @ woken p)" for n
  proof -
    have "mset ws = mset (take n ws @ take 1 (drop n ws) @ drop (Suc n) ws)"
      by (metis append_take_drop_id drop_drop plus_1_eq_Suc)
    then show ?thesis by (simp add: ac_simps)
  qed
  from queued_mset [OF this ws(2)]
  have "queued mutex ts ((take n ws @ drop (Suc n) ws) @ take 1 (drop n ws) @ woken p)" for n .
  then show "\<exists>s'. sync_step mutex cond (t, SyncWakeUp k) (ts, p) = Some s' \<and> sync_inv mutex cond s'"
    using ws f by (auto simp: sync_step_def WakeUp_def pthread_cond_signal_def sync_inv_def wait_inv_def Let_def)
  show "\<exists>s'. sync_step mutex cond (t, SyncWakeUpAll) (ts, p) = Some s' \<and> sync_inv mutex cond s'"
    using ws f by (auto simp: sync_step_def cv_WakeUpAll_def pthread_cond_broadcast_def sync_inv_def wait_inv_def)
qed

lemma sync_step_inv:
  assumes "sync_inv mutex cond s" "sync_ok e s"
  shows "\<exists>s'. sync_step mutex cond e s = Some s' \<and> sync_inv mutex cond s'"
proof -
  obtain t op ts p where "e = (t, op)" "s = (ts, p)" by (cases e, cases s) auto
  then show ?thesis using assms sync_lock_inv sync_unlock_inv sync_wait_inv sync_return_inv sync_wake_inv
    by (cases op) (auto simp: sync_ok_def)
qed

lemma sync_steps_inv:
  "sync_inv mutex cond s \<Longrightarrow> sync_all_ok mutex cond es s \<Longrightarrow>
   \<exists>s'. sync_steps mutex cond es s = Some s' \<and> sync_inv mutex cond s'"
proof (induction es arbitrary: s)
  case (Cons e es)
  then obtain s' where "sync_step mutex cond e s = Some s'" "sync_inv mutex cond s'"
    using sync_step_inv [of mutex cond s e] by auto
  with Cons show ?case by simp
qed simp

lemma sync_inv_once:
  "sync_inv mutex cond (ts, p) \<Longrightarrow> 0 < depth (ts t) \<Longrightarrow> 0 < depth (ts u) \<Longrightarrow> t = u"
  unfolding sync_inv_def mutex_inv_def by (metis fst_conv less_irrefl)

lemma sync_inv_holder:
  assumes "sync_inv mutex cond (ts, q)"
  shows "0 < depth (ts t) \<longrightarrow> \<not> waits (ts t) \<and> (\<exists>m. mutexes q mutex = Some m \<and> pm_owner m = t \<and> pm_count m = depth (ts t))"
proof -
  from assms obtain m ws where m: "mutexes q mutex = Some m" "queued mutex ts (ws @ woken q)"
    and d: "depth (ts t) = (if pm_count m \<noteq> 0 \<and> pm_owner m = t then pm_count m else 0)"
    by (auto simp: sync_inv_def mutex_inv_def wait_inv_def)
  from m(2) have "0 < depth (ts t) \<Longrightarrow> \<not> waits (ts t)" unfolding queued_def by (metis less_irrefl)
  with m(1) d show ?thesis by (auto split: if_splits)
qed

text \<open>The constructors give a free mutex and a condition nobody waits on.\<close>

definition fresh_threads :: "nat \<Rightarrow> sync_thread" where
  "fresh_threads t = \<lparr>depth = 0, waits = False\<rparr>"

definition new_monitor :: "addr \<Rightarrow> addr \<Rightarrow> thread_world \<Rightarrow> bool outcome" where
  "new_monitor mutex cond p = and_then (new_Mutex (0, 0, 0) mutex p) (new_ConditionVariable cond)"

definition monitor_end :: "addr \<Rightarrow> addr \<Rightarrow> thread_world \<Rightarrow> unit outcome" where
  "monitor_end mutex cond p = and_then (ConditionVariable_end cond p) (Mutex_end mutex)"

lemma new_monitor_inv:
  assumes "woken p = []"
  shows "\<exists>p'. new_monitor mutex cond p = Goes True p' \<and> sync_inv mutex cond (fresh_threads, p')"
  using assms
  by (auto simp: new_monitor_def and_then_def new_Mutex_def InitRecursiveMutex_def pthread_mutex_init_def
      new_ConditionVariable_def pthread_cond_init_def sync_inv_def mutex_inv_def wait_inv_def queued_def fresh_threads_def)

lemma monitor_end_quiet:
  assumes "sync_inv mutex cond (ts, p)" "\<And>t. depth (ts t) = 0 \<and> \<not> waits (ts t)"
  shows "\<exists>p'. monitor_end mutex cond p = Goes () p' \<and> stderr_text p' = stderr_text p"
proof -
  from assms obtain m where m: "mutexes p mutex = Some m" "pm_count m = 0"
    by (auto simp: sync_inv_def mutex_inv_def split: if_splits)
  from assms have "conditions p cond = Some []" by (auto simp: sync_inv_def wait_inv_def queued_def)
  with m show ?thesis
    by (simp add: monitor_end_def and_then_def ConditionVariable_end_def Mutex_end_def CHECK_SUCCEEDED_def BOOST_VERIFY_def
        pthread_cond_destroy_def pthread_mutex_destroy_def)
qed

text \<open>
  C35. \<^verbatim>\<open>Mutex\<close> and \<^verbatim>\<open>ConditionVariable\<close> never end the process when threads keep to the rules, in
  whatever order their calls are made: after the constructors, every sequence of locks,
  unlocks, waits and wake-ups in which a thread unlocks only what it has locked, waits with the
  mutex held once and nests less deep than the library counts runs to its end without a failed
  expectation. At its end at most one thread has the mutex, as often as the mutex counts; a
  thread that waits does not have it; waking all leaves nobody in the queue; and once every
  thread is out, the two destructors succeed without a word in the log. The waits have no
  deadline; a call that would block is one that has not happened yet.
\<close>

theorem monitor_never_aborts:
  assumes "woken p = []" "new_monitor mutex cond p = Goes b p'"
    and "sync_all_ok mutex cond es (fresh_threads, p')"
  shows "\<exists>ts q. sync_steps mutex cond es (fresh_threads, p') = Some (ts, q) \<and>
    (\<forall>t u. 0 < depth (ts t) \<and> 0 < depth (ts u) \<longrightarrow> t = u) \<and>
    (\<forall>t. 0 < depth (ts t) \<longrightarrow> \<not> waits (ts t) \<and> (\<exists>m. mutexes q mutex = Some m \<and> pm_owner m = t \<and> pm_count m = depth (ts t))) \<and>
    (\<exists>q'. cv_WakeUpAll cond q = Goes True q' \<and> conditions q' cond = Some [] \<and> (\<forall>t. waits (ts t) \<longrightarrow> (t, mutex) \<in> set (woken q'))) \<and>
    ((\<forall>t. depth (ts t) = 0 \<and> \<not> waits (ts t)) \<longrightarrow>
       (\<exists>q'. monitor_end mutex cond q = Goes () q' \<and> stderr_text q' = stderr_text q))"
proof -
  have "sync_inv mutex cond (fresh_threads, p')" using new_monitor_inv [OF assms(1), of mutex cond] assms(2) by auto
  from sync_steps_inv [OF this assms(3)] obtain ts q
    where run: "sync_steps mutex cond es (fresh_threads, p') = Some (ts, q)" and inv: "sync_inv mutex cond (ts, q)" by auto
  from inv obtain ws where ws: "conditions q cond = Some ws" "queued mutex ts (ws @ woken q)"
    by (auto simp: sync_inv_def wait_inv_def)
  have "0 < depth (ts t) \<longrightarrow> \<not> waits (ts t) \<and> (\<exists>m. mutexes q mutex = Some m \<and> pm_owner m = t \<and> pm_count m = depth (ts t))" for t
    using sync_inv_holder [OF inv] .
  moreover have "waits (ts t) \<longrightarrow> (t, mutex) \<in> set (ws @ woken q)" for t using ws(2) by (fastforce simp: queued_def)
  ultimately show ?thesis
    using run ws sync_inv_once [OF inv] monitor_end_quiet [OF inv]
    by (auto simp: cv_WakeUpAll_def pthread_cond_broadcast_def)
qed

text \<open>Thread 1 waits, thread 2 wakes it while it has the mutex twice, and both leave.\<close>

definition demo_threads_world :: thread_world where
  "demo_threads_world = \<lparr>mutexes = (\<lambda>_. None), conditions = (\<lambda>_. None), woken = [], stderr_text = []\<rparr>"

definition demo_monitor_events :: "(nat \<times> sync_op) list" where
  "demo_monitor_events = [(1, SyncLock), (2, SyncLock), (1, SyncWait), (2, SyncLock), (2, SyncLock), (2, SyncWakeUpAll),
     (1, SyncReturn), (2, SyncUnlock), (2, SyncUnlock), (1, SyncReturn), (1, SyncUnlock)]"

theorem monitor_never_aborts_witness:
  "\<exists>p' ts q. new_monitor 16 32 demo_threads_world = Goes True p' \<and>
     sync_steps 16 32 demo_monitor_events (fresh_threads, p') = Some (ts, q) \<and> stderr_text q = [] \<and>
     (\<exists>q'. monitor_end 16 32 q = Goes () q')"
proof -
  define p' where "p' = demo_threads_world\<lparr>mutexes := [16 \<mapsto> \<lparr>pm_recursive = True, pm_owner = 0, pm_count = 0\<rparr>], conditions := [32 \<mapsto> []]\<rparr>"
  have new: "new_monitor 16 32 demo_threads_world = Goes True p'"
    by (simp add: p'_def demo_threads_world_def new_monitor_def and_then_def new_Mutex_def InitRecursiveMutex_def pthread_mutex_init_def
        new_ConditionVariable_def pthread_cond_init_def)
  have ok: "sync_all_ok 16 32 demo_monitor_events (fresh_threads, p')"
    by (simp add: p'_def demo_monitor_events_def demo_threads_world_def sync_ok_def sync_step_def fresh_threads_def recursion_max_def pthread_defs)
  have run: "\<exists>ts q. sync_steps 16 32 demo_monitor_events (fresh_threads, p') = Some (ts, q) \<and> stderr_text q = [] \<and>
      (\<forall>t. depth (ts t) = 0 \<and> \<not> waits (ts t))"
    by (simp add: p'_def demo_monitor_events_def demo_threads_world_def sync_ok_def sync_step_def fresh_threads_def recursion_max_def pthread_defs)
  have "woken demo_threads_world = []" by (simp add: demo_threads_world_def)
  from monitor_never_aborts [OF this new ok] run new show ?thesis by auto
qed

subsection \<open>Bound member functions\<close>

text \<open>
  A runnable keeps an object, a member function of its class and the arguments to call it with.
  Objects are addresses, and null is \<open>None\<close>, as is a null pointer to a member. A default
  argument value is that of value initialisation. \<open>'w\<close> is the state the function works on.
\<close>

record 'w ThreadRunnableBind0 =
  b0_obj :: "addr option"
  b0_mem :: "(addr \<Rightarrow> 'w \<Rightarrow> addr \<times> 'w) option"

record ('a1, 'w) ThreadRunnableBind1 =
  b1_obj :: "addr option"
  b1_mem :: "(addr \<Rightarrow> 'a1 \<Rightarrow> 'w \<Rightarrow> addr \<times> 'w) option"
  b1_a1 :: 'a1

record ('a1, 'a2, 'w) ThreadRunnableBind2 =
  b2_obj :: "addr option"
  b2_mem :: "(addr \<Rightarrow> 'a1 \<Rightarrow> 'a2 \<Rightarrow> 'w \<Rightarrow> addr \<times> 'w) option"
  b2_a1 :: 'a1
  b2_a2 :: 'a2

definition new_Bind0 :: "'w ThreadRunnableBind0" where
  "new_Bind0 = \<lparr>b0_obj = None, b0_mem = None\<rparr>"

definition Bind0 :: "addr option \<Rightarrow> (addr \<Rightarrow> 'w \<Rightarrow> addr \<times> 'w) option \<Rightarrow> 'w ThreadRunnableBind0" where
  "Bind0 obj mem = \<lparr>b0_obj = obj, b0_mem = mem\<rparr>"

definition Bind0_Init ::
    "addr option \<Rightarrow> (addr \<Rightarrow> 'w \<Rightarrow> addr \<times> 'w) option \<Rightarrow> 'w ThreadRunnableBind0 \<Rightarrow> 'w ThreadRunnableBind0" where
  "Bind0_Init obj mem r = r\<lparr>b0_obj := obj, b0_mem := mem\<rparr>"

text \<open>A failed assertion ends the process, which is \<open>None\<close>.\<close>

definition Bind0_Run :: "'w ThreadRunnableBind0 \<Rightarrow> 'w \<Rightarrow> (addr \<times> 'w) option" where
  "Bind0_Run r w =
     (case b0_obj r of None \<Rightarrow> None
      | Some obj \<Rightarrow> (case b0_mem r of None \<Rightarrow> None | Some mem \<Rightarrow> Some (mem obj w)))"

definition new_Bind1 :: "'a1 \<Rightarrow> ('a1, 'w) ThreadRunnableBind1" where
  "new_Bind1 value_init = \<lparr>b1_obj = None, b1_mem = None, b1_a1 = value_init\<rparr>"

definition Bind1 ::
    "addr option \<Rightarrow> (addr \<Rightarrow> 'a1 \<Rightarrow> 'w \<Rightarrow> addr \<times> 'w) option \<Rightarrow> 'a1 \<Rightarrow> ('a1, 'w) ThreadRunnableBind1" where
  "Bind1 obj mem a1 = \<lparr>b1_obj = obj, b1_mem = mem, b1_a1 = a1\<rparr>"

definition Bind1_Init ::
    "addr option \<Rightarrow> (addr \<Rightarrow> 'a1 \<Rightarrow> 'w \<Rightarrow> addr \<times> 'w) option \<Rightarrow> 'a1 \<Rightarrow>
     ('a1, 'w) ThreadRunnableBind1 \<Rightarrow> ('a1, 'w) ThreadRunnableBind1" where
  "Bind1_Init obj mem a1 r = r\<lparr>b1_obj := obj, b1_mem := mem, b1_a1 := a1\<rparr>"

definition Bind1_Run :: "('a1, 'w) ThreadRunnableBind1 \<Rightarrow> 'w \<Rightarrow> (addr \<times> 'w) option" where
  "Bind1_Run r w =
     (case (b1_obj r, b1_mem r) of (Some obj, Some mem) \<Rightarrow> Some (mem obj (b1_a1 r) w) | _ \<Rightarrow> None)"

definition new_Bind2 :: "'a1 \<Rightarrow> 'a2 \<Rightarrow> ('a1, 'a2, 'w) ThreadRunnableBind2" where
  "new_Bind2 value_init1 value_init2 = \<lparr>b2_obj = None, b2_mem = None, b2_a1 = value_init1, b2_a2 = value_init2\<rparr>"

definition Bind2 ::
    "addr option \<Rightarrow> (addr \<Rightarrow> 'a1 \<Rightarrow> 'a2 \<Rightarrow> 'w \<Rightarrow> addr \<times> 'w) option \<Rightarrow> 'a1 \<Rightarrow> 'a2 \<Rightarrow>
     ('a1, 'a2, 'w) ThreadRunnableBind2" where
  "Bind2 obj mem a1 a2 = \<lparr>b2_obj = obj, b2_mem = mem, b2_a1 = a1, b2_a2 = a2\<rparr>"

definition Bind2_Init ::
    "addr option \<Rightarrow> (addr \<Rightarrow> 'a1 \<Rightarrow> 'a2 \<Rightarrow> 'w \<Rightarrow> addr \<times> 'w) option \<Rightarrow> 'a1 \<Rightarrow> 'a2 \<Rightarrow>
     ('a1, 'a2, 'w) ThreadRunnableBind2 \<Rightarrow> ('a1, 'a2, 'w) ThreadRunnableBind2" where
  "Bind2_Init obj mem a1 a2 r = r\<lparr>b2_obj := obj, b2_mem := mem, b2_a1 := a1, b2_a2 := a2\<rparr>"

definition Bind2_Run :: "('a1, 'a2, 'w) ThreadRunnableBind2 \<Rightarrow> 'w \<Rightarrow> (addr \<times> 'w) option" where
  "Bind2_Run r w =
     (case (b2_obj r, b2_mem r) of (Some obj, Some mem) \<Rightarrow> Some (mem obj (b2_a1 r) (b2_a2 r) w) | _ \<Rightarrow> None)"

text \<open>
  A runnable runs what its last initialisation bound, with the arguments given there, whatever
  it was built with; one that was never initialised ends the process.
\<close>

theorem runnable_runs_last_binding:
  fixes r0 :: "'w ThreadRunnableBind0" and r1 :: "('a1, 'w) ThreadRunnableBind1"
    and r2 :: "('a1, 'a2, 'w) ThreadRunnableBind2"
  shows "Bind0_Run (Bind0_Init (Some obj) (Some m0) r0) w = Some (m0 obj w) \<and>
    Bind1_Run (Bind1_Init (Some obj) (Some m1) a1 r1) w = Some (m1 obj a1 w) \<and>
    Bind2_Run (Bind2_Init (Some obj) (Some m2) a1 a2 r2) w = Some (m2 obj a1 a2 w) \<and>
    Bind0_Init o' n0 r0 = Bind0 o' n0 \<and> Bind1_Init o' n1 a1 r1 = Bind1 o' n1 a1 \<and>
    Bind2_Init o' n2 a1 a2 r2 = Bind2 o' n2 a1 a2 \<and>
    Bind0_Run new_Bind0 w = None \<and> Bind1_Run (new_Bind1 a1) w = None \<and> Bind2_Run (new_Bind2 a1 a2) w = None"
  by (simp add: Bind0_Run_def Bind0_Init_def Bind1_Run_def Bind1_Init_def Bind2_Run_def Bind2_Init_def
      Bind0_def Bind1_def Bind2_def new_Bind0_def new_Bind1_def new_Bind2_def)

subsection \<open>Sleeping for a duration of any unit\<close>

text \<open>
  A duration is a count of periods of \<open>num / den\<close> seconds. Converting it to nanoseconds cuts
  towards zero; \<^verbatim>\<open>ceil\<close> goes up from there. Counts are taken not to overflow their type.
\<close>

record duration =
  ticks :: int
  period_num :: int
  period_den :: int

definition duration_cast_ns :: "duration \<Rightarrow> int" where
  "duration_cast_ns d = (ticks d * period_num d * 1000000000) sdiv period_den d"

definition ceil_ns :: "duration \<Rightarrow> int" where
  "ceil_ns d =
     (let t = duration_cast_ns d in
      if t * period_den d < ticks d * period_num d * 1000000000 then t + 1 else t)"

definition SleepUntil_time_point ::
    "(nat \<Rightarrow> int) \<Rightarrow> (nat \<Rightarrow> timespec \<Rightarrow> int) \<Rightarrow> duration \<Rightarrow> wait_result option" where
  "SleepUntil_time_point flag timedwait abs_time =
     SleepUntil flag timedwait (ConvToTimeSpec (ceil_ns abs_time))"

definition SleepFor_duration ::
    "(nat \<Rightarrow> int) \<Rightarrow> (nat \<Rightarrow> timespec \<Rightarrow> int) \<Rightarrow> (nat \<Rightarrow> timespec) \<Rightarrow> duration \<Rightarrow> wait_result option" where
  "SleepFor_duration flag timedwait clock rel_time =
     SleepFor flag timedwait clock (ConvToTimeSpec (duration_cast_ns rel_time))"

lemma sdiv_nonneg: "0 \<le> x \<Longrightarrow> 0 < k \<Longrightarrow> x sdiv k = x div (k::int)"
  by (cases "x = 0") (simp_all add: signed_divide_int_def sgn_if)

lemma div_mult_bounds: "0 < k \<Longrightarrow> x div k * k \<le> (x::int)" "0 < k \<Longrightarrow> x < (x div k + 1) * (k::int)"
  using div_mult_mod_eq [of x k] pos_mod_bound [of k x] pos_mod_sign [of k x]
  unfolding distrib_right mult_1 by linarith+

text \<open>
  A sleep until a point of time of any resolution never ends early by rounding: the deadline
  handed to the thread library is a proper time specification, the first whole nanosecond that
  is not before the given one. A sleep for a duration hands over the last whole nanosecond that
  is not after it.
\<close>

theorem sleep_deadline_rounding:
  assumes "0 < period_den d" "0 \<le> ticks d * period_num d"
  shows "\<exists>until for.
    SleepUntil_time_point flag timedwait d = SleepUntil flag timedwait until \<and>
    SleepFor_duration flag timedwait clock d = SleepFor flag timedwait clock for \<and>
    timespec_ok until \<and> timespec_ok for \<and>
    (timespec_ns until - 1) * period_den d < ticks d * period_num d * 1000000000 \<and>
    ticks d * period_num d * 1000000000 \<le> timespec_ns until * period_den d \<and>
    timespec_ns for * period_den d \<le> ticks d * period_num d * 1000000000 \<and>
    ticks d * period_num d * 1000000000 < (timespec_ns for + 1) * period_den d"
proof -
  let ?x = "ticks d * period_num d * 1000000000"
  let ?t = "duration_cast_ns d"
  have "0 \<le> ?x" using assms(2) by simp
  then have t: "?t = ?x div period_den d" unfolding duration_cast_ns_def by (rule sdiv_nonneg [OF _ assms(1)])
  have lo: "?t * period_den d \<le> ?x" and hi: "?x < (?t + 1) * period_den d"
    unfolding t by (rule div_mult_bounds [OF assms(1)])+
  have "0 \<le> ?t" using assms by (simp add: t pos_imp_zdiv_nonneg_iff)
  moreover have up: "(ceil_ns d - 1) * period_den d < ?x" "?x \<le> ceil_ns d * period_den d"
    using lo hi assms(1) by (auto simp: ceil_ns_def Let_def algebra_simps)
  ultimately have "0 \<le> ceil_ns d" by (simp add: ceil_ns_def Let_def)
  then have "timespec_ok (ConvToTimeSpec (ceil_ns d))" "timespec_ok (ConvToTimeSpec ?t)"
    using \<open>0 \<le> ?t\<close> by (simp_all add: ConvToTimeSpec_nonneg timespec_ok_def)
  moreover have "timespec_ns (ConvToTimeSpec n) = n" for n by (simp add: ConvToTimeSpec_def timespec_ns_def Let_def)
  ultimately show ?thesis using lo hi up
    by (intro exI [of _ "ConvToTimeSpec (ceil_ns d)"] exI [of _ "ConvToTimeSpec ?t"])
      (simp add: SleepUntil_time_point_def SleepFor_duration_def)
qed

text \<open>Ten ticks of a third of a second are cut to 3.333333333 seconds, and go up to 3.333333334.\<close>

theorem sleep_deadline_rounding_witness:
  "\<exists>until. SleepUntil_time_point (\<lambda>_. 1) (\<lambda>_ _. 0) \<lparr>ticks = 10, period_num = 1, period_den = 3\<rparr> =
      SleepUntil (\<lambda>_. 1) (\<lambda>_ _. 0) until \<and> timespec_ns until = 3333333334"
proof -
  have "\<exists>until.
    SleepUntil_time_point (\<lambda>_. 1) (\<lambda>_ _. 0) \<lparr>ticks = 10, period_num = 1, period_den = 3\<rparr> = SleepUntil (\<lambda>_. 1) (\<lambda>_ _. 0) until \<and>
    (timespec_ns until - 1) * 3 < 10000000000 \<and> 10000000000 \<le> timespec_ns until * 3"
    using sleep_deadline_rounding [of "\<lparr>ticks = 10, period_num = 1, period_den = 3\<rparr>" "\<lambda>_. 1" "\<lambda>_ _. 0" "\<lambda>_. \<lparr>tv_sec = 0, tv_nsec = 0\<rparr>"]
    by (simp del: ex_simps) blast
  then obtain until where u: "SleepUntil_time_point (\<lambda>_. 1) (\<lambda>_ _. 0) \<lparr>ticks = 10, period_num = 1, period_den = 3\<rparr> =
      SleepUntil (\<lambda>_. 1) (\<lambda>_ _. 0) until"
    and "(timespec_ns until - 1) * 3 < 10000000000" "10000000000 \<le> timespec_ns until * 3" by blast
  then have "timespec_ns until = 3333333334" by arith
  with u show ?thesis by blast
qed

end
