(* ===== verification/Glibc_Layout.thy ===== *)
theory Glibc_Layout
  imports Memhook_Prelude
begin

text \<open>
  The memory layout of the loader's structures that \<^verbatim>\<open>src/memhook/glibc.cpp\<close> declares for
  itself: the code reads the loader's own objects through these declarations, so where a
  field lies is part of what the code does. A type is its size and alignment in bytes; the
  layout of a structure follows the System V ABI (fields in order, each at the next
  multiple of its alignment, the whole rounded up). \<open>w\<close> is the size of a pointer, of a
  \<^verbatim>\<open>long\<close> and of \<^verbatim>\<open>ElfW(Addr)\<close>: 8 or 4. \<open>dt_num\<close> stands for \<^verbatim>\<open>DT_NUM\<close> of \<^verbatim>\<open>elf.h\<close>, which differs
  between versions of the C library; the other constants of that header do not change.
\<close>

type_synonym c_type = "nat \<times> nat"

definition scalar :: "nat \<Rightarrow> c_type" where
  "scalar n = (n, n)"

definition array_of :: "nat \<Rightarrow> c_type \<Rightarrow> c_type" where
  "array_of k t = (k * fst t, snd t)"

definition align_up :: "nat \<Rightarrow> nat \<Rightarrow> nat" where
  "align_up n al = (n + (al - 1)) div al * al"

text \<open>The fields of a structure with their offsets, and where the last one ends.\<close>

fun place :: "nat \<Rightarrow> (string \<times> c_type) list \<Rightarrow> (string \<times> nat \<times> nat) list" where
  "place off [] = []"
| "place off ((f, n, al) # fs) = (f, align_up off al, n) # place (align_up off al + n) fs"

fun end_of :: "nat \<Rightarrow> (string \<times> c_type) list \<Rightarrow> nat" where
  "end_of off [] = off"
| "end_of off ((f, n, al) # fs) = end_of (align_up off al + n) fs"

definition struct_align :: "(string \<times> c_type) list \<Rightarrow> nat" where
  "struct_align fs = foldr (\<lambda>f m. max (snd (snd f)) m) fs 1"

definition struct_type :: "(string \<times> c_type) list \<Rightarrow> c_type" where
  "struct_type fs = (align_up (end_of 0 fs) (struct_align fs), struct_align fs)"

definition offset_of :: "(string \<times> c_type) list \<Rightarrow> string \<Rightarrow> nat option" where
  "offset_of fs f = map_option fst (map_of (place 0 fs) f)"

definition union_type :: "c_type list \<Rightarrow> c_type" where
  "union_type ts = (let al = foldr (\<lambda>t m. max (snd t) m) ts 1
     in (align_up (foldr (\<lambda>t m. max (fst t) m) ts 0) al, al))"

text \<open>Neighbouring bit-fields of \<^verbatim>\<open>unsigned int\<close> share their bytes as long as they fit into one unit of 32.\<close>

definition bit_fields :: "nat list \<Rightarrow> c_type" where
  "bit_fields ws = ((sum_list ws + 7) div 8, 4)"

subsection \<open>The declarations\<close>

definition GLIBC_r_scope_elem :: "nat \<Rightarrow> (string \<times> c_type) list" where
  "GLIBC_r_scope_elem w = [(''r_list'', scalar w), (''r_nlist'', scalar 4)]"

definition GLIBC_r_dir_status :: c_type where
  "GLIBC_r_dir_status = scalar 4"

definition GLIBC_r_search_path_elem :: "nat \<Rightarrow> (string \<times> c_type) list" where
  "GLIBC_r_search_path_elem w =
     [(''next'', scalar w), (''what'', scalar w), (''where'', scalar w), (''dirname'', scalar w),
      (''dirnamelen'', scalar w), (''status'', array_of 0 GLIBC_r_dir_status)]"

definition GLIBC_r_search_path :: "nat \<Rightarrow> (string \<times> c_type) list" where
  "GLIBC_r_search_path w = [(''dirs'', scalar w), (''malloced'', scalar 4)]"

definition GLIBC_r_found_version :: "nat \<Rightarrow> (string \<times> c_type) list" where
  "GLIBC_r_found_version w =
     [(''name'', scalar w), (''hash'', scalar 4), (''hidden'', scalar 4), (''filename'', scalar w)]"

definition GLIBC_r_file_id :: "(string \<times> c_type) list" where
  "GLIBC_r_file_id = [(''dev'', scalar 8), (''ino'', scalar 8)]"

definition GLIBC_link_map_machine :: "nat \<Rightarrow> (string \<times> c_type) list" where
  "GLIBC_link_map_machine w = [(''plt'', scalar w), (''gotplt'', scalar w), (''tlsdesc_table'', scalar w)]"

definition reloc_result :: "nat \<Rightarrow> (string \<times> c_type) list" where
  "reloc_result w = [(''addr'', scalar w), (''bound'', scalar w), (''boundndx'', scalar 4), (''enterexit'', scalar 4), (''flags'', scalar 4)]"

definition auditstate :: "nat \<Rightarrow> (string \<times> c_type) list" where
  "auditstate w = [(''cookie'', scalar w), (''bindflags'', scalar 4)]"

definition lookup_cache :: "nat \<Rightarrow> (string \<times> c_type) list" where
  "lookup_cache w = [(''sym'', scalar w), (''type_class'', scalar 4), (''value'', scalar w), (''ret'', scalar w)]"

definition GLIBC_sym_val :: "nat \<Rightarrow> (string \<times> c_type) list" where
  "GLIBC_sym_val w = [(''s'', scalar w), (''m'', scalar w)]"

text \<open>\<^verbatim>\<open>DT_VERSIONTAGNUM\<close>, \<^verbatim>\<open>DT_EXTRANUM\<close>, \<^verbatim>\<open>DT_VALNUM\<close>, \<^verbatim>\<open>DT_ADDRNUM\<close>\<close>

definition DT_OTHERNUM :: nat where
  "DT_OTHERNUM = 16 + 3 + 12 + 11"

definition link_map_fields :: "nat \<Rightarrow> nat \<Rightarrow> (string \<times> c_type) list" where
  "link_map_fields w dt_num =
     [(''l_addr'', scalar w), (''l_name'', scalar w), (''l_ld'', scalar w), (''l_next'', scalar w), (''l_prev'', scalar w),
      (''l_real'', scalar w), (''l_ns'', scalar w), (''l_libname'', scalar w),
      (''l_info'', array_of (dt_num + 0 + DT_OTHERNUM) (scalar w)),
      (''l_phdr'', scalar w), (''l_entry'', scalar w), (''l_phnum'', scalar 2), (''l_ldnum'', scalar 2),
      (''l_searchlist'', struct_type (GLIBC_r_scope_elem w)),
      (''l_symbolic_searchlist'', struct_type (GLIBC_r_scope_elem w)),
      (''l_loader'', scalar w), (''l_versions'', scalar w), (''l_nversions'', scalar 4),
      (''l_nbuckets'', scalar 4), (''l_gnu_bitmask_idxbits'', scalar 4), (''l_gnu_shift'', scalar 4), (''l_gnu_bitmask'', scalar w),
      (''l_gnu_buckets'', union_type [scalar w, scalar w]), (''l_gnu_chain_zero'', union_type [scalar w, scalar w]),
      (''l_direct_opencount'', scalar 4),
      (''l_flag_bits'', bit_fields [2, 1, 1, 1, 2, 1, 1, 1, 1, 1, 1, 1, 1, 1, 1]),
      (''l_rpath_dirs'', struct_type (GLIBC_r_search_path w)),
      (''l_reloc_result'', scalar w), (''l_versyms'', scalar w), (''l_origin'', scalar w),
      (''l_map_start'', scalar w), (''l_map_end'', scalar w), (''l_text_end'', scalar w),
      (''l_scope_mem'', array_of 4 (scalar w)), (''l_scope_max'', scalar w), (''l_scope'', scalar w),
      (''l_local_scope'', array_of 2 (scalar w)),
      (''l_file_id'', struct_type GLIBC_r_file_id), (''l_runpath_dirs'', struct_type (GLIBC_r_search_path w)),
      (''l_initfini'', scalar w), (''l_reldeps'', scalar w), (''l_reldepsmax'', scalar 4), (''l_used'', scalar 4),
      (''l_feature_1'', scalar 4), (''l_flags_1'', scalar 4), (''l_flags'', scalar 4), (''l_idx'', scalar 4),
      (''l_mach'', struct_type (GLIBC_link_map_machine w)), (''l_lookup_cache'', struct_type (lookup_cache w)),
      (''l_tls_initimage'', scalar w), (''l_tls_initimage_size'', scalar w), (''l_tls_blocksize'', scalar w),
      (''l_tls_align'', scalar w), (''l_tls_firstbyte_offset'', scalar w), (''l_tls_offset'', scalar w),
      (''l_tls_modid'', scalar w), (''l_tls_dtor_count'', scalar w), (''l_relro_addr'', scalar w), (''l_relro_size'', scalar w),
      (''l_serial'', scalar 8), (''l_audit'', array_of 0 (struct_type (auditstate w)))]"

subsection \<open>Layouts are sound\<close>

lemma align_up_ge: "0 < al \<Longrightarrow> n \<le> align_up n al"
proof -
  assume al: "0 < al"
  have "n + (al - 1) = (n + (al - 1)) div al * al + (n + (al - 1)) mod al" by (simp add: div_mult_mod_eq)
  moreover have "(n + (al - 1)) mod al < al" using al by simp
  ultimately show ?thesis unfolding align_up_def by linarith
qed

lemma align_up_dvd: "al dvd align_up n al"
  by (simp add: align_up_def)

lemma align_up_shift: "0 < al \<Longrightarrow> al dvd k \<Longrightarrow> align_up (n + k) al = align_up n al + k"
proof -
  assume "0 < al" "al dvd k"
  then obtain j where j: "k = al * j" by auto
  have "(n + (al - 1) + al * j) div al = (n + (al - 1)) div al + j"
    using div_mult_self2 [of al "n + (al - 1)" j] \<open>0 < al\<close> by linarith
  then show ?thesis unfolding align_up_def j by (simp add: algebra_simps)
qed

definition aligned_fields :: "(string \<times> c_type) list \<Rightarrow> bool" where
  "aligned_fields fs \<longleftrightarrow> (\<forall>f\<in>set fs. 0 < snd (snd f))"

text \<open>The offsets ascend, and no field reaches into the next one.\<close>

lemma place_bounds:
  assumes "aligned_fields fs" "(f, o', n) \<in> set (place off fs)"
  shows "off \<le> o' \<and> o' + n \<le> end_of off fs"
  using assms
proof (induction off fs rule: place.induct)
  case (2 off g k al fs)
  have al: "0 < al" "aligned_fields fs" using 2(2) by (simp_all add: aligned_fields_def)
  have "off \<le> align_up off al" using al(1) by (rule align_up_ge)
  moreover have "x \<le> end_of x fs" if "aligned_fields fs" for x fs
    using that
  proof (induction x fs rule: end_of.induct)
    case (2 x g k al fs)
    then have "x \<le> align_up x al" by (auto simp: aligned_fields_def align_up_ge)
    moreover from 2 have "align_up x al + k \<le> end_of (align_up x al + k) fs" by (simp add: aligned_fields_def)
    ultimately show ?case by simp
  qed simp
  note this [OF al(2), of "align_up off al + k"]
  ultimately show ?case using 2(1) [OF al(2)] 2(3) by (auto intro: order_trans)
qed simp

lemma place_disjoint: "aligned_fields fs \<Longrightarrow> sorted_wrt (\<lambda>x y. fst (snd x) + snd (snd x) \<le> fst (snd y)) (place off fs)"
proof (induction off fs rule: place.induct)
  case (2 off g n al fs)
  then have "aligned_fields fs" by (simp add: aligned_fields_def)
  with 2(1) place_bounds [OF this, of _ _ _ "align_up off al + n"] show ?case by auto
qed simp

lemma place_aligned: "(f, o', n) \<in> set (place off fs) \<Longrightarrow> \<exists>al. (f, n, al) \<in> set fs \<and> al dvd o'"
proof (induction off fs rule: place.induct)
  case (2 off g k al fs)
  then show ?case using align_up_dvd [of al off] by auto
qed simp

text \<open>
  The declared layout is a layout: for every structure description, each field starts at a
  multiple of its alignment and inside the structure, and no two fields overlap.
\<close>

theorem struct_layout_sound:
  assumes "aligned_fields fs"
  shows "sorted_wrt (\<lambda>x y. fst (snd x) + snd (snd x) \<le> fst (snd y)) (place 0 fs) \<and>
    (\<forall>(f, o', n)\<in>set (place 0 fs). o' + n \<le> fst (struct_type fs) \<and> (\<exists>al. (f, n, al) \<in> set fs \<and> al dvd o'))"
proof -
  have al: "0 < struct_align fs"
    by (induction fs) (auto simp: struct_align_def)
  have "o' + n \<le> fst (struct_type fs)" if "(f, o', n) \<in> set (place 0 fs)" for f o' n
    using place_bounds [OF assms that] align_up_ge [OF al, of "end_of 0 fs"] by (simp add: struct_type_def)
  with place_disjoint [OF assms] place_aligned show ?thesis by fastforce
qed

lemma link_map_aligned: "w = 4 \<or> w = 8 \<Longrightarrow> aligned_fields (link_map_fields w dt_num)"
  by (elim disjE) (simp_all add: aligned_fields_def link_map_fields_def scalar_def array_of_def union_type_def bit_fields_def
      struct_type_def struct_align_def GLIBC_r_scope_elem_def GLIBC_r_search_path_def GLIBC_r_file_id_def
      GLIBC_link_map_machine_def lookup_cache_def auditstate_def Let_def)

theorem struct_layout_sound_witness:
  "aligned_fields (link_map_fields 8 38) \<and>
   sorted_wrt (\<lambda>x y. fst (snd x) + snd (snd x) \<le> fst (snd y)) (place 0 (link_map_fields 8 38))"
proof -
  have al: "aligned_fields (link_map_fields 8 38)" by (rule link_map_aligned) simp
  then show ?thesis using struct_layout_sound [OF al] by blast
qed

subsection \<open>What the number of dynamic tags changes\<close>

lemma place_append: "place off (xs @ ys) = place off xs @ place (end_of off xs) ys"
  by (induction off xs rule: place.induct) auto

definition aligned_to :: "nat \<Rightarrow> (string \<times> c_type) list \<Rightarrow> bool" where
  "aligned_to k fs \<longleftrightarrow> (\<forall>(f, n, al)\<in>set fs. 0 < al \<and> al dvd k)"

lemma place_shift:
  "aligned_to k fs \<Longrightarrow> place (off + k) fs = map (\<lambda>(f, o', n). (f, o' + k, n)) (place off fs)"
proof (induction off fs rule: place.induct)
  case (2 off g n al fs)
  then have "align_up (off + k) al = align_up off al + k" "aligned_to k fs"
    using align_up_shift [of al k off] by (simp_all add: aligned_to_def)
  with 2(1) show ?case by (simp add: add.assoc add.commute [of k])
qed simp

lemma map_of_shift: "map_of (map (\<lambda>(f, o', n). (f, o' + k, n)) xs) f = map_option (\<lambda>(o', n). (o' + k, n)) (map_of xs f)"
  by (induction xs) auto

definition fields_before :: "nat \<Rightarrow> (string \<times> c_type) list" where
  "fields_before w = takeWhile (\<lambda>f. fst f \<noteq> ''l_info'') (link_map_fields w 0)"

definition fields_after :: "nat \<Rightarrow> (string \<times> c_type) list" where
  "fields_after w = tl (dropWhile (\<lambda>f. fst f \<noteq> ''l_info'') (link_map_fields w 0))"

lemma link_map_split:
  "link_map_fields w d = fields_before w @ (''l_info'', array_of (d + DT_OTHERNUM) (scalar w)) # fields_after w"
  by (simp add: link_map_fields_def fields_before_def fields_after_def)

lemma fields_before_place: "place 0 (fields_before 8) = take 8 (place 0 (link_map_fields 8 0))"
  "end_of 0 (fields_before 8) = 64" "aligned_to 8 (fields_after 8)"
  by code_simp+

lemma aligned_to_mult: "aligned_to k fs \<Longrightarrow> aligned_to (k * d) fs"
  by (auto simp: aligned_to_def intro: dvd_mult2)

lemma link_map_offset:
  "offset_of (link_map_fields 8 d) f =
     (case map_of (place 0 (fields_before 8)) f of
        Some x \<Rightarrow> Some (fst x)
      | None \<Rightarrow> if f = ''l_info'' then Some 64 else map_option (\<lambda>x. fst x + 8 * d) (map_of (place 400 (fields_after 8)) f))"
proof -
  have "place 0 (link_map_fields 8 d) =
      place 0 (fields_before 8) @ (''l_info'', 64, (d + DT_OTHERNUM) * 8) # place (400 + 8 * d) (fields_after 8)"
    unfolding link_map_split place_append by (simp add: fields_before_place scalar_def array_of_def align_up_def DT_OTHERNUM_def mult.commute)
  also have "place (400 + 8 * d) (fields_after 8) = map (\<lambda>(f, o', n). (f, o' + 8 * d, n)) (place 400 (fields_after 8))"
    using place_shift [OF aligned_to_mult [OF fields_before_place(3), of d], of 400] .
  finally show ?thesis
    by (simp add: offset_of_def map_add_def map_of_shift option.map_comp comp_def case_prod_beta split: option.split)
qed

text \<open>
  Where the code reads the loader's objects, on a 64-bit machine: the fields it uses up to the
  dynamic section lie at fixed places; every later one moves by 8 bytes with each dynamic
  tag that the header knows, so a build is tied to the loader's number of tags.
\<close>

theorem link_map_offsets:
  "offset_of (link_map_fields 8 d) ''l_addr'' = Some 0 \<and>
   offset_of (link_map_fields 8 d) ''l_real'' = Some 40 \<and>
   offset_of (link_map_fields 8 d) ''l_info'' = Some 64 \<and>
   offset_of (link_map_fields 8 d) ''l_loader'' = Some (456 + 8 * d) \<and>
   offset_of (link_map_fields 8 d) ''l_nbuckets'' = Some (476 + 8 * d) \<and>
   offset_of (link_map_fields 8 d) ''l_gnu_bitmask_idxbits'' = Some (480 + 8 * d) \<and>
   offset_of (link_map_fields 8 d) ''l_gnu_shift'' = Some (484 + 8 * d) \<and>
   offset_of (link_map_fields 8 d) ''l_gnu_bitmask'' = Some (488 + 8 * d) \<and>
   offset_of (link_map_fields 8 d) ''l_gnu_buckets'' = Some (496 + 8 * d) \<and>
   offset_of (link_map_fields 8 d) ''l_gnu_chain_zero'' = Some (504 + 8 * d) \<and>
   offset_of (link_map_fields 8 d) ''l_flag_bits'' = Some (516 + 8 * d) \<and>
   offset_of (link_map_fields 8 d) ''l_local_scope'' = Some (632 + 8 * d) \<and>
   offset_of (link_map_fields 8 d) ''l_used'' = Some (700 + 8 * d)"
proof -
  have b: "map_of (place 0 (fields_before 8)) f =
      map_of [(''l_addr'', 0, 8), (''l_name'', 8, 8), (''l_ld'', 16, 8), (''l_next'', 24, 8), (''l_prev'', 32, 8), (''l_real'', 40, 8), (''l_ns'', 48, 8),
        (''l_libname'', 56, 8)] f" for f
  proof -
    have "place 0 (fields_before 8) = [(''l_addr'', 0, 8), (''l_name'', 8, 8), (''l_ld'', 16, 8), (''l_next'', 24, 8), (''l_prev'', 32, 8),
        (''l_real'', 40, 8), (''l_ns'', 48, 8), (''l_libname'', 56, 8)]" by code_simp
    then show ?thesis by simp
  qed
  have a: "map (\<lambda>f. map_option fst (map_of (place 400 (fields_after 8)) f))
      [''l_loader'', ''l_nbuckets'', ''l_gnu_bitmask_idxbits'', ''l_gnu_shift'', ''l_gnu_bitmask'', ''l_gnu_buckets'', ''l_gnu_chain_zero'',
       ''l_flag_bits'', ''l_local_scope'', ''l_used''] = map Some [456, 476, 480, 484, 488, 496, 504, 516, 632, 700]"
    by code_simp
  have "map_option (\<lambda>x. fst x + 8 * d) z = map_option (\<lambda>x. x + 8 * d) (map_option fst z)" for z :: "(nat \<times> nat) option"
    by (cases z) simp_all
  with a show ?thesis unfolding link_map_offset b by simp
qed

end
