(* ===== verification/Bootstrap.thy ===== *)
theory Bootstrap
  imports Memhook_Prelude
begin

text \<open>
  How the hooks get hold of the real functions: the allocator on a static buffer
  (\<^verbatim>\<open>src/memhook/static_buf_alloc.cpp\<close>) and the table of library functions
  (\<^verbatim>\<open>dl_functions.h\<close>, \<^verbatim>\<open>dl_functions.cpp\<close>). Looking a function up with \<^verbatim>\<open>dlsym\<close> may itself
  allocate; that allocation arrives at the hooks and needs a table that works already.
\<close>

subsection \<open>StaticBufAlloc\<close>

record StaticBufAlloc =
  tmpbuf :: "u8 list"
  tmppos :: usize

definition sizeof_tmpbuf :: nat where "sizeof_tmpbuf = 8192"

definition new_StaticBufAlloc :: StaticBufAlloc where
  "new_StaticBufAlloc = \<lparr>tmpbuf = replicate sizeof_tmpbuf 0, tmppos = 0\<rparr>"

text \<open>A pointer into the buffer is its offset; the sum in the guard is one of \<^verbatim>\<open>size_t\<close>.\<close>

definition sb_malloc :: "usize \<Rightarrow> StaticBufAlloc \<Rightarrow> nat option \<times> StaticBufAlloc" where
  "sb_malloc n st =
     (if word_of_nat sizeof_tmpbuf \<le> tmppos st + n then (None, st)
      else (Some (unat (tmppos st)), st\<lparr>tmppos := tmppos st + n\<rparr>))"

text \<open>\<open>None\<close> when the zeroing runs past the end of the buffer.\<close>

definition sb_calloc :: "usize \<Rightarrow> usize \<Rightarrow> StaticBufAlloc \<Rightarrow> (nat option \<times> StaticBufAlloc) option" where
  "sb_calloc nmemb n st =
     (let total_size = nmemb * n
      in case sb_malloc total_size st of
           (None, st) \<Rightarrow> Some (None, st)
         | (Some p, st) \<Rightarrow>
             (if p + unat total_size \<le> sizeof_tmpbuf
              then Some (Some p, st\<lparr>tmpbuf := take p (tmpbuf st) @ replicate (unat total_size) 0 @
                                             drop (p + unat total_size) (tmpbuf st)\<rparr>)
              else None))"

definition sb_free :: "nat \<Rightarrow> StaticBufAlloc \<Rightarrow> StaticBufAlloc" where
  "sb_free p st = st"

fun sb_run :: "usize list \<Rightarrow> StaticBufAlloc \<Rightarrow> (nat \<times> nat) list" where
  "sb_run [] st = []"
| "sb_run (n # ns) st =
     (case sb_malloc n st of
        (None, st) \<Rightarrow> sb_run ns st
      | (Some p, st) \<Rightarrow> (p, unat n) # sb_run ns st)"

fun disjoint_blocks :: "nat \<Rightarrow> (nat \<times> nat) list \<Rightarrow> bool" where
  "disjoint_blocks low [] \<longleftrightarrow> True"
| "disjoint_blocks low ((p, n) # bs) \<longleftrightarrow> low \<le> p \<and> p + n < sizeof_tmpbuf \<and> disjoint_blocks (p + n) bs"

lemma sb_malloc_step:
  assumes "unat n < 2 ^ 63" "tmppos st < word_of_nat sizeof_tmpbuf" "sb_malloc n st = (Some p, st')"
  shows "p = unat (tmppos st) \<and> unat (tmppos st') = p + unat n \<and> p + unat n < sizeof_tmpbuf"
proof -
  have pos: "unat (tmppos st) < 8192" using assms(2) by (simp add: word_less_nat_alt sizeof_tmpbuf_def)
  then have sum: "unat (tmppos st + n) = unat (tmppos st) + unat n"
    using assms(1) by (simp add: unat_word_ariths)
  with assms(3) show ?thesis
    by (auto simp: sb_malloc_def sizeof_tmpbuf_def word_le_nat_alt not_le split: if_splits)
qed

lemma sb_run_disjoint:
  "\<forall>n\<in>set ns. unat n < 2 ^ 63 \<Longrightarrow> tmppos st < word_of_nat sizeof_tmpbuf \<Longrightarrow>
   disjoint_blocks (unat (tmppos st)) (sb_run ns st)"
proof (induction ns arbitrary: st)
  case (Cons n ns)
  show ?case
  proof (cases "sb_malloc n st")
    case (Pair a st')
    show ?thesis
    proof (cases a)
      case None
      with Pair have "st' = st" by (auto simp: sb_malloc_def split: if_splits)
      with Pair None Cons show ?thesis by simp
    next
      case (Some p)
      with Pair Cons.prems have p: "p = unat (tmppos st)" "unat (tmppos st') = p + unat n" "p + unat n < sizeof_tmpbuf"
        using sb_malloc_step [of n st p st'] by auto
      then have "tmppos st' < word_of_nat sizeof_tmpbuf" by (simp add: word_less_nat_alt sizeof_tmpbuf_def)
      with p Pair Some Cons.IH [of st'] Cons.prems(1) show ?thesis by simp
    qed
  qed
qed simp

text \<open>
  The blocks of the start-up allocator are disjoint, in increasing order, and inside the
  buffer, for every sequence of requests of less than \<open>2 ^ 63\<close> bytes.
\<close>

theorem static_buf_blocks_disjoint:
  assumes "\<forall>n\<in>set ns. unat n < 2 ^ 63"
  shows "disjoint_blocks 0 (sb_run ns new_StaticBufAlloc)"
  using sb_run_disjoint [OF assms, of new_StaticBufAlloc]
  by (simp add: new_StaticBufAlloc_def sizeof_tmpbuf_def)

theorem static_buf_blocks_disjoint_witness:
  "disjoint_blocks 0 (sb_run [16, 9000, 32] new_StaticBufAlloc) \<and>
   sb_run [16, 9000, 32] new_StaticBufAlloc = [(0, 16), (16, 32)]"
proof -
  have "sb_run [16, 9000, 32] new_StaticBufAlloc = [(0, 16), (16, 32)]"
    by (simp add: sb_malloc_def new_StaticBufAlloc_def sizeof_tmpbuf_def)
  moreover have "\<forall>n\<in>set [16, 9000, 32]. unat (n :: usize) < 2 ^ 63" by simp
  ultimately show ?thesis using static_buf_blocks_disjoint [of "[16, 9000, 32]"] by blast
qed

text \<open>
  A request of nearly the whole address space is granted: the guard's sum wraps around,
  the position moves back into blocks that are in use, and the next block overlaps them.
\<close>

theorem static_buf_wraps_around:
  assumes "tmppos st < word_of_nat sizeof_tmpbuf" and "0 < k" and "k \<le> tmppos st"
  shows "sb_malloc (- k) st = (Some (unat (tmppos st)), st\<lparr>tmppos := tmppos st - k\<rparr>)"
proof -
  have "tmppos st - k \<le> tmppos st" using assms(3) by (simp add: word_le_nat_alt unat_sub)
  with assms(1) show ?thesis by (simp add: sb_malloc_def not_le)
qed

theorem static_buf_wraps_around_witness:
  "sb_malloc (- 8) (new_StaticBufAlloc\<lparr>tmppos := 16\<rparr>) = (Some 16, new_StaticBufAlloc\<lparr>tmppos := 8\<rparr>)"
  using static_buf_wraps_around [of "new_StaticBufAlloc\<lparr>tmppos := 16\<rparr>" 8] by (simp add: sizeof_tmpbuf_def)

subsection \<open>DLFunctions\<close>

datatype binding = Null | StaticBuf | Real addr

type_synonym dl_table = "string \<Rightarrow> binding"

definition dl_rest :: "build_config \<Rightarrow> string list" where
  "dl_rest cfg =
     [''realloc'', ''memalign'', ''posix_memalign''] @
     (if HAVE_CFREE cfg then [''cfree''] else []) @
     (if HAVE_ALIGNED_ALLOC cfg then [''aligned_alloc''] else []) @
     (if HAVE_VALLOC cfg then [''valloc''] else []) @
     (if HAVE_PVALLOC cfg then [''pvalloc''] else []) @
     [''mmap'', ''mmap64'', ''mremap'', ''munmap'', ''dlopen'', ''dlmopen'', ''dlclose'', ''dl_iterate_phdr'',
     ''getaddrinfo'', ''getnameinfo'', ''gethostbyname'', ''gethostbyaddr'', ''gethostbyname2'', ''gethostent_r'',
     ''gethostbyaddr_r'', ''gethostbyname_r'', ''gethostbyname2_r'', ''getpwent_r'', ''getpwuid_r'', ''getpwnam_r'']"

text \<open>
  \<open>dlsym\<close> gives an address, 0 when the symbol is not found: the process is aborted then
  (\<open>None\<close>). The trace lists the tables at the moments of the \<^verbatim>\<open>dlsym\<close> calls.
\<close>

definition DLSymRtldNext ::
    "(string \<Rightarrow> addr) \<Rightarrow> string \<Rightarrow> dl_table \<times> dl_table list \<Rightarrow> (addr \<times> dl_table \<times> dl_table list) option" where
  "DLSymRtldNext dlsym name st =
     (case st of (tab, trace) \<Rightarrow>
        if dlsym name = 0 then None else Some (dlsym name, tab, trace @ [tab]))"

fun dl_bind_all ::
    "(string \<Rightarrow> addr) \<Rightarrow> string list \<Rightarrow> dl_table \<times> dl_table list \<Rightarrow> (dl_table \<times> dl_table list) option" where
  "dl_bind_all dlsym [] st = Some st"
| "dl_bind_all dlsym (name # names) st =
     do { (fn, tab, trace) \<leftarrow> DLSymRtldNext dlsym name st;
          dl_bind_all dlsym names (tab(name := Real fn), trace) }"

definition DoInitialize :: "build_config \<Rightarrow> (string \<Rightarrow> addr) \<Rightarrow> dl_table \<Rightarrow> (dl_table \<times> dl_table list) option" where
  "DoInitialize cfg dlsym tab =
     (if tab ''free'' \<noteq> Null then Some (tab, [])
      else (let tab = tab(''free'' := StaticBuf, ''malloc'' := StaticBuf, ''calloc'' := StaticBuf)
            in do { (tmp_free, tab, trace) \<leftarrow> DLSymRtldNext dlsym ''free'' (tab, []);
                    (tmp_malloc, tab, trace) \<leftarrow> DLSymRtldNext dlsym ''malloc'' (tab, trace);
                    (tmp_calloc, tab, trace) \<leftarrow> DLSymRtldNext dlsym ''calloc'' (tab, trace);
                    dl_bind_all dlsym (dl_rest cfg)
                      (tab(''free'' := Real tmp_free, ''malloc'' := Real tmp_malloc, ''calloc'' := Real tmp_calloc), trace) }))"

definition dl_Initialize :: "build_config \<Rightarrow> (string \<Rightarrow> addr) \<Rightarrow> dl_table \<Rightarrow> (dl_table \<times> dl_table list) option" where
  "dl_Initialize cfg dlsym tab = (if tab ''free'' = Null then DoInitialize cfg dlsym tab else Some (tab, []))"

definition serves_malloc :: "dl_table \<Rightarrow> bool" where
  "serves_malloc tab \<longleftrightarrow> tab ''free'' \<noteq> Null \<and> tab ''malloc'' \<noteq> Null \<and> tab ''calloc'' \<noteq> Null"

lemma dl_bind_all_ok:
  assumes "\<forall>n\<in>set names. dlsym n \<noteq> 0" "serves_malloc tab" "\<forall>t\<in>set trace. serves_malloc t"
  shows "\<exists>tab' trace'. dl_bind_all dlsym names (tab, trace) = Some (tab', trace') \<and>
           (\<forall>t\<in>set trace'. serves_malloc t) \<and>
           (\<forall>n. tab' n = (if n \<in> set names then Real (dlsym n) else tab n))"
  using assms
proof (induction names arbitrary: tab trace)
  case (Cons n names)
  let ?tab = "tab(n := Real (dlsym n))"
  have "serves_malloc ?tab" using Cons.prems(2) by (simp add: serves_malloc_def)
  moreover have "\<forall>t\<in>set (trace @ [tab]). serves_malloc t" using Cons.prems(2,3) by simp
  ultimately obtain tab' trace' where "dl_bind_all dlsym names (?tab, trace @ [tab]) = Some (tab', trace')"
      "\<forall>t\<in>set trace'. serves_malloc t" "\<forall>m. tab' m = (if m \<in> set names then Real (dlsym m) else ?tab m)"
    using Cons.IH [of ?tab "trace @ [tab]"] Cons.prems(1) by (metis list.set_intros(2))
  with Cons.prems(1) show ?case by (auto simp: DLSymRtldNext_def)
qed simp

lemma dl_Initialize_binds:
  assumes "\<And>n. n \<in> set ([''free'', ''malloc'', ''calloc''] @ dl_rest cfg) \<Longrightarrow> dlsym n \<noteq> 0"
  shows "\<exists>tab trace. dl_Initialize cfg dlsym (\<lambda>_. Null) = Some (tab, trace) \<and>
           (\<forall>t\<in>set trace. serves_malloc t) \<and>
           (\<forall>n\<in>set ([''free'', ''malloc'', ''calloc''] @ dl_rest cfg). tab n = Real (dlsym n)) \<and>
           dl_Initialize cfg dlsym tab = Some (tab, [])"
proof -
  let ?t0 = "(\<lambda>_. Null)(''free'' := StaticBuf, ''malloc'' := StaticBuf, ''calloc'' := StaticBuf)"
  let ?t1 = "?t0(''free'' := Real (dlsym ''free''), ''malloc'' := Real (dlsym ''malloc''), ''calloc'' := Real (dlsym ''calloc''))"
  have sym: "dlsym ''free'' \<noteq> 0" "dlsym ''malloc'' \<noteq> 0" "dlsym ''calloc'' \<noteq> 0" "\<forall>n\<in>set (dl_rest cfg). dlsym n \<noteq> 0"
    using assms by auto
  have "serves_malloc ?t1" "\<forall>t\<in>set [?t0, ?t0, ?t0]. serves_malloc t" by (simp_all add: serves_malloc_def)
  then obtain tab trace where t: "dl_bind_all dlsym (dl_rest cfg) (?t1, [?t0, ?t0, ?t0]) = Some (tab, trace)"
      "\<forall>t\<in>set trace. serves_malloc t" "\<forall>n. tab n = (if n \<in> set (dl_rest cfg) then Real (dlsym n) else ?t1 n)"
    using dl_bind_all_ok [OF sym(4), of ?t1 "[?t0, ?t0, ?t0]"] by blast
  have "dl_Initialize cfg dlsym (\<lambda>_. Null) = Some (tab, trace)"
    using t(1) sym by (simp add: dl_Initialize_def DoInitialize_def DLSymRtldNext_def Let_def)
  moreover have "\<forall>n\<in>set ([''free'', ''malloc'', ''calloc''] @ dl_rest cfg). tab n = Real (dlsym n)"
    using t(3) by auto
  moreover from this have "dl_Initialize cfg dlsym tab = Some (tab, [])" by (simp add: dl_Initialize_def)
  ultimately show ?thesis using t(2) by blast
qed

text \<open>
  C33. Start-up is re-entrant and complete, for every configuration of the build: starting from an
  empty table, and with every function that this build looks up present in the next library, each of the lookups happens at a moment at which the table
  can already serve malloc, calloc and free; afterwards every function is the one \<^verbatim>\<open>dlsym\<close>
  found, and initialising again does nothing.
\<close>

theorem dl_initialize_reentrant:
  assumes "\<And>n. n \<in> set ([''free'', ''malloc'', ''calloc''] @ dl_rest cfg) \<Longrightarrow> dlsym n \<noteq> 0"
  shows "\<exists>tab trace. dl_Initialize cfg dlsym (\<lambda>_. Null) = Some (tab, trace) \<and>
           (\<forall>t\<in>set trace. serves_malloc t) \<and>
           (\<forall>n\<in>set ([''free'', ''malloc'', ''calloc''] @ dl_rest cfg). tab n = Real (dlsym n)) \<and>
           dl_Initialize cfg dlsym tab = Some (tab, [])"
  using dl_Initialize_binds [OF assms] .

theorem dl_initialize_reentrant_witness:
  "\<exists>tab trace. dl_Initialize demo_cfg (\<lambda>_. 64) (\<lambda>_. Null) = Some (tab, trace) \<and> (\<forall>t\<in>set trace. serves_malloc t) \<and>
     tab ''mmap'' = Real 64"
proof -
  have "''mmap'' \<in> set ([''free'', ''malloc'', ''calloc''] @ dl_rest demo_cfg)" by (simp add: dl_rest_def)
  moreover have "(64 :: addr) \<noteq> 0" by simp
  ultimately show ?thesis using dl_initialize_reentrant [of demo_cfg "\<lambda>_. 64"] by blast
qed

end
