(* ===== verification/Elf_Hash.thy ===== *)
theory Elf_Hash
  imports Memhook_Prelude
begin

text \<open>
  The two symbol hash functions of \<^verbatim>\<open>src/memhook/glibc.cpp\<close> at the width of an x86-64 build,
  where \<^verbatim>\<open>unsigned long\<close> and \<^verbatim>\<open>uint_fast32_t\<close> have 64 bits, and their definitions in the ABI and
  in the GNU hash format, which are on 32-bit numbers. A name is the list of its characters
  up to the terminating null character.
\<close>

definition uchar :: "char \<Rightarrow> 'a::len word" where
  "uchar c = word_of_nat (of_char c)"

fun elf_hash_loop :: "string \<Rightarrow> u64 \<Rightarrow> u64" where
  "elf_hash_loop [] hash = hash"
| "elf_hash_loop (c # name) hash =
     (let hash = push_bit 4 hash + uchar c;
          hi = hash AND 0xf0000000;
          hash = hash XOR drop_bit 24 hi
      in elf_hash_loop name hash)"

definition GLIBC_dl_elf_hash :: "string \<Rightarrow> u32" where
  "GLIBC_dl_elf_hash name = ucast (elf_hash_loop name 0 AND 0x0fffffff)"

fun new_hash_loop :: "string \<Rightarrow> u64 \<Rightarrow> u64" where
  "new_hash_loop [] h = h"
| "new_hash_loop (c # s) h = new_hash_loop s (h * 33 + uchar c)"

definition GLIBC_dl_new_hash :: "string \<Rightarrow> u64" where
  "GLIBC_dl_new_hash s = new_hash_loop s 5381 AND 0xffffffff"

subsection \<open>The specified functions\<close>

fun abi_hash :: "string \<Rightarrow> u32 \<Rightarrow> u32" where
  "abi_hash [] h = h"
| "abi_hash (c # name) h =
     (let h = push_bit 4 h + uchar c;
          g = h AND 0xf0000000;
          h = (if g \<noteq> 0 then h XOR drop_bit 24 g else h);
          h = h AND NOT g
      in abi_hash name h)"

fun gnu_hash :: "string \<Rightarrow> u32 \<Rightarrow> u32" where
  "gnu_hash [] h = h"
| "gnu_hash (c # s) h = gnu_hash s (push_bit 5 h + h + uchar c)"

lemma unat_ucast32: "unat (ucast (x :: u64) :: u32) = unat x mod 2 ^ 32"
  by (simp add: unsigned_ucast_eq take_bit_eq_mod)

lemma bit_top_nibble: "bit (0xf0000000 :: 'a::len word) k \<longleftrightarrow> 28 \<le> k \<and> k < 32 \<and> k < LENGTH('a)"
proof -
  have e: "(0xf0000000 :: 'a word) = push_bit 28 (mask 4)" by (simp add: mask_eq_exp_minus_1 push_bit_eq_mult)
  show ?thesis unfolding e by (auto simp only: bit_push_bit_iff bit_mask_iff possible_bit_word)
qed

lemma ucast_uchar [simp]: "ucast (uchar c :: u64) = (uchar c :: u32)"
proof -
  have "of_char c < (256 :: nat)" by simp
  then have "of_char c < (4294967296 :: nat)" "of_char c < (18446744073709551616 :: nat)" by linarith+
  then show ?thesis by (simp add: uchar_def word_unat_eq_iff unat_of_nat unat_ucast32)
qed

lemma ucast_push: "ucast (push_bit n (x :: u64)) = (push_bit n (ucast x) :: u32)"
  by (rule bit_eqI) (auto simp: bit_simps)

lemma ucast_plus: "ucast (x + y :: u64) = (ucast x + ucast y :: u32)"
  by (simp add: word_unat_eq_iff unat_ucast32 unat_word_ariths mod_mod_cancel mod_add_eq)

lemma ucast_times: "ucast (x * y :: u64) = (ucast x * ucast y :: u32)"
  by (simp add: word_unat_eq_iff unat_ucast32 unat_word_ariths mod_mod_cancel mod_mult_eq)

text \<open>One round of the ABI function, as the low 28 bits of a round without the final mask.\<close>

lemma hash_round_mask:
  fixes h m :: u32
  assumes "\<And>k. bit m k \<longleftrightarrow> 28 \<le> k \<and> k < 32"
  shows "(h XOR drop_bit 24 (h AND m)) AND NOT (h AND m) = take_bit 28 (h XOR drop_bit 24 (h AND m))"
proof (rule bit_eqI)
  fix n assume "possible_bit TYPE(32 word) n"
  then show "bit ((h XOR drop_bit 24 (h AND m)) AND NOT (h AND m)) n = bit (take_bit 28 (h XOR drop_bit 24 (h AND m))) n"
    by (cases "n < 28") (simp_all add: bit_simps assms)
qed

lemma ucast_high_bits:
  fixes z m :: u64 and m' :: u32
  assumes "\<And>k. bit m k \<longleftrightarrow> 28 \<le> k \<and> k < 32" "\<And>k. bit m' k \<longleftrightarrow> 28 \<le> k \<and> k < 32"
  shows "ucast (drop_bit 24 (z AND m)) = drop_bit 24 (ucast z AND m')"
proof (rule bit_eqI)
  fix n assume "possible_bit TYPE(32 word) n"
  then show "bit (ucast (drop_bit 24 (z AND m)) :: u32) n = bit (drop_bit 24 (ucast z AND m')) n"
    by (cases "n < 8") (simp_all add: bit_simps assms)
qed

lemma top_nibble_bits: "bit (0xf0000000 :: u32) k \<longleftrightarrow> 28 \<le> k \<and> k < 32" "bit (0xf0000000 :: u64) k \<longleftrightarrow> 28 \<le> k \<and> k < 32"
  using bit_top_nibble [where ?'a = 32, of k] bit_top_nibble [where ?'a = 64, of k] by auto

lemmas hash_round_bits = hash_round_mask [OF top_nibble_bits(1)]
  and ucast_hi = ucast_high_bits [OF top_nibble_bits(2) top_nibble_bits(1)]

lemma elf_hash_abi:
  "take_bit 28 (ucast x :: u32) = y \<Longrightarrow> take_bit 28 (ucast (elf_hash_loop name x) :: u32) = abi_hash name y"
proof (induction name arbitrary: x y)
  case (Cons c name)
  let ?x = "push_bit 4 x + uchar c" and ?y = "push_bit 4 y + uchar c"
  let ?X = "?x XOR drop_bit 24 (?x AND 0xf0000000)"
  have "push_bit 4 (ucast x :: u32) = push_bit 4 y"
    unfolding Cons.prems [symmetric] by (rule bit_eqI) (auto simp: bit_simps)
  then have u: "ucast ?x = ?y" by (simp add: ucast_plus ucast_push)
  have "ucast ?X = ?y XOR drop_bit 24 (?y AND 0xf0000000)"
    by (simp only: unsigned_xor_eq ucast_hi u)
  then have "take_bit 28 (ucast ?X :: u32) = (?y XOR drop_bit 24 (?y AND 0xf0000000)) AND NOT (?y AND 0xf0000000)"
    by (simp only: hash_round_bits)
  from Cons.IH [OF this] show ?case
    by (cases "?y AND 0xf0000000 = 0") (simp_all add: Let_def del: drop_bit_and bit.de_Morgan_conj)
qed simp

lemma new_hash_gnu: "ucast (new_hash_loop s h) = gnu_hash s (ucast h)"
proof (induction s arbitrary: h)
  case (Cons c s)
  have "push_bit 5 (x :: u32) + x = x * 33" for x by (simp add: push_bit_eq_mult)
  with Cons show ?case by (simp add: ucast_plus ucast_times mult.commute)
qed simp

lemma ucast_take_bit: "n \<le> 32 \<Longrightarrow> ucast (take_bit n (x :: u64)) = (take_bit n (ucast x) :: u32)"
  by (rule bit_eqI) (auto simp: bit_simps)

lemma and_mask_28: "(x :: u64) AND 0x0fffffff = take_bit 28 x"
  by (simp add: take_bit_eq_mask mask_eq_exp_minus_1)

lemma and_mask_32: "(x :: u64) AND 0xffffffff = take_bit 32 x"
  by (simp add: take_bit_eq_mask mask_eq_exp_minus_1)

text \<open>
  The hash functions that the lookup computes on 64-bit numbers, masking only at the end,
  are the 32-bit functions by which the tables of an object are laid out: the one of the ABI,
  which masks in every round, and the GNU one.
\<close>

theorem elf_hashes_conform:
  "GLIBC_dl_elf_hash name = abi_hash name 0 \<and> GLIBC_dl_new_hash name = ucast (gnu_hash name 5381)"
proof
  show "GLIBC_dl_elf_hash name = abi_hash name 0"
    unfolding GLIBC_dl_elf_hash_def and_mask_28 using elf_hash_abi [of 0 0 name] by (simp add: ucast_take_bit)
  have "GLIBC_dl_new_hash name = ucast (ucast (new_hash_loop name 5381) :: u32)"
    unfolding GLIBC_dl_new_hash_def and_mask_32 by (rule bit_eqI) (auto simp: bit_simps)
  also have "\<dots> = ucast (gnu_hash name 5381)" by (simp add: new_hash_gnu)
  finally show "GLIBC_dl_new_hash name = ucast (gnu_hash name 5381)" .
qed

end
