(* ===== verification/Glibc_Lookup.thy ===== *)
theory Glibc_Lookup
  imports Elf_Hash
begin

text \<open>
  The search for a symbol in the tables of the dynamic linker, \<^verbatim>\<open>src/memhook/glibc.cpp\<close>, by which
  the hook of \<^verbatim>\<open>dlsym\<close> finds the \<^verbatim>\<open>dlsym\<close> of the next library. A loaded object is a record of
  the fields of its link map that the search reads; objects are numbered, and \<open>maps\<close> has
  the object of a number. An array access outside the array, a shift by the width of the word
  or more and a loop that does not end are the value \<open>None\<close>.
\<close>

record elf_sym =
  st_name :: u32
  st_info :: u8
  st_value :: addr

text \<open>
  The link map has two unions: \<^verbatim>\<open>l_gnu_buckets\<close> is \<^verbatim>\<open>l_chain\<close> and \<^verbatim>\<open>l_gnu_chain_zero\<close> is
  \<^verbatim>\<open>l_buckets\<close>. \<open>strtab\<close> gives the string at an offset of the string table.
\<close>

record GLIBC_link_map =
  l_addr :: addr
  l_real :: nat
  l_loader :: "nat option"
  l_removed :: bool
  l_nbuckets :: u32
  l_gnu_bitmask :: "u64 list option"
  l_gnu_bitmask_idxbits :: u32
  l_gnu_shift :: u32
  l_union1 :: "u32 list"
  l_union2 :: "u32 list"
  l_symtab :: "elf_sym list"
  l_strtab :: "u32 \<Rightarrow> string"
  l_local_scope :: "nat list list"
  l_used :: bool

abbreviation l_gnu_buckets :: "GLIBC_link_map \<Rightarrow> u32 list" where "l_gnu_buckets \<equiv> l_union1"
abbreviation l_chain :: "GLIBC_link_map \<Rightarrow> u32 list" where "l_chain \<equiv> l_union1"
abbreviation l_gnu_chain_zero :: "GLIBC_link_map \<Rightarrow> u32 list" where "l_gnu_chain_zero \<equiv> l_union2"
abbreviation l_buckets :: "GLIBC_link_map \<Rightarrow> u32 list" where "l_buckets \<equiv> l_union2"

definition at :: "'a list \<Rightarrow> nat \<Rightarrow> 'a option" where
  "at xs i = (if i < length xs then Some (xs ! i) else None)"

definition STT_FUNC :: nat where "STT_FUNC = 2"
definition STB_GLOBAL :: nat where "STB_GLOBAL = 1"
definition STB_WEAK :: nat where "STB_WEAK = 2"

definition st_type :: "elf_sym \<Rightarrow> nat" where "st_type s = unat (st_info s AND 0xf)"
definition st_bind :: "elf_sym \<Rightarrow> nat" where "st_bind s = unat (drop_bit 4 (st_info s))"

subsection \<open>One object\<close>

text \<open>\<open>is_ref\<close> says whether the symbol is the one the caller refers to; there the name is not compared.\<close>

definition GLIBC_check_match :: "string \<Rightarrow> bool \<Rightarrow> elf_sym \<Rightarrow> (u32 \<Rightarrow> string) \<Rightarrow> bool" where
  "GLIBC_check_match undef_name is_ref s strtab \<longleftrightarrow>
     (let stt = st_type s in
      if push_bit stt 1 AND push_bit STT_FUNC 1 = (0 :: u32) \<or> st_value s = 0 then False
      else if \<not> is_ref \<and> strtab (st_name s) \<noteq> undef_name then False
      else True)"

text \<open>The Bloom filter.\<close>

definition bloom_test :: "u64 \<Rightarrow> GLIBC_link_map \<Rightarrow> u64 list \<Rightarrow> bool option" where
  "bloom_test new_hash m bitmask =
     (if unat (l_gnu_shift m) < 64 then
      do { bitmask_word \<leftarrow> at bitmask (unat ((new_hash div 64) AND ucast (l_gnu_bitmask_idxbits m)));
           let hashbit1 = unat (new_hash AND 63);
           let hashbit2 = unat (drop_bit (unat (l_gnu_shift m)) new_hash AND 63);
           Some (drop_bit hashbit1 bitmask_word AND drop_bit hashbit2 bitmask_word AND 1 \<noteq> 0) }
      else None)"

text \<open>The loop over a chain of the GNU table, from index \<open>i\<close>: the symbol found, if any.\<close>

function gnu_chain_loop :: "string \<Rightarrow> u64 \<Rightarrow> (nat \<Rightarrow> bool) \<Rightarrow> GLIBC_link_map \<Rightarrow> nat \<Rightarrow> nat option option" where
  "gnu_chain_loop undef_name new_hash is_ref m i =
     (if i < length (l_gnu_chain_zero m)
      then let hashval = l_gnu_chain_zero m ! i in
           do { found \<leftarrow> (if drop_bit 1 (ucast hashval XOR new_hash) = 0
                          then do { s \<leftarrow> at (l_symtab m) i;
                                    Some (GLIBC_check_match undef_name (is_ref i) s (l_strtab m)) }
                          else Some False);
                if found then Some (Some i)
                else if hashval AND 1 = 0 then gnu_chain_loop undef_name new_hash is_ref m (Suc i)
                else Some None }
      else None)"
  by pat_completeness auto
termination
  by (relation "measure (\<lambda>(undef_name, new_hash, is_ref, m, i). length (l_gnu_chain_zero m) - i)") auto

declare gnu_chain_loop.simps [simp del]

definition gnu_lookup :: "string \<Rightarrow> u64 \<Rightarrow> (nat \<Rightarrow> bool) \<Rightarrow> GLIBC_link_map \<Rightarrow> u64 list \<Rightarrow> nat option option" where
  "gnu_lookup undef_name new_hash is_ref m bitmask =
     do { pass \<leftarrow> bloom_test new_hash m bitmask;
          if pass
          then do { bucket \<leftarrow> at (l_gnu_buckets m) (unat (new_hash mod ucast (l_nbuckets m)));
                    if bucket \<noteq> 0 then gnu_chain_loop undef_name new_hash is_ref m (unat bucket) else Some None }
          else Some None }"

text \<open>The loop over a chain of the older table; it need not end.\<close>

partial_function (option) sysv_chain_loop ::
    "string \<Rightarrow> (nat \<Rightarrow> bool) \<Rightarrow> GLIBC_link_map \<Rightarrow> nat \<Rightarrow> nat option option" where
  "sysv_chain_loop undef_name is_ref m symidx =
     (if symidx = 0 then Some None
      else do { s \<leftarrow> at (l_symtab m) symidx;
                if GLIBC_check_match undef_name (is_ref symidx) s (l_strtab m) then Some (Some symidx)
                else do { nxt \<leftarrow> at (l_chain m) symidx; sysv_chain_loop undef_name is_ref m (unat nxt) } })"

definition sysv_lookup :: "string \<Rightarrow> u64 \<Rightarrow> (nat \<Rightarrow> bool) \<Rightarrow> GLIBC_link_map \<Rightarrow> nat option option" where
  "sysv_lookup undef_name old_hash is_ref m =
     do { first \<leftarrow> at (l_buckets m) (unat (old_hash mod ucast (l_nbuckets m)));
          sysv_chain_loop undef_name is_ref m (unat first) }"

subsection \<open>A scope\<close>

text \<open>
  The result is the object and the index of the symbol, or \<open>None\<close>, together with the hash
  value the older tables use, which is computed when it is first needed.
\<close>

definition no_old_hash :: u64 where "no_old_hash = 0xffffffff"

definition object_lookup ::
    "string \<Rightarrow> u64 \<Rightarrow> u64 \<Rightarrow> (nat \<Rightarrow> bool) \<Rightarrow> GLIBC_link_map \<Rightarrow> (nat option \<times> u64) option" where
  "object_lookup undef_name new_hash old_hash is_ref m =
     (case l_gnu_bitmask m of
        Some bitmask \<Rightarrow> do { r \<leftarrow> gnu_lookup undef_name new_hash is_ref m bitmask; Some (r, old_hash) }
      | None \<Rightarrow>
          (let old_hash = (if old_hash = no_old_hash then ucast (GLIBC_dl_elf_hash undef_name) else old_hash)
           in do { r \<leftarrow> sysv_lookup undef_name old_hash is_ref m; Some (r, old_hash) }))"

definition exported :: "GLIBC_link_map \<Rightarrow> nat \<Rightarrow> bool" where
  "exported m k \<longleftrightarrow> st_bind (l_symtab m ! k) = STB_WEAK \<or> st_bind (l_symtab m ! k) = STB_GLOBAL"

function GLIBC_do_lookup ::
    "(nat \<rightharpoonup> GLIBC_link_map) \<Rightarrow> string \<Rightarrow> u64 \<Rightarrow> u64 \<Rightarrow> (nat \<times> nat) option \<Rightarrow> nat list \<Rightarrow> nat \<Rightarrow> nat option \<Rightarrow>
     ((nat \<times> nat) option \<times> u64) option" where
  "GLIBC_do_lookup maps undef_name new_hash old_hash ref r_list i skip =
     do { entry \<leftarrow> at r_list i;
          l \<leftarrow> maps entry;
          m \<leftarrow> maps (l_real l);
          (found, old_hash) \<leftarrow>
            (if Some (l_real l) = skip \<or> l_removed m \<or> l_nbuckets m = 0 then Some (None, old_hash)
             else object_lookup undef_name new_hash old_hash (\<lambda>k. ref = Some (l_real l, k)) m);
          case found of
            Some k \<Rightarrow>
              if exported m k then Some (Some (l_real l, k), old_hash)
              else if Suc i < length r_list
              then GLIBC_do_lookup maps undef_name new_hash old_hash ref r_list (Suc i) skip
              else Some (None, old_hash)
          | None \<Rightarrow>
              if Suc i < length r_list
              then GLIBC_do_lookup maps undef_name new_hash old_hash ref r_list (Suc i) skip
              else Some (None, old_hash) }"
  by pat_completeness auto
termination
  by (relation "measure (\<lambda>(maps, undef_name, new_hash, old_hash, ref, r_list, i, skip). length r_list - i)") auto

declare GLIBC_do_lookup.simps [simp del]

subsection \<open>The lookup\<close>

text \<open>\<^verbatim>\<open>while ((*scope)->r_list[i] != skip_map) ++i;\<close>\<close>

function find_skip :: "nat list \<Rightarrow> nat \<Rightarrow> nat \<Rightarrow> nat option" where
  "find_skip r_list skip_map i =
     do { x \<leftarrow> at r_list i; if x = skip_map then Some i else find_skip r_list skip_map (Suc i) }"
  by pat_completeness auto
termination
  by (relation "measure (\<lambda>(r_list, skip_map, i). length r_list - i)") (auto simp: at_def split: if_splits)

declare find_skip.simps [simp del]

fun scopes_loop ::
    "(nat \<rightharpoonup> GLIBC_link_map) \<Rightarrow> string \<Rightarrow> u64 \<Rightarrow> u64 \<Rightarrow> (nat \<times> nat) option \<Rightarrow> nat list list \<Rightarrow> nat \<Rightarrow> nat option \<Rightarrow>
     (nat \<times> nat) option option" where
  "scopes_loop maps undef_name new_hash old_hash ref [] start skip_map = Some None"
| "scopes_loop maps undef_name new_hash old_hash ref (scope # symbol_scope) start skip_map =
     do { (res, old_hash) \<leftarrow> GLIBC_do_lookup maps undef_name new_hash old_hash ref scope start skip_map;
          case res of
            Some found \<Rightarrow> Some (Some found)
          | None \<Rightarrow> scopes_loop maps undef_name new_hash old_hash ref symbol_scope 0 skip_map }"

text \<open>The object found is marked as used.\<close>

definition GLIBC_dl_lookup_symbol ::
    "(nat \<rightharpoonup> GLIBC_link_map) \<Rightarrow> string \<Rightarrow> (nat \<times> nat) option \<Rightarrow> nat list list \<Rightarrow> nat option \<Rightarrow>
     ((nat \<times> nat) option \<times> (nat \<rightharpoonup> GLIBC_link_map)) option" where
  "GLIBC_dl_lookup_symbol maps undef_name ref symbol_scope skip_map =
     do { i \<leftarrow> (case skip_map of
                 None \<Rightarrow> Some 0
               | Some sk \<Rightarrow> (case symbol_scope of [] \<Rightarrow> None | scope # _ \<Rightarrow> find_skip scope sk 0));
          res \<leftarrow> scopes_loop maps undef_name (GLIBC_dl_new_hash undef_name) no_old_hash ref symbol_scope i skip_map;
          case res of
            None \<Rightarrow> Some (None, maps)
          | Some (l, k) \<Rightarrow> do { m \<leftarrow> maps l; Some (Some (l, k), maps(l \<mapsto> m\<lparr>l_used := True\<rparr>)) } }"

text \<open>\<^verbatim>\<open>while (l->l_loader != NULL) l = l->l_loader;\<close>\<close>

partial_function (option) top_loader :: "(nat \<rightharpoonup> GLIBC_link_map) \<Rightarrow> nat \<Rightarrow> nat option" where
  "top_loader maps l =
     do { m \<leftarrow> maps l; case l_loader m of None \<Rightarrow> Some l | Some l' \<Rightarrow> top_loader maps l' }"

text \<open>
  \<open>find_dso\<close> is the linker's function from an address to its object; it is missing (\<open>None\<close>)
  where the linker does not export it. The address is 0 when there is no such symbol.
\<close>

definition GLIBC_do_sym ::
    "(nat \<rightharpoonup> GLIBC_link_map) \<Rightarrow> (addr \<Rightarrow> nat option) option \<Rightarrow> string \<Rightarrow> addr \<Rightarrow> (addr \<times> (nat \<rightharpoonup> GLIBC_link_map)) option" where
  "GLIBC_do_sym maps find_dso name caller =
     (case (case find_dso of None \<Rightarrow> None | Some f \<Rightarrow> f caller) of
        None \<Rightarrow> Some (0, maps)
      | Some mtch \<Rightarrow>
          do { main \<leftarrow> top_loader maps mtch;
               t \<leftarrow> maps main;
               (res, maps) \<leftarrow> GLIBC_dl_lookup_symbol maps name None (l_local_scope t) (Some mtch);
               case res of
                 None \<Rightarrow> Some (0, maps)
               | Some (l, k) \<Rightarrow> do { m \<leftarrow> maps l; s \<leftarrow> at (l_symtab m) k; Some (l_addr m + st_value s, maps) } })"

subsection \<open>Well-formed tables\<close>

text \<open>
  The chain of the GNU table that starts at an index runs to the first entry with an odd value;
  the chain of the older table is followed until it reaches index 0.
\<close>

fun gnu_run :: "u32 list \<Rightarrow> nat \<Rightarrow> nat list option" where
  "gnu_run [] i = None"
| "gnu_run (h # hs) i = (if even (uint h) then map_option (Cons i) (gnu_run hs (Suc i)) else Some [i])"

fun sysv_run :: "u32 list \<Rightarrow> nat \<Rightarrow> nat \<Rightarrow> nat list option" where
  "sysv_run chain 0 i = (if i = 0 then Some [] else None)"
| "sysv_run chain (Suc n) i =
     (if i = 0 then Some [] else do { nxt \<leftarrow> at chain i; map_option (Cons i) (sysv_run chain n (unat nxt)) })"

text \<open>
  What it means that the symbol at an index defines a name, in terms of the ELF format: its name in
  the string table, the type \<^verbatim>\<open>STT_FUNC\<close> (2) in the low four bits of its info byte, and an
  address; a symbol that other objects may bind to is global (1) or weak (2) in the high four
  bits.
\<close>

definition defines_sym :: "string \<Rightarrow> GLIBC_link_map \<Rightarrow> nat \<Rightarrow> bool" where
  "defines_sym name m k \<longleftrightarrow> k < length (l_symtab m) \<and> l_strtab m (st_name (l_symtab m ! k)) = name \<and>
     uint (st_info (l_symtab m ! k)) mod 16 = 2 \<and> st_value (l_symtab m ! k) \<noteq> 0"

definition bindable :: "GLIBC_link_map \<Rightarrow> nat \<Rightarrow> bool" where
  "bindable m k \<longleftrightarrow> uint (st_info (l_symtab m ! k)) div 16 \<in> {1, 2}"

text \<open>
  The layout of the two kinds of table, on integers: the hash value of the name by the
  function that the format specifies, the chain of its bucket, and the two bits of the Bloom
  filter, which has a power of two words.
\<close>

definition gnu_hash_value :: "string \<Rightarrow> int" where
  "gnu_hash_value name = uint (gnu_hash name 5381)"

definition abi_hash_value :: "string \<Rightarrow> int" where
  "abi_hash_value name = uint (abi_hash name 0)"

definition gnu_bucket_chain :: "GLIBC_link_map \<Rightarrow> int \<Rightarrow> nat list option" where
  "gnu_bucket_chain m h =
     do { b \<leftarrow> at (l_gnu_buckets m) (nat (h mod uint (l_nbuckets m)));
          if b = 0 then Some [] else gnu_run (drop (unat b) (l_gnu_chain_zero m)) (unat b) }"

definition sysv_bucket_chain :: "GLIBC_link_map \<Rightarrow> int \<Rightarrow> nat list option" where
  "sysv_bucket_chain m h =
     do { b \<leftarrow> at (l_buckets m) (nat (h mod uint (l_nbuckets m)));
          sysv_run (l_chain m) (length (l_chain m)) (unat b) }"

definition bloom_format :: "GLIBC_link_map \<Rightarrow> u64 list \<Rightarrow> bool" where
  "bloom_format m bitmask \<longleftrightarrow> unat (l_gnu_shift m) < 64 \<and>
     list_ex (\<lambda>p. length bitmask = 2 ^ p \<and> unat (l_gnu_bitmask_idxbits m) = 2 ^ p - 1) [0..<32]"

definition bloom_has :: "GLIBC_link_map \<Rightarrow> u64 list \<Rightarrow> int \<Rightarrow> bool" where
  "bloom_has m bitmask h \<longleftrightarrow>
     (let word = bitmask ! nat (h div 64 mod int (length bitmask)) in
      bit word (nat (h mod 64)) \<and> bit word (nat (h div 2 ^ unat (l_gnu_shift m) mod 64)))"

definition in_range :: "GLIBC_link_map \<Rightarrow> nat list option \<Rightarrow> bool" where
  "in_range m ks \<longleftrightarrow> (case ks of None \<Rightarrow> False | Some ks \<Rightarrow> list_all (\<lambda>k. k < length (l_symtab m)) ks)"

text \<open>
  A table as the static linker lays it out: its chains end within the table, and each function
  that the object defines can be bound to, is in the chain that its name hashes to, and has its
  bits in the filter; its entry in a GNU chain is its hash value but for the lowest bit.
\<close>

definition table_ok :: "string \<Rightarrow> GLIBC_link_map \<Rightarrow> bool" where
  "table_ok name m \<longleftrightarrow>
     list_all (\<lambda>k. defines_sym name m k \<longrightarrow> bindable m k) [0..<length (l_symtab m)] \<and>
     (case l_gnu_bitmask m of
        Some bitmask \<Rightarrow>
          (let h = gnu_hash_value name; ks = gnu_bucket_chain m h in
           bloom_format m bitmask \<and> in_range m ks \<and>
           list_all (\<lambda>k. defines_sym name m k \<longrightarrow>
              bloom_has m bitmask h \<and> k \<in> set (the ks) \<and> uint (l_gnu_chain_zero m ! k) div 2 = h div 2)
             [0..<length (l_symtab m)])
      | None \<Rightarrow>
          (let ks = sysv_bucket_chain m (abi_hash_value name) in
           in_range m ks \<and>
           list_all (\<lambda>k. defines_sym name m k \<longrightarrow> k \<in> set (the ks)) [0..<length (l_symtab m)]))"

subsection \<open>The code's tests are the format's\<close>

lemma uint_widen: "uint (ucast (x :: u32) :: u64) = uint x"
proof -
  have "uint x < 2 ^ 64" using uint_lt2p [of x] by simp
  then show ?thesis by (simp add: unsigned_ucast_eq take_bit_int_eq_self)
qed

lemma single_bits:
  assumes "a < 32"
  shows "push_bit n 1 AND push_bit a 1 = (0 :: u32) \<longleftrightarrow> n \<noteq> a"
proof
  assume z: "push_bit n 1 AND push_bit a 1 = (0 :: u32)"
  from assms have "bit (push_bit a 1 AND push_bit a 1 :: u32) a" by (simp add: bit_simps)
  with z show "n \<noteq> a" by (metis bit_0_eq bot_apply bot_bool_def)
next
  assume "n \<noteq> a"
  then show "push_bit n 1 AND push_bit a 1 = (0 :: u32)" by (intro bit_eqI) (auto simp: bit_simps)
qed

lemma check_match_defines:
  assumes "k < length (l_symtab m)"
  shows "GLIBC_check_match name False (l_symtab m ! k) (l_strtab m) = defines_sym name m k"
proof -
  let ?s = "l_symtab m ! k"
  have mask4: "(0xf :: u8) = mask 4" by (simp add: mask_eq_exp_minus_1)
  have t: "st_type ?s = 2 \<longleftrightarrow> uint (st_info ?s) mod 16 = 2"
    unfolding st_type_def unat_nat mask4 uint_low_bits by (auto simp: nat_eq_iff)
  have "push_bit (st_type ?s) 1 AND push_bit 2 1 = (0 :: u32) \<longleftrightarrow> st_type ?s \<noteq> 2" by (rule single_bits) simp
  with t assms show ?thesis
    unfolding GLIBC_check_match_def defines_sym_def Let_def STT_FUNC_def by auto
qed

lemma exported_bindable: "exported m k = bindable m k"
  unfolding exported_def bindable_def st_bind_def STB_WEAK_def STB_GLOBAL_def unat_nat uint_high_bits
  by (auto simp: nat_eq_iff)

lemma new_hash_value: "uint (GLIBC_dl_new_hash name) = gnu_hash_value name"
  using elf_hashes_conform [of name] by (simp only: gnu_hash_value_def uint_widen)

lemma old_hash_value: "uint (ucast (GLIBC_dl_elf_hash name) :: u64) = abi_hash_value name"
  using elf_hashes_conform [of name] by (simp only: abi_hash_value_def uint_widen)

lemma bucket_index: "unat (h mod ucast (n :: u32) :: u64) = nat (uint h mod uint n)"
  by (simp only: unat_nat uint_mod uint_widen)

lemma xor_zero_iff: "x XOR y = 0 \<longleftrightarrow> x = (y :: u32)"
proof
  assume "x XOR y = 0"
  then have "(x XOR y) XOR y = 0 XOR y" by simp
  then show "x = y" by (simp add: xor.assoc)
qed simp

lemma chain_entry_matches:
  "drop_bit 1 (ucast (v :: u32) XOR GLIBC_dl_new_hash name) = 0 \<longleftrightarrow> uint v div 2 = gnu_hash_value name div 2"
proof -
  let ?g = "gnu_hash name 5381"
  have "ucast v XOR GLIBC_dl_new_hash name = (ucast (v XOR ?g) :: u64)"
    using elf_hashes_conform [of name] by (simp add: unsigned_xor_eq)
  moreover have "drop_bit 1 (ucast (v XOR ?g) :: u64) = 0 \<longleftrightarrow> drop_bit 1 v XOR drop_bit 1 ?g = 0"
  proof -
    have "uint (drop_bit 1 (ucast (v XOR ?g) :: u64)) = uint (drop_bit 1 (v XOR ?g))" by (simp only: uint_high_bits uint_widen)
    then have "drop_bit 1 (ucast (v XOR ?g) :: u64) = 0 \<longleftrightarrow> drop_bit 1 (v XOR ?g) = 0" by (simp only: word_uint_eq_iff unsigned_0)
    then show ?thesis by (simp only: drop_bit_xor)
  qed
  moreover have "drop_bit 1 v XOR drop_bit 1 ?g = 0 \<longleftrightarrow> drop_bit 1 v = drop_bit 1 ?g"
    by (rule xor_zero_iff)
  moreover have "drop_bit 1 v = drop_bit 1 ?g \<longleftrightarrow> uint v div 2 ^ 1 = uint ?g div 2 ^ 1"
    by (simp only: word_uint_eq_iff uint_high_bits)
  ultimately show ?thesis by (simp add: gnu_hash_value_def)
qed

lemma and_one_odd: "(x :: 'a::len word) AND 1 = 0 \<longleftrightarrow> even (uint x)"
proof -
  have "x AND 1 = 0 \<longleftrightarrow> \<not> bit x 0" by (simp add: and_one_eq mod_2_eq_odd bit_0)
  also have "\<dots> \<longleftrightarrow> \<not> bit (uint x) 0" by (simp add: bit_uint_iff)
  also have "\<dots> \<longleftrightarrow> even (uint x)" by (simp only: bit_0 not_not)
  finally show ?thesis .
qed

lemma two_bits: "(drop_bit a w AND drop_bit b w AND 1 \<noteq> 0) \<longleftrightarrow> bit w a \<and> bit (w :: u64) b"
proof -
  have "x AND 1 \<noteq> 0 \<longleftrightarrow> odd x" for x :: u64 by (simp add: and_one_eq mod_2_eq_odd)
  moreover have "drop_bit a w AND drop_bit b w AND 1 = (drop_bit a w AND drop_bit b w) AND 1" by (simp only: and.assoc)
  ultimately show ?thesis by (simp only: even_and_iff bit_iff_odd_drop_bit de_Morgan_disj)
qed

lemma bloom_test_format:
  assumes "bloom_format m bitmask"
  shows "bloom_test (GLIBC_dl_new_hash name) m bitmask = Some (bloom_has m bitmask (gnu_hash_value name))"
proof -
  let ?h = "GLIBC_dl_new_hash name" and ?g = "gnu_hash_value name"
  from assms obtain p where p: "unat (l_gnu_shift m) < 64" "p < 32" "length bitmask = 2 ^ p"
    "unat (l_gnu_bitmask_idxbits m) = 2 ^ p - 1" by (auto simp: bloom_format_def list_ex_iff)
  have mask6: "(63 :: u64) = mask 6" by (simp add: mask_eq_exp_minus_1)
  have "(of_nat (2 ^ p - 1) :: u64) = mask p" by (simp add: mask_eq_exp_minus_1)
  moreover have "(ucast (l_gnu_bitmask_idxbits m) :: u64) = of_nat (unat (l_gnu_bitmask_idxbits m))" by simp
  ultimately have idx: "(ucast (l_gnu_bitmask_idxbits m) :: u64) = mask p" using p(4) by simp
  have div64: "?h div 64 = drop_bit 6 ?h" by (simp add: drop_bit_eq_div)
  have i: "unat (?h div 64 AND ucast (l_gnu_bitmask_idxbits m)) = nat (?g div 64 mod int (length bitmask))"
    unfolding idx div64 unat_nat uint_low_bits uint_high_bits new_hash_value by (simp add: p(3))
  have "nat (?g div 64 mod int (length bitmask)) < length bitmask"
    using p(3) by (simp add: nat_less_iff)
  with i have word: "at bitmask (unat (?h div 64 AND ucast (l_gnu_bitmask_idxbits m))) =
      Some (bitmask ! nat (?g div 64 mod int (length bitmask)))" by (simp add: at_def)
  have bit1: "unat (?h AND 63) = nat (?g mod 64)" unfolding mask6 unat_nat uint_low_bits new_hash_value by simp
  have bit2: "unat (drop_bit (unat (l_gnu_shift m)) ?h AND 63) = nat (?g div 2 ^ unat (l_gnu_shift m) mod 64)"
    unfolding mask6 unat_nat [of "_ AND _"] uint_low_bits uint_high_bits new_hash_value by simp
  show ?thesis unfolding bloom_test_def word bit1 bit2 Let_def two_bits bloom_has_def using p(1) by simp
qed

subsection \<open>Lookup in one object\<close>

lemma gnu_chain_loop_find:
  assumes "gnu_run (drop i (l_gnu_chain_zero m)) i = Some ks" "list_all (\<lambda>k. k < length (l_symtab m)) ks"
  shows "gnu_chain_loop name (GLIBC_dl_new_hash name) (\<lambda>_. False) m i =
    Some (find (\<lambda>k. uint (l_gnu_chain_zero m ! k) div 2 = gnu_hash_value name div 2 \<and> defines_sym name m k) ks)"
  using assms
proof (induction "length (l_gnu_chain_zero m) - i" arbitrary: i ks)
  case 0
  then show ?case by simp
next
  case (Suc n)
  then have lt: "i < length (l_gnu_chain_zero m)" by simp
  then have d: "drop i (l_gnu_chain_zero m) = l_gnu_chain_zero m ! i # drop (Suc i) (l_gnu_chain_zero m)"
    by (rule Cons_nth_drop_Suc [symmetric])
  from Suc.prems d obtain ks' where ks: "ks = i # ks'" by (auto split: if_splits)
  with Suc.prems have i: "i < length (l_symtab m)" "list_all (\<lambda>k. k < length (l_symtab m)) ks'" by auto
  show ?case
  proof (cases "even (uint (l_gnu_chain_zero m ! i))")
    case True
    then have bit0: "l_gnu_chain_zero m ! i AND 1 = 0" by (simp add: and_one_odd)
    from True Suc.prems(1) ks d have "gnu_run (drop (Suc i) (l_gnu_chain_zero m)) (Suc i) = Some ks'" by auto
    from Suc.hyps(1) [OF _ this i(2)] Suc.hyps(2) bit0 lt i ks show ?thesis
      by (subst gnu_chain_loop.simps) (simp add: Let_def at_def check_match_defines chain_entry_matches del: drop_bit_xor One_nat_def)
  next
    case False
    then have bit0: "l_gnu_chain_zero m ! i AND 1 \<noteq> 0" by (simp add: and_one_odd)
    from False Suc.prems(1) ks d have "ks' = []" by simp
    with bit0 lt i ks show ?thesis
      by (subst gnu_chain_loop.simps) (simp add: Let_def at_def check_match_defines chain_entry_matches del: drop_bit_xor One_nat_def)
  qed
qed

lemma sysv_chain_loop_find:
  assumes "sysv_run (l_chain m) n i = Some ks" "list_all (\<lambda>k. k < length (l_symtab m)) ks"
  shows "sysv_chain_loop name (\<lambda>_. False) m i = Some (find (defines_sym name m) ks)"
  using assms
proof (induction n arbitrary: i ks)
  case 0
  then show ?case by (subst sysv_chain_loop.simps) (auto split: if_splits)
next
  case (Suc n)
  show ?case
  proof (cases "i = 0")
    case True
    with Suc.prems show ?thesis by (subst sysv_chain_loop.simps) auto
  next
    case False
    with Suc.prems(1) obtain nxt ks' where n: "at (l_chain m) i = Some nxt"
      "sysv_run (l_chain m) n (unat nxt) = Some ks'" "ks = i # ks'"
      by (auto split: Option.bind_splits)
    from Suc.IH [OF n(2)] n Suc.prems(2) False show ?thesis
      by (subst sysv_chain_loop.simps) (simp add: at_def check_match_defines)
  qed
qed

definition symbol_for :: "string \<Rightarrow> GLIBC_link_map \<Rightarrow> nat option \<Rightarrow> bool" where
  "symbol_for name m r \<longleftrightarrow>
     (case r of None \<Rightarrow> \<forall>k. \<not> defines_sym name m k | Some k \<Rightarrow> defines_sym name m k \<and> bindable m k)"

definition hash_cache :: "string \<Rightarrow> u64 \<Rightarrow> bool" where
  "hash_cache name h \<longleftrightarrow> h = no_old_hash \<or> h = ucast (GLIBC_dl_elf_hash name)"

lemma symbol_for_find:
  assumes "\<And>k. P k \<Longrightarrow> defines_sym name m k" "\<And>k. defines_sym name m k \<Longrightarrow> bindable m k \<and> k \<in> set ks \<and> P k"
  shows "symbol_for name m (find P ks)"
proof (cases "find P ks")
  case None
  then have "\<forall>k \<in> set ks. \<not> P k" by (auto simp: find_None_iff)
  with assms(2) None show ?thesis by (auto simp: symbol_for_def)
next
  case (Some k)
  then have "P k" by (auto simp: find_Some_iff)
  with assms Some show ?thesis by (auto simp: symbol_for_def)
qed

lemma all_defined:
  "list_all (\<lambda>k. defines_sym name m k \<longrightarrow> P k) [0..<length (l_symtab m)] \<longleftrightarrow> (\<forall>k. defines_sym name m k \<longrightarrow> P k)"
  by (auto simp: list_all_iff defines_sym_def)

lemma in_range_iff: "in_range m ks \<longleftrightarrow> (\<exists>ks'. ks = Some ks' \<and> list_all (\<lambda>k. k < length (l_symtab m)) ks')"
  by (simp add: in_range_def split: option.splits)

lemma table_ok_bindable: "table_ok name m \<Longrightarrow> defines_sym name m k \<Longrightarrow> bindable m k"
  by (simp add: table_ok_def all_defined)

lemma table_ok_gnu:
  assumes "table_ok name m" "l_gnu_bitmask m = Some bitmask"
  shows "bloom_format m bitmask \<and> (\<exists>ks. gnu_bucket_chain m (gnu_hash_value name) = Some ks \<and>
    list_all (\<lambda>k. k < length (l_symtab m)) ks \<and>
    (\<forall>k. defines_sym name m k \<longrightarrow> bloom_has m bitmask (gnu_hash_value name) \<and> k \<in> set ks \<and>
       uint (l_gnu_chain_zero m ! k) div 2 = gnu_hash_value name div 2))"
  using assms by (auto simp: table_ok_def Let_def all_defined in_range_iff)

lemma table_ok_sysv:
  assumes "table_ok name m" "l_gnu_bitmask m = None"
  shows "\<exists>ks. sysv_bucket_chain m (abi_hash_value name) = Some ks \<and>
    list_all (\<lambda>k. k < length (l_symtab m)) ks \<and> (\<forall>k. defines_sym name m k \<longrightarrow> k \<in> set ks)"
  using assms by (auto simp: table_ok_def Let_def all_defined in_range_iff)

lemma gnu_lookup_symbol:
  assumes ok: "table_ok name m" and b: "l_gnu_bitmask m = Some bitmask"
  shows "\<exists>r. gnu_lookup name (GLIBC_dl_new_hash name) (\<lambda>_. False) m bitmask = Some r \<and> symbol_for name m r"
proof -
  from table_ok_gnu [OF ok b] obtain ks where f: "bloom_format m bitmask"
    and ks: "gnu_bucket_chain m (gnu_hash_value name) = Some ks" "list_all (\<lambda>k. k < length (l_symtab m)) ks"
    and d: "\<And>k. defines_sym name m k \<Longrightarrow> bloom_has m bitmask (gnu_hash_value name) \<and> k \<in> set ks \<and>
           uint (l_gnu_chain_zero m ! k) div 2 = gnu_hash_value name div 2"
    by blast
  note t = bloom_test_format [OF f, of name]
  let ?P = "\<lambda>k. uint (l_gnu_chain_zero m ! k) div 2 = gnu_hash_value name div 2 \<and> defines_sym name m k"
  have s: "symbol_for name m (find ?P ks)" by (rule symbol_for_find) (use d table_ok_bindable [OF ok] in auto)
  show ?thesis
  proof (cases "bloom_has m bitmask (gnu_hash_value name)")
    case True
    from ks(1) obtain bk where bk: "at (l_gnu_buckets m) (unat (GLIBC_dl_new_hash name mod ucast (l_nbuckets m))) = Some bk"
      "bk = 0 \<and> ks = [] \<or> bk \<noteq> 0 \<and> gnu_run (drop (unat bk) (l_gnu_chain_zero m)) (unat bk) = Some ks"
      by (auto simp: gnu_bucket_chain_def bucket_index new_hash_value split: Option.bind_splits if_splits)
    from bk(2) show ?thesis
    proof (elim disjE conjE)
      assume "bk = 0" "ks = []"
      with s t True bk(1) show ?thesis by (simp add: gnu_lookup_def)
    next
      assume "bk \<noteq> 0" "gnu_run (drop (unat bk) (l_gnu_chain_zero m)) (unat bk) = Some ks"
      from this(1) gnu_chain_loop_find [OF this(2) ks(2)] s t True bk(1) show ?thesis by (simp add: gnu_lookup_def)
    qed
  next
    case False
    with d t show ?thesis by (auto simp: gnu_lookup_def symbol_for_def)
  qed
qed

lemma sysv_lookup_symbol:
  assumes ok: "table_ok name m" and b: "l_gnu_bitmask m = None"
  shows "\<exists>r. sysv_lookup name (ucast (GLIBC_dl_elf_hash name)) (\<lambda>_. False) m = Some r \<and> symbol_for name m r"
proof -
  from table_ok_sysv [OF ok b] obtain ks where ks: "sysv_bucket_chain m (abi_hash_value name) = Some ks"
    "list_all (\<lambda>k. k < length (l_symtab m)) ks" and d: "\<And>k. defines_sym name m k \<Longrightarrow> k \<in> set ks"
    by blast
  from ks(1) obtain bk where bk: "at (l_buckets m) (nat (abi_hash_value name mod uint (l_nbuckets m))) = Some bk"
    "sysv_run (l_chain m) (length (l_chain m)) (unat bk) = Some ks"
    by (auto simp: sysv_bucket_chain_def split: Option.bind_splits)
  from bk(1) have first: "at (l_buckets m) (unat (ucast (GLIBC_dl_elf_hash name) mod ucast (l_nbuckets m) :: u64)) = Some bk"
    unfolding bucket_index old_hash_value .
  have "symbol_for name m (find (defines_sym name m) ks)"
    by (rule symbol_for_find) (use d table_ok_bindable [OF ok] in auto)
  with first sysv_chain_loop_find [OF bk(2) ks(2)] show ?thesis by (simp add: sysv_lookup_def)
qed

lemma object_lookup_symbol:
  assumes "table_ok name m" "hash_cache name old_hash"
  shows "\<exists>r old'. object_lookup name (GLIBC_dl_new_hash name) old_hash (\<lambda>_. False) m = Some (r, old') \<and>
    symbol_for name m r \<and> hash_cache name old'"
proof (cases "l_gnu_bitmask m")
  case None
  with sysv_lookup_symbol [OF assms(1) None] assms(2) show ?thesis by (auto simp: object_lookup_def hash_cache_def)
next
  case (Some bitmask)
  with gnu_lookup_symbol [OF assms(1) Some] assms(2) show ?thesis by (auto simp: object_lookup_def)
qed

subsection \<open>Order of the search\<close>

text \<open>
  The entry of a scope whose object defines the name: the objects that the search passes over
  are the caller's own, removed ones and those without a table.
\<close>

definition searched :: "(nat \<rightharpoonup> GLIBC_link_map) \<Rightarrow> nat option \<Rightarrow> nat \<Rightarrow> GLIBC_link_map option" where
  "searched maps skip e =
     do { l \<leftarrow> maps e; m \<leftarrow> maps (l_real l);
          if Some (l_real l) = skip \<or> l_removed m \<or> l_nbuckets m = 0 then None else Some m }"

definition provides :: "(nat \<rightharpoonup> GLIBC_link_map) \<Rightarrow> string \<Rightarrow> nat option \<Rightarrow> nat \<Rightarrow> bool" where
  "provides maps name skip e \<longleftrightarrow>
     (case searched maps skip e of
        None \<Rightarrow> False
      | Some m \<Rightarrow> list_ex (defines_sym name m) [0..<length (l_symtab m)])"

definition entry_ok :: "(nat \<rightharpoonup> GLIBC_link_map) \<Rightarrow> string \<Rightarrow> nat option \<Rightarrow> nat \<Rightarrow> bool" where
  "entry_ok maps name skip e \<longleftrightarrow>
     (case maps e of None \<Rightarrow> False | Some l \<Rightarrow> maps (l_real l) \<noteq> None) \<and>
     (case searched maps skip e of None \<Rightarrow> True | Some m \<Rightarrow> table_ok name m)"

definition scope_ok :: "(nat \<rightharpoonup> GLIBC_link_map) \<Rightarrow> string \<Rightarrow> nat option \<Rightarrow> nat list \<Rightarrow> bool" where
  "scope_ok maps name skip scope \<longleftrightarrow> scope \<noteq> [] \<and> list_all (entry_ok maps name skip) scope"

text \<open>The answer for a list of entries: a symbol of the first of them that defines the name.\<close>

definition first_provider ::
    "(nat \<rightharpoonup> GLIBC_link_map) \<Rightarrow> string \<Rightarrow> nat option \<Rightarrow> nat list \<Rightarrow> (nat \<times> nat) option \<Rightarrow> bool" where
  "first_provider maps name skip entries res \<longleftrightarrow>
     (case (find (provides maps name skip) entries, res) of
        (None, None) \<Rightarrow> True
      | (Some e, Some (l, k)) \<Rightarrow>
          map_option l_real (maps e) = Some l \<and> (case maps l of None \<Rightarrow> False | Some m \<Rightarrow> defines_sym name m k)
      | _ \<Rightarrow> False)"

lemma provides_iff: "provides maps name skip e \<longleftrightarrow> (\<exists>m. searched maps skip e = Some m \<and> (\<exists>k. defines_sym name m k))"
  by (auto simp: provides_def list_ex_iff defines_sym_def split: option.splits)

lemma first_provider_skip:
  "\<not> provides maps name skip e \<Longrightarrow> first_provider maps name skip (e # es) res = first_provider maps name skip es res"
  by (simp add: first_provider_def)

lemma first_provider_here:
  "provides maps name skip e \<Longrightarrow> maps e = Some l \<Longrightarrow> maps (l_real l) = Some m \<Longrightarrow> defines_sym name m k \<Longrightarrow>
   first_provider maps name skip (e # es) (Some (l_real l, k))"
  by (simp add: first_provider_def)

lemma first_provider_append:
  "first_provider maps name skip es None \<Longrightarrow> first_provider maps name skip fs res \<Longrightarrow> first_provider maps name skip (es @ fs) res"
  by (induction es) (auto simp: first_provider_def split: option.splits if_splits)

lemma first_provider_append_Some:
  "first_provider maps name skip es (Some x) \<Longrightarrow> first_provider maps name skip (es @ fs) (Some x)"
  by (induction es) (auto simp: first_provider_def split: option.splits if_splits prod.splits)

text \<open>One round of the loop: the entry answers, or the search goes on as if it were not there.\<close>

lemma do_lookup_round:
  assumes i: "i < length r_list" and ok: "entry_ok maps name skip (r_list ! i)" and h: "hash_cache name old_hash"
  obtains (hit) l m k old' where "GLIBC_do_lookup maps name (GLIBC_dl_new_hash name) old_hash None r_list i skip
        = Some (Some (l_real l, k), old')"
      "provides maps name skip (r_list ! i)" "maps (r_list ! i) = Some l" "maps (l_real l) = Some m"
      "defines_sym name m k" "hash_cache name old'"
  | (miss) old' where "GLIBC_do_lookup maps name (GLIBC_dl_new_hash name) old_hash None r_list i skip
        = (if Suc i < length r_list
           then GLIBC_do_lookup maps name (GLIBC_dl_new_hash name) old' None r_list (Suc i) skip
           else Some (None, old'))"
      "\<not> provides maps name skip (r_list ! i)" "hash_cache name old'"
proof -
  let ?D = "GLIBC_do_lookup maps name (GLIBC_dl_new_hash name) old_hash None r_list i skip"
  from ok obtain l m where l: "maps (r_list ! i) = Some l" "maps (l_real l) = Some m"
    by (auto simp: entry_ok_def split: option.splits)
  show thesis
  proof (cases "searched maps skip (r_list ! i)")
    case None
    then have n: "\<not> provides maps name skip (r_list ! i)" by (simp add: provides_def)
    from None l have "Some (l_real l) = skip \<or> l_removed m \<or> l_nbuckets m = 0" by (simp add: searched_def split: if_splits)
    with i l have "?D = (if Suc i < length r_list
        then GLIBC_do_lookup maps name (GLIBC_dl_new_hash name) old_hash None r_list (Suc i) skip
        else Some (None, old_hash))"
      by (subst GLIBC_do_lookup.simps) (simp add: at_def)
    from miss [OF this n h] show ?thesis .
  next
    case (Some m')
    with l have m': "m' = m" "\<not> (Some (l_real l) = skip \<or> l_removed m \<or> l_nbuckets m = 0)"
      by (auto simp: searched_def split: if_splits)
    with Some ok have "table_ok name m" by (simp add: entry_ok_def)
    from object_lookup_symbol [OF this h] obtain r old' where o: "object_lookup name (GLIBC_dl_new_hash name) old_hash (\<lambda>_. False) m = Some (r, old')"
      "symbol_for name m r" "hash_cache name old'" by blast
    show ?thesis
    proof (cases r)
      case None
      with o(2) Some m'(1) have n: "\<not> provides maps name skip (r_list ! i)" by (simp add: provides_iff symbol_for_def)
      from None i l m' o have "?D = (if Suc i < length r_list
        then GLIBC_do_lookup maps name (GLIBC_dl_new_hash name) old' None r_list (Suc i) skip
        else Some (None, old'))"
        by (subst GLIBC_do_lookup.simps) (simp add: at_def)
      from miss [OF this n o(3)] show ?thesis .
    next
      case (Some k)
      with o(2) have k: "defines_sym name m k" "exported m k" by (simp_all add: symbol_for_def exported_bindable)
      with \<open>searched maps skip (r_list ! i) = Some m'\<close> m'(1) have p: "provides maps name skip (r_list ! i)"
        by (auto simp: provides_iff)
      from Some i l m' o k have "?D = Some (Some (l_real l, k), old')"
        by (subst GLIBC_do_lookup.simps) (simp add: at_def)
      from hit [OF this p l k(1) o(3)] show ?thesis .
    qed
  qed
qed

lemma do_lookup_first:
  assumes "i < length r_list" "list_all (entry_ok maps name skip) (drop i r_list)" "hash_cache name old_hash"
  shows "\<exists>res old'. GLIBC_do_lookup maps name (GLIBC_dl_new_hash name) old_hash None r_list i skip = Some (res, old') \<and>
    first_provider maps name skip (drop i r_list) res \<and> hash_cache name old'"
  using assms
proof (induction "length r_list - i" arbitrary: i old_hash)
  case 0
  then show ?case by simp
next
  case (Suc n)
  have d: "drop i r_list = r_list ! i # drop (Suc i) r_list" by (rule Cons_nth_drop_Suc [symmetric]) fact
  with Suc.prems(2) have ok: "entry_ok maps name skip (r_list ! i)" "list_all (entry_ok maps name skip) (drop (Suc i) r_list)"
    by auto
  show ?case
  proof (rule do_lookup_round [OF Suc.prems(1) ok(1) Suc.prems(3)], goal_cases)
    case (1 l m k old')
    with first_provider_here [OF 1(2-5)] show ?case by (simp add: d)
  next
    case (2 old')
    show ?case
    proof (cases "Suc i < length r_list")
      case True
      from Suc.hyps(1) [OF _ True ok(2) 2(3)] Suc.hyps(2) True 2 show ?thesis by (simp add: d first_provider_skip)
    next
      case False
      with 2 show ?thesis by (simp add: d first_provider_skip) (simp add: first_provider_def)
    qed
  qed
qed

lemma find_skip_dropWhile:
  "sk \<in> set (drop i r_list) \<Longrightarrow>
   \<exists>j < length r_list. find_skip r_list sk i = Some j \<and> drop j r_list = dropWhile (\<lambda>x. x \<noteq> sk) (drop i r_list)"
proof (induction "length r_list - i" arbitrary: i)
  case (Suc n)
  have d: "drop i r_list = r_list ! i # drop (Suc i) r_list"
    by (rule Cons_nth_drop_Suc [symmetric]) (use Suc.hyps(2) in simp)
  from Suc.hyps(1) [of "Suc i"] Suc.hyps(2) Suc.prems d show ?case
    by (subst find_skip.simps) (auto simp: at_def)
qed simp

text \<open>When the caller is not in the first scope, the search for it runs past the end of the list.\<close>

lemma find_skip_missing: "sk \<notin> set (drop i r_list) \<Longrightarrow> find_skip r_list sk i = None"
proof (induction "length r_list - i" arbitrary: i)
  case 0
  then show ?case by (subst find_skip.simps) (simp add: at_def)
next
  case (Suc n)
  have d: "drop i r_list = r_list ! i # drop (Suc i) r_list"
    by (rule Cons_nth_drop_Suc [symmetric]) (use Suc.hyps(2) in simp)
  from Suc.hyps(1) [of "Suc i"] Suc.hyps(2) Suc.prems d show ?case
    by (subst find_skip.simps) (auto simp: at_def)
qed

lemma scopes_loop_step:
  assumes "start < length scope" "list_all (entry_ok maps name skip) (drop start scope)" "hash_cache name old_hash"
    "\<And>old'. hash_cache name old' \<Longrightarrow>
      \<exists>res. scopes_loop maps name (GLIBC_dl_new_hash name) old' None scopes 0 skip = Some res \<and>
        first_provider maps name skip (concat scopes) res"
  shows "\<exists>res. scopes_loop maps name (GLIBC_dl_new_hash name) old_hash None (scope # scopes) start skip = Some res \<and>
    first_provider maps name skip (drop start scope @ concat scopes) res"
proof -
  from do_lookup_first [OF assms(1-3)] obtain r old' where
    r: "GLIBC_do_lookup maps name (GLIBC_dl_new_hash name) old_hash None scope start skip = Some (r, old')"
      "first_provider maps name skip (drop start scope) r" "hash_cache name old'" by blast
  show ?thesis
  proof (cases r)
    case None
    with r assms(4) [OF r(3)] first_provider_append show ?thesis by fastforce
  next
    case (Some x)
    with r first_provider_append_Some show ?thesis by simp
  qed
qed

lemma scopes_loop_first:
  assumes "list_all (scope_ok maps name skip) scopes" "hash_cache name old_hash"
  shows "\<exists>res. scopes_loop maps name (GLIBC_dl_new_hash name) old_hash None scopes 0 skip = Some res \<and>
    first_provider maps name skip (concat scopes) res"
  using assms
proof (induction scopes arbitrary: old_hash)
  case Nil
  then show ?case by (simp add: first_provider_def)
next
  case (Cons scope scopes)
  with scopes_loop_step [of 0 scope maps name skip old_hash scopes] show ?case by (simp add: scope_ok_def)
qed

text \<open>The entries that are searched after the object \<open>skip\<close>.\<close>

fun entries_from :: "nat \<Rightarrow> nat list list \<Rightarrow> nat list" where
  "entries_from sk [] = []"
| "entries_from sk (scope # scopes) = dropWhile (\<lambda>x. x \<noteq> sk) scope @ concat scopes"

lemma list_all_dropWhile: "list_all P xs \<Longrightarrow> list_all P (dropWhile Q xs)"
  by (auto simp: list_all_iff dest: set_dropWhileD)

lemma dl_lookup_symbol_first:
  assumes "list_all (scope_ok maps name (Some sk)) (scope # scopes)" "sk \<in> set scope"
  shows "\<exists>res maps'. GLIBC_dl_lookup_symbol maps name None (scope # scopes) (Some sk) = Some (res, maps') \<and>
    first_provider maps name (Some sk) (entries_from sk (scope # scopes)) res \<and>
    maps' = (case res of None \<Rightarrow> maps | Some (l, k) \<Rightarrow> maps(l := map_option (l_used_update (\<lambda>_. True)) (maps l)))"
proof -
  from find_skip_dropWhile [of sk 0 scope] assms(2) obtain j where
    j: "j < length scope" "find_skip scope sk 0 = Some j" "drop j scope = dropWhile (\<lambda>x. x \<noteq> sk) scope" by auto
  have "\<exists>res. scopes_loop maps name (GLIBC_dl_new_hash name) no_old_hash None (scope # scopes) j (Some sk) = Some res \<and>
    first_provider maps name (Some sk) (drop j scope @ concat scopes) res"
    using assms(1) j(1)
    by (intro scopes_loop_step scopes_loop_first) (auto simp: scope_ok_def j(3) hash_cache_def intro: list_all_dropWhile)
  then obtain res where res: "scopes_loop maps name (GLIBC_dl_new_hash name) no_old_hash None (scope # scopes) j (Some sk) = Some res"
    "first_provider maps name (Some sk) (entries_from sk (scope # scopes)) res" by (auto simp: j(3))
  show ?thesis
  proof (cases res)
    case None
    with res j(2) show ?thesis by (simp add: GLIBC_dl_lookup_symbol_def del: scopes_loop.simps)
  next
    case (Some x)
    obtain l k where x: "x = (l, k)" by (cases x)
    with Some res(2) obtain m where "maps l = Some m"
      by (auto simp: first_provider_def split: option.splits)
    with x Some res j(2) show ?thesis by (simp add: GLIBC_dl_lookup_symbol_def del: scopes_loop.simps)
  qed
qed

text \<open>\<^verbatim>\<open>MEMHOOK_RETURN_ADDRESS(0)\<close> is an address in the caller.\<close>

definition GLIBC_find_dl_symbol ::
    "(nat \<rightharpoonup> GLIBC_link_map) \<Rightarrow> (addr \<Rightarrow> nat option) option \<Rightarrow> string \<Rightarrow> addr \<Rightarrow> (addr \<times> (nat \<rightharpoonup> GLIBC_link_map)) option" where
  "GLIBC_find_dl_symbol maps find_dso name return_address = GLIBC_do_sym maps find_dso name return_address"

lemma top_loader_path:
  "maps l = Some m \<Longrightarrow> l_loader m = None \<Longrightarrow> top_loader maps l = Some l"
  "maps l = Some m \<Longrightarrow> l_loader m = Some l' \<Longrightarrow> top_loader maps l = top_loader maps l'"
  by (subst top_loader.simps, simp)+

lemma provides_not_skip: "provides maps name (Some sk) e \<Longrightarrow> map_option l_real (maps e) = Some l \<Longrightarrow> l \<noteq> sk"
  by (auto simp: provides_def searched_def split: option.splits Option.bind_splits if_splits)

lemma first_provider_found:
  assumes "first_provider maps name (Some sk) es (Some (l, k))"
  shows "\<exists>e m. find (provides maps name (Some sk)) es = Some e \<and> map_option l_real (maps e) = Some l \<and> l \<noteq> sk \<and>
     maps l = Some m \<and> defines_sym name m k"
proof -
  from assms obtain e m where e: "find (provides maps name (Some sk)) es = Some e" "map_option l_real (maps e) = Some l"
    "maps l = Some m" "defines_sym name m k"
    unfolding first_provider_def by (auto split: option.splits)
  moreover from e(1) have "provides maps name (Some sk) e" by (auto simp: find_Some_iff)
  ultimately show ?thesis using provides_not_skip by blast
qed

lemma find_dl_symbol_next:
  assumes "find_dso caller = Some mtch" "top_loader maps mtch = Some main" "maps main = Some t"
    "l_local_scope t = scope # scopes" "mtch \<in> set scope"
    "list_all (scope_ok maps name (Some mtch)) (l_local_scope t)"
  shows "\<exists>a maps'. GLIBC_find_dl_symbol maps (Some find_dso) name caller = Some (a, maps') \<and>
    (case find (provides maps name (Some mtch)) (entries_from mtch (l_local_scope t)) of
       None \<Rightarrow> a = 0 \<and> maps' = maps
     | Some e \<Rightarrow> \<exists>l m k. map_option l_real (maps e) = Some l \<and> l \<noteq> mtch \<and> maps l = Some m \<and>
         defines_sym name m k \<and> a = l_addr m + st_value (l_symtab m ! k) \<and> maps' = maps(l \<mapsto> m\<lparr>l_used := True\<rparr>))"
proof -
  from dl_lookup_symbol_first [of maps name mtch scope scopes] assms obtain res maps' where
    r: "GLIBC_dl_lookup_symbol maps name None (l_local_scope t) (Some mtch) = Some (res, maps')"
      "first_provider maps name (Some mtch) (entries_from mtch (l_local_scope t)) res"
      "maps' = (case res of None \<Rightarrow> maps | Some (l, k) \<Rightarrow> maps(l := map_option (l_used_update (\<lambda>_. True)) (maps l)))"
    by auto
  show ?thesis
  proof (cases res)
    case None
    with r(2) have "find (provides maps name (Some mtch)) (entries_from mtch (l_local_scope t)) = None"
      by (simp add: first_provider_def split: option.splits)
    with None r assms(1-3) show ?thesis by (simp add: GLIBC_find_dl_symbol_def GLIBC_do_sym_def)
  next
    case (Some x)
    obtain l k where x: "x = (l, k)" by (cases x)
    with first_provider_found r(2) Some obtain e m where
      e: "find (provides maps name (Some mtch)) (entries_from mtch (l_local_scope t)) = Some e"
      "map_option l_real (maps e) = Some l" "l \<noteq> mtch" "maps l = Some m" "defines_sym name m k" by metis
    moreover have "GLIBC_find_dl_symbol maps (Some find_dso) name caller = Some (l_addr m + st_value (l_symtab m ! k), maps')"
      using assms(1-3) r Some x e(4,5)
      by (simp add: GLIBC_find_dl_symbol_def GLIBC_do_sym_def at_def defines_sym_def)
    ultimately show ?thesis using r(3) Some x by auto
  qed
qed

text \<open>
  C7. Called from a loaded object, the lookup returns and answers as a search for the next
  definition must: it goes through the scope of the object that loaded the caller, from the
  caller's own entry on and never into the caller itself, and the address it returns is that
  of a function of the requested name in the first object there that defines one, whichever
  of the two kinds of hash table that object has; it is null exactly when no object there
  defines the name. To define a name is to have in the symbol table a function with a value and
  that name (\<open>defines_sym\<close>). The hypotheses are that the caller is in the first scope of the object
  at the top of the chain of loaders, that the entries of the scopes are loaded objects, and that
  the hash tables searched are as the static linker lays them out, with every function of that
  name global or weak and in the chain of its hash value (\<open>table_ok\<close>, in terms of the
  ELF format).
\<close>

theorem do_sym_next_definition:
  assumes "find_dso caller = Some mtch" "top_loader maps mtch = Some main" "maps main = Some t"
    "l_local_scope t = scope # scopes" "mtch \<in> set scope"
    "list_all (scope_ok maps name (Some mtch)) (l_local_scope t)"
  shows "\<exists>a maps'. GLIBC_find_dl_symbol maps (Some find_dso) name caller = Some (a, maps') \<and>
    (case find (provides maps name (Some mtch)) (entries_from mtch (l_local_scope t)) of
       None \<Rightarrow> a = 0 \<and> maps' = maps
     | Some e \<Rightarrow> \<exists>l m k. map_option l_real (maps e) = Some l \<and> l \<noteq> mtch \<and> maps l = Some m \<and>
         defines_sym name m k \<and> a = l_addr m + st_value (l_symtab m ! k) \<and> maps' = maps(l \<mapsto> m\<lparr>l_used := True\<rparr>))"
  using find_dl_symbol_next [where find_dso = find_dso and maps = maps, OF assms] .

text \<open>
  An example: the library of the hooks (object 1) asks for the next \<^verbatim>\<open>dlsym\<close>; after it come an
  object that has been removed and one with a table of the older kind.
\<close>

definition demo_object :: GLIBC_link_map where
  "demo_object = \<lparr>l_addr = 0, l_real = 0, l_loader = None, l_removed = False, l_nbuckets = 1,
     l_gnu_bitmask = Some [0x400000040000], l_gnu_bitmask_idxbits = 0, l_gnu_shift = 6,
     l_union1 = [1], l_union2 = [0, 0x0f4dc4af],
     l_symtab = [\<lparr>st_name = 0, st_info = 0, st_value = 0\<rparr>, \<lparr>st_name = 1, st_info = 0x12, st_value = 0x40\<rparr>],
     l_strtab = (\<lambda>n. if n = 1 then ''dlsym'' else ''''),
     l_local_scope = [[0, 1, 2, 3]], l_used = False\<rparr>"

definition demo_maps :: "nat \<rightharpoonup> GLIBC_link_map" where
  "demo_maps =
     [0 \<mapsto> demo_object\<lparr>l_symtab := [\<lparr>st_name = 0, st_info = 0, st_value = 0\<rparr>], l_gnu_bitmask := Some [0], l_union1 := [0]\<rparr>,
      1 \<mapsto> demo_object\<lparr>l_real := 1, l_loader := Some 0, l_addr := 0x1000\<rparr>,
      2 \<mapsto> demo_object\<lparr>l_real := 2, l_addr := 0x2000, l_removed := True\<rparr>,
      3 \<mapsto> demo_object\<lparr>l_real := 3, l_addr := 0x3000, l_gnu_bitmask := None, l_union1 := [0, 0], l_union2 := [1]\<rparr>]"

lemma demo_scope: "list_all (scope_ok demo_maps ''dlsym'' (Some 1)) [[0, 1, 2, 3]]"
  by code_simp

lemma demo_find: "find (provides demo_maps ''dlsym'' (Some 1)) (entries_from 1 [[0, 1, 2, 3]]) = Some 3"
  by code_simp


definition demo_find_dso :: "addr \<Rightarrow> nat option" where
  "demo_find_dso a = (if 0x1000 \<le> a \<and> a < 0x2000 then Some 1 else None)"

lemma demo_defines: "demo_maps 3 = Some m \<Longrightarrow> defines_sym ''dlsym'' m k \<Longrightarrow> k = 1"
  by (cases k) (auto simp: demo_maps_def demo_object_def defines_sym_def)

lemma demo_loader: "top_loader demo_maps 1 = Some 0"
proof -
  have "top_loader demo_maps 1 = top_loader demo_maps 0"
    by (rule top_loader_path(2) [where m = "the (demo_maps 1)"]) (simp_all add: demo_maps_def demo_object_def)
  also have "\<dots> = Some 0"
    by (rule top_loader_path(1) [where m = "the (demo_maps 0)"]) (simp_all add: demo_maps_def demo_object_def)
  finally show ?thesis .
qed

theorem do_sym_next_definition_witness:
  "\<exists>maps'. GLIBC_find_dl_symbol demo_maps (Some demo_find_dso) ''dlsym'' 0x1234 = Some (0x3040, maps') \<and>
     map_option l_used (maps' 3) = Some True \<and> map_option l_used (maps' 1) = Some False"
proof -
  obtain t where t: "demo_maps 0 = Some t" "l_local_scope t = [[0, 1, 2, 3]]"
    by (simp add: demo_maps_def demo_object_def)
  have real3: "map_option l_real (demo_maps 3) = Some 3" by (simp add: demo_maps_def demo_object_def)
  have dso: "demo_find_dso 0x1234 = Some 1" by (simp add: demo_find_dso_def)
  have in_scope: "(1 :: nat) \<in> set [0, 1, 2, 3]" by simp
  have ok: "list_all (scope_ok demo_maps ''dlsym'' (Some 1)) (l_local_scope t)" unfolding t(2) by (rule demo_scope)
  have "\<exists>a maps'. GLIBC_find_dl_symbol demo_maps (Some demo_find_dso) ''dlsym'' 0x1234 = Some (a, maps') \<and>
    (\<exists>l m k. map_option l_real (demo_maps 3) = Some l \<and> l \<noteq> 1 \<and> demo_maps l = Some m \<and> defines_sym ''dlsym'' m k \<and>
       a = l_addr m + st_value (l_symtab m ! k) \<and> maps' = demo_maps(l \<mapsto> m\<lparr>l_used := True\<rparr>))"
    using do_sym_next_definition [where find_dso = demo_find_dso and maps = demo_maps, OF dso demo_loader t in_scope ok] unfolding t(2) demo_find by simp
  then obtain a maps' m k where a: "GLIBC_find_dl_symbol demo_maps (Some demo_find_dso) ''dlsym'' 0x1234 = Some (a, maps')"
    "demo_maps 3 = Some m" "defines_sym ''dlsym'' m k" "a = l_addr m + st_value (l_symtab m ! k)"
    "maps' = demo_maps(3 \<mapsto> m\<lparr>l_used := True\<rparr>)"
    unfolding real3 by auto
  from a(2) have "l_addr m + st_value (l_symtab m ! 1) = 0x3040" by (auto simp: demo_maps_def demo_object_def)
  with a demo_defines [OF a(2,3)] have "a = 0x3040" by simp
  moreover have "map_option l_used (demo_maps 1) = Some False" by (simp add: demo_maps_def demo_object_def)
  ultimately show ?thesis using a(1,5) by simp
qed

end
