(* ===== verification/Forwarding.thy ===== *)
theory Forwarding
  imports Memhook_Hooks Bootstrap Glibc_Lookup
begin

text \<open>
  How a hook reaches the function it replaces, \<^verbatim>\<open>src/memhook/memhook.cpp\<close>, \<^verbatim>\<open>dl_functions.h\<close> and
  \<^verbatim>\<open>glibc.cpp\<close> put together. The forwarding functions of the loader and the resolver go through
  the table of \<^verbatim>\<open>DLFunctions\<close>, which is filled on first use; the table's entries are pointers to
  functions of the types that \<^verbatim>\<open>dl_functions.h\<close> declares, and a call through a pointer with
  arguments of other types has no defined meaning (\<open>None\<close>). The hook of \<^verbatim>\<open>dlsym\<close> fills its own
  entry, from the tables of the dynamic linker.
\<close>

subsection \<open>The table of functions\<close>

text \<open>The parameter types of the declarations; pointers of all kinds are addresses.\<close>

datatype arg_type = TPtr | TInt | TUInt | TLong | TSize

datatype c_value = VPtr addr | VInt u32 | VUInt u32 | VLong u64 | VSize u64

fun type_of :: "c_value \<Rightarrow> arg_type" where
  "type_of (VPtr _) = TPtr"
| "type_of (VInt _) = TInt"
| "type_of (VUInt _) = TUInt"
| "type_of (VLong _) = TLong"
| "type_of (VSize _) = TSize"

text \<open>\<^verbatim>\<open>socklen_t\<close> and \<^verbatim>\<open>uid_t\<close> are unsigned, \<^verbatim>\<open>Lmid_t\<close> is a long.\<close>

definition dl_types :: "(string \<times> arg_type list \<times> arg_type) list" where
  "dl_types =
     [(''dlopen'', [TPtr, TInt], TPtr),
      (''dlmopen'', [TLong, TPtr, TInt], TPtr),
      (''dlclose'', [TPtr], TInt),
      (''dl_iterate_phdr'', [TPtr, TPtr], TInt),
      (''dlsym'', [TPtr, TPtr], TPtr),
      (''dlvsym'', [TPtr, TPtr, TPtr], TPtr),
      (''getaddrinfo'', [TPtr, TPtr, TPtr, TPtr], TInt),
      (''getnameinfo'', [TPtr, TUInt, TPtr, TUInt, TPtr, TUInt, TInt], TInt),
      (''gethostbyname'', [TPtr], TPtr),
      (''gethostbyaddr'', [TPtr, TUInt, TInt], TPtr),
      (''gethostbyname2'', [TPtr, TInt], TPtr),
      (''gethostent_r'', [TPtr, TPtr, TSize, TPtr, TPtr], TInt),
      (''gethostbyaddr_r'', [TPtr, TUInt, TInt, TPtr, TPtr, TSize, TPtr, TPtr], TInt),
      (''gethostbyname_r'', [TPtr, TPtr, TPtr, TSize, TPtr, TPtr], TInt),
      (''gethostbyname2_r'', [TPtr, TInt, TPtr, TPtr, TSize, TPtr, TPtr], TInt),
      (''getpwent_r'', [TPtr, TPtr, TSize, TPtr], TInt),
      (''getpwuid_r'', [TUInt, TPtr, TPtr, TSize, TPtr], TInt),
      (''getpwnam_r'', [TPtr, TPtr, TPtr, TSize, TPtr], TInt)]"

text \<open>
  The world around the table: the configuration of the build, \<open>next_sym\<close> looks a name up in the next library, \<open>code\<close> is what
  the function at an address does with its arguments.
\<close>

record 'w native =
  n_config :: build_config
  next_sym :: "string \<Rightarrow> addr"
  code :: "addr \<Rightarrow> c_value list \<Rightarrow> 'w \<Rightarrow> c_value \<times> 'w"

type_synonym 'w dl_state = "dl_table \<times> 'w"

definition GetDLFunctions :: "'w native \<Rightarrow> 'w dl_state \<Rightarrow> 'w dl_state option" where
  "GetDLFunctions n s = (case s of (g_dl_functions, w) \<Rightarrow>
     map_option (\<lambda>(tab, _). (tab, w)) (dl_Initialize (n_config n) (next_sym n) g_dl_functions))"

definition call_pointer :: "'w native \<Rightarrow> string \<Rightarrow> c_value list \<Rightarrow> 'w dl_state \<Rightarrow> (c_value \<times> 'w dl_state) option" where
  "call_pointer n name args s =
     (case s of (tab, w) \<Rightarrow>
        (case (tab name, map_of dl_types name) of
           (Real fn, Some (params, result_type)) \<Rightarrow>
             if map type_of args = params then (case code n fn args w of (r, w) \<Rightarrow> Some (r, tab, w)) else None
         | _ \<Rightarrow> None))"

definition through :: "'w native \<Rightarrow> string \<Rightarrow> c_value list \<Rightarrow> 'w dl_state \<Rightarrow> (c_value \<times> 'w dl_state) option" where
  "through n name args s = do { s \<leftarrow> GetDLFunctions n s; call_pointer n name args s }"

subsection \<open>The forwarding functions\<close>

definition do_dlopen :: "'w native \<Rightarrow> addr \<Rightarrow> u32 \<Rightarrow> 'w dl_state \<Rightarrow> (c_value \<times> 'w dl_state) option" where
  "do_dlopen n file mode = through n ''dlopen'' [VPtr file, VInt mode]"

definition do_dlmopen :: "'w native \<Rightarrow> u64 \<Rightarrow> addr \<Rightarrow> u32 \<Rightarrow> 'w dl_state \<Rightarrow> (c_value \<times> 'w dl_state) option" where
  "do_dlmopen n nsid file mode = through n ''dlmopen'' [VLong nsid, VPtr file, VInt mode]"

definition do_dlclose :: "'w native \<Rightarrow> addr \<Rightarrow> 'w dl_state \<Rightarrow> (c_value \<times> 'w dl_state) option" where
  "do_dlclose n handle = through n ''dlclose'' [VPtr handle]"

definition do_dl_iterate_phdr :: "'w native \<Rightarrow> addr \<Rightarrow> addr \<Rightarrow> 'w dl_state \<Rightarrow> (c_value \<times> 'w dl_state) option" where
  "do_dl_iterate_phdr n callback data = through n ''dl_iterate_phdr'' [VPtr callback, VPtr data]"

definition do_dlsym :: "'w native \<Rightarrow> addr \<Rightarrow> addr \<Rightarrow> 'w dl_state \<Rightarrow> (c_value \<times> 'w dl_state) option" where
  "do_dlsym n handle name = through n ''dlsym'' [VPtr handle, VPtr name]"

definition do_getaddrinfo ::
    "'w native \<Rightarrow> addr \<Rightarrow> addr \<Rightarrow> addr \<Rightarrow> addr \<Rightarrow> 'w dl_state \<Rightarrow> (c_value \<times> 'w dl_state) option" where
  "do_getaddrinfo n node service hints res = through n ''getaddrinfo'' [VPtr node, VPtr service, VPtr hints, VPtr res]"

definition do_getnameinfo ::
    "'w native \<Rightarrow> addr \<Rightarrow> u32 \<Rightarrow> addr \<Rightarrow> u32 \<Rightarrow> addr \<Rightarrow> u32 \<Rightarrow> u32 \<Rightarrow> 'w dl_state \<Rightarrow> (c_value \<times> 'w dl_state) option" where
  "do_getnameinfo n sa salen host hostlen serv servlen flags =
     through n ''getnameinfo'' [VPtr sa, VUInt salen, VPtr host, VUInt hostlen, VPtr serv, VUInt servlen, VInt flags]"

definition do_gethostbyname :: "'w native \<Rightarrow> addr \<Rightarrow> 'w dl_state \<Rightarrow> (c_value \<times> 'w dl_state) option" where
  "do_gethostbyname n name = through n ''gethostbyname'' [VPtr name]"

definition do_gethostbyaddr :: "'w native \<Rightarrow> addr \<Rightarrow> u32 \<Rightarrow> u32 \<Rightarrow> 'w dl_state \<Rightarrow> (c_value \<times> 'w dl_state) option" where
  "do_gethostbyaddr n a len type = through n ''gethostbyaddr'' [VPtr a, VUInt len, VInt type]"

definition do_gethostbyname2 :: "'w native \<Rightarrow> addr \<Rightarrow> u32 \<Rightarrow> 'w dl_state \<Rightarrow> (c_value \<times> 'w dl_state) option" where
  "do_gethostbyname2 n name af = through n ''gethostbyname2'' [VPtr name, VInt af]"

definition do_gethostent_r ::
    "'w native \<Rightarrow> addr \<Rightarrow> addr \<Rightarrow> u64 \<Rightarrow> addr \<Rightarrow> addr \<Rightarrow> 'w dl_state \<Rightarrow> (c_value \<times> 'w dl_state) option" where
  "do_gethostent_r n result_buf buf buflen result h_errnop =
     through n ''gethostent_r'' [VPtr result_buf, VPtr buf, VSize buflen, VPtr result, VPtr h_errnop]"

definition do_gethostbyaddr_r ::
    "'w native \<Rightarrow> addr \<Rightarrow> u32 \<Rightarrow> u32 \<Rightarrow> addr \<Rightarrow> addr \<Rightarrow> u64 \<Rightarrow> addr \<Rightarrow> addr \<Rightarrow> 'w dl_state \<Rightarrow> (c_value \<times> 'w dl_state) option" where
  "do_gethostbyaddr_r n a len type result_buf buf buflen result h_errnop =
     through n ''gethostbyaddr_r''
       [VPtr a, VUInt len, VInt type, VPtr result_buf, VPtr buf, VSize buflen, VPtr result, VPtr h_errnop]"

definition do_gethostbyname_r ::
    "'w native \<Rightarrow> addr \<Rightarrow> addr \<Rightarrow> addr \<Rightarrow> u64 \<Rightarrow> addr \<Rightarrow> addr \<Rightarrow> 'w dl_state \<Rightarrow> (c_value \<times> 'w dl_state) option" where
  "do_gethostbyname_r n name result_buf buf buflen result h_errnop =
     through n ''gethostbyname_r'' [VPtr name, VPtr result_buf, VPtr buf, VSize buflen, VPtr result, VPtr h_errnop]"

definition do_gethostbyname2_r ::
    "'w native \<Rightarrow> addr \<Rightarrow> u32 \<Rightarrow> addr \<Rightarrow> addr \<Rightarrow> u64 \<Rightarrow> addr \<Rightarrow> addr \<Rightarrow> 'w dl_state \<Rightarrow> (c_value \<times> 'w dl_state) option" where
  "do_gethostbyname2_r n name af result_buf buf buflen result h_errnop =
     through n ''gethostbyname2_r'' [VPtr name, VInt af, VPtr result_buf, VPtr buf, VSize buflen, VPtr result, VPtr h_errnop]"

definition do_getpwent_r ::
    "'w native \<Rightarrow> addr \<Rightarrow> addr \<Rightarrow> u64 \<Rightarrow> addr \<Rightarrow> 'w dl_state \<Rightarrow> (c_value \<times> 'w dl_state) option" where
  "do_getpwent_r n resultbuf buffer buflen result =
     through n ''getpwent_r'' [VPtr resultbuf, VPtr buffer, VSize buflen, VPtr result]"

definition do_getpwuid_r ::
    "'w native \<Rightarrow> u32 \<Rightarrow> addr \<Rightarrow> addr \<Rightarrow> u64 \<Rightarrow> addr \<Rightarrow> 'w dl_state \<Rightarrow> (c_value \<times> 'w dl_state) option" where
  "do_getpwuid_r n uid resultbuf buffer buflen result =
     through n ''getpwuid_r'' [VUInt uid, VPtr resultbuf, VPtr buffer, VSize buflen, VPtr result]"

definition do_getpwnam_r ::
    "'w native \<Rightarrow> addr \<Rightarrow> addr \<Rightarrow> addr \<Rightarrow> u64 \<Rightarrow> addr \<Rightarrow> 'w dl_state \<Rightarrow> (c_value \<times> 'w dl_state) option" where
  "do_getpwnam_r n name resultbuf buffer buflen result =
     through n ''getpwnam_r'' [VPtr name, VPtr resultbuf, VPtr buffer, VSize buflen, VPtr result]"

text \<open>
  A function \<open>f\<close> goes to the next \<open>name\<close> with \<open>args\<close>: it calls the code that the lookup gives for
  the name, returns what that returns and leaves behind what that leaves behind; the first call
  fills the table, and a later one uses the same entry and leaves the table alone.
\<close>

definition calls :: "'w native \<Rightarrow> string \<Rightarrow> c_value list \<Rightarrow> dl_table \<Rightarrow> 'w \<Rightarrow> (c_value \<times> 'w dl_state) option" where
  "calls n name args tab w = (case code n (next_sym n name) args w of (r, w) \<Rightarrow> Some (r, tab, w))"

definition reaches_next ::
    "'w native \<Rightarrow> string \<Rightarrow> c_value list \<Rightarrow> ('w dl_state \<Rightarrow> (c_value \<times> 'w dl_state) option) \<Rightarrow> bool" where
  "reaches_next n name args f \<longleftrightarrow>
     (\<exists>tab. \<forall>w. f (\<lambda>_. Null, w) = calls n name args tab w \<and> f (tab, w) = calls n name args tab w)"

lemma through_reaches_next:
  assumes found: "\<And>m. m \<in> set ([''free'', ''malloc'', ''calloc''] @ dl_rest (n_config n)) \<Longrightarrow> next_sym n m \<noteq> 0"
    and name: "name \<in> set (dl_rest (n_config n))" and ty: "map_of dl_types name = Some (map type_of args, r)"
  shows "reaches_next n name args (through n name args)"
proof -
  from dl_Initialize_binds [of "n_config n" "next_sym n"] found obtain tab trace where
    t: "dl_Initialize (n_config n) (next_sym n) (\<lambda>_. Null) = Some (tab, trace)" "dl_Initialize (n_config n) (next_sym n) tab = Some (tab, [])"
      "tab name = Real (next_sym n name)"
    using name by (metis UnCI set_append)
  have "through n name args (\<lambda>_. Null, w) = calls n name args tab w \<and> through n name args (tab, w) = calls n name args tab w" for w
    using t ty by (simp add: through_def GetDLFunctions_def call_pointer_def calls_def)
  then show ?thesis unfolding reaches_next_def by blast
qed

text \<open>
  Every forwarding function of the loader and the resolver reaches the function of its own
  name in the next library with its own arguments, in the order and of the types that function
  is declared with, on the first call, which fills the table, and on every later one.
\<close>

theorem forwards_reach_next:
  assumes "\<And>m. m \<in> set ([''free'', ''malloc'', ''calloc''] @ dl_rest (n_config n)) \<Longrightarrow> next_sym n m \<noteq> 0"
  shows "reaches_next n ''dlopen'' [VPtr p1, VInt i1] (do_dlopen n p1 i1) \<and>
    reaches_next n ''dlmopen'' [VLong l1, VPtr p1, VInt i1] (do_dlmopen n l1 p1 i1) \<and>
    reaches_next n ''dlclose'' [VPtr p1] (do_dlclose n p1) \<and>
    reaches_next n ''dl_iterate_phdr'' [VPtr p1, VPtr p2] (do_dl_iterate_phdr n p1 p2) \<and>
    reaches_next n ''getaddrinfo'' [VPtr p1, VPtr p2, VPtr p3, VPtr p4] (do_getaddrinfo n p1 p2 p3 p4) \<and>
    reaches_next n ''getnameinfo'' [VPtr p1, VUInt u1, VPtr p2, VUInt u2, VPtr p3, VUInt u3, VInt i1]
      (do_getnameinfo n p1 u1 p2 u2 p3 u3 i1) \<and>
    reaches_next n ''gethostbyname'' [VPtr p1] (do_gethostbyname n p1) \<and>
    reaches_next n ''gethostbyaddr'' [VPtr p1, VUInt u1, VInt i1] (do_gethostbyaddr n p1 u1 i1) \<and>
    reaches_next n ''gethostbyname2'' [VPtr p1, VInt i1] (do_gethostbyname2 n p1 i1) \<and>
    reaches_next n ''gethostent_r'' [VPtr p1, VPtr p2, VSize z1, VPtr p3, VPtr p4] (do_gethostent_r n p1 p2 z1 p3 p4) \<and>
    reaches_next n ''gethostbyaddr_r'' [VPtr p1, VUInt u1, VInt i1, VPtr p2, VPtr p3, VSize z1, VPtr p4, VPtr p5]
      (do_gethostbyaddr_r n p1 u1 i1 p2 p3 z1 p4 p5) \<and>
    reaches_next n ''gethostbyname_r'' [VPtr p1, VPtr p2, VPtr p3, VSize z1, VPtr p4, VPtr p5]
      (do_gethostbyname_r n p1 p2 p3 z1 p4 p5) \<and>
    reaches_next n ''gethostbyname2_r'' [VPtr p1, VInt i1, VPtr p2, VPtr p3, VSize z1, VPtr p4, VPtr p5]
      (do_gethostbyname2_r n p1 i1 p2 p3 z1 p4 p5) \<and>
    reaches_next n ''getpwent_r'' [VPtr p1, VPtr p2, VSize z1, VPtr p3] (do_getpwent_r n p1 p2 z1 p3) \<and>
    reaches_next n ''getpwuid_r'' [VUInt u1, VPtr p1, VPtr p2, VSize z1, VPtr p3] (do_getpwuid_r n u1 p1 p2 z1 p3) \<and>
    reaches_next n ''getpwnam_r'' [VPtr p1, VPtr p2, VPtr p3, VSize z1, VPtr p4] (do_getpwnam_r n p1 p2 p3 z1 p4)"
  unfolding do_dlopen_def do_dlmopen_def do_dlclose_def do_dl_iterate_phdr_def do_getaddrinfo_def do_getnameinfo_def
    do_gethostbyname_def do_gethostbyaddr_def do_gethostbyname2_def do_gethostent_r_def do_gethostbyaddr_r_def
    do_gethostbyname_r_def do_gethostbyname2_r_def do_getpwent_r_def do_getpwuid_r_def do_getpwnam_r_def
  by (intro conjI through_reaches_next [OF assms]) (simp_all add: dl_rest_def dl_types_def)

text \<open>A world that notes every call, where the lookup finds each function at its length's multiple of 16.\<close>

definition noting :: "(addr \<times> c_value list) list native" where
  "noting = \<lparr>n_config = demo_cfg, next_sym = (\<lambda>name. 16 * of_nat (length name)), code = (\<lambda>fn args w. (VInt 0, w @ [(fn, args)]))\<rparr>"

lemma noting_found: "m \<in> set ([''free'', ''malloc'', ''calloc''] @ dl_rest (n_config noting)) \<Longrightarrow> next_sym noting m \<noteq> 0"
  by (auto simp: noting_def dl_rest_def demo_cfg_def)

theorem forwards_reach_next_witness:
  "\<exists>tab. do_getpwuid_r noting 1000 8 16 256 24 (\<lambda>_. Null, []) =
      Some (VInt 0, tab, [(160, [VUInt 1000, VPtr 8, VPtr 16, VSize 256, VPtr 24])])"
proof -
  have "reaches_next noting ''getpwuid_r'' [VUInt 1000, VPtr 8, VPtr 16, VSize 256, VPtr 24] (do_getpwuid_r noting 1000 8 16 256 24)"
    using forwards_reach_next [OF noting_found, of 8 _ _ 16 24 _ 1000 _ _ 256 _] by blast
  then show ?thesis by (auto simp: reaches_next_def calls_def noting_def)
qed

subsection \<open>The hook of dlsym on the tables of the linker\<close>

text \<open>
  The state of the process holds the tables of the linker, next to anything else. The caller is
  the hook itself, so that the search starts from the object of the library.
\<close>

type_synonym 'x loaded = "(nat \<rightharpoonup> GLIBC_link_map) \<times> 'x"

definition loader_find :: "(addr \<Rightarrow> nat option) option \<Rightarrow> addr \<Rightarrow> string \<Rightarrow> 'x loaded \<Rightarrow> addr \<times> 'x loaded" where
  "loader_find find_dso return_address name w =
     (case w of (maps, x) \<Rightarrow>
        (case GLIBC_find_dl_symbol maps find_dso name return_address of
           None \<Rightarrow> (0, w)
         | Some (a, maps) \<Rightarrow> (a, maps, x)))"

lemma memhook_dlsym_first:
  assumes "p_dlsym p = 0" "\<not> (handle = RTLD_NEXT \<and> name = ''dlsym'')"
    and "l_find_dl_symbol l ''dlsym'' (p_world p) = (fn, w)" "fn \<noteq> 0"
  shows "memhook_dlsym l self handle name p =
    (case l_call_dlsym l fn handle name w of (r, w) \<Rightarrow> Some (r, p\<lparr>p_world := w, p_dlsym := fn\<rparr>))"
  using assms by (auto simp: memhook_dlsym_def with_no_hook_def do_call_def NoHook_def NoHook_end_def split: prod.splits)

lemma memhook_dlsym_later:
  assumes "p_dlsym p \<noteq> 0" "\<not> (handle = RTLD_NEXT \<and> name = ''dlsym'')"
  shows "memhook_dlsym l self handle name p =
    (case l_call_dlsym l (p_dlsym p) handle name (p_world p) of (r, w) \<Rightarrow> Some (r, p\<lparr>p_world := w\<rparr>))"
  using assms by (auto simp: memhook_dlsym_def with_no_hook_def do_call_def NoHook_def NoHook_end_def split: prod.splits)

text \<open>
  C8. The hook of \<^verbatim>\<open>dlsym\<close> finds the function it replaces without calling it. A request of
  \<^verbatim>\<open>dlsym(RTLD_NEXT, "dlsym")\<close> is answered with the address of the hook itself, without a
  search, and changes nothing. On the first other request the hook searches the tables of the
  dynamic linker and takes the \<^verbatim>\<open>dlsym\<close> of the first object after the library itself that
  defines one (in the terms of the ELF format), never the library's own; it passes the request
  on to that function, keeps its address and marks only that object as used. Every later
  request but the one for itself goes to the same function without a search. The hook depth
  is what it was before. The tables are as the static linker lays them out, the library is in
  the first scope of the object that loaded it, and the address found is not 0.
\<close>

theorem dlsym_hook_finds_next:
  fixes l :: "'x loaded libc"
  assumes linker: "l_find_dl_symbol l = loader_find (Some find_dso) caller"
    and caller: "find_dso caller = Some mtch" "top_loader maps mtch = Some main" "maps main = Some t"
      "l_local_scope t = scope # scopes" "mtch \<in> set scope"
      "list_all (scope_ok maps ''dlsym'' (Some mtch)) (l_local_scope t)"
    and e: "find (provides maps ''dlsym'' (Some mtch)) (entries_from mtch (l_local_scope t)) = Some e"
    and p: "p_world p = (maps, x)" "p_dlsym p = 0" "\<not> (handle = RTLD_NEXT \<and> name = ''dlsym'')"
  shows "(\<forall>q. memhook_dlsym l self RTLD_NEXT ''dlsym'' q = Some (self, q)) \<and>
    (\<exists>obj m k fn. map_option l_real (maps e) = Some obj \<and> obj \<noteq> mtch \<and> maps obj = Some m \<and>
    defines_sym ''dlsym'' m k \<and> fn = l_addr m + st_value (l_symtab m ! k) \<and>
    (fn \<noteq> 0 \<longrightarrow>
      memhook_dlsym l self handle name p =
        (case l_call_dlsym l fn handle name (maps(obj \<mapsto> m\<lparr>l_used := True\<rparr>), x) of
           (r, w) \<Rightarrow> Some (r, p\<lparr>p_world := w, p_dlsym := fn\<rparr>)) \<and>
      (\<forall>q handle name. p_dlsym q = fn \<and> \<not> (handle = RTLD_NEXT \<and> name = ''dlsym'') \<longrightarrow>
         memhook_dlsym l self handle name q =
           (case l_call_dlsym l fn handle name (p_world q) of (r, w) \<Rightarrow> Some (r, q\<lparr>p_world := w\<rparr>)))))"
proof -
  have self: "memhook_dlsym l self RTLD_NEXT ''dlsym'' q = Some (self, q)" for q by (simp add: memhook_dlsym_def)
  from find_dl_symbol_next [where find_dso = find_dso and maps = maps, OF caller] e
  obtain obj m k where o: "map_option l_real (maps e) = Some obj" "obj \<noteq> mtch" "maps obj = Some m" "defines_sym ''dlsym'' m k"
    and f: "GLIBC_find_dl_symbol maps (Some find_dso) ''dlsym'' caller =
      Some (l_addr m + st_value (l_symtab m ! k), maps(obj \<mapsto> m\<lparr>l_used := True\<rparr>))"
    by auto
  let ?fn = "l_addr m + st_value (l_symtab m ! k)"
  have "l_find_dl_symbol l ''dlsym'' (p_world p) = (?fn, maps(obj \<mapsto> m\<lparr>l_used := True\<rparr>), x)"
    by (simp add: linker p(1) loader_find_def f)
  note first = memhook_dlsym_first [OF p(2,3) this]
  have "memhook_dlsym l self handle name q =
      (case l_call_dlsym l ?fn handle name (p_world q) of (r, w) \<Rightarrow> Some (r, q\<lparr>p_world := w\<rparr>))"
    if "p_dlsym q = ?fn \<and> \<not> (handle = RTLD_NEXT \<and> name = ''dlsym'')" "?fn \<noteq> 0" for q handle name
    using memhook_dlsym_later [of q handle name l self] that by metis
  with o first self show ?thesis by blast
qed

text \<open>In the example of the lookup the hook finds \<^verbatim>\<open>dlsym\<close> at the address 0x3040 of object 3.\<close>

definition demo_linker :: "unit loaded libc" where
  "demo_linker = \<lparr>l_free = (\<lambda>a w. w), l_malloc = (\<lambda>n w. (0, w)), l_calloc = (\<lambda>m n w. (0, w)),
     l_realloc = (\<lambda>a n w. (0, w)), l_memalign = (\<lambda>al n w. (0, w)), l_posix_memalign = (\<lambda>m al n w. ((12, m), w)),
     l_cfree = (\<lambda>a w. w), l_aligned_alloc = (\<lambda>al n w. (0, w)), l_valloc = (\<lambda>n w. (0, w)), l_pvalloc = (\<lambda>n w. (0, w)),
     l_mmap = (\<lambda>a n prot flags fd off w. (MAP_FAILED, w)), l_mmap64 = (\<lambda>a n prot flags fd off w. (MAP_FAILED, w)),
     l_mremap = (\<lambda>a n m flags b w. (MAP_FAILED, w)), l_munmap = (\<lambda>a n w. (- 1, w)),
     l_new_handler_set = (\<lambda>w. False), l_new_handler = (\<lambda>w. (NhReturns, w)),
     l_dlopen = (\<lambda>file mode w. (0, w)), l_dlmopen = (\<lambda>nsid file mode w. (0, w)),
     l_dlclose = (\<lambda>handle w. (0, w)), l_dl_iterate_phdr = (\<lambda>cb data w. (0, w)), l_resolver = (\<lambda>name args w. (0, w)),
     l_find_dl_symbol = loader_find (Some demo_find_dso) 0x1234, l_dl_sym = (\<lambda>handle name w. (64, w)),
     l_dl_vsym = (\<lambda>handle name version w. (64, w)), l_call_dlsym = (\<lambda>fn handle name w. (fn, w)),
     l_call_dlvsym = (\<lambda>fn handle name version w. (fn, w)), l_ctx = (\<lambda>w. demo_ctx 0)\<rparr>"

theorem dlsym_hook_finds_next_witness:
  "\<exists>p'. memhook_dlsym demo_linker 0x1100 RTLD_NEXT ''malloc''
      (\<lparr>p_world = (demo_maps, ()), p_engine = None, p_depth = 0, p_dlsym = 0, p_dlvsym = 0\<rparr> :: (unit loaded, unit) process) =
        Some (0x3040, p') \<and>
    p_dlsym p' = 0x3040 \<and> p_depth p' = 0"
proof -
  let ?p = "\<lparr>p_world = (demo_maps, ()), p_engine = None, p_depth = 0, p_dlsym = 0, p_dlvsym = 0\<rparr> :: (unit loaded, unit) process"
  obtain t where t: "demo_maps 0 = Some t" "l_local_scope t = [[0, 1, 2, 3]]"
    by (simp add: demo_maps_def demo_object_def)
  have real3: "map_option l_real (demo_maps 3) = Some 3" by (simp add: demo_maps_def demo_object_def)
  have "l_find_dl_symbol demo_linker = loader_find (Some demo_find_dso) 0x1234" by (simp add: demo_linker_def)
  moreover have "demo_find_dso 0x1234 = Some 1" by (simp add: demo_find_dso_def)
  moreover have "(1 :: nat) \<in> set [0, 1, 2, 3]" by simp
  moreover have "list_all (scope_ok demo_maps ''dlsym'' (Some 1)) (l_local_scope t)" unfolding t(2) by (rule demo_scope)
  moreover have "find (provides demo_maps ''dlsym'' (Some 1)) (entries_from 1 (l_local_scope t)) = Some 3"
    unfolding t(2) by (rule demo_find)
  moreover have "p_world ?p = (demo_maps, ())" "p_dlsym ?p = 0" "\<not> (RTLD_NEXT = RTLD_NEXT \<and> ''malloc'' = ''dlsym'')" by simp_all
  ultimately obtain m k fn where m: "demo_maps 3 = Some m" "defines_sym ''dlsym'' m k" "fn = l_addr m + st_value (l_symtab m ! k)"
    and r: "fn \<noteq> 0 \<Longrightarrow> memhook_dlsym demo_linker 0x1100 RTLD_NEXT ''malloc'' ?p =
        (case l_call_dlsym demo_linker fn RTLD_NEXT ''malloc'' (demo_maps(3 \<mapsto> m\<lparr>l_used := True\<rparr>), ()) of
           (r, w) \<Rightarrow> Some (r, ?p\<lparr>p_world := w, p_dlsym := fn\<rparr>))"
    using dlsym_hook_finds_next [where maps = demo_maps and find_dso = demo_find_dso and l = demo_linker, OF _ _ demo_loader t,
        of "0x1234" 3 ?p "()" RTLD_NEXT "''malloc''" "0x1100"]
    unfolding real3 by auto
  have "fn = 0x3040" using demo_defines [OF m(1,2)] m(1,3) by (auto simp: demo_maps_def demo_object_def)
  with r show ?thesis by (simp add: demo_linker_def)
qed

end
