(* ===== verification/Elf_Injection.thy ===== *)
theory Elf_Injection
  imports Memhook_Prelude "HOL-Library.Sublist"
begin

text \<open>
  The patching of the jump slots of the loaded objects, \<^verbatim>\<open>src/memhook/elf_injection.cpp\<close>, on an
  x86-64 build. The tables of an object are read only and are given by what they hold at an
  address; the slots and the protection of the pages they are in are the state.
\<close>

text \<open>The functions to redirect, and the address of the library's own function of a name.\<close>

definition wrapped_names :: "build_config \<Rightarrow> string list" where
  "wrapped_names cfg =
     [''free'', ''malloc'', ''calloc'', ''realloc'', ''memalign'', ''posix_memalign''] @
     (if HAVE_CFREE cfg then [''cfree''] else []) @
     (if HAVE_ALIGNED_ALLOC cfg then [''aligned_alloc''] else []) @
     (if HAVE_VALLOC cfg then [''valloc''] else []) @
     (if HAVE_PVALLOC cfg then [''pvalloc''] else []) @
     [''mmap'', ''mmap64'', ''mremap'', ''munmap'', ''dlopen'', ''dlmopen'', ''dlclose'', ''dlsym'', ''dlvsym'',
      ''dl_iterate_phdr'', ''getaddrinfo'', ''getnameinfo'', ''gethostbyname'', ''gethostbyaddr'',
      ''gethostbyname2'', ''gethostent_r'', ''gethostbyaddr_r'', ''gethostbyname_r'', ''gethostbyname2_r'',
      ''getpwent_r'', ''getpwuid_r'', ''getpwnam_r'']"

definition s_wrapped_functions :: "build_config \<Rightarrow> (string \<Rightarrow> addr) \<Rightarrow> (string \<times> addr) list" where
  "s_wrapped_functions cfg func = map (\<lambda>n. (n, func n)) (wrapped_names cfg)"

subsection \<open>What an object holds\<close>

datatype dyn_tag = DT_STRTAB | DT_JMPREL | DT_SYMTAB | DT_STRSZ | DT_PLTRELSZ | DT_SYMENT | DT_other nat

record phdr =
  is_PT_DYNAMIC :: bool
  p_vaddr :: addr

record dl_phdr_info =
  dlpi_addr :: addr
  dlpi_name :: "string option"
  dlpi_phdr :: "phdr list"

record rela =
  r_offset :: addr
  r_info :: u64

text \<open>
  The read-only tables: the entries of a dynamic section up to \<^verbatim>\<open>DT_NULL\<close>, the \<^verbatim>\<open>st_name\<close> of an
  entry of a symbol table, the string and the relocation at an address.
\<close>

record image =
  dyn_at :: "addr \<Rightarrow> (dyn_tag \<times> u64) list"
  st_name_at :: "addr \<Rightarrow> u32 \<Rightarrow> u32"
  str_at :: "addr \<Rightarrow> string"
  rela_at :: "nat \<Rightarrow> rela"

text \<open>The state: what the slots hold, and the protection of the pages.\<close>

definition PROT_READ :: u32 where "PROT_READ = 1"
definition PROT_WRITE :: u32 where "PROT_WRITE = 2"
definition PROT_EXEC :: u32 where "PROT_EXEC = 4"

record jump_slots =
  slot :: "addr \<Rightarrow> addr"
  page_prot :: "addr \<Rightarrow> u32"

definition page_writable :: "jump_slots \<Rightarrow> addr \<Rightarrow> bool" where
  "page_writable s pg \<longleftrightarrow> page_prot s pg AND PROT_WRITE \<noteq> 0"

record dyn_info =
  str_table :: addr
  sym_table :: addr
  rel_table :: addr
  str_table_size :: u64
  sym_table_size :: u64
  rel_table_size :: u64

definition sizeof_Rela :: nat where "sizeof_Rela = 24"

subsection \<open>The operations\<close>

fun dyn_entry :: "dyn_tag \<times> u64 \<Rightarrow> dyn_info \<Rightarrow> dyn_info" where
  "dyn_entry (DT_STRTAB, v) i = i\<lparr>str_table := v\<rparr>"
| "dyn_entry (DT_JMPREL, v) i = i\<lparr>rel_table := v\<rparr>"
| "dyn_entry (DT_SYMTAB, v) i = i\<lparr>sym_table := v\<rparr>"
| "dyn_entry (DT_STRSZ, v) i = i\<lparr>str_table_size := v\<rparr>"
| "dyn_entry (DT_PLTRELSZ, v) i = i\<lparr>rel_table_size := v\<rparr>"
| "dyn_entry (DT_SYMENT, v) i = i\<lparr>sym_table_size := v\<rparr>"
| "dyn_entry (DT_other n, v) i = i"

definition dyn_scan :: "(dyn_tag \<times> u64) list \<Rightarrow> dyn_info" where
  "dyn_scan ds = fold dyn_entry ds
     \<lparr>str_table = 0, sym_table = 0, rel_table = 0, str_table_size = 0, sym_table_size = 0, rel_table_size = 0\<rparr>"

text \<open>
  A slot is written after its page has been given the protection to read and to write, which
  takes away the permission to execute it; \<open>mprotect\<close> says for which pages the call succeeds, and
  its result is not looked at. A write to a page that is not writable ends
  the process, which is \<open>None\<close>. Slots are aligned, so that one lies in one page.
\<close>

record vm_env =
  getpagesize :: u64
  mprotect :: "addr \<Rightarrow> bool"

definition page_of :: "u64 \<Rightarrow> addr \<Rightarrow> addr" where
  "page_of page_size psym = psym AND NOT (page_size - 1)"

definition patch_slot :: "vm_env \<Rightarrow> addr \<Rightarrow> addr \<Rightarrow> jump_slots \<Rightarrow> jump_slots option" where
  "patch_slot env psym func s =
     (if slot s psym \<noteq> func
      then let mem_page = page_of (getpagesize env) psym;
               s = (if mprotect env mem_page then s\<lparr>page_prot := (page_prot s)(mem_page := PROT_READ OR PROT_WRITE)\<rparr> else s)
           in if page_writable s mem_page then Some (s\<lparr>slot := (slot s)(psym := func)\<rparr>) else None
      else Some s)"

fun wrapped_loop ::
    "vm_env \<Rightarrow> string \<Rightarrow> addr \<Rightarrow> (string \<times> addr) list \<Rightarrow> jump_slots \<Rightarrow> jump_slots option" where
  "wrapped_loop env sym_name psym [] s = Some s"
| "wrapped_loop env sym_name psym ((name, func) # ws) s =
     (if name = sym_name then patch_slot env psym func s else wrapped_loop env sym_name psym ws s)"

definition rel_sym_name :: "image \<Rightarrow> dyn_info \<Rightarrow> rela \<Rightarrow> string" where
  "rel_sym_name img d rel =
     (let sym_index = ucast (drop_bit 32 (r_info rel))
      in str_at img (str_table d + ucast (st_name_at img (sym_table d) sym_index)))"

function rel_loop ::
    "vm_env \<Rightarrow> (string \<times> addr) list \<Rightarrow> image \<Rightarrow> addr \<Rightarrow> dyn_info \<Rightarrow> nat \<Rightarrow> nat \<Rightarrow>
     jump_slots \<Rightarrow> jump_slots option" where
  "rel_loop env ws img base d rel rel_table_end s =
     (if rel < rel_table_end
      then do { s \<leftarrow> wrapped_loop env (rel_sym_name img d (rela_at img rel)) (r_offset (rela_at img rel) + base) ws s;
                rel_loop env ws img base d (rel + sizeof_Rela) rel_table_end s }
      else Some s)"
  by pat_completeness auto
termination
  by (relation "measure (\<lambda>(env, ws, img, base, d, rel, rel_table_end, s). rel_table_end - rel)")
    (auto simp: sizeof_Rela_def)

declare rel_loop.simps [simp del]

fun phdr_loop ::
    "vm_env \<Rightarrow> (string \<times> addr) list \<Rightarrow> image \<Rightarrow> addr \<Rightarrow> phdr list \<Rightarrow>
     jump_slots \<Rightarrow> jump_slots option" where
  "phdr_loop env ws img base [] s = Some s"
| "phdr_loop env ws img base (ph # phs) s =
     (if \<not> is_PT_DYNAMIC ph then phdr_loop env ws img base phs s
      else let d = dyn_scan (dyn_at img (p_vaddr ph + base)) in
           do { s \<leftarrow> rel_loop env ws img base d (unat (rel_table d)) (unat (rel_table d) + unat (rel_table_size d)) s;
                phdr_loop env ws img base phs s })"

text \<open>The library itself and the dynamic linker are left alone.\<close>

fun strstr :: "string \<Rightarrow> string \<Rightarrow> bool" where
  "strstr [] needle \<longleftrightarrow> needle = []"
| "strstr (c # haystack) needle \<longleftrightarrow> take (length needle) (c # haystack) = needle \<or> strstr haystack needle"

definition injection_skips :: "string \<Rightarrow> dl_phdr_info \<Rightarrow> bool" where
  "injection_skips target info =
     (case dlpi_name info of None \<Rightarrow> False | Some n \<Rightarrow> strstr n target \<or> strstr n ''/ld-linux'')"

definition dl_iterate_phdr_elfinjection ::
    "string \<Rightarrow> vm_env \<Rightarrow> (string \<times> addr) list \<Rightarrow> image \<Rightarrow> dl_phdr_info \<Rightarrow>
     jump_slots \<Rightarrow> jump_slots option" where
  "dl_iterate_phdr_elfinjection target env ws img info s =
     (if injection_skips target info then Some s
      else phdr_loop env ws img (dlpi_addr info) (dlpi_phdr info) s)"

text \<open>The function returns 0 for every object, so that the iteration reaches all of them.\<close>

fun ElfInject ::
    "string \<Rightarrow> vm_env \<Rightarrow> (string \<times> addr) list \<Rightarrow> image \<Rightarrow> dl_phdr_info list \<Rightarrow>
     jump_slots \<Rightarrow> jump_slots option" where
  "ElfInject target env ws img [] s = Some s"
| "ElfInject target env ws img (info # infos) s =
     do { s \<leftarrow> dl_iterate_phdr_elfinjection target env ws img info s; ElfInject target env ws img infos s }"

subsection \<open>What is to be patched\<close>

text \<open>
  The jump slots in the terms of the ELF format. A tag of a dynamic section has its last value,
  0 if it is missing. The relocations of the procedure linkage table are \<^verbatim>\<open>DT_PLTRELSZ\<close> bytes at
  \<^verbatim>\<open>DT_JMPREL\<close>, 24 bytes each; the upper half of \<^verbatim>\<open>r_info\<close> is the index of the symbol in the table
  at \<^verbatim>\<open>DT_SYMTAB\<close>, whose name is in the table at \<^verbatim>\<open>DT_STRTAB\<close>.
\<close>

definition dyn_value :: "(dyn_tag \<times> u64) list \<Rightarrow> dyn_tag \<Rightarrow> u64" where
  "dyn_value ds t = (case map_of (rev ds) t of None \<Rightarrow> 0 | Some v \<Rightarrow> v)"

definition reloc_symbol :: "image \<Rightarrow> (dyn_tag \<times> u64) list \<Rightarrow> rela \<Rightarrow> string" where
  "reloc_symbol img ds rel =
     str_at img (dyn_value ds DT_STRTAB +
       ucast (st_name_at img (dyn_value ds DT_SYMTAB) (word_of_int (uint (r_info rel) div 2 ^ 32))))"

definition jump_table :: "image \<Rightarrow> (dyn_tag \<times> u64) list \<Rightarrow> rela list" where
  "jump_table img ds =
     map (\<lambda>i. rela_at img (unat (dyn_value ds DT_JMPREL) + 24 * i)) [0..<(unat (dyn_value ds DT_PLTRELSZ) + 23) div 24]"

text \<open>An object is exempt when its file name contains the name of the library or of the dynamic linker.\<close>

definition exempt :: "string \<Rightarrow> dl_phdr_info \<Rightarrow> bool" where
  "exempt target info \<longleftrightarrow>
     (case dlpi_name info of None \<Rightarrow> False | Some n \<Rightarrow> sublist target n \<or> sublist ''/ld-linux'' n)"

text \<open>All jump slots of the objects that are not exempt, each with the name of its symbol.\<close>

definition jump_relocs :: "string \<Rightarrow> image \<Rightarrow> dl_phdr_info list \<Rightarrow> (addr \<times> string) list" where
  "jump_relocs target img infos =
     [(r_offset rel + dlpi_addr info, reloc_symbol img ds rel).
        info \<leftarrow> infos, \<not> exempt target info,
        ph \<leftarrow> dlpi_phdr info, is_PT_DYNAMIC ph,
        ds \<leftarrow> [dyn_at img (p_vaddr ph + dlpi_addr info)],
        rel \<leftarrow> jump_table img ds]"

subsection \<open>The code goes through these slots\<close>

lemma strstr_sublist: "strstr n t \<longleftrightarrow> sublist t n"
proof (induction n)
  case (Cons c n)
  have "take (length t) (c # n) = t \<longleftrightarrow> prefix t (c # n)" by (metis append_eq_conv_conj prefix_def take_is_prefix)
  with Cons show ?case by (simp add: sublist_Cons_right)
qed simp

lemma skips_exempt: "injection_skips target info = exempt target info"
  by (simp add: injection_skips_def exempt_def strstr_sublist split: option.splits)

lemma dyn_fold:
  "str_table (fold dyn_entry ds i) = (case map_of (rev ds) DT_STRTAB of None \<Rightarrow> str_table i | Some v \<Rightarrow> v)"
  "sym_table (fold dyn_entry ds i) = (case map_of (rev ds) DT_SYMTAB of None \<Rightarrow> sym_table i | Some v \<Rightarrow> v)"
  "rel_table (fold dyn_entry ds i) = (case map_of (rev ds) DT_JMPREL of None \<Rightarrow> rel_table i | Some v \<Rightarrow> v)"
  "rel_table_size (fold dyn_entry ds i) = (case map_of (rev ds) DT_PLTRELSZ of None \<Rightarrow> rel_table_size i | Some v \<Rightarrow> v)"
proof (induction ds arbitrary: i)
  case (Cons d ds)
  obtain t v where d: "d = (t, v)" by (cases d)
  {
    case 1
    then show ?case using Cons.IH(1) [of "dyn_entry d i"] by (cases t) (simp_all add: d map_add_def split: option.splits)
  next
    case 2
    then show ?case using Cons.IH(2) [of "dyn_entry d i"] by (cases t) (simp_all add: d map_add_def split: option.splits)
  next
    case 3
    then show ?case using Cons.IH(3) [of "dyn_entry d i"] by (cases t) (simp_all add: d map_add_def split: option.splits)
  next
    case 4
    then show ?case using Cons.IH(4) [of "dyn_entry d i"] by (cases t) (simp_all add: d map_add_def split: option.splits)
  }
qed simp_all

lemma dyn_scan_values:
  "str_table (dyn_scan ds) = dyn_value ds DT_STRTAB" "sym_table (dyn_scan ds) = dyn_value ds DT_SYMTAB"
  "rel_table (dyn_scan ds) = dyn_value ds DT_JMPREL" "rel_table_size (dyn_scan ds) = dyn_value ds DT_PLTRELSZ"
  by (simp_all add: dyn_scan_def dyn_fold dyn_value_def split: option.splits)

lemma rel_sym_name_symbol: "rel_sym_name img (dyn_scan ds) rel = reloc_symbol img ds rel"
proof -
  have "(ucast (drop_bit 32 (r_info rel)) :: u32) = word_of_int (uint (r_info rel) div 2 ^ 32)"
    by (simp add: word_uint_eq_iff unsigned_ucast_eq uint_word_of_int take_bit_eq_mod uint_high_bits)
  then show ?thesis by (simp add: rel_sym_name_def reloc_symbol_def dyn_scan_values)
qed

text \<open>The patches: each wrapped name among the slots with its slot and function.\<close>

definition patches :: "(string \<times> addr) list \<Rightarrow> (addr \<times> string) list \<Rightarrow> (addr \<times> addr) list" where
  "patches ws relocs = List.map_filter (\<lambda>(a, n). map_option (Pair a) (map_of ws n)) relocs"

lemma patches_simps [simp]:
  "patches ws [] = []"
  "patches ws ((a, n) # relocs) = (case map_of ws n of None \<Rightarrow> [] | Some f \<Rightarrow> [(a, f)]) @ patches ws relocs"
  "patches ws (relocs @ relocs') = patches ws relocs @ patches ws relocs'"
  by (simp_all add: patches_def map_filter_simps List.map_filter_def split: option.splits)

fun patch_all :: "vm_env \<Rightarrow> (addr \<times> addr) list \<Rightarrow> jump_slots \<Rightarrow> jump_slots option" where
  "patch_all env [] s = Some s"
| "patch_all env ((psym, func) # ps) s = do { s \<leftarrow> patch_slot env psym func s; patch_all env ps s }"

lemma patch_all_append: "patch_all env (ps @ qs) s = do { s \<leftarrow> patch_all env ps s; patch_all env qs s }"
  by (induction env ps s rule: patch_all.induct) (auto split: Option.bind_splits)

lemma wrapped_loop_patch:
  "wrapped_loop env name psym ws s = (case map_of ws name of None \<Rightarrow> Some s | Some f \<Rightarrow> patch_slot env psym f s)"
  by (induction env name psym ws s rule: wrapped_loop.induct) auto

definition slot_at :: "image \<Rightarrow> addr \<Rightarrow> dyn_info \<Rightarrow> nat \<Rightarrow> addr \<times> string" where
  "slot_at img base d rel = (r_offset (rela_at img rel) + base, rel_sym_name img d (rela_at img rel))"

lemma rel_loop_patches:
  "rel_loop env ws img base d rel (rel + n) s =
   patch_all env (patches ws (map (\<lambda>i. slot_at img base d (rel + 24 * i)) [0..<(n + 23) div 24])) s"
proof (induction n arbitrary: rel s rule: less_induct)
  case (less n)
  show ?case
  proof (cases "n = 0")
    case True
    then show ?thesis by (subst rel_loop.simps) simp
  next
    case False
    let ?k = "(n - 24 + 23) div 24"
    from False have k: "(n + 23) div 24 = Suc ?k"
    proof (cases "24 \<le> n")
      case True
      then have "n + 23 = (n - 24 + 23) + 24" by simp
      then show ?thesis by (metis div_add_self2 Suc_eq_plus1 zero_neq_numeral)
    next
      case False
      with \<open>n \<noteq> 0\<close> have "(n + 23) div 24 = 1" by (intro div_nat_eqI) auto
      with False show ?thesis by simp
    qed
    have m: "map (\<lambda>i. slot_at img base d (rel + 24 * i)) [0..<(n + 23) div 24] =
        slot_at img base d rel # map (\<lambda>i. slot_at img base d ((rel + 24) + 24 * i)) [0..<?k]"
      unfolding k by (simp add: upt_conv_Cons map_Suc_upt [symmetric] add.assoc del: upt_Suc)
    have e: "rel_loop env ws img base d (rel + 24) (rel + n) s' =
      patch_all env (patches ws (map (\<lambda>i. slot_at img base d ((rel + 24) + 24 * i)) [0..<?k])) s'" for s'
    proof (cases "24 \<le> n")
      case True
      with less.IH [of "n - 24" "rel + 24" s'] show ?thesis by simp
    next
      case False
      then show ?thesis by (subst rel_loop.simps) simp
    qed
    show ?thesis unfolding m slot_at_def [of img base d rel] patches_simps patch_all_append
      using False by (subst rel_loop.simps) (simp add: wrapped_loop_patch sizeof_Rela_def e split: option.splits cong: Option.bind_cong)
  qed
qed

definition object_relocs :: "image \<Rightarrow> addr \<Rightarrow> phdr \<Rightarrow> (addr \<times> string) list" where
  "object_relocs img base ph =
     (if is_PT_DYNAMIC ph
      then let ds = dyn_at img (p_vaddr ph + base) in map (\<lambda>rel. (r_offset rel + base, reloc_symbol img ds rel)) (jump_table img ds)
      else [])"

lemma rel_loop_object:
  "rel_loop env ws img base (dyn_scan ds) (unat (rel_table (dyn_scan ds)))
     (unat (rel_table (dyn_scan ds)) + unat (rel_table_size (dyn_scan ds))) s =
   patch_all env (patches ws (map (\<lambda>rel. (r_offset rel + base, reloc_symbol img ds rel)) (jump_table img ds))) s"
  unfolding rel_loop_patches by (simp add: slot_at_def rel_sym_name_symbol dyn_scan_values jump_table_def comp_def)

lemma phdr_loop_patches:
  "phdr_loop env ws img base phs s = patch_all env (patches ws (concat (map (object_relocs img base) phs))) s"
proof (induction phs arbitrary: s)
  case (Cons ph phs)
  show ?case
  proof (cases "is_PT_DYNAMIC ph")
    case True
    then show ?thesis
      by (simp only: phdr_loop.simps Let_def rel_loop_object object_relocs_def list.map concat.simps patches_simps patch_all_append
          Cons.IH if_True not_True_eq_False if_False cong: Option.bind_cong)
  qed (simp add: Cons.IH object_relocs_def)
qed simp

lemma jump_relocs_concat:
  "jump_relocs target img infos =
     concat (map (\<lambda>info. if exempt target info then [] else concat (map (object_relocs img (dlpi_addr info)) (dlpi_phdr info))) infos)"
  unfolding jump_relocs_def by (rule arg_cong [where f = concat], rule map_cong) (auto simp: object_relocs_def [abs_def] Let_def cong: if_cong)

lemma ElfInject_patches:
  "ElfInject target env ws img infos s = patch_all env (patches ws (jump_relocs target img infos)) s"
proof (induction infos arbitrary: s)
  case (Cons info infos)
  then show ?case
    by (simp add: jump_relocs_concat dl_iterate_phdr_elfinjection_def skips_exempt phdr_loop_patches patch_all_append
        cong: Option.bind_cong)
qed (simp add: jump_relocs_def)

subsection \<open>The effect of the patches\<close>

definition can_write :: "vm_env \<Rightarrow> jump_slots \<Rightarrow> addr \<Rightarrow> bool" where
  "can_write env s a \<longleftrightarrow> mprotect env (page_of (getpagesize env) a) \<or> page_writable s (page_of (getpagesize env) a)"

definition slots_after :: "(addr \<times> addr) list \<Rightarrow> (addr \<Rightarrow> addr) \<Rightarrow> addr \<Rightarrow> addr" where
  "slots_after ps sl a = (case map_of ps a of None \<Rightarrow> sl a | Some f \<Rightarrow> f)"

text \<open>The pages of the slots that have to be changed get the new protection, where the call succeeds.\<close>

definition prots_after :: "vm_env \<Rightarrow> (addr \<times> addr) list \<Rightarrow> jump_slots \<Rightarrow> addr \<Rightarrow> u32" where
  "prots_after env ps s pg =
     (if mprotect env pg \<and> (\<exists>(a, f)\<in>set ps. page_of (getpagesize env) a = pg \<and> slot s a \<noteq> f)
      then PROT_READ OR PROT_WRITE else page_prot s pg)"

lemma rw_writable: "(PROT_READ OR PROT_WRITE) AND PROT_WRITE \<noteq> 0"
  by (simp add: PROT_READ_def PROT_WRITE_def)

lemma patch_slot_effect:
  assumes "can_write env s a"
  shows "\<exists>s'. patch_slot env a f s = Some s' \<and> slot s' = (slot s)(a := f) \<and> page_prot s' = prots_after env [(a, f)] s"
  using assms rw_writable
  by (auto simp: patch_slot_def can_write_def page_writable_def prots_after_def Let_def fun_eq_iff)

lemma can_write_after:
  assumes "can_write env s b" "page_prot s' = prots_after env ps s"
  shows "can_write env s' b"
  using assms rw_writable by (simp add: can_write_def page_writable_def prots_after_def)

lemma patch_all_effect:
  "list_all (\<lambda>(a, f). can_write env s a) ps \<Longrightarrow> distinct (map fst ps) \<Longrightarrow>
   \<exists>s'. patch_all env ps s = Some s' \<and> slot s' = slots_after ps (slot s) \<and> page_prot s' = prots_after env ps s"
proof (induction ps arbitrary: s)
  case Nil
  then show ?case by (simp add: slots_after_def prots_after_def fun_eq_iff)
next
  case (Cons p ps)
  obtain a f where p: "p = (a, f)" by (cases p)
  from patch_slot_effect [of env s a f] Cons.prems obtain s1 where
    s1: "patch_slot env a f s = Some s1" "slot s1 = (slot s)(a := f)" "page_prot s1 = prots_after env [(a, f)] s"
    by (auto simp: p)
  have "list_all (\<lambda>(a, f). can_write env s1 a) ps"
    using Cons.prems(1) can_write_after [OF _ s1(3)] by (auto simp: list_all_iff)
  from Cons.IH [OF this] Cons.prems(2) obtain s' where s': "patch_all env ps s1 = Some s'"
    "slot s' = slots_after ps (slot s1)" "page_prot s' = prots_after env ps s1" by (auto simp: p)
  have new: "b \<noteq> a" if "(b, g) \<in> set ps" for b g using Cons.prems(2) that by (force simp: p)
  have "map_of ps a = None" using new by (force simp: map_of_eq_None_iff)
  then have "slot s' = slots_after (p # ps) (slot s)"
    using s'(2) s1(2) by (auto simp: p slots_after_def fun_eq_iff split: option.splits)
  moreover have "page_prot s' = prots_after env (p # ps) s"
    unfolding s'(3) using s1(2,3) new by (auto simp: p prots_after_def fun_eq_iff)
  ultimately show ?case using s1(1) s'(1) by (simp add: p)
qed

text \<open>A slot that already holds its function is not touched, and nothing is asked of its page.\<close>

lemma patch_all_done: "list_all (\<lambda>(a, f). slot s a = f) ps \<Longrightarrow> patch_all env ps s = Some s"
  by (induction ps) (auto simp: patch_slot_def)

lemma map_of_wrapped:
  "map_of (s_wrapped_functions cfg func) n = (if n \<in> set (wrapped_names cfg) then Some (func n) else None)"
proof -
  have "map_of (map (\<lambda>n. (n, func n)) ns) n = (if n \<in> set ns then Some (func n) else None)" for ns
    by (induction ns) auto
  then show ?thesis by (simp add: s_wrapped_functions_def)
qed

lemma set_patches:
  "(a, f) \<in> set (patches (s_wrapped_functions cfg func) relocs) \<longleftrightarrow>
   (\<exists>n. (a, n) \<in> set relocs \<and> n \<in> set (wrapped_names cfg) \<and> f = func n)"
proof (induction relocs)
  case (Cons x relocs)
  then show ?case by (cases x) (auto simp: map_of_wrapped)
qed simp

lemma distinct_patches: "distinct (map fst relocs) \<Longrightarrow> distinct (map fst (patches ws relocs))"
proof (induction relocs)
  case (Cons x relocs)
  obtain a n where x: "x = (a, n)" by (cases x)
  have "fst ` set (patches ws relocs) \<subseteq> fst ` set relocs" by (force simp: patches_def List.map_filter_def)
  with Cons x show ?case by (auto split: option.splits)
qed simp

lemma slots_after_hit: "distinct (map fst ps) \<Longrightarrow> (a, f) \<in> set ps \<Longrightarrow> slots_after ps sl a = f"
  by (simp add: slots_after_def)

lemma slots_after_miss: "(\<And>f. (a, f) \<notin> set ps) \<Longrightarrow> slots_after ps sl a = sl a"
  by (auto simp: slots_after_def split: option.splits dest!: map_of_SomeD)

text \<open>
  C11. The injection reaches every loaded object but those whose file name contains the name of
  the library or \<^verbatim>\<open>/ld-linux\<close>. When no two jump slots of these objects share an address and the
  pages of the slots of wrapped functions are writable or can be made so, it ends; each jump
  slot whose symbol is one of the wrapped names then holds the library's function of that
  name, and every other slot what it held. The pages of slots that had to be changed are
  afterwards readable and writable and no longer executable, where \<^verbatim>\<open>mprotect\<close> succeeds; the
  protection of the other pages is unchanged. A second injection finds nothing to do: it
  changes nothing and needs no page to be made writable.
\<close>

theorem elf_injection_redirects:
  assumes relocs: "relocs = jump_relocs target img infos" "distinct (map fst relocs)"
    and writable: "list_all (\<lambda>(a, n). n \<in> set (wrapped_names cfg) \<longrightarrow> can_write env s a) relocs"
  shows "\<exists>s'. ElfInject target env (s_wrapped_functions cfg func) img infos s = Some s' \<and>
    (\<forall>a n. (a, n) \<in> set relocs \<and> n \<in> set (wrapped_names cfg) \<longrightarrow> slot s' a = func n) \<and>
    (\<forall>a. (\<nexists>n. (a, n) \<in> set relocs \<and> n \<in> set (wrapped_names cfg)) \<longrightarrow> slot s' a = slot s a) \<and>
    (\<forall>pg. page_prot s' pg =
       (if mprotect env pg \<and> (\<exists>a n. (a, n) \<in> set relocs \<and> n \<in> set (wrapped_names cfg) \<and>
            page_of (getpagesize env) a = pg \<and> slot s a \<noteq> func n)
        then PROT_READ OR PROT_WRITE else page_prot s pg)) \<and>
    (\<forall>env'. ElfInject target env' (s_wrapped_functions cfg func) img infos s' = Some s')"
proof -
  let ?ps = "patches (s_wrapped_functions cfg func) relocs"
  note ps = set_patches [of _ _ cfg func relocs] and d = distinct_patches [OF relocs(2), of "s_wrapped_functions cfg func"]
  have "list_all (\<lambda>(a, f). can_write env s a) ?ps"
    using writable by (auto simp: list_all_iff ps)
  from patch_all_effect [OF this d] obtain s' where s': "patch_all env ?ps s = Some s'"
    "slot s' = slots_after ?ps (slot s)" "page_prot s' = prots_after env ?ps s" by blast
  have hit: "slot s' a = f" if "(a, f) \<in> set ?ps" for a f
    unfolding s'(2) using that by (rule slots_after_hit [OF d])
  moreover have "slot s' a = slot s a" if "\<nexists>n. (a, n) \<in> set relocs \<and> n \<in> set (wrapped_names cfg)" for a
    unfolding s'(2) by (rule slots_after_miss) (use that in \<open>auto simp: ps\<close>)
  moreover have "page_prot s' pg =
       (if mprotect env pg \<and> (\<exists>a n. (a, n) \<in> set relocs \<and> n \<in> set (wrapped_names cfg) \<and>
            page_of (getpagesize env) a = pg \<and> slot s a \<noteq> func n)
        then PROT_READ OR PROT_WRITE else page_prot s pg)" for pg
  proof -
    have "(\<exists>(a, f)\<in>set ?ps. page_of (getpagesize env) a = pg \<and> slot s a \<noteq> f) \<longleftrightarrow>
        (\<exists>a n. (a, n) \<in> set relocs \<and> n \<in> set (wrapped_names cfg) \<and> page_of (getpagesize env) a = pg \<and> slot s a \<noteq> func n)"
      by (force simp: ps)
    then show ?thesis by (simp add: s'(3) prots_after_def)
  qed
  moreover have "patch_all env' ?ps s' = Some s'" for env'
    by (rule patch_all_done) (use hit in \<open>auto simp: list_all_iff\<close>)
  ultimately show ?thesis using s'(1) unfolding ElfInject_patches relocs(1) [symmetric]
    by (intro exI [of _ s'] conjI) (auto simp: ps)
qed

text \<open>An example: a program that calls \<^verbatim>\<open>malloc\<close> and \<^verbatim>\<open>puts\<close>, and the library, which calls \<^verbatim>\<open>malloc\<close>.\<close>

definition demo_image :: image where
  "demo_image = \<lparr>
     dyn_at = (\<lambda>a. [(DT_STRTAB, a + 0x100), (DT_SYMTAB, a + 0x200), (DT_JMPREL, 0x500), (DT_PLTRELSZ, 48)]),
     st_name_at = (\<lambda>a i. i * 8),
     str_at = (\<lambda>a. if take_bit 4 a = 0 then ''puts'' else ''malloc''),
     rela_at = (\<lambda>r. \<lparr>r_offset = word_of_nat (0x3000 + (r - 0x500) div 3), r_info = push_bit 32 (word_of_nat ((r - 0x500) div 24)) + 7\<rparr>)\<rparr>"

definition demo_infos :: "dl_phdr_info list" where
  "demo_infos =
     [\<lparr>dlpi_addr = 0x10000, dlpi_name = Some '''', dlpi_phdr = [\<lparr>is_PT_DYNAMIC = False, p_vaddr = 0\<rparr>, \<lparr>is_PT_DYNAMIC = True, p_vaddr = 0x1000\<rparr>]\<rparr>,
      \<lparr>dlpi_addr = 0x20000, dlpi_name = Some ''/usr/lib/libmemhook.so'', dlpi_phdr = [\<lparr>is_PT_DYNAMIC = True, p_vaddr = 0x1000\<rparr>]\<rparr>]"

lemma demo_relocs: "jump_relocs ''libmemhook.so'' demo_image demo_infos = [(0x13000, ''puts''), (0x13008, ''malloc'')]"
  by code_simp

lemma demo_wrapped: "''malloc'' \<in> set (wrapped_names demo_cfg)" "''puts'' \<notin> set (wrapped_names demo_cfg)"
  by code_simp+

theorem elf_injection_redirects_witness:
  "\<exists>s'. ElfInject ''libmemhook.so'' \<lparr>getpagesize = 0x1000, mprotect = (\<lambda>_. True)\<rparr>
      (s_wrapped_functions demo_cfg (\<lambda>n. 0x2a000)) demo_image demo_infos
      \<lparr>slot = (\<lambda>_. 0x77), page_prot = (\<lambda>_. PROT_READ OR PROT_EXEC)\<rparr> = Some s' \<and>
    slot s' 0x13008 = 0x2a000 \<and> slot s' 0x13000 = 0x77 \<and> slot s' 0x23008 = 0x77 \<and>
    page_prot s' 0x13000 = PROT_READ OR PROT_WRITE \<and> page_prot s' 0x14000 = PROT_READ OR PROT_EXEC \<and>
    ElfInject ''libmemhook.so'' \<lparr>getpagesize = 0x1000, mprotect = (\<lambda>_. False)\<rparr>
      (s_wrapped_functions demo_cfg (\<lambda>n. 0x2a000)) demo_image demo_infos s' = Some s'"
proof -
  let ?env = "\<lparr>getpagesize = 0x1000, mprotect = (\<lambda>_. True)\<rparr>"
    and ?s = "\<lparr>slot = (\<lambda>_. 0x77), page_prot = (\<lambda>_. PROT_READ OR PROT_EXEC)\<rparr>"
  let ?relocs = "[(0x13000 :: addr, ''puts''), (0x13008, ''malloc'')]"
  have d: "distinct (map fst ?relocs)" by simp
  have w: "list_all (\<lambda>(a, n). n \<in> set (wrapped_names demo_cfg) \<longrightarrow> can_write ?env ?s a) ?relocs" by (simp add: can_write_def)
  from elf_injection_redirects [OF demo_relocs [symmetric] d w, of "\<lambda>n. 0x2a000"] obtain s' where
    s': "ElfInject ''libmemhook.so'' ?env (s_wrapped_functions demo_cfg (\<lambda>n. 0x2a000)) demo_image demo_infos ?s = Some s'"
    "\<forall>a n. (a, n) \<in> set ?relocs \<and> n \<in> set (wrapped_names demo_cfg) \<longrightarrow> slot s' a = 0x2a000"
    "\<forall>a. (\<nexists>n. (a, n) \<in> set ?relocs \<and> n \<in> set (wrapped_names demo_cfg)) \<longrightarrow> slot s' a = slot ?s a"
    "\<forall>pg. page_prot s' pg =
       (if mprotect ?env pg \<and> (\<exists>a n. (a, n) \<in> set ?relocs \<and> n \<in> set (wrapped_names demo_cfg) \<and>
            page_of (getpagesize ?env) a = pg \<and> slot ?s a \<noteq> 0x2a000)
        then PROT_READ OR PROT_WRITE else page_prot ?s pg)"
    "\<forall>env'. ElfInject ''libmemhook.so'' env' (s_wrapped_functions demo_cfg (\<lambda>n. 0x2a000)) demo_image demo_infos s' = Some s'"
    by blast
  from s'(2) demo_wrapped have "slot s' 0x13008 = 0x2a000" by simp
  moreover from s'(3) [THEN spec, of "0x13000"] demo_wrapped have "slot s' 0x13000 = 0x77" by simp
  moreover from s'(3) [THEN spec, of "0x23008"] have "slot s' 0x23008 = 0x77" by simp
  moreover have "page_of 0x1000 0x13008 = 0x13000" by (simp add: page_of_def)
  then have "page_prot s' 0x13000 = PROT_READ OR PROT_WRITE" "page_prot s' 0x14000 = PROT_READ OR PROT_EXEC"
    using s'(4) [THEN spec, of "0x13000"] s'(4) [THEN spec, of "0x14000"] demo_wrapped by auto
  ultimately show ?thesis using s'(1,5) by blast
qed

text \<open>
  A page that cannot be made writable ends the process: the result of \<^verbatim>\<open>mprotect\<close> is not looked at.
\<close>

lemma patch_slot_fault:
  "slot s a \<noteq> f \<Longrightarrow> \<not> can_write env s a \<Longrightarrow> patch_slot env a f s = None"
  by (simp add: patch_slot_def can_write_def Let_def)

end
