(* ===== verification/Exported_Symbols.thy ===== *)
theory Exported_Symbols
  imports Elf_Injection Bootstrap
begin

text \<open>
  The symbols that the library exports, the aliases at the end of \<^verbatim>\<open>src/memhook/memhook.cpp\<close>: the
  name a program calls and the hook behind it. The operators stand for their mangled names.
  Three lists of the library have to agree: these aliases, the functions that the injection
  puts into the jump slots, and the functions that the start-up looks up in the next library.
\<close>

text \<open>The preprocessor condition a declaration stands under.\<close>

datatype condition = Always | IfCfree | IfAlignedAlloc | IfValloc | IfPvalloc | IfDlvsym

fun enabled :: "build_config \<Rightarrow> condition \<Rightarrow> bool" where
  "enabled cfg Always = True"
| "enabled cfg IfCfree = HAVE_CFREE cfg"
| "enabled cfg IfAlignedAlloc = HAVE_ALIGNED_ALLOC cfg"
| "enabled cfg IfValloc = HAVE_VALLOC cfg"
| "enabled cfg IfPvalloc = HAVE_PVALLOC cfg"
| "enabled cfg IfDlvsym = HAVE_DLVSYM cfg"

definition aliases :: "(condition \<times> string \<times> string) list" where
  "aliases =
     [(Always, ''malloc'', ''memhook_malloc''), (Always, ''free'', ''memhook_free''),
      (Always, ''realloc'', ''memhook_realloc''), (Always, ''calloc'', ''memhook_calloc''),
      (IfCfree, ''cfree'', ''memhook_cfree''), (Always, ''memalign'', ''memhook_memalign''),
      (Always, ''posix_memalign'', ''memhook_posix_memalign''),
      (IfAlignedAlloc, ''aligned_alloc'', ''memhook_aligned_alloc''), (IfValloc, ''valloc'', ''memhook_valloc''),
      (IfPvalloc, ''pvalloc'', ''memhook_pvalloc''), (Always, ''__libc_malloc'', ''memhook_malloc''),
      (Always, ''__libc_free'', ''memhook_free''), (Always, ''__libc_realloc'', ''memhook_realloc''),
      (Always, ''__libc_calloc'', ''memhook_calloc''), (IfCfree, ''__libc_cfree'', ''memhook_cfree''),
      (Always, ''__libc_memalign'', ''memhook_memalign''),
      (Always, ''__posix_memalign'', ''memhook_posix_memalign''),
      (IfValloc, ''__libc_valloc'', ''memhook_valloc''), (IfPvalloc, ''__libc_pvalloc'', ''memhook_pvalloc''),
      (Always, ''mmap'', ''memhook_mmap''), (Always, ''mmap64'', ''memhook_mmap64''),
      (Always, ''munmap'', ''memhook_munmap''), (Always, ''mremap'', ''memhook_mremap''),
      (Always, ''dlopen'', ''memhook_dlopen''), (Always, ''dlmopen'', ''memhook_dlmopen''),
      (Always, ''dlclose'', ''memhook_dlclose''), (Always, ''dl_iterate_phdr'', ''memhook_dl_iterate_phdr''),
      (Always, ''dlsym'', ''memhook_dlsym''), (IfDlvsym, ''dlvsym'', ''memhook_dlvsym''),
      (Always, ''getaddrinfo'', ''memhook_getaddrinfo''), (Always, ''getnameinfo'', ''memhook_getnameinfo''),
      (Always, ''gethostbyaddr'', ''memhook_gethostbyaddr''),
      (Always, ''gethostbyname'', ''memhook_gethostbyname''),
      (Always, ''gethostbyname2'', ''memhook_gethostbyname2''),
      (Always, ''gethostent_r'', ''memhook_gethostent_r''),
      (Always, ''gethostbyaddr_r'', ''memhook_gethostbyaddr_r''),
      (Always, ''gethostbyname_r'', ''memhook_gethostbyname_r''),
      (Always, ''gethostbyname2_r'', ''memhook_gethostbyname2_r''),
      (Always, ''getpwent_r'', ''memhook_getpwent_r''), (Always, ''getpwuid_r'', ''memhook_getpwuid_r''),
      (Always, ''getpwnam_r'', ''memhook_getpwnam_r''), (Always, ''operator new'', ''memhook_new''),
      (Always, ''operator delete'', ''memhook_delete''), (Always, ''operator new[]'', ''memhook_newarray''),
      (Always, ''operator delete[]'', ''memhook_deletearray''),
      (Always, ''operator new, nothrow'', ''memhook_new_nothrow''),
      (Always, ''operator new[], nothrow'', ''memhook_newarray_nothrow''),
      (Always, ''operator delete, nothrow'', ''memhook_delete_nothrow''),
      (Always, ''operator delete[], nothrow'', ''memhook_deletearray_nothrow'')]"

definition alias_table :: "build_config \<Rightarrow> (string \<times> string) list" where
  "alias_table cfg = map snd (filter (\<lambda>x. enabled cfg (fst x)) aliases)"

text \<open>The hooks of \<^verbatim>\<open>dlsym\<close> and \<^verbatim>\<open>dlvsym\<close> find the next function on their first call, without the table.\<close>

definition found_late :: "string list" where
  "found_late = [''dlsym'', ''dlvsym'']"

text \<open>The list of the injection in the same form.\<close>

definition wrapped_conditions :: "(condition \<times> string) list" where
  "wrapped_conditions =
     [(Always, ''free''), (Always, ''malloc''), (Always, ''calloc''), (Always, ''realloc''),
      (Always, ''memalign''), (Always, ''posix_memalign''), (IfCfree, ''cfree''),
      (IfAlignedAlloc, ''aligned_alloc''), (IfValloc, ''valloc''), (IfPvalloc, ''pvalloc''), (Always, ''mmap''),
      (Always, ''mmap64''), (Always, ''mremap''), (Always, ''munmap''), (Always, ''dlopen''),
      (Always, ''dlmopen''), (Always, ''dlclose''), (Always, ''dlsym''), (Always, ''dlvsym''),
      (Always, ''dl_iterate_phdr''), (Always, ''getaddrinfo''), (Always, ''getnameinfo''),
      (Always, ''gethostbyname''), (Always, ''gethostbyaddr''), (Always, ''gethostbyname2''),
      (Always, ''gethostent_r''), (Always, ''gethostbyaddr_r''), (Always, ''gethostbyname_r''),
      (Always, ''gethostbyname2_r''), (Always, ''getpwent_r''), (Always, ''getpwuid_r''), (Always, ''getpwnam_r'')]"

lemma wrapped_names_conditions: "wrapped_names cfg = map snd (filter (\<lambda>x. enabled cfg (fst x)) wrapped_conditions)"
  by (simp add: wrapped_names_def wrapped_conditions_def)

lemma aliases_distinct: "distinct (map (fst \<circ> snd) aliases)"
  by code_simp

lemma alias_table_distinct: "distinct (map fst (alias_table cfg))"
  using distinct_map_filter [OF aliases_distinct, of "\<lambda>x. enabled cfg (fst x)"] by (simp add: alias_table_def comp_def)

lemma wrapped_aliases:
  "list_all (\<lambda>(c, n). (if n = ''dlvsym'' then (IfDlvsym, n, ''memhook_'' @ n) else (c, n, ''memhook_'' @ n)) \<in> set aliases)
     wrapped_conditions"
  by code_simp

lemma wrapped_looked_up:
  "n \<in> set (wrapped_names cfg) \<Longrightarrow> n \<in> set ([''free'', ''malloc'', ''calloc''] @ dl_rest cfg @ found_late)"
  by (auto simp: wrapped_names_def dl_rest_def found_late_def split: if_splits)

text \<open>
  A name that the injection redirects leads to the hook of that name, which has a next function
  to forward to; only \<^verbatim>\<open>dlvsym\<close> is redirected also by a build that does not hook it.
\<close>

lemma wrapped_names_hooked:
  assumes "n \<in> set (wrapped_names cfg)" "n \<noteq> ''dlvsym'' \<or> HAVE_DLVSYM cfg"
  shows "map_of (alias_table cfg) n = Some (''memhook_'' @ n)"
    and "n \<in> set ([''free'', ''malloc'', ''calloc''] @ dl_rest cfg @ found_late)"
proof -
  from assms(1) obtain c where c: "(c, n) \<in> set wrapped_conditions" "enabled cfg c"
    unfolding wrapped_names_conditions by auto
  have "\<exists>c'. enabled cfg c' \<and> (c', n, ''memhook_'' @ n) \<in> set aliases"
  proof (cases "n = ''dlvsym''")
    case True
    with assms(2) c(1) wrapped_aliases show ?thesis by (intro exI [of _ IfDlvsym]) (fastforce simp: list_all_iff)
  next
    case False
    with c wrapped_aliases show ?thesis by (intro exI [of _ c]) (fastforce simp: list_all_iff)
  qed
  then have "(n, ''memhook_'' @ n) \<in> set (alias_table cfg)" by (force simp: alias_table_def)
  then show "map_of (alias_table cfg) n = Some (''memhook_'' @ n)" by (simp add: alias_table_distinct)
  show "n \<in> set ([''free'', ''malloc'', ''calloc''] @ dl_rest cfg @ found_late)"
    using wrapped_looked_up [OF assms(1)] .
qed

end
