(* ===== verification/LevelDB_Storage.thy ===== *)
theory LevelDB_Storage
  imports Mapped_Storage
begin

text \<open>
  Opening and closing the LevelDB storage, \<^verbatim>\<open>src/memhookcore/leveldb_storage.cpp\<close> and \<^verbatim>\<open>.h\<close>: the
  constructor prepares the directory and opens three databases in it, each of which may fail;
  an exception releases what the members already own. The operations of the storage are those
  of \<open>ldb_ops\<close>. What the file system and the database library answer is given; the trace has
  the databases and caches in the order in which they are created and released.
\<close>

datatype fs_node = RegularFile | Directory

datatype ldb_event = DbOpened string | DbClosed string | CacheCreated usize | CacheDeleted

datatype ldb_error = FilesystemError | RuntimeError string

record Options =
  create_if_missing :: bool
  compression :: bool
  comparator_name :: string
  block_cache :: "usize option"

record ldb_world =
  files :: "string \<rightharpoonup> fs_node"
  events :: "ldb_event list"

text \<open>
  \<open>can_stat\<close>, \<open>can_remove\<close> and \<open>can_create\<close> say whether the file system allows the operation on a
  path; \<open>open_status\<close> is the status of opening a database, \<open>None\<close> when it is fine.
\<close>

record ldb_env =
  can_stat :: "string \<Rightarrow> bool"
  can_remove :: "string \<Rightarrow> bool"
  can_create :: "string \<Rightarrow> bool"
  open_status :: "Options \<Rightarrow> string \<Rightarrow> string option"

definition default_Options :: Options where
  "default_Options = \<lparr>create_if_missing = False, compression = True,
     comparator_name = ''leveldb.BytewiseComparator'', block_cache = None\<rparr>"

definition note_event :: "ldb_event \<Rightarrow> ldb_world \<Rightarrow> ldb_world" where
  "note_event e w = w\<lparr>events := events w @ [e]\<rparr>"

definition path_append :: "string \<Rightarrow> string \<Rightarrow> string" where
  "path_append p s = (if p = [] \<or> last p = CHR ''/'' then p @ s else p @ ''/'' @ s)"

subsection \<open>Members\<close>

record ldb_members =
  m_dcache :: "usize option"
  m_dattab :: "string option"
  m_symtab :: "string option"
  m_shltab :: "string option"

definition no_members :: ldb_members where
  "no_members = \<lparr>m_dcache = None, m_dattab = None, m_symtab = None, m_shltab = None\<rparr>"

definition close_db :: "string option \<Rightarrow> ldb_world \<Rightarrow> ldb_world" where
  "close_db db w = (case db of None \<Rightarrow> w | Some path \<Rightarrow> note_event (DbClosed path) w)"

definition delete_cache :: "usize option \<Rightarrow> ldb_world \<Rightarrow> ldb_world" where
  "delete_cache c w = (case c of None \<Rightarrow> w | Some _ \<Rightarrow> note_event CacheDeleted w)"

text \<open>Members are destroyed in the reverse of the order of their declarations.\<close>

definition members_end :: "ldb_members \<Rightarrow> ldb_world \<Rightarrow> ldb_world" where
  "members_end m w =
     delete_cache (m_dcache m) (close_db (m_dattab m) (close_db (m_symtab m) (close_db (m_shltab m) w)))"

subsection \<open>The constructor\<close>

definition OpenDB :: "ldb_env \<Rightarrow> Options \<Rightarrow> string \<Rightarrow> ldb_world \<Rightarrow> (ldb_error + string) \<times> ldb_world" where
  "OpenDB env opts path w =
     (case open_status env opts path of
        Some text \<Rightarrow> (Inl (RuntimeError text), w)
      | None \<Rightarrow> (Inr path, note_event (DbOpened path) w))"

definition prepare_directory :: "ldb_env \<Rightarrow> string \<Rightarrow> ldb_world \<Rightarrow> (ldb_error + unit) \<times> ldb_world" where
  "prepare_directory env path w =
     (if \<not> can_stat env path then (Inl FilesystemError, w)
      else if files w path \<noteq> Some Directory then
        if files w path \<noteq> None \<and> \<not> can_remove env path then (Inl FilesystemError, w)
        else
          (let w = (if files w path \<noteq> None then w\<lparr>files := (files w)(path := None)\<rparr> else w) in
           if \<not> can_create env path then (Inl FilesystemError, w)
           else (Inr (), w\<lparr>files := (files w)(path \<mapsto> Directory)\<rparr>))
      else (Inr (), w))"

definition new_LevelDBStorage ::
    "ldb_env \<Rightarrow> string \<Rightarrow> usize \<Rightarrow> ldb_world \<Rightarrow> (ldb_error + LevelDBStorage \<times> ldb_members) \<times> ldb_world" where
  "new_LevelDBStorage env path cache_size_mb w =
     (case prepare_directory env path w of
        (Inl e, w) \<Rightarrow> (Inl e, members_end no_members w)
      | (Inr _, w) \<Rightarrow>
          (let opts = default_Options\<lparr>create_if_missing := True, compression := False\<rparr> in
           case OpenDB env opts (path_append path ''symtab'') w of
             (Inl e, w) \<Rightarrow> (Inl e, members_end no_members w)
           | (Inr sym_db, w) \<Rightarrow>
               (let m = no_members\<lparr>m_symtab := Some sym_db\<rparr> in
                case OpenDB env opts (path_append path ''shltab'') w of
                  (Inl e, w) \<Rightarrow> (Inl e, members_end m w)
                | (Inr shl_db, w) \<Rightarrow>
                    (let m = m\<lparr>m_shltab := Some shl_db\<rparr>;
                         opts = opts\<lparr>comparator_name := ''SystemClockComparator''\<rparr>;
                         cache = cache_size_mb * 1024 * 1024;
                         (opts, m, w) =
                           (if cache_size_mb \<noteq> 0
                            then (opts\<lparr>block_cache := Some cache\<rparr>, m\<lparr>m_dcache := Some cache\<rparr>, note_event (CacheCreated cache) w)
                            else (opts, m, w))
                     in case OpenDB env opts (path_append path ''dattab'') w of
                          (Inl e, w) \<Rightarrow> (Inl e, members_end m w)
                        | (Inr dat_db, w) \<Rightarrow>
                            (Inr (\<lparr>ldb_path = path, ldb_cache_size_mb = cache_size_mb\<rparr>, m\<lparr>m_dattab := Some dat_db\<rparr>), w)))))"

definition NewLevelDBStorage ::
    "ldb_env \<Rightarrow> string \<Rightarrow> usize \<Rightarrow> ldb_world \<Rightarrow> (ldb_error + LevelDBStorage \<times> ldb_members) \<times> ldb_world" where
  "NewLevelDBStorage env path cache_size_mb w = new_LevelDBStorage env path cache_size_mb w"

subsection \<open>Nothing is left open\<close>

text \<open>What is open after a trace: the databases, and the number of caches.\<close>

fun open_after :: "ldb_event list \<Rightarrow> string multiset \<times> nat \<Rightarrow> string multiset \<times> nat" where
  "open_after [] s = s"
| "open_after (DbOpened p # es) (dbs, caches) = open_after es (add_mset p dbs, caches)"
| "open_after (DbClosed p # es) (dbs, caches) = open_after es (dbs - {#p#}, caches)"
| "open_after (CacheCreated _ # es) (dbs, caches) = open_after es (dbs, Suc caches)"
| "open_after (CacheDeleted # es) (dbs, caches) = open_after es (dbs, caches - 1)"

lemma open_after_append [simp]: "open_after (xs @ ys) s = open_after ys (open_after xs s)"
  by (induction xs s rule: open_after.induct) auto

lemma prepare_directory_events: "prepare_directory env path w = (r, w') \<Longrightarrow> events w' = events w"
  by (auto simp: prepare_directory_def Let_def split: if_splits)

lemma prepare_directory_ok: "prepare_directory env path w = (Inr u, w') \<Longrightarrow> files w' path = Some Directory"
  by (auto simp: prepare_directory_def Let_def split: if_splits)

lemmas ldb_defs = new_LevelDBStorage_def OpenDB_def members_end_def no_members_def close_db_def delete_cache_def
  note_event_def Let_def

text \<open>
  Opening the LevelDB storage succeeds completely or leaves nothing open: when any of the
  steps fails, every database and cache created before it is released again and the error is
  the one of that step; when all succeed, the directory exists, the three databases and, for a
  cache size that is not 0, one cache are open. Destroying the storage closes them all, the
  cache after the database that uses it.
\<close>

theorem leveldb_open_releases:
  assumes "new_LevelDBStorage env path n w = (r, w')"
  shows "case r of
      Inl e \<Rightarrow> open_after (events w') s = open_after (events w) s \<and>
        (e = FilesystemError \<and> \<not> (can_stat env path \<and> can_remove env path \<and> can_create env path) \<or>
         (\<exists>opts p text. e = RuntimeError text \<and> open_status env opts p = Some text))
    | Inr (st, m) \<Rightarrow> files w' path = Some Directory \<and> s_GetName ldb_ops st = path \<and>
        open_after (events w') s =
          (case open_after (events w) s of (dbs, caches) \<Rightarrow>
             (dbs + {#path_append path ''symtab'', path_append path ''shltab'', path_append path ''dattab''#},
              if n = 0 then caches else Suc caches)) \<and>
        open_after (events (members_end m w')) s = open_after (events w) s \<and>
        events (members_end m w') = events w' @
          [DbClosed (path_append path ''shltab''), DbClosed (path_append path ''symtab''), DbClosed (path_append path ''dattab'')] @
          (if n = 0 then [] else [CacheDeleted])"
proof -
  obtain r0 w0 where prep: "prepare_directory env path w = (r0, w0)" by (cases "prepare_directory env path w")
  note ev = prepare_directory_events [OF prep]
  obtain dbs caches where o: "open_after (events w) s = (dbs, caches)" by (cases "open_after (events w) s")
  show ?thesis
  proof (cases r0)
    case (Inl e)
    then show ?thesis using assms prep ev
      by (auto simp: ldb_defs prepare_directory_def split: if_splits)
  next
    case (Inr u)
    with prep have "files w0 path = Some Directory" by (blast intro: prepare_directory_ok)
    then show ?thesis using assms prep Inr ev o
      by (auto simp: ldb_defs ldb_ops_def split: option.splits if_splits) blast+
  qed
qed

text \<open>A path with a regular file, and a database that cannot be opened because of its third part.\<close>

definition broken_env :: ldb_env where
  "broken_env = \<lparr>can_stat = (\<lambda>p. True), can_remove = (\<lambda>p. True), can_create = (\<lambda>p. True),
     open_status = (\<lambda>opts p. if comparator_name opts = ''SystemClockComparator'' then Some ''Corruption'' else None)\<rparr>"

theorem leveldb_open_releases_witness:
  "\<exists>w'. new_LevelDBStorage broken_env ''db'' 8 \<lparr>files = [''db'' \<mapsto> RegularFile], events = []\<rparr> = (Inl (RuntimeError ''Corruption''), w') \<and>
     events w' = [DbOpened ''db/symtab'', DbOpened ''db/shltab'', CacheCreated 8388608, DbClosed ''db/shltab'',
       DbClosed ''db/symtab'', CacheDeleted] \<and> open_after (events w') ({#}, 0) = ({#}, 0)"
proof -
  let ?w = "\<lparr>files = [''db'' \<mapsto> RegularFile], events = []\<rparr>"
  obtain r w' where r: "new_LevelDBStorage broken_env ''db'' 8 ?w = (r, w')" by (cases "new_LevelDBStorage broken_env ''db'' 8 ?w")
  moreover from this have "r = Inl (RuntimeError ''Corruption'')"
    "events w' = [DbOpened ''db/symtab'', DbOpened ''db/shltab'', CacheCreated 8388608, DbClosed ''db/shltab'',
       DbClosed ''db/symtab'', CacheDeleted]"
    by (auto simp: ldb_defs prepare_directory_def broken_env_def path_append_def default_Options_def)
  ultimately show ?thesis using leveldb_open_releases [OF r, of "({#}, 0)"] by simp
qed

end
