(* ===== verification/Codec.thy ===== *)
theory Codec
  imports Serialization
begin

text \<open>
  The codec of \<^verbatim>\<open>include/memhook/serialization.h\<close> for every type its templates have an overload for,
  not only for the records of the protocol. The overloads of \<^verbatim>\<open>WriterImpl\<close> and \<^verbatim>\<open>ReaderImpl\<close> are chosen by the
  type of the value: an integer of one of the four widths of \<^verbatim>\<open>ByteOrderingConv\<close>, an enumeration, a
  string, a sequence (vector, list, string of another character type), a hash map, a pair, a
  point of time, or a structure with adapted members. \<open>wire_type\<close> has these cases, and \<open>wire_value\<close>
  the values.
\<close>

subsection \<open>Byte order by width\<close>

text \<open>The widths in bytes; other integers do not compile.\<close>

definition conv_width :: "nat \<Rightarrow> bool" where
  "conv_width n \<longleftrightarrow> n = 1 \<or> n = 2 \<or> n = 4 \<or> n = 8"

definition hton :: "bool \<Rightarrow> nat \<Rightarrow> nat \<Rightarrow> nat" where
  "hton be n v =
     (if n = 1 then v
      else if n = 2 then unat (hton_16 be (word_of_nat v))
      else if n = 4 then unat (hton_32 be (word_of_nat v))
      else unat (hton_64 be (word_of_nat v)))"

definition ntoh :: "bool \<Rightarrow> nat \<Rightarrow> nat \<Rightarrow> nat" where
  "ntoh be n v =
     (if n = 1 then v
      else if n = 2 then unat (ntoh_16 be (word_of_nat v))
      else if n = 4 then unat (ntoh_32 be (word_of_nat v))
      else unat (ntoh_64 be (word_of_nat v)))"

lemma store_one: "store be (Suc 0) v = le_bytes (Suc 0) v"
  by (simp add: store_def)

lemma store_hton: "conv_width n \<Longrightarrow> v < 256 ^ n \<Longrightarrow> store be n (hton be n v) = be_bytes n v"
  by (auto simp: conv_width_def hton_def store_one be_bytes_def store_hton_16 store_hton_32 store_hton_64 unat_of_nat)

lemma le_val_append: "le_val (xs @ ys) = le_val xs + 256 ^ length xs * le_val ys"
  by (induction xs) (simp_all add: algebra_simps)

lemma ntoh_16_load: "length bs = 2 \<Longrightarrow> ntoh_16 be (word_of_nat (load be bs)) = word_of_nat (be_val bs)"
  by (auto simp: ntoh_16_def load_def be_val_def BYTESWAP_16_def unat_bytes_word [of _ 2] le_bytes_le_val)

lemma ntoh_load:
  assumes "conv_width n" "length bs = n"
  shows "ntoh be n (load be bs) = be_val bs"
proof -
  have "be_val bs < 256 ^ n" using le_val_bound [of "rev bs"] assms(2) by (simp add: be_val_def)
  moreover have "n = 1 \<Longrightarrow> load be bs = be_val bs"
    using assms(2) by (cases bs) (auto simp: load_def be_val_def)
  ultimately show ?thesis using assms
    by (auto simp: conv_width_def ntoh_def ntoh_16_load ntoh_32_load ntoh_64_load unat_of_nat)
qed

subsection \<open>Types and values\<close>

datatype wire_type =
    TInt nat
  | TEnum nat
  | TString
  | TSeq wire_type
  | TMap wire_type wire_type
  | TPair wire_type wire_type
  | TTime
  | TStruct "wire_type list"

text \<open>
  An integer has its width and its bits as a number; an enumeration the size of its type and
  the 32 bits its value is converted to.
\<close>

datatype wire_value =
    VInt nat nat
  | VEnum nat nat
  | VString string
  | VSeq "wire_value list"
  | VMap "(wire_value \<times> wire_value) list"
  | VPair wire_value wire_value
  | VTime u64
  | VStruct "wire_value list"

fun has_type :: "wire_type \<Rightarrow> wire_value \<Rightarrow> bool" and has_types :: "wire_type list \<Rightarrow> wire_value list \<Rightarrow> bool" where
  "has_type (TInt n) (VInt m v) \<longleftrightarrow> m = n \<and> conv_width n \<and> v < 256 ^ n"
| "has_type (TEnum n) (VEnum m v) \<longleftrightarrow> m = n \<and> conv_width n \<and> v < 2 ^ 32"
| "has_type TString (VString s) \<longleftrightarrow> length s < 2 ^ 32"
| "has_type (TSeq t) (VSeq vs) \<longleftrightarrow> length vs < 2 ^ 32 \<and> (\<forall>v\<in>set vs. has_type t v)"
| "has_type (TMap k t) (VMap kvs) \<longleftrightarrow> length kvs < 2 ^ 32 \<and> distinct (map fst kvs) \<and>
     (\<forall>x\<in>set kvs. has_type k (fst x) \<and> has_type t (snd x))"
| "has_type (TPair t u) (VPair v w) \<longleftrightarrow> has_type t v \<and> has_type u w"
| "has_type TTime (VTime r) \<longleftrightarrow> True"
| "has_type (TStruct ts) (VStruct vs) \<longleftrightarrow> has_types ts vs"
| "has_type _ _ \<longleftrightarrow> False"
| "has_types [] [] \<longleftrightarrow> True"
| "has_types (t # ts) (v # vs) \<longleftrightarrow> has_type t v \<and> has_types ts vs"
| "has_types _ _ \<longleftrightarrow> False"

subsection \<open>The visitors\<close>

text \<open>\<open>call\<close> is \<^verbatim>\<open>ClassT::Call\<close> for an integer of a width, \<open>call_string\<close> that for a string.\<close>

record 's visitor =
  call :: "nat \<Rightarrow> nat \<Rightarrow> 's \<Rightarrow> 's"
  call_string :: "string \<Rightarrow> 's \<Rightarrow> 's"

text \<open>The count of a sequence is cut to 32 bits.\<close>

definition seq_size :: "nat \<Rightarrow> nat" where
  "seq_size n = unat (word_of_nat n :: u32)"

primrec visit :: "wire_value \<Rightarrow> 's visitor \<Rightarrow> 's \<Rightarrow> 's" where
  "visit (VInt n v) c s = call c n v s"
| "visit (VEnum n v) c s = call c 4 v s"
| "visit (VString x) c s = call_string c x s"
| "visit (VSeq vs) c s = fold (\<lambda>f. f c) (map visit vs) (call c 4 (seq_size (length vs)) s)"
| "visit (VMap kvs) c s =
     fold (\<lambda>x s. snd x c (fst x c s)) (map (map_prod visit visit) kvs) (call c 4 (seq_size (length kvs)) s)"
| "visit (VPair v w) c s = visit w c (visit v c s)"
| "visit (VTime r) c s = call c 8 (unat r) s"
| "visit (VStruct vs) c s = fold (\<lambda>f. f c) (map visit vs) s"

definition size_visitor :: "usize visitor" where
  "size_visitor = \<lparr>call = (\<lambda>n v size. size + word_of_nat n),
     call_string = (\<lambda>x size. size + 4 + word_of_nat (seq_size (length x)))\<rparr>"

definition write_int :: "bool \<Rightarrow> nat \<Rightarrow> nat \<Rightarrow> mutable_buffer \<Rightarrow> mutable_buffer" where
  "write_int be n v b = buffer_plus (buffer_copy (store be n (hton be n v)) b) n"

definition write_string :: "bool \<Rightarrow> string \<Rightarrow> mutable_buffer \<Rightarrow> mutable_buffer" where
  "write_string be x b =
     (let size = seq_size (length x); b = write_int be 4 size b
      in if size \<noteq> 0 then buffer_plus (buffer_copy (take size (bytes_of_string x)) b) size else b)"

definition write_visitor :: "bool \<Rightarrow> mutable_buffer visitor" where
  "write_visitor be = \<lparr>call = write_int be, call_string = write_string be\<rparr>"

definition codec_GetSize :: "wire_value \<Rightarrow> usize" where
  "codec_GetSize v = visit v size_visitor 0"

definition codec_Write :: "bool \<Rightarrow> mutable_buffer \<Rightarrow> wire_value \<Rightarrow> mutable_buffer" where
  "codec_Write be buf v = visit v (write_visitor be) buf"

subsection \<open>The reader\<close>

definition read_int :: "bool \<Rightarrow> nat \<Rightarrow> nat reader" where
  "read_int be n buf = (if length buf < n then None else Some (ntoh be n (load be (take n buf)), drop n buf))"

definition read_string :: "bool \<Rightarrow> string reader" where
  "read_string be buf =
     do { (size, buf) \<leftarrow> read_int be 4 buf;
          if length buf < size then None else Some (string_of_bytes (take size buf), drop size buf) }"

definition read_seq :: "bool \<Rightarrow> 'a reader \<Rightarrow> ('a \<Rightarrow> 'c \<Rightarrow> 'c) \<Rightarrow> 'c \<Rightarrow> 'c reader" where
  "read_seq be f ins emp buf = do { (size, buf) \<leftarrow> read_int be 4 buf; r_loop size f ins emp buf }"

fun read_members :: "'a reader list \<Rightarrow> 'a list reader" where
  "read_members [] buf = Some ([], buf)"
| "read_members (f # fs) buf = do { (v, buf) \<leftarrow> f buf; (vs, buf) \<leftarrow> read_members fs buf; Some (v # vs, buf) }"

text \<open>
  An enumeration is read with the width of its type and then converted; the writer has used
  four bytes. A hash map cannot be read: \<^verbatim>\<open>CallSeq\<close> declares a variable of the map's
  \<^verbatim>\<open>value_type\<close>, a pair with a constant key, which has no overload and cannot be assigned, so that a
  program that reads one does not compile. The equation for maps gives no value.
\<close>

primrec codec_Read :: "wire_type \<Rightarrow> bool \<Rightarrow> wire_value reader" where
  "codec_Read (TInt n) be buf = do { (v, buf) \<leftarrow> read_int be n buf; Some (VInt n v, buf) }"
| "codec_Read (TEnum n) be buf = do { (v, buf) \<leftarrow> read_int be n buf; Some (VEnum n (v mod 2 ^ 32), buf) }"
| "codec_Read TString be buf = do { (x, buf) \<leftarrow> read_string be buf; Some (VString x, buf) }"
| "codec_Read (TSeq t) be buf = do { (vs, buf) \<leftarrow> read_seq be (codec_Read t be) push_back [] buf; Some (VSeq vs, buf) }"
| "codec_Read (TMap k t) be buf = None"
| "codec_Read (TPair t u) be buf = do { (v, buf) \<leftarrow> codec_Read t be buf; (w, buf) \<leftarrow> codec_Read u be buf; Some (VPair v w, buf) }"
| "codec_Read TTime be buf = do { (r, buf) \<leftarrow> read_int be 8 buf; Some (VTime (word_of_nat r), buf) }"
| "codec_Read (TStruct ts) be buf = do { (vs, buf) \<leftarrow> read_members (map (\<lambda>f. f be) (map codec_Read ts)) buf; Some (VStruct vs, buf) }"

subsection \<open>The wire format\<close>

definition format_visitor :: "u8 list visitor" where
  "format_visitor = \<lparr>call = (\<lambda>n v out. out @ be_bytes n v), call_string = (\<lambda>x out. out @ enc_string x)\<rparr>"

lemma format_visitor_sel [simp]:
  "call format_visitor n v out = out @ be_bytes n v" "call_string format_visitor x out = out @ enc_string x"
  by (simp_all add: format_visitor_def)

definition wire_bytes :: "wire_value \<Rightarrow> u8 list" where
  "wire_bytes v = visit v format_visitor []"

lemma seq_size_small [simp]: "n < 2 ^ 32 \<Longrightarrow> seq_size n = n"
  by (simp add: seq_size_def unat_of_nat)

lemma seq_size_less: "seq_size n < 4294967296"
  using unsigned_less [where ?'a = nat, of "word_of_nat n :: u32"] by (simp add: seq_size_def)

text \<open>
  A relation between two visitors that the calls with integers that fit and with strings keep
  is kept by the visit of every value.
\<close>

locale visitor_sim =
  fixes c1 :: "'s visitor" and c2 :: "'t visitor" and R :: "'s \<Rightarrow> 't \<Rightarrow> bool"
  assumes sim_call: "R s t \<Longrightarrow> conv_width n \<Longrightarrow> v < 256 ^ n \<Longrightarrow> R (call c1 n v s) (call c2 n v t)"
    and sim_call_string: "R s t \<Longrightarrow> R (call_string c1 x s) (call_string c2 x t)"
begin

lemma sim_count: "R s t \<Longrightarrow> R (call c1 4 (seq_size n) s) (call c2 4 (seq_size n) t)"
  by (rule sim_call) (simp_all add: conv_width_def seq_size_less)

lemma sim_list:
  assumes "\<And>v s t. v \<in> set vs \<Longrightarrow> R s t \<Longrightarrow> R (visit v c1 s) (visit v c2 t)" "R s t"
  shows "R (fold (\<lambda>f. f c1) (map visit vs) s) (fold (\<lambda>f. f c2) (map visit vs) t)"
  using assms by (induction vs arbitrary: s t) auto

lemma sim_pairs:
  assumes "\<And>x s t. x \<in> set kvs \<Longrightarrow> R s t \<Longrightarrow> R (visit (fst x) c1 s) (visit (fst x) c2 t)"
    and "\<And>x s t. x \<in> set kvs \<Longrightarrow> R s t \<Longrightarrow> R (visit (snd x) c1 s) (visit (snd x) c2 t)" and "R s t"
  shows "R (fold (\<lambda>x s. snd x c1 (fst x c1 s)) (map (map_prod visit visit) kvs) s)
           (fold (\<lambda>x s. snd x c2 (fst x c2 s)) (map (map_prod visit visit) kvs) t)"
  using assms by (induction kvs arbitrary: s t) auto

lemma sim_visit:
  "has_type ty v \<Longrightarrow> R s t \<Longrightarrow> R (visit v c1 s) (visit v c2 t)"
  "has_types tys vs \<Longrightarrow> R s t \<Longrightarrow> R (fold (\<lambda>f. f c1) (map visit vs) s) (fold (\<lambda>f. f c2) (map visit vs) t)"
proof (induction ty v and tys vs arbitrary: s t and s t rule: has_type_has_types.induct)
  case (4 ty vs)
  then show ?case by (auto intro!: sim_list sim_count simp del: seq_size_small)
next
  case (5 k ty kvs)
  then show ?case by (auto intro!: sim_pairs sim_count simp del: seq_size_small)
next
  case (7 r)
  have "unat r < 256 ^ 8" using unsigned_less [where ?'a = nat, of r] by simp
  with 7 show ?case by (auto intro: sim_call simp: conv_width_def)
qed (auto intro!: sim_call sim_call_string simp: conv_width_def)

end

interpretation codec_size: visitor_sim size_visitor format_visitor size_rel
  by unfold_locales (auto simp: size_visitor_def size_rel_def bytelens seq_size_def)

interpretation codec_write: visitor_sim "write_visitor be" format_visitor "bw_rel m" for be m
proof unfold_locales
  fix s t n v
  assume R: "bw_rel m s t"
  show int: "bw_rel m (call (write_visitor be) n v s) (call format_visitor n v t)" if "conv_width n" "v < 256 ^ n" for n v
    using bw_rel_copy [OF R, of "be_bytes n v"] that by (simp add: write_visitor_def write_int_def store_hton)
  fix x :: string
  let ?size = "seq_size (length x)"
  have "bw_rel m (write_int be 4 ?size s) (t @ be_bytes 4 ?size)"
    using int [of 4 ?size] by (simp add: write_visitor_def conv_width_def seq_size_less)
  from bw_rel_copy [OF this, of "take ?size (bytes_of_string x)"] this
  show "bw_rel m (call_string (write_visitor be) x s) (call_string format_visitor x t)"
    using unat_size_le [of "length x"]
    by (auto simp: write_visitor_def write_string_def enc_string_def seq_size_def Let_def min_absorb2)
qed

text \<open>The format of a value does not depend on what was written before it.\<close>

definition suffix_rel :: "u8 list \<Rightarrow> u8 list \<Rightarrow> u8 list \<Rightarrow> bool" where
  "suffix_rel p s t \<longleftrightarrow> s = p @ t"

interpretation codec_suffix: visitor_sim format_visitor format_visitor "suffix_rel p" for p
  by unfold_locales (simp_all add: suffix_rel_def)

lemma visit_format: "has_type ty v \<Longrightarrow> visit v format_visitor s = s @ wire_bytes v"
  using codec_suffix.sim_visit(1) [of ty v s s "[]"] by (simp add: suffix_rel_def wire_bytes_def)

lemma fold_format:
  "(\<And>v. v \<in> set vs \<Longrightarrow> \<exists>ty. has_type ty v) \<Longrightarrow> fold (\<lambda>f. f format_visitor) (map visit vs) s = s @ concat (map wire_bytes vs)"
proof (induction vs arbitrary: s)
  case (Cons v vs)
  then obtain ty where "has_type ty v" by auto
  with Cons show ?case by (simp add: visit_format)
qed simp

lemma has_types_all: "has_types tys vs \<Longrightarrow> v \<in> set vs \<Longrightarrow> \<exists>ty. has_type ty v"
  by (induction tys vs rule: list_induct2') auto

lemma wire_bytes_simps:
  "wire_bytes (VInt n i) = be_bytes n i"
  "wire_bytes (VEnum n i) = be_bytes 4 i"
  "wire_bytes (VString x) = enc_string x"
  "wire_bytes (VTime r) = be_bytes 8 (unat r)"
  by (simp_all add: wire_bytes_def)

lemma wire_bytes_pair:
  assumes "has_type t v" "has_type u w"
  shows "wire_bytes (VPair v w) = wire_bytes v @ wire_bytes w"
  unfolding wire_bytes_def [of "VPair v w"] by (simp add: visit_format [OF assms(1)] visit_format [OF assms(2)])

lemma wire_bytes_seq:
  assumes "has_type (TSeq t) (VSeq vs)"
  shows "wire_bytes (VSeq vs) = be_bytes 4 (length vs) @ concat (map wire_bytes vs)"
proof -
  have "\<And>v. v \<in> set vs \<Longrightarrow> \<exists>ty. has_type ty v" using assms by auto
  from fold_format [OF this] assms show ?thesis unfolding wire_bytes_def [of "VSeq vs"] by simp
qed

lemma wire_bytes_struct:
  assumes "has_types ts vs"
  shows "wire_bytes (VStruct vs) = concat (map wire_bytes vs)"
  using fold_format [OF has_types_all [OF assms]] unfolding wire_bytes_def [of "VStruct vs"] by simp

subsection \<open>Reading back\<close>

lemma read_int_format: "conv_width n \<Longrightarrow> v < 256 ^ n \<Longrightarrow> read_int be n (be_bytes n v @ rest) = Some (v, rest)"
  by (simp add: read_int_def ntoh_load be_val_be_bytes)

lemma read_count: "n < 2 ^ 32 \<Longrightarrow> read_int be 4 (be_bytes 4 n @ rest) = Some (n, rest)"
  by (rule read_int_format) (simp_all add: conv_width_def)

lemma read_string_format: "length x < 2 ^ 32 \<Longrightarrow> read_string be (enc_string x @ rest) = Some (x, rest)"
  by (simp add: read_string_def enc_string_def Let_def read_count)

lemma r_loop_format:
  "(\<And>v rest. v \<in> set vs \<Longrightarrow> r (w v @ rest) = Some (v, rest)) \<Longrightarrow>
   r_loop (length vs) r ins acc (concat (map w vs) @ rest) = Some (fold ins vs acc, rest)"
  by (induction vs arbitrary: acc) auto

text \<open>
  The types that can be read back: an enumeration type is as wide as an \<^verbatim>\<open>int\<close>, and there is no
  hash map.
\<close>

fun readable :: "wire_type \<Rightarrow> bool" where
  "readable (TEnum n) \<longleftrightarrow> n = 4"
| "readable (TSeq t) \<longleftrightarrow> readable t"
| "readable (TMap k t) \<longleftrightarrow> False"
| "readable (TPair t u) \<longleftrightarrow> readable t \<and> readable u"
| "readable (TStruct ts) \<longleftrightarrow> (\<forall>t\<in>set ts. readable t)"
| "readable _ \<longleftrightarrow> True"

lemma Read_format:
  "has_type ty v \<Longrightarrow> readable ty \<Longrightarrow> codec_Read ty be (wire_bytes v @ rest) = Some (v, rest)"
  "has_types tys vs \<Longrightarrow> \<forall>t\<in>set tys. readable t \<Longrightarrow>
     read_members (map (\<lambda>f. f be) (map codec_Read tys)) (concat (map wire_bytes vs) @ rest) = Some (vs, rest)"
proof (induction ty v and tys vs arbitrary: rest and rest rule: has_type_has_types.induct)
  case (2 n m v)
  then show ?case by (simp add: wire_bytes_simps read_count)
next
  case (4 t vs)
  then have "r_loop (length vs) (codec_Read t be) push_back [] (concat (map wire_bytes vs) @ rest) = Some (vs, rest)"
    using r_loop_format [of vs "codec_Read t be" wire_bytes push_back "[]" rest] by simp
  with 4 show ?case by (simp add: wire_bytes_seq [of t vs] read_seq_def read_count)
next
  case (7 r)
  have "unat r < 256 ^ 8" using unsigned_less [where ?'a = nat, of r] by simp
  then show ?case by (simp add: wire_bytes_simps read_int_format conv_width_def)
next
  case (6 t u v w)
  then show ?case by (simp add: wire_bytes_pair [of t v u w])
qed (simp_all add: wire_bytes_simps wire_bytes_struct read_int_format read_string_format)

text \<open>
  C25. A value is built of integers of the four widths, enumerations, strings, sequences, hash
  maps, pairs, points of time and structures of these, and its encoding is shorter than 2 to the
  power of 64 bytes. Then a buffer of the size that \<^verbatim>\<open>GetSize\<close> gives is filled to its last byte by
  \<^verbatim>\<open>Write\<close>. When its type has no hash map, whose reader does not compile, and every enumeration in
  it is as wide as an \<^verbatim>\<open>int\<close>, \<^verbatim>\<open>Read\<close> with that type gives the value back and uses up the buffer,
  whatever the byte orders of the two machines.
\<close>

theorem codec_roundtrip:
  assumes "has_type ty v" "length (wire_bytes v) < 2 ^ 64"
  shows "\<exists>buf. codec_Write be \<lparr>mb_mem = replicate (unat (codec_GetSize v)) junk, mb_pos = 0\<rparr> v = buf \<and>
    mb_pos buf = unat (codec_GetSize v) \<and> length (mb_mem buf) = unat (codec_GetSize v) \<and>
    (readable ty \<longrightarrow> codec_Read ty be' (mb_mem buf) = Some (v, []))"
proof -
  have size: "unat (codec_GetSize v) = length (wire_bytes v)"
    using codec_size.sim_visit(1) [OF assms(1), of 0 "[]"] assms(2)
    by (simp add: size_rel_def codec_GetSize_def wire_bytes_def unat_of_nat)
  let ?m = "replicate (length (wire_bytes v)) junk"
  have "bw_rel ?m \<lparr>mb_mem = ?m, mb_pos = 0\<rparr> []" by (simp add: bw_rel_def)
  from codec_write.sim_visit(1) [OF assms(1) this, of be]
  have "bw_rel ?m (codec_Write be \<lparr>mb_mem = ?m, mb_pos = 0\<rparr> v) (wire_bytes v)" by (simp add: codec_Write_def wire_bytes_def)
  then show ?thesis using Read_format(1) [OF assms(1), of be' "[]"] by (simp add: size bw_rel_def)
qed

definition demo_type :: wire_type where
  "demo_type = TStruct [TInt 2, TEnum 4, TPair (TInt 8) TString, TSeq (TPair (TInt 1) TTime)]"

definition demo_value :: wire_value where
  "demo_value = VStruct [VInt 2 513, VEnum 4 7, VPair (VInt 8 4096) (VString ''main''), VSeq [VPair (VInt 1 255) (VTime 5)]]"

theorem codec_roundtrip_witness:
  "\<exists>buf. codec_Write False \<lparr>mb_mem = replicate (unat (codec_GetSize demo_value)) 0, mb_pos = 0\<rparr> demo_value = buf \<and>
     codec_Read demo_type True (mb_mem buf) = Some (demo_value, [])"
proof -
  have "has_type demo_type demo_value" by (simp add: demo_type_def demo_value_def conv_width_def)
  moreover have "readable demo_type" by (simp add: demo_type_def)
  moreover have "length (wire_bytes demo_value) < 2 ^ 64"
    by (simp add: demo_value_def wire_bytes_def bytelens seq_size_def)
  ultimately show ?thesis using codec_roundtrip [of demo_type demo_value False 0 True] by blast
qed

text \<open>
  An enumeration of another size than \<^verbatim>\<open>int\<close> does not come back: the writer always converts it to
  four bytes, the reader takes as many as its type has. One of eight bytes followed by four
  others swallows them.
\<close>

theorem enum_width_mismatch:
  assumes "w < 2 ^ 32"
  shows "codec_Read (TEnum 8) be (wire_bytes (VEnum 8 v) @ be_bytes 4 w) = Some (VEnum 8 w, [])"
proof -
  have "be_val (be_bytes 4 v @ be_bytes 4 w) mod 2 ^ 32 = w"
    using assms by (simp add: be_val_def be_bytes_def le_val_append le_val_le_bytes)
  moreover have "ntoh be 8 (load be (be_bytes 4 v @ be_bytes 4 w)) = be_val (be_bytes 4 v @ be_bytes 4 w)"
    by (rule ntoh_load) (simp_all add: conv_width_def)
  ultimately show ?thesis by (simp add: wire_bytes_simps read_int_def)
qed

text \<open>The writer of call stacks is this codec at the type of call stacks.\<close>

definition item_value :: "CallStackInfoItem \<Rightarrow> wire_value" where
  "item_value i = VStruct [VString (shl_path i), VString (procname i), VInt 8 (unat (shl_addr i)), VInt 8 (unat (ip i)),
     VInt 8 (unat (sp i)), VInt 8 (unat (offp i))]"

lemma write_int_eq: "write_int be 4 (unat v) = bw_u32 be v" "write_int be 8 (unat w) = bw_u64 be w"
  by (simp_all add: fun_eq_iff write_int_def bw_u32_def bw_u64_def hton_def)

lemma write_string_eq: "write_string be x = bw_string be x"
  unfolding write_string_def bw_string_def seq_size_def Let_def write_int_eq by (simp add: fun_eq_iff unat_eq_0)

lemma Write_CallStackInfo:
  "codec_Write be b (VSeq (map item_value cs)) = w_CallStackInfo (BufferWriter be) cs b"
proof -
  have "visit (item_value i) (write_visitor be) = w_CallStackInfoItem (BufferWriter be) i" for i
    by (simp add: fun_eq_iff item_value_def w_CallStackInfoItem_def write_visitor_def BufferWriter_def write_int_eq write_string_eq)
  then have "fold (\<lambda>f. f (write_visitor be)) (map visit (map item_value cs)) s = fold (w_CallStackInfoItem (BufferWriter be)) cs s" for s
    by (induction cs arbitrary: s) simp_all
  then show ?thesis
    by (simp add: codec_Write_def w_CallStackInfo_def CallSeq_def write_visitor_def BufferWriter_def write_int_eq seq_size_def)
qed

end
