(* ===== verification/Bounded_Storage.thy ===== *)
theory Bounded_Storage
  imports Mapped_Storage
begin

text \<open>
  \<^verbatim>\<open>BasicMappedStorage::Add\<close> on a segment that can run out of space. The containers of the
  storage take their memory from the segment manager, whose allocator throws
  \<^verbatim>\<open>boost::interprocess::bad_alloc\<close> when the segment is full; nothing in
  \<^verbatim>\<open>src/memhookcore/basic_mapped_storage.h\<close> catches it. The constructor of a string and the
  \<^verbatim>\<open>emplace\<close> of a container have all or no effect. Which requests the segment manager
  grants is the parameter \<open>grants\<close>: one answer for each expression that may allocate,
  numbered in the order of evaluation (an expression that needs no memory, such as a short
  string, is one whose answer is yes). The state carries the number of the next request.

  \<open>outcome\<close> tells how a call ends; both ways leave a state behind. The locale
  \<open>throwing_storage\<close> is the contract of an \<^verbatim>\<open>Add\<close> that may throw: when it returns it did what
  the contract \<open>mapped_storage\<close> asks, and when it throws the table is as before.
\<close>

datatype 'a outcome = Returned 'a | Threw 'a

fun and_then :: "'a outcome \<Rightarrow> ('a \<Rightarrow> 'a outcome) \<Rightarrow> 'a outcome" where
  "and_then (Returned s) f = f s"
| "and_then (Threw s) f = Threw s"

fun for_each :: "('x \<Rightarrow> 'a \<Rightarrow> 'a outcome) \<Rightarrow> 'x list \<Rightarrow> 'a \<Rightarrow> 'a outcome" where
  "for_each f [] s = Returned s"
| "for_each f (x # xs) s = and_then (f x s) (for_each f xs)"

definition with_alloc :: "(nat \<Rightarrow> bool) \<Rightarrow> ('s \<Rightarrow> 's) \<Rightarrow> nat \<times> 's \<Rightarrow> (nat \<times> 's) outcome" where
  "with_alloc grants f ks =
     (if grants (fst ks) then Returned (Suc (fst ks), f (snd ks)) else Threw (Suc (fst ks), snd ks))"

subsection \<open>Add\<close>

definition add_symbol :: "CallStackInfoItem \<Rightarrow> MappedContainer \<Rightarrow> MappedContainer" where
  "add_symbol item c = c\<lparr>symtab := (symtab c)(ip item \<mapsto> procname item)\<rparr>"

definition add_shl_path :: "CallStackInfoItem \<Rightarrow> MappedContainer \<Rightarrow> MappedContainer" where
  "add_shl_path item c = c\<lparr>shltab := (shltab c)(shl_addr item \<mapsto> shl_path item)\<rparr>"

definition alloc_SymbolTableUpdater ::
    "(nat \<Rightarrow> bool) \<Rightarrow> CallStackInfoItem \<Rightarrow> nat \<times> MappedContainer \<Rightarrow> (nat \<times> MappedContainer) outcome" where
  "alloc_SymbolTableUpdater grants item kc =
     (case symtab (snd kc) (ip item) of
        None \<Rightarrow>
          and_then (with_alloc grants id kc) (\<lambda>kc.
          and_then (with_alloc grants (add_symbol item) kc) (\<lambda>kc.
            case shltab (snd kc) (shl_addr item) of
              None \<Rightarrow> and_then (with_alloc grants id kc) (with_alloc grants (add_shl_path item))
            | Some _ \<Rightarrow> Returned kc))
      | Some _ \<Rightarrow> Returned kc)"

definition add_record :: "addr \<Rightarrow> usize \<Rightarrow> CallStackInfo \<Rightarrow> time \<Rightarrow> MappedContainer \<Rightarrow> MappedContainer" where
  "add_record a n cs t c =
     c\<lparr>indexed_container := fst (ic_emplace (new_BasicTraceInfo a n t cs) (indexed_container c))\<rparr>"

definition alloc_Add ::
    "(nat \<Rightarrow> bool) \<Rightarrow> addr \<Rightarrow> usize \<Rightarrow> CallStackInfo \<Rightarrow> time \<Rightarrow> nat \<Rightarrow> BasicMappedStorage \<Rightarrow>
     (nat \<times> BasicMappedStorage) outcome" where
  "alloc_Add grants a n cs t k st =
     map_outcome (\<lambda>(k, c). (k, st\<lparr>m_container := c\<rparr>))
       (and_then (for_each (alloc_SymbolTableUpdater grants) cs (k, m_container st))
          (with_alloc grants (add_record a n cs t)))"

subsection \<open>What a call that throws leaves behind\<close>

text \<open>
  \<open>between c c' d\<close>: on the way from \<open>c\<close> to \<open>d\<close>, the symbol tables have grown from those of
  \<open>c\<close> towards those of \<open>d\<close> and the records are those of \<open>c\<close>.
\<close>

definition between :: "MappedContainer \<Rightarrow> MappedContainer \<Rightarrow> MappedContainer \<Rightarrow> bool" where
  "between c c' d \<longleftrightarrow> symtab c \<subseteq>\<^sub>m symtab c' \<and> symtab c' \<subseteq>\<^sub>m symtab d \<and>
     shltab c \<subseteq>\<^sub>m shltab c' \<and> shltab c' \<subseteq>\<^sub>m shltab d \<and> indexed_container c' = indexed_container c"

lemma SymbolTableUpdater_grows: "between c (SymbolTableUpdater i c) (SymbolTableUpdater i c)"
  by (auto simp: between_def SymbolTableUpdater_def Let_def map_le_def split: option.split)

lemma between_trans: "between c c' d \<Longrightarrow> between c' e d' \<Longrightarrow> between d d' d' \<Longrightarrow> between c e d'"
  unfolding between_def by (metis map_le_trans)

lemma between_refl: "between c c c"
  by (simp add: between_def)

lemma fold_SymbolTableUpdater_grows:
  "between c (fold SymbolTableUpdater cs c) (fold SymbolTableUpdater cs c)"
proof (induction cs arbitrary: c)
  case (Cons i cs)
  from between_trans [OF SymbolTableUpdater_grows Cons.IH Cons.IH] show ?case by simp
qed (simp add: between_refl)

lemma less_Suc_refused:
  "\<not> P k \<Longrightarrow> \<exists>j<Suc k. k \<le> j \<and> \<not> P j" "\<not> P (Suc k) \<Longrightarrow> \<exists>j<Suc (Suc k). k \<le> j \<and> \<not> P j"
  "\<not> P (Suc (Suc k)) \<Longrightarrow> \<exists>j<Suc (Suc (Suc k)). k \<le> j \<and> \<not> P j"
  "\<not> P (Suc (Suc (Suc k))) \<Longrightarrow> \<exists>j<Suc (Suc (Suc (Suc k))). k \<le> j \<and> \<not> P j"
  by (meson le_SucI lessI order_refl)+

lemma alloc_SymbolTableUpdater_cases:
  "case alloc_SymbolTableUpdater grants i (k, c) of
     Returned (k', c') \<Rightarrow> c' = SymbolTableUpdater i c \<and> k \<le> k'
   | Threw (k', c') \<Rightarrow> between c c' (SymbolTableUpdater i c) \<and> (\<exists>j<k'. k \<le> j \<and> \<not> grants j)"
proof (cases "symtab c (ip i)")
  case None
  have sub: "symtab c \<subseteq>\<^sub>m (symtab c)(ip i \<mapsto> v)" for v using None by (auto simp: map_le_def)
  show ?thesis
  proof (cases "shltab c (shl_addr i)")
    case N: None
    have "shltab c \<subseteq>\<^sub>m (shltab c)(shl_addr i \<mapsto> v)" for v using N by (auto simp: map_le_def)
    with sub None N show ?thesis
      by (simp add: alloc_SymbolTableUpdater_def with_alloc_def SymbolTableUpdater_def add_symbol_def
          add_shl_path_def between_def Let_def less_Suc_refused)
  qed (use None sub in \<open>simp add: alloc_SymbolTableUpdater_def with_alloc_def SymbolTableUpdater_def
      add_symbol_def between_def Let_def less_Suc_refused\<close>)
qed (simp add: alloc_SymbolTableUpdater_def SymbolTableUpdater_def)

lemma for_each_SymbolTableUpdater_cases:
  "case for_each (alloc_SymbolTableUpdater grants) cs (k, c) of
     Returned (k', c') \<Rightarrow> c' = fold SymbolTableUpdater cs c \<and> k \<le> k'
   | Threw (k', c') \<Rightarrow> between c c' (fold SymbolTableUpdater cs c) \<and> (\<exists>j<k'. k \<le> j \<and> \<not> grants j)"
proof (induction cs arbitrary: k c)
  case (Cons i cs)
  show ?case
  proof (cases "alloc_SymbolTableUpdater grants i (k, c)")
    case (Returned kc)
    with alloc_SymbolTableUpdater_cases [where grants = grants and i = i and k = k and c = c] obtain k1 where
      k1: "kc = (k1, SymbolTableUpdater i c)" "k \<le> k1" by (auto split: prod.splits)
    with Returned Cons.IH [of "SymbolTableUpdater i c" k1] show ?thesis
      by (auto split: outcome.splits dest: order_trans
          intro: between_trans [OF SymbolTableUpdater_grows _ fold_SymbolTableUpdater_grows])
  next
    case (Threw kc)
    with alloc_SymbolTableUpdater_cases [where grants = grants and i = i and k = k and c = c]
    have "between c (snd kc) (SymbolTableUpdater i c)" "\<exists>j<fst kc. k \<le> j \<and> \<not> grants j"
      by (auto split: prod.splits)
    moreover from this(1) have "between c (snd kc) (fold SymbolTableUpdater (i # cs) c)"
      using fold_SymbolTableUpdater_grows [of "SymbolTableUpdater i c" cs]
      unfolding between_def by (auto dest: map_le_trans)
    ultimately show ?thesis using Threw by (cases kc) simp
  qed
qed (simp add: between_refl)

lemma alloc_Add_returned:
  assumes "alloc_Add grants a n cs t k st = Returned (k', st')"
  shows "st' = bms_Add a n cs t st" and "k \<le> k'"
  using assms for_each_SymbolTableUpdater_cases [where grants = grants and cs = cs and k = k and c = "m_container st"]
  by (cases "for_each (alloc_SymbolTableUpdater grants) cs (k, m_container st)";
      auto simp: alloc_Add_def bms_Add_def with_alloc_def add_record_def Let_def split: if_splits)+

lemma alloc_Add_threw:
  assumes "alloc_Add grants a n cs t k st = Threw (k', st')"
  shows "between (m_container st) (m_container st') (m_container (bms_Add a n cs t st))"
    and "\<exists>j<k'. k \<le> j \<and> \<not> grants j" and "m_name st' = m_name st" and "m_size st' = m_size st"
proof -
  let ?r = "for_each (alloc_SymbolTableUpdater grants) cs (k, m_container st)"
  have b: "between (m_container st) c (fold SymbolTableUpdater cs (m_container st)) \<Longrightarrow>
      between (m_container st) c (m_container (bms_Add a n cs t st))" for c
    by (simp add: between_def bms_Add_def Let_def)
  have "between (m_container st) (m_container st') (m_container (bms_Add a n cs t st)) \<and>
      (\<exists>j<k'. k \<le> j \<and> \<not> grants j) \<and> m_name st' = m_name st \<and> m_size st' = m_size st"
  proof (cases ?r)
    case (Returned kc)
    with for_each_SymbolTableUpdater_cases [where grants = grants and cs = cs and k = k and c = "m_container st"]
    have "snd kc = fold SymbolTableUpdater cs (m_container st)" "k \<le> fst kc" by (auto split: prod.splits)
    with assms Returned b [OF fold_SymbolTableUpdater_grows] show ?thesis
      by (auto simp: alloc_Add_def with_alloc_def split: if_splits intro!: exI [of _ "fst kc"])
  next
    case (Threw kc)
    with for_each_SymbolTableUpdater_cases [where grants = grants and cs = cs and k = k and c = "m_container st"]
      assms b show ?thesis by (auto simp: alloc_Add_def)
  qed
  then show "between (m_container st) (m_container st') (m_container (bms_Add a n cs t st))"
    "\<exists>j<k'. k \<le> j \<and> \<not> grants j" "m_name st' = m_name st" "m_size st' = m_size st" by blast+
qed

locale throwing_storage = mapped_storage +
  fixes grants :: "nat \<Rightarrow> bool"
    and xadd :: "addr \<Rightarrow> usize \<Rightarrow> CallStackInfo \<Rightarrow> time \<Rightarrow> nat \<Rightarrow> 'a \<Rightarrow> (nat \<times> 'a) outcome"
  assumes xadd_returned: "xadd a n cs t k s = Returned (k', s') \<Longrightarrow> s' = s_Add ops a n cs t s"
    and xadd_count: "xadd a n cs t k s = Returned (k', s') \<Longrightarrow> k \<le> k'"
    and xadd_threw: "sinv s \<Longrightarrow> xadd a n cs t k s = Threw (k', s') \<Longrightarrow> tbl s' = tbl s \<and> sinv s'"
    and xadd_refused: "xadd a n cs t k s = Threw (k', s') \<Longrightarrow> \<exists>j\<ge>k. \<not> grants j"

interpretation alloc: throwing_storage bms_ops bms_tbl bms_inv grants "alloc_Add grants" for grants
proof unfold_locales
  fix a n cs t k k' and s s' :: BasicMappedStorage
  show "alloc_Add grants a n cs t k s = Returned (k', s') \<Longrightarrow> s' = s_Add bms_ops a n cs t s"
    by (simp add: bms_ops_def alloc_Add_returned)
  show "alloc_Add grants a n cs t k s = Returned (k', s') \<Longrightarrow> k \<le> k'"
    by (rule alloc_Add_returned(2))
  show "bms_tbl s' = bms_tbl s \<and> bms_inv s'" if "bms_inv s" "alloc_Add grants a n cs t k s = Threw (k', s')"
    using alloc_Add_threw(1) [OF that(2)] that(1) by (simp add: between_def bms_tbl_def bms_inv_def)
  show "alloc_Add grants a n cs t k s = Threw (k', s') \<Longrightarrow> \<exists>j\<ge>k. \<not> grants j"
    using alloc_Add_threw(2) by blast
qed

text \<open>
  C16. Adding a record is all or nothing, wherever the segment runs out of space: if \<^verbatim>\<open>Add\<close>
  returns, the storage is the one the unbounded \<^verbatim>\<open>Add\<close> gives; if it throws, then some request was
  refused, no record was added, changed or lost, and the symbol tables have grown at most
  towards what the whole call would have stored. In particular it never throws on a segment that
  grants what is asked.
\<close>

theorem add_all_or_nothing:
  "case alloc_Add grants a n cs t k st of
     Returned (k', st') \<Rightarrow> st' = bms_Add a n cs t st
   | Threw (k', st') \<Rightarrow> bms_tbl st' = bms_tbl st \<and> (\<exists>j<k'. k \<le> j \<and> \<not> grants j) \<and>
       between (m_container st) (m_container st') (m_container (bms_Add a n cs t st))"
proof (cases "alloc_Add grants a n cs t k st")
  case (Returned ks)
  then show ?thesis using alloc_Add_returned(1) by (cases ks) fastforce
next
  case (Threw ks)
  with alloc_Add_threw [of grants a n cs t k st "fst ks" "snd ks"] show ?thesis
    by (auto simp: between_def bms_tbl_def split: prod.split)
qed

text \<open>
  The two tables are not updated as one: when the path of a frame's object is refused after its
  symbol was stored, the instruction pointer counts as known, and however often call stacks of
  this instruction pointer are added later, on a segment that has space again, the path is not
  stored.
\<close>

lemma known_ip_keeps_shltab:
  assumes "\<And>i. i \<in> set cs \<Longrightarrow> symtab c (ip i) \<noteq> None"
  shows "fold SymbolTableUpdater cs c = c"
  using assms
proof (induction cs)
  case (Cons i cs)
  then have "symtab c (ip i) \<noteq> None" by simp
  then have "SymbolTableUpdater i c = c" by (auto simp: SymbolTableUpdater_def)
  with Cons show ?case by simp
qed simp

lemma do_op_known_ip:
  assumes "\<And>a n cs t i. x = OpAdd a n cs t \<Longrightarrow> i \<in> set cs \<Longrightarrow> symtab (m_container st) (ip i) \<noteq> None"
  shows "symtab (m_container (do_op bms_ops x st)) = symtab (m_container st) \<and>
         shltab (m_container (do_op bms_ops x st)) = shltab (m_container st)"
proof (cases x)
  case (OpAdd a n cs t)
  then have "fold SymbolTableUpdater cs (m_container st) = m_container st"
    using assms by (intro known_ip_keeps_shltab) blast
  with OpAdd show ?thesis by (simp add: bms_ops_def bms_Add_def Let_def)
qed (simp_all add: bms_ops_def bms_Remove_def bms_UpdateSize_def bms_Clear_def bms_Flush_def Let_def
    split: option.split)

theorem shl_path_lost:
  assumes "symtab (m_container st) (ip i) = None" and "shltab (m_container st) (shl_addr i) = None"
    and "grants k" and "grants (Suc k)" and "\<not> grants (Suc (Suc k))"
  shows "\<exists>k' st'. alloc_Add grants a n (i # cs) t k st = Threw (k', st') \<and>
           (\<forall>xs. (\<forall>a n cs t. OpAdd a n cs t \<in> set xs \<longrightarrow> (\<forall>f\<in>set cs. ip f = ip i)) \<longrightarrow>
              shltab (m_container (run_ops bms_ops xs st')) (shl_addr i) = None)"
proof -
  define st' where "st' = st\<lparr>m_container := add_symbol i (m_container st)\<rparr>"
  have "alloc_Add grants a n (i # cs) t k st = Threw (Suc (Suc (Suc k)), st')"
    using assms by (simp add: alloc_Add_def alloc_SymbolTableUpdater_def with_alloc_def st'_def add_symbol_def)
  moreover have "shltab (m_container (run_ops bms_ops xs u)) (shl_addr i) = None"
    if "\<forall>a n cs t. OpAdd a n cs t \<in> set xs \<longrightarrow> (\<forall>f\<in>set cs. ip f = ip i)"
      "symtab (m_container u) (ip i) \<noteq> None" "shltab (m_container u) (shl_addr i) = None" for xs u
    using that
  proof (induction xs arbitrary: u)
    case (Cons x xs)
    have "symtab (m_container (do_op bms_ops x u)) = symtab (m_container u) \<and>
        shltab (m_container (do_op bms_ops x u)) = shltab (m_container u)"
      using Cons.prems(1,2) by (intro do_op_known_ip) (metis list.set_intros(1))
    with Cons.IH [of "do_op bms_ops x u"] Cons.prems show ?case by (fastforce simp: run_ops_def)
  qed (simp add: run_ops_def)
  moreover have "symtab (m_container st') (ip i) \<noteq> None" "shltab (m_container st') (shl_addr i) = None"
    using assms(2) by (simp_all add: st'_def add_symbol_def)
  ultimately show ?thesis by blast
qed

end
