(* ===== verification/Engine_Exceptions.thy ===== *)
theory Engine_Exceptions
  imports Bounded_Storage Engine
begin

text \<open>
  The engine (\<^verbatim>\<open>src/memhook/engine.cpp\<close>) on a storage whose \<^verbatim>\<open>Add\<close> may throw: the functions that
  reach \<^verbatim>\<open>m_storage->Add\<close>, with the exception as a second way to end. \<open>xadd\<close> is the storage's
  \<^verbatim>\<open>Add\<close>, as in \<^verbatim>\<open>Bounded_Storage\<close>; it counts the requests of the segment, and the count is
  passed along. The records' call stacks are resolved in the cache itself
  (\<^verbatim>\<open>const_cast<TraceInfo &>\<close>), which matters here because a flush that ends with an exception does
  not reach the erasure of what it has stored.

  The hooks are \<^verbatim>\<open>MEMHOOK_NOEXCEPT\<close> (\<^verbatim>\<open>src/memhook/common.h\<close>): on a compiler with
  \<^verbatim>\<open>noexcept\<close> an exception that reaches them is \<^verbatim>\<open>std::terminate\<close>, on one without it leaves them.
\<close>

fun xflush_items ::
    "(addr \<Rightarrow> usize \<Rightarrow> CallStackInfo \<Rightarrow> time \<Rightarrow> nat \<Rightarrow> 's \<Rightarrow> (nat \<times> 's) outcome) \<Rightarrow> unw_env \<Rightarrow>
     CallStackUnwindProcInfoPolicy \<Rightarrow> EngineTraceInfo list \<Rightarrow>
     nat \<Rightarrow> 's Engine \<Rightarrow> 's \<Rightarrow> (nat \<times> 's Engine \<times> 's) outcome option" where
  "xflush_items xadd env policy [] k e s = Some (Returned (k, e, s))"
| "xflush_items xadd env policy (x # xs) k e s =
     do { (cs, u) \<leftarrow> (if policy = kFlushLocalCacheWhen
                     then do { v \<leftarrow> m_callstack_unwinder e;
                               (cs, v) \<leftarrow> GetCallStackUnwindProcInfo env (e_callstack x) v;
                               Some (cs, Some v) }
                     else Some (e_callstack x, m_callstack_unwinder e));
          let e = e\<lparr>m_callstack_unwinder := u,
                    m_cache := ic_modify (address x) (\<lambda>y. y\<lparr>e_callstack := cs\<rparr>) (m_cache e)\<rparr>;
          case xadd (address x) (memsize x) cs (timestamp x) k s of
            Returned (k, s) \<Rightarrow> xflush_items xadd env policy xs k e s
          | Threw (k, s) \<Rightarrow> Some (Threw (k, e, s)) }"

definition xFlushLocalCache ::
    "'s storage_ops \<Rightarrow> (addr \<Rightarrow> usize \<Rightarrow> CallStackInfo \<Rightarrow> time \<Rightarrow> nat \<Rightarrow> 's \<Rightarrow> (nat \<times> 's) outcome) \<Rightarrow>
     unw_env \<Rightarrow> time \<Rightarrow> int \<Rightarrow> bool \<Rightarrow> nat \<Rightarrow> 's Engine \<Rightarrow> (nat \<times> 's Engine) outcome option" where
  "xFlushLocalCache ops xadd env now timeout dump_all k e =
     (case m_storage e of
        None \<Rightarrow> Some (Returned (k, e))
      | Some s \<Rightarrow>
          (let items = flush_range now timeout dump_all e
           in do { r \<leftarrow> xflush_items xadd env (m_getprocinfo_policy e) items k e s;
                   Some (case r of
                     Returned (k, e, s) \<Rightarrow>
                       Returned (k, e\<lparr>m_storage := Some (if items \<noteq> [] then s_Flush ops s else s),
                         m_cache := filter (\<lambda>x. address x \<notin> address ` set items) (m_cache e)\<rparr>)
                   | Threw (k, e, s) \<Rightarrow> Threw (k, e\<lparr>m_storage := Some s\<rparr>)) }))"

definition xDoHookAlloc ::
    "'s storage_ops \<Rightarrow> (addr \<Rightarrow> usize \<Rightarrow> CallStackInfo \<Rightarrow> time \<Rightarrow> nat \<Rightarrow> 's \<Rightarrow> (nat \<times> 's) outcome) \<Rightarrow>
     hook_ctx \<Rightarrow> addr \<Rightarrow> usize \<Rightarrow> nat \<Rightarrow> 's Engine \<Rightarrow> (nat \<times> 's Engine) outcome option" where
  "xDoHookAlloc ops xadd ctx mem n k e =
     (if mem = 0 then Some (Returned (k, e))
      else do { u \<leftarrow> m_callstack_unwinder e;
                (cs, u) \<leftarrow> GetCallStackInfo (c_unw ctx) (c_frames ctx) 2
                            (m_getprocinfo_policy e = kUnwindCallStackWhen) u;
                let (cache, inserted) = ic_emplace (new_EngineTraceInfo mem n (c_now ctx)) (m_cache e);
                let cache = (if inserted then ic_modify mem (\<lambda>x. x\<lparr>e_callstack := cs\<rparr>) cache else cache);
                xFlushLocalCache ops xadd (c_unw ctx) (c_now ctx) (m_cache_flush_timeout e) False k
                  (e\<lparr>m_callstack_unwinder := Some u, m_cache := cache\<rparr>) })"

definition xDoHookRealloc ::
    "'s storage_ops \<Rightarrow> (addr \<Rightarrow> usize \<Rightarrow> CallStackInfo \<Rightarrow> time \<Rightarrow> nat \<Rightarrow> 's \<Rightarrow> (nat \<times> 's) outcome) \<Rightarrow>
     hook_ctx \<Rightarrow> addr \<Rightarrow> addr \<Rightarrow> usize \<Rightarrow> nat \<Rightarrow> 's Engine \<Rightarrow> (nat \<times> 's Engine) outcome option" where
  "xDoHookRealloc ops xadd ctx old_mem new_mem n k e =
     (if old_mem = new_mem then Some (Returned (k, DoHookUpdateSize ops old_mem n e))
      else xDoHookAlloc ops xadd ctx new_mem n k (DoHookFree ops old_mem e))"

text \<open>
  \<^verbatim>\<open>OnDestroy\<close> ends with the exception of its flush; the storage then keeps its place in the
  engine, which is not deleted.
\<close>

definition xOnDestroy ::
    "'s storage_ops \<Rightarrow> (addr \<Rightarrow> usize \<Rightarrow> CallStackInfo \<Rightarrow> time \<Rightarrow> nat \<Rightarrow> 's \<Rightarrow> (nat \<times> 's) outcome) \<Rightarrow>
     unw_env \<Rightarrow> time \<Rightarrow> nat \<Rightarrow> 's Engine \<Rightarrow> ('s option \<times> (nat \<times> 's Engine) outcome) option" where
  "xOnDestroy ops xadd env now k e =
     do { r \<leftarrow> xFlushLocalCache ops xadd env now 0 True k e;
          Some (case r of
            Returned (k, e) \<Rightarrow> (m_storage e, Returned (k, e\<lparr>m_storage := None\<rparr>))
          | Threw ke \<Rightarrow> (None, Threw ke)) }"

subsection \<open>The hooks\<close>

text \<open>How a hook ends for the watched program: it returns, it is left by an exception, or the
  program is terminated, and then what is left of the engine is its storage.\<close>

datatype 's hook_end = HookReturns nat "'s Engine option" | HookThrows nat "'s Engine option" | HookTerminates "'s option"

definition MEMHOOK_NOEXCEPT :: "bool \<Rightarrow> (nat \<times> 's Engine) outcome \<Rightarrow> 's hook_end" where
  "MEMHOOK_NOEXCEPT has_noexcept r =
     (case r of
        Returned (k, e) \<Rightarrow> HookReturns k (Some e)
      | Threw (k, e) \<Rightarrow> if has_noexcept then HookTerminates (m_storage e) else HookThrows k (Some e))"

definition xHookAlloc ::
    "bool \<Rightarrow> 's storage_ops \<Rightarrow> (addr \<Rightarrow> usize \<Rightarrow> CallStackInfo \<Rightarrow> time \<Rightarrow> nat \<Rightarrow> 's \<Rightarrow> (nat \<times> 's) outcome) \<Rightarrow>
     hook_ctx \<Rightarrow> addr \<Rightarrow> usize \<Rightarrow> nat \<Rightarrow> 's Engine option \<Rightarrow> 's hook_end option" where
  "xHookAlloc has_noexcept ops xadd ctx mem n k inst =
     (case inst of
        None \<Rightarrow> Some (HookReturns k None)
      | Some e \<Rightarrow> map_option (MEMHOOK_NOEXCEPT has_noexcept) (xDoHookAlloc ops xadd ctx mem n k e))"

definition xHookRealloc ::
    "bool \<Rightarrow> 's storage_ops \<Rightarrow> (addr \<Rightarrow> usize \<Rightarrow> CallStackInfo \<Rightarrow> time \<Rightarrow> nat \<Rightarrow> 's \<Rightarrow> (nat \<times> 's) outcome) \<Rightarrow>
     hook_ctx \<Rightarrow> addr \<Rightarrow> addr \<Rightarrow> usize \<Rightarrow> nat \<Rightarrow> 's Engine option \<Rightarrow> 's hook_end option" where
  "xHookRealloc has_noexcept ops xadd ctx old_mem new_mem n k inst =
     (case inst of
        None \<Rightarrow> Some (HookReturns k None)
      | Some e \<Rightarrow> map_option (MEMHOOK_NOEXCEPT has_noexcept) (xDoHookRealloc ops xadd ctx old_mem new_mem n k e))"

text \<open>Histories of hook calls: a call that does not return is the last one.\<close>

fun xengine_step ::
    "'s storage_ops \<Rightarrow> (addr \<Rightarrow> usize \<Rightarrow> CallStackInfo \<Rightarrow> time \<Rightarrow> nat \<Rightarrow> 's \<Rightarrow> (nat \<times> 's) outcome) \<Rightarrow>
     hook_event \<Rightarrow> nat \<Rightarrow> 's Engine \<Rightarrow> (nat \<times> 's Engine) outcome option" where
  "xengine_step ops xadd (EvAlloc ctx a n) k e = xDoHookAlloc ops xadd ctx a n k e"
| "xengine_step ops xadd (EvRealloc ctx a b n) k e = xDoHookRealloc ops xadd ctx a b n k e"
| "xengine_step ops xadd ev k e = map_option (\<lambda>e. Returned (k, e)) (engine_step ops ev e)"

fun xengine_run ::
    "bool \<Rightarrow> 's storage_ops \<Rightarrow> (addr \<Rightarrow> usize \<Rightarrow> CallStackInfo \<Rightarrow> time \<Rightarrow> nat \<Rightarrow> 's \<Rightarrow> (nat \<times> 's) outcome) \<Rightarrow>
     hook_event list \<Rightarrow> nat \<Rightarrow> 's Engine \<Rightarrow> 's hook_end option" where
  "xengine_run has_noexcept ops xadd [] k e = Some (HookReturns k (Some e))"
| "xengine_run has_noexcept ops xadd (ev # evs) k e =
     do { r \<leftarrow> xengine_step ops xadd ev k e;
          case r of
            Returned (k, e) \<Rightarrow> xengine_run has_noexcept ops xadd evs k e
          | Threw ke \<Rightarrow> Some (MEMHOOK_NOEXCEPT has_noexcept (Threw ke)) }"

subsection \<open>A flush that throws\<close>

text \<open>What the loop over the records of a flush does to the rest of the engine.\<close>

definition resolves :: "EngineTraceInfo list \<Rightarrow> 's Engine \<Rightarrow> 's Engine \<Rightarrow> bool" where
  "resolves xs e e' \<longleftrightarrow> e' = e\<lparr>m_callstack_unwinder := m_callstack_unwinder e', m_cache := m_cache e'\<rparr> \<and>
     ic_inv (m_cache e') \<and> cache_tbl (m_cache e') = cache_tbl (m_cache e) \<and>
     filter (\<lambda>x. address x \<notin> address ` set xs) (m_cache e') =
       filter (\<lambda>x. address x \<notin> address ` set xs) (m_cache e)"

lemma cache_modify_callstack:
  assumes "ic_inv c" "x \<in> set c" "frames_of cs = frames_of (e_callstack x)"
  shows "cache_tbl (ic_modify (address x) (\<lambda>y. y\<lparr>e_callstack := cs\<rparr>) c) = cache_tbl c"
  using assms ic_find_mem [OF assms(1,2)]
  by (auto simp: cache_tbl_def ic.view_def ic.look_modify cache_view_def fun_eq_iff)

lemma filter_ic_modify:
  assumes "a \<in> A" "\<And>x. address (f x) = address x"
  shows "filter (\<lambda>x. address x \<notin> A) (ic_modify a f c) = filter (\<lambda>x. address x \<notin> A) c"
  using assms by (induction c) (auto simp: ic_modify_def)

lemma filter_notin_insert:
  "filter (\<lambda>x. f x \<notin> A) xs = filter (\<lambda>x. f x \<notin> A) ys \<Longrightarrow>
   filter (\<lambda>x. f x \<notin> insert a A) xs = filter (\<lambda>x. f x \<notin> insert a A) ys"
proof -
  have "filter (\<lambda>x. f x \<notin> insert a A) zs = filter (\<lambda>x. f x \<noteq> a) (filter (\<lambda>x. f x \<notin> A) zs)" for zs
    by (induction zs) auto
  then show "filter (\<lambda>x. f x \<notin> A) xs = filter (\<lambda>x. f x \<notin> A) ys \<Longrightarrow> ?thesis" by (simp only:)
qed

lemma resolves_step:
  assumes "ic_inv (m_cache e)" "x \<in> set (m_cache e)" "frames_of cs = frames_of (e_callstack x)"
    and "e1 = e\<lparr>m_callstack_unwinder := u,
           m_cache := ic_modify (address x) (\<lambda>y. y\<lparr>e_callstack := cs\<rparr>) (m_cache e)\<rparr>"
  shows "resolves (x # xs) e e1" and "resolves xs e1 e' \<Longrightarrow> resolves (x # xs) e e'"
proof -
  let ?A = "address ` set (x # xs)"
  have f: "filter (\<lambda>y. address y \<notin> ?A) (m_cache e1) = filter (\<lambda>y. address y \<notin> ?A) (m_cache e)"
    using filter_ic_modify [of "address x" ?A "\<lambda>y. y\<lparr>e_callstack := cs\<rparr>" "m_cache e"] by (simp add: assms(4))
  have t: "cache_tbl (m_cache e1) = cache_tbl (m_cache e)"
    using cache_modify_callstack [OF assms(1-3)] by (simp add: assms(4))
  show "resolves (x # xs) e e1"
    using f t assms(1) by (simp add: resolves_def assms(4) ic.invar_modify)
  assume r: "resolves xs e1 e'"
  then have "filter (\<lambda>y. address y \<notin> ?A) (m_cache e') = filter (\<lambda>y. address y \<notin> ?A) (m_cache e1)"
    using filter_notin_insert [of address "address ` set xs" "m_cache e'" "m_cache e1" "address x"]
    by (simp add: resolves_def)
  moreover have "e' = e\<lparr>m_callstack_unwinder := m_callstack_unwinder e', m_cache := m_cache e'\<rparr>"
    using r by (cases e; cases e') (simp add: resolves_def assms(4))
  ultimately show "resolves (x # xs) e e'" using r f t by (simp add: resolves_def)
qed

context throwing_storage
begin

lemma xflush_items_cases:
  assumes "sinv s" "ic_inv xs" "dom (tbl s) \<inter> address ` set xs = {}"
    and "unwinder_ready (m_callstack_unwinder e)" "ic_inv (m_cache e)" "set xs \<subseteq> set (m_cache e)"
  shows "\<exists>r. xflush_items xadd env policy xs k e s = Some r \<and>
    (case r of
       Returned (k', e', s') \<Rightarrow> k \<le> k' \<and> resolves xs e e' \<and>
         flush_items ops env policy xs (m_callstack_unwinder e) s = Some (m_callstack_unwinder e', s')
     | Threw (k', e', s') \<Rightarrow> resolves xs e e' \<and> sinv s' \<and> unwinder_ready (m_callstack_unwinder e') \<and>
         (\<exists>j\<ge>k. \<not> grants j) \<and>
         (\<exists>ys zs. xs = ys @ zs \<and> zs \<noteq> [] \<and> tbl s' = tbl s ++ cache_tbl ys))"
  using assms
proof (induction xs arbitrary: k e s)
  case Nil
  then show ?case by (simp add: resolves_def)
next
  case (Cons x xs)
  from Cons.prems(4) obtain v where v: "m_callstack_unwinder e = Some v" "0 < m_cache_max_size v"
    by (auto simp: unwinder_ready_def split: option.splits)
  obtain cs w where w: "GetCallStackUnwindProcInfo env (e_callstack x) v = Some (cs, w)"
      "m_cache_max_size w = m_cache_max_size v" "frames_of cs = frames_of (e_callstack x)"
    using GetCallStackUnwindProcInfo_defined [OF v(2), of env "e_callstack x"]
    by (auto simp: frames_of_def)
  define cs' u' where "cs' = (if policy = kFlushLocalCacheWhen then cs else e_callstack x)"
    and "u' = (if policy = kFlushLocalCacheWhen then Some w else m_callstack_unwinder e)"
  define e1 where "e1 = e\<lparr>m_callstack_unwinder := u',
      m_cache := ic_modify (address x) (\<lambda>y. y\<lparr>e_callstack := cs'\<rparr>) (m_cache e)\<rparr>"
  have ready: "unwinder_ready u'" using v w(2) by (simp add: u'_def unwinder_ready_def)
  have frames: "frames_of cs' = frames_of (e_callstack x)" using w(3) by (simp add: cs'_def)
  note res = resolves_step [OF Cons.prems(5) _ frames e1_def]
  have x: "x \<in> set (m_cache e)" using Cons.prems(6) by simp
  have step: "xflush_items xadd env policy (x # xs) k e s =
      (case xadd (address x) (memsize x) cs' (timestamp x) k s of
         Returned (k, s) \<Rightarrow> xflush_items xadd env policy xs k e1 s
       | Threw (k, s) \<Rightarrow> Some (Threw (k, e1, s)))"
    using v w by (simp add: cs'_def u'_def e1_def Let_def split: outcome.split prod.split)
  show ?case
  proof (cases "xadd (address x) (memsize x) cs' (timestamp x) k s")
    case (Threw ks)
    obtain k' s' where ks: "ks = (k', s')" by (cases ks)
    have "tbl s' = tbl s \<and> sinv s'" "\<exists>j\<ge>k. \<not> grants j"
      using xadd_threw [OF Cons.prems(1)] xadd_refused Threw ks by blast+
    moreover have "\<exists>ys zs. x # xs = ys @ zs \<and> zs \<noteq> [] \<and> tbl s = tbl s ++ cache_tbl ys"
      by (rule exI [of _ "[]"]) simp
    moreover have "m_callstack_unwinder e1 = u'" by (simp add: e1_def)
    ultimately show ?thesis using Threw ks res(1) [OF x] ready unfolding step by simp
  next
    case (Returned ks)
    obtain k' s' where ks: "ks = (k', s')" by (cases ks)
    have s': "s' = s_Add ops (address x) (memsize x) cs' (timestamp x) s"
      using xadd_returned Returned ks by blast
    have tbl': "tbl s' = (tbl s)(address x \<mapsto> cache_view x)"
      using Cons.prems(1,3) frames by (auto simp: s' tbl_Add tbl_add_def cache_view_def domIff)
    have fl: "flush_items ops env policy (x # xs) (m_callstack_unwinder e) s =
        flush_items ops env policy xs (m_callstack_unwinder e1) s'"
      using v w by (simp add: cs'_def u'_def s' e1_def)
    have "\<exists>r. xflush_items xadd env policy xs k' e1 s' = Some r \<and>
      (case r of
         Returned (k'', e', t) \<Rightarrow> k' \<le> k'' \<and> resolves xs e1 e' \<and>
           flush_items ops env policy xs (m_callstack_unwinder e1) s' = Some (m_callstack_unwinder e', t)
       | Threw (_, e', t) \<Rightarrow> resolves xs e1 e' \<and> sinv t \<and> unwinder_ready (m_callstack_unwinder e') \<and>
           (\<exists>j\<ge>k'. \<not> grants j) \<and>
           (\<exists>ys zs. xs = ys @ zs \<and> zs \<noteq> [] \<and> tbl t = tbl s' ++ cache_tbl ys))"
    proof (rule Cons.IH)
      show "sinv s'" using Cons.prems(1) by (simp add: s' sinv_Add)
      show "dom (tbl s') \<inter> address ` set xs = {}"
        unfolding tbl' using Cons.prems(2,3) by (auto simp: ic_inv_def)
      show "set xs \<subseteq> set (m_cache e1)"
        using Cons.prems(2,6) by (fastforce simp: e1_def ic_modify_def ic_inv_def image_iff)
    qed (use Cons.prems ready in \<open>simp_all add: e1_def ic_inv_def ic.invar_modify [unfolded ic_inv_def]\<close>)
    moreover have "\<exists>ys' zs. x # xs = ys' @ zs \<and> zs \<noteq> [] \<and> tbl t = tbl s ++ cache_tbl ys'"
      if "xs = ys @ zs" "zs \<noteq> []" "tbl t = tbl s' ++ cache_tbl ys" for t ys zs
    proof (intro exI conjI)
      have "address x \<notin> dom (cache_tbl ys)" using Cons.prems(2) that(1) by (auto simp: ic_inv_def dom_cache_tbl)
      then show "tbl t = tbl s ++ cache_tbl (x # ys)"
        unfolding that(3) tbl' cache_tbl_Cons by (simp add: map_add_upd_left)
    qed (use that in simp_all)
    moreover have "\<exists>j\<ge>k. \<not> grants j" if "\<exists>j\<ge>k'. \<not> grants j"
      using that xadd_count Returned ks by (meson order_trans)
    moreover have "k \<le> k'" using xadd_count Returned ks by blast
    ultimately show ?thesis
      using Returned ks step fl res(2) [OF x] by (fastforce split: outcome.splits)
  qed
qed


end

text \<open>
  \<open>cut_short\<close>: the engine after a flush that threw. A first part of the records is in the
  storage, all of them are still in the cache.
\<close>

definition cut_short :: "('s \<Rightarrow> table) \<Rightarrow> ('s \<Rightarrow> bool) \<Rightarrow> 's Engine \<Rightarrow> 's Engine \<Rightarrow> bool" where
  "cut_short tbl sinv e e' \<longleftrightarrow>
     ic_inv (m_cache e') \<and> cache_tbl (m_cache e') = cache_tbl (m_cache e) \<and>
     unwinder_ready (m_callstack_unwinder e') \<and>
     (\<exists>s s' ys. m_storage e = Some s \<and> m_storage e' = Some s' \<and> sinv s' \<and>
        cache_tbl ys \<subseteq>\<^sub>m cache_tbl (m_cache e) \<and> tbl s' = tbl s ++ cache_tbl ys)"

lemma cache_tbl_subset:
  "ic_inv c \<Longrightarrow> ic_inv l \<Longrightarrow> set l \<subseteq> set c \<Longrightarrow> cache_tbl l \<subseteq>\<^sub>m cache_tbl c"
  by (auto simp: map_le_def dom_cache_tbl cache_tbl_mem)

lemma map_add_absorb: "m \<subseteq>\<^sub>m n \<Longrightarrow> m ++ n = n"
  by (metis map_add_le_mapE map_le_antisym map_le_map_add map_add_le_mapI map_le_refl)

lemma map_add_mono_right:
  assumes "dom m \<inter> dom n = {}" "l \<subseteq>\<^sub>m n"
  shows "m ++ l \<subseteq>\<^sub>m m ++ n" "m \<subseteq>\<^sub>m m ++ l"
proof -
  have "dom l \<subseteq> dom n" using assms(2) by (rule map_le_implies_dom_le)
  then have "dom m \<inter> dom l = {}" using assms(1) by blast
  then have l: "m ++ l = l ++ m" by (rule map_add_comm)
  then show "m \<subseteq>\<^sub>m m ++ l" by simp
  have "l \<subseteq>\<^sub>m m ++ n" using assms(2) map_le_map_add by (rule map_le_trans)
  moreover have "m \<subseteq>\<^sub>m m ++ n" using map_add_comm [OF assms(1)] by simp
  ultimately show "m ++ l \<subseteq>\<^sub>m m ++ n" by (simp add: map_add_le_mapI)
qed

lemma cut_short_table:
  assumes "cut_short tbl sinv e e'" "engine_inv tbl sinv e"
  shows "etable tbl e' = etable tbl e" and "stable tbl e \<subseteq>\<^sub>m stable tbl e'"
    and "stable tbl e' \<subseteq>\<^sub>m etable tbl e"
proof -
  from assms(1) obtain s s' ys where s: "m_storage e = Some s" "m_storage e' = Some s'"
      "cache_tbl ys \<subseteq>\<^sub>m cache_tbl (m_cache e)" "tbl s' = tbl s ++ cache_tbl ys"
      "cache_tbl (m_cache e') = cache_tbl (m_cache e)"
    unfolding cut_short_def by blast
  have "tbl s ++ cache_tbl ys ++ cache_tbl (m_cache e) = tbl s ++ cache_tbl (m_cache e)"
    using map_add_absorb [OF s(3)] by (simp flip: map_add_assoc)
  with s show "etable tbl e' = etable tbl e" by (simp add: etable_def)
  have "dom (tbl s) \<inter> dom (cache_tbl (m_cache e)) = {}" using assms(2) s(1) by (simp add: engine_inv_def)
  from map_add_mono_right [OF this s(3)] s show "stable tbl e \<subseteq>\<^sub>m stable tbl e'"
    "stable tbl e' \<subseteq>\<^sub>m etable tbl e" by (simp_all add: stable_def etable_def)
qed

text \<open>
  How an operation on a bounded segment may end: as the operation \<open>plain\<close> that finds space does, or
  with an exception, after a refused request, on the way to the table \<open>target\<close>.
\<close>

definition ends_as ::
    "('s \<Rightarrow> table) \<Rightarrow> ('s \<Rightarrow> bool) \<Rightarrow> (nat \<Rightarrow> bool) \<Rightarrow> nat \<Rightarrow> 's Engine option \<Rightarrow> table \<Rightarrow>
     (nat \<times> 's Engine) outcome \<Rightarrow> bool" where
  "ends_as tbl sinv grants k plain target r \<longleftrightarrow>
     (case r of
        Returned (k', e') \<Rightarrow> k \<le> k' \<and> plain = Some e'
      | Threw (k', e') \<Rightarrow> (\<exists>j\<ge>k. \<not> grants j) \<and>
          (\<exists>e1. cut_short tbl sinv e1 e' \<and> engine_inv tbl sinv e1 \<and> etable tbl e1 = target))"

lemma ends_as_simps [simp]:
  "ends_as tbl sinv grants k plain target (Returned (k', e')) \<longleftrightarrow> k \<le> k' \<and> plain = Some e'"
  "ends_as tbl sinv grants k plain target (Threw (k', e')) \<longleftrightarrow> (\<exists>j\<ge>k. \<not> grants j) \<and>
     (\<exists>e1. cut_short tbl sinv e1 e' \<and> engine_inv tbl sinv e1 \<and> etable tbl e1 = target)"
  by (simp_all add: ends_as_def)

context throwing_storage
begin

lemma xFlushLocalCache_cases:
  assumes inv: "engine_inv tbl sinv e"
  shows "\<exists>r. xFlushLocalCache ops xadd env now timeout all k e = Some r \<and>
           ends_as tbl sinv grants k (FlushLocalCache ops env now timeout all e) (etable tbl e) r"
proof (cases "m_storage e")
  case None
  then show ?thesis by (simp add: xFlushLocalCache_def FlushLocalCache_def)
next
  case (Some s)
  let ?items = "flush_range now timeout all e"
  from inv Some have s: "sinv s" "ic_inv (m_cache e)" "unwinder_ready (m_callstack_unwinder e)"
      "dom (tbl s) \<inter> address ` set (m_cache e) = {}"
    by (auto simp: engine_inv_def dom_cache_tbl)
  have items: "ic_inv ?items" "dom (tbl s) \<inter> address ` set ?items = {}"
    using ic_inv_subrange [OF s(2)] s(4) flush_range_subset [of now timeout all e] by blast+
  obtain r where r: "xflush_items xadd env (m_getprocinfo_policy e) ?items k e s = Some r"
    "case r of
       Returned (k', e', s') \<Rightarrow> k \<le> k' \<and> resolves ?items e e' \<and>
         flush_items ops env (m_getprocinfo_policy e) ?items (m_callstack_unwinder e) s =
           Some (m_callstack_unwinder e', s')
     | Threw (k', e', s') \<Rightarrow> resolves ?items e e' \<and> sinv s' \<and> unwinder_ready (m_callstack_unwinder e') \<and>
         (\<exists>j\<ge>k. \<not> grants j) \<and> (\<exists>ys zs. ?items = ys @ zs \<and> zs \<noteq> [] \<and> tbl s' = tbl s ++ cache_tbl ys)"
    using xflush_items_cases [OF s(1) items s(3,2) flush_range_subset] by blast
  show ?thesis
  proof (cases r)
    case (Returned kes)
    obtain k' e' s' where kes: "kes = (k', e', s')" by (cases kes)
    with r Returned have e': "k \<le> k'" "resolves ?items e e'"
      "flush_items ops env (m_getprocinfo_policy e) ?items (m_callstack_unwinder e) s =
           Some (m_callstack_unwinder e', s')" by simp_all
    have "e\<lparr>m_storage := v, m_callstack_unwinder := m_callstack_unwinder e',
          m_cache := filter (\<lambda>x. address x \<notin> address ` set ?items) (m_cache e)\<rparr> =
        e'\<lparr>m_storage := v, m_cache := filter (\<lambda>x. address x \<notin> address ` set ?items) (m_cache e')\<rparr>" for v
      using e'(2) by (cases e; cases e') (simp add: resolves_def)
    with r(1) Returned kes e'(1,3) Some show ?thesis
      by (simp add: xFlushLocalCache_def FlushLocalCache_def Let_def)
  next
    case (Threw kes)
    obtain k' e' s' where kes: "kes = (k', e', s')" by (cases kes)
    with r Threw obtain ys zs where e': "resolves ?items e e'" "sinv s'" "unwinder_ready (m_callstack_unwinder e')"
      "\<exists>j\<ge>k. \<not> grants j" "?items = ys @ zs" "tbl s' = tbl s ++ cache_tbl ys" by auto
    have "ic_inv ys" "set ys \<subseteq> set (m_cache e)"
      using items(1) flush_range_subset [of now timeout all e] by (simp_all add: e'(5) ic_inv_def)
    then have "cache_tbl ys \<subseteq>\<^sub>m cache_tbl (m_cache e)" using s(2) by (intro cache_tbl_subset)
    with e' Some have "cut_short tbl sinv e (e'\<lparr>m_storage := Some s'\<rparr>)"
      by (auto simp: cut_short_def resolves_def)
    with r(1) Threw kes e'(4) Some inv show ?thesis by (auto simp: xFlushLocalCache_def Let_def)
  qed
qed

lemma xDoHookAlloc_cases:
  assumes inv: "engine_inv tbl sinv e" and new: "mem = 0 \<or> etable tbl e mem = None"
  shows "\<exists>r. xDoHookAlloc ops xadd ctx mem n k e = Some r \<and>
           ends_as tbl sinv grants k (DoHookAlloc ops ctx mem n e) (spec_alloc ctx mem n (etable tbl e)) r"
proof (cases "mem = 0")
  case True
  then show ?thesis by (simp add: xDoHookAlloc_def DoHookAlloc_def)
next
  case False
  with new have "etable tbl e mem = None" by simp
  from alloc_entry_ok [OF inv this, of ctx n] obtain e1 where e1: "alloc_entry ctx mem n e = Some e1"
    "engine_inv tbl sinv e1" "etable tbl e1 = spec_alloc ctx mem n (etable tbl e)"
    using False by (auto simp: spec_alloc_def)
  have "xDoHookAlloc ops xadd ctx mem n k e =
      xFlushLocalCache ops xadd (c_unw ctx) (c_now ctx) (m_cache_flush_timeout e) False k e1"
    using False e1(1) by (auto simp: xDoHookAlloc_def alloc_entry_def case_prod_unfold Let_def bind_eq_Some_conv)
  moreover have "DoHookAlloc ops ctx mem n e =
      FlushLocalCache ops (c_unw ctx) (c_now ctx) (m_cache_flush_timeout e) False e1"
    using False e1(1) by (simp add: DoHookAlloc_entry)
  ultimately show ?thesis using xFlushLocalCache_cases [OF e1(2)] unfolding e1(3) by simp
qed

lemma xengine_step_cases:
  assumes inv: "engine_inv tbl sinv e" and ok: "event_ok ev (etable tbl e)"
  shows "\<exists>r. xengine_step ops xadd ev k e = Some r \<and>
           ends_as tbl sinv grants k (engine_step ops ev e) (spec_step ev (etable tbl e)) r"
proof -
  have other: ?thesis if "xengine_step ops xadd ev k e = map_option (\<lambda>e. Returned (k, e)) (engine_step ops ev e)"
    using engine_step_ok [OF assms] that by auto
  show ?thesis
  proof (cases ev)
    case (EvAlloc ctx a n)
    with xDoHookAlloc_cases [OF inv, of a ctx n] ok show ?thesis by simp
  next
    case (EvRealloc ctx a b n)
    show ?thesis
    proof (cases "a = b")
      case False
      have "engine_inv tbl sinv (DoHookFree ops a e)" "etable tbl (DoHookFree ops a e) = spec_free a (etable tbl e)"
        using DoHookFree_spec [OF inv] by blast+
      with xDoHookAlloc_cases [of "DoHookFree ops a e" b ctx n] EvRealloc ok False show ?thesis
        by (simp add: xDoHookRealloc_def DoHookRealloc_def)
    qed (use EvRealloc in \<open>simp add: xDoHookRealloc_def DoHookRealloc_def\<close>)
  qed (use other in simp_all)
qed

lemma xengine_run_cases:
  assumes "engine_inv tbl sinv e" "run_ok evs (etable tbl e)"
  shows "(\<exists>k' e'. xengine_run True ops xadd evs k e = Some (HookReturns k' (Some e')) \<and>
            engine_run ops evs e = Some e') \<or>
         (\<exists>s past ev rest j. xengine_run True ops xadd evs k e = Some (HookTerminates (Some s)) \<and>
            k \<le> j \<and> \<not> grants j \<and> evs = past @ ev # rest \<and> tbl s \<subseteq>\<^sub>m spec_run (past @ [ev]) (etable tbl e))"
  using assms
proof (induction evs arbitrary: k e)
  case (Cons ev evs)
  from Cons.prems(2) have ok: "event_ok ev (etable tbl e)" "run_ok evs (spec_step ev (etable tbl e))" by simp_all
  obtain r where r: "xengine_step ops xadd ev k e = Some r"
    "ends_as tbl sinv grants k (engine_step ops ev e) (spec_step ev (etable tbl e)) r"
    using xengine_step_cases [OF Cons.prems(1) ok(1)] by blast
  show ?case
  proof (cases r)
    case (Threw ke)
    obtain k' e' where ke: "ke = (k', e')" by (cases ke)
    with r(2) Threw obtain e1 j where e1: "k \<le> j" "\<not> grants j" "cut_short tbl sinv e1 e'" "engine_inv tbl sinv e1"
      "etable tbl e1 = spec_step ev (etable tbl e)" by auto
    obtain s where s: "m_storage e' = Some s" using e1(3) unfolding cut_short_def by blast
    with cut_short_table(3) [OF e1(3,4)] e1(5) have "tbl s \<subseteq>\<^sub>m spec_run ([] @ [ev]) (etable tbl e)"
      by (simp add: stable_def)
    moreover have "ev # evs = [] @ ev # evs" by simp
    moreover have "xengine_run True ops xadd (ev # evs) k e = Some (HookTerminates (Some s))"
      using r(1) Threw ke s by (simp add: MEMHOOK_NOEXCEPT_def)
    ultimately show ?thesis using e1(1,2) by metis
  next
    case (Returned ke)
    obtain k' e' where ke: "ke = (k', e')" by (cases ke)
    with r(2) Returned have e': "k \<le> k'" "engine_step ops ev e = Some e'" by simp_all
    with engine_step_ok [OF Cons.prems(1) ok(1)]
    have inv: "engine_inv tbl sinv e'" "etable tbl e' = spec_step ev (etable tbl e)" by simp_all
    have run: "xengine_run True ops xadd (ev # evs) k e = xengine_run True ops xadd evs k' e'"
      "engine_run ops (ev # evs) e = engine_run ops evs e'"
      using r(1) Returned ke e'(2) by simp_all
    have ext: "k \<le> j" "ev # evs = (ev # past) @ ev' # rest" "tbl s \<subseteq>\<^sub>m spec_run ((ev # past) @ [ev']) (etable tbl e)"
      if "k' \<le> j" "evs = past @ ev' # rest" "tbl s \<subseteq>\<^sub>m spec_run (past @ [ev']) (etable tbl e')"
      for j s past ev' rest
      using that e'(1) inv(2) by simp_all
    from Cons.IH [OF inv(1), of k'] ok(2) inv(2) have
      "(\<exists>k'' e''. xengine_run True ops xadd evs k' e' = Some (HookReturns k'' (Some e'')) \<and>
          engine_run ops evs e' = Some e'') \<or>
       (\<exists>s past ev rest j. xengine_run True ops xadd evs k' e' = Some (HookTerminates (Some s)) \<and>
          k' \<le> j \<and> \<not> grants j \<and> evs = past @ ev # rest \<and> tbl s \<subseteq>\<^sub>m spec_run (past @ [ev]) (etable tbl e'))"
      by metis
    then show ?thesis
    proof (elim disjE exE conjE)
      fix s past ev' rest j
      assume a: "xengine_run True ops xadd evs k' e' = Some (HookTerminates (Some s))" "k' \<le> j" "\<not> grants j"
        "evs = past @ ev' # rest" "tbl s \<subseteq>\<^sub>m spec_run (past @ [ev']) (etable tbl e')"
      from ext [OF a(2,4,5)] a(1,3) run(1) show ?thesis by metis
    qed (use run in auto)
  qed
qed simp

lemma xOnDestroy_cases:
  assumes inv: "engine_inv tbl sinv e"
  shows "(\<exists>st k' e'. xOnDestroy ops xadd env now k e = Some (st, Returned (k', e')) \<and>
            OnDestroy ops env now e = Some (st, e')) \<or>
         (\<exists>k' e' j. xOnDestroy ops xadd env now k e = Some (None, Threw (k', e')) \<and> k \<le> j \<and> \<not> grants j \<and>
            etable tbl e' = etable tbl e)"
proof -
  obtain r where r: "xFlushLocalCache ops xadd env now 0 True k e = Some r"
    "ends_as tbl sinv grants k (FlushLocalCache ops env now 0 True e) (etable tbl e) r"
    using xFlushLocalCache_cases [OF inv] by blast
  show ?thesis
  proof (cases r)
    case (Returned ke)
    with r show ?thesis by (cases ke) (simp add: xOnDestroy_def OnDestroy_def)
  next
    case (Threw ke)
    with r show ?thesis by (cases ke) (auto simp: xOnDestroy_def dest!: cut_short_table(1))
  qed
qed

lemma cut_short_OnDestroy:
  assumes cut: "cut_short tbl sinv e e'" and inv: "engine_inv tbl sinv e"
  shows "\<exists>s e''. OnDestroy ops env now e' = Some (Some s, e'') \<and> sinv s \<and> tbl s = etable tbl e \<and> m_cache e'' = []"
proof -
  from cut obtain s s' ys where s: "m_storage e = Some s" "m_storage e' = Some s'" "sinv s'"
      "cache_tbl ys \<subseteq>\<^sub>m cache_tbl (m_cache e)" "tbl s' = tbl s ++ cache_tbl ys"
      "cache_tbl (m_cache e') = cache_tbl (m_cache e)" "ic_inv (m_cache e')"
      "unwinder_ready (m_callstack_unwinder e')"
    unfolding cut_short_def by blast
  have "tbl s' (address x) = None \<or> tbl s' (address x) = Some (cache_view x)" if "x \<in> set (m_cache e')" for x
  proof -
    have c: "cache_tbl (m_cache e) (address x) = Some (cache_view x)"
      using cache_tbl_mem [OF s(7) that] s(6) by simp
    then have "tbl s (address x) = None"
      using inv s(1) by (auto simp: engine_inv_def domIff)
    with c s(4) show ?thesis unfolding s(5)
      by (cases "cache_tbl ys (address x)") (auto simp: map_add_def map_le_def dom_def)
  qed
  from OnDestroy_agree [OF s(7,8,2,3) this] cut_short_table(1) [OF cut inv] show ?thesis by simp
qed

end

lemma hook_threw:
  assumes "engine_inv bms_tbl bms_inv e" and "mem = 0 \<or> etable bms_tbl e mem = None"
    and "xHookAlloc False bms_ops (alloc_Add grants) ctx mem n k (Some e) = Some (HookThrows k' inst)"
  shows "\<exists>e' e1. inst = Some e' \<and> cut_short bms_tbl bms_inv e1 e' \<and> engine_inv bms_tbl bms_inv e1 \<and>
           etable bms_tbl e1 = spec_alloc ctx mem n (etable bms_tbl e)"
proof -
  from assms(3) obtain r where r: "xDoHookAlloc bms_ops (alloc_Add grants) ctx mem n k e = Some r"
    "MEMHOOK_NOEXCEPT False r = HookThrows k' inst" by (auto simp: xHookAlloc_def)
  from r(2) obtain e' where "r = Threw (k', e')" "inst = Some e'"
    by (cases r) (auto simp: MEMHOOK_NOEXCEPT_def split: prod.splits)
  with r(1) alloc.xDoHookAlloc_cases [OF assms(1,2), of grants ctx n k] show ?thesis by auto
qed

text \<open>
  C15. A full segment ends the watched program, and what it leaves behind is true. On a build
  with \<^verbatim>\<open>noexcept\<close>, whatever requests the segment refuses, a history of hook calls either runs
  to its end, and then exactly as on an unbounded segment, or a request was refused and the program is
  terminated in one of its allocations, although the allocation had succeeded; then every record in the
  storage is that of a block that was live at that moment. No hook throws.
\<close>

theorem full_storage_terminates:
  assumes "engine_inv bms_tbl bms_inv e" and "run_ok evs (etable bms_tbl e)"
  shows "(\<exists>k' e'. xengine_run True bms_ops (alloc_Add grants) evs k e = Some (HookReturns k' (Some e')) \<and>
            engine_run bms_ops evs e = Some e' \<and> etable bms_tbl e' = spec_run evs (etable bms_tbl e)) \<or>
         (\<exists>s past ev rest j. xengine_run True bms_ops (alloc_Add grants) evs k e = Some (HookTerminates (Some s)) \<and>
            k \<le> j \<and> \<not> grants j \<and> evs = past @ ev # rest \<and>
            bms_tbl s \<subseteq>\<^sub>m spec_run (past @ [ev]) (etable bms_tbl e))"
proof -
  have "etable bms_tbl e' = spec_run evs (etable bms_tbl e)" if "engine_run bms_ops evs e = Some e'" for e'
    using bms.engine_run_ok [OF assms] that by simp
  with alloc.xengine_run_cases [OF assms, of grants k] show ?thesis by blast
qed

text \<open>Two records that are due, and a segment that has space for one more.\<close>

definition one_more :: "nat \<Rightarrow> bool" where
  "one_more j \<longleftrightarrow> j < 1"

definition demo_full :: "BasicMappedStorage Engine" where
  "demo_full = demo_cached\<lparr>m_getprocinfo_policy := kUnwindCallStackWhen, m_cache_flush_max_items := 100\<rparr>"

definition late_ctx :: hook_ctx where
  "late_ctx = \<lparr>c_now = 20 * 10 ^ 9, c_frames = [], c_unw = demo_unw\<rparr>"

lemma demo_full_inv: "engine_inv bms_tbl bms_inv demo_full" "m_storage demo_full \<noteq> None"
  "etable bms_tbl demo_full 12288 = None"
  using demo_cached_inv
  by (simp_all add: demo_full_def demo_cached_def demo_engine_def OnInitialize_def engine_inv_def etable_def
      cache_tbl_Cons new_EngineTraceInfo_def)

lemma demo_full_range:
  "flush_range (20 * 10 ^ 9) 2 False
     (demo_full\<lparr>m_callstack_unwinder := u,
        m_cache := [new_EngineTraceInfo 8192 32 (10 * 10 ^ 9), new_EngineTraceInfo 4096 16 5, new_EngineTraceInfo 12288 64 (20 * 10 ^ 9)]\<rparr>) =
   [new_EngineTraceInfo 4096 16 5, new_EngineTraceInfo 8192 32 (10 * 10 ^ 9)]"
  by (simp add: flush_range_def demo_full_def by_timestamp_def)

lemma demo_full_alloc:
  "\<exists>e' s'. xDoHookAlloc bms_ops (alloc_Add one_more) late_ctx 12288 64 0 demo_full = Some (Threw (2, e')) \<and>
     ic_find 4096 (m_cache e') = Some (new_EngineTraceInfo 4096 16 5) \<and> m_storage e' = Some s' \<and>
     bms_tbl s' = [4096 \<mapsto> (16, 5, [])]"
proof -
  have t: "m_cache_flush_timeout demo_full = 2" "m_callstack_unwinder demo_full = Some (new_Unwinder [])"
    "m_storage demo_full = Some (new_BasicMappedStorage ''ShmMemHook'' (ipc_size_of []))"
    "m_getprocinfo_policy demo_full = kUnwindCallStackWhen"
    "m_cache demo_full = [new_EngineTraceInfo 8192 32 (10 * 10 ^ 9), new_EngineTraceInfo 4096 16 5]"
    by (simp_all add: demo_full_def demo_cached_def demo_engine_def OnInitialize_def getenv_def)
  have c: "e_callstack_update (\<lambda>_. []) (new_EngineTraceInfo a n t) = new_EngineTraceInfo a n t" for a n t
    by (simp add: new_EngineTraceInfo_def)
  show ?thesis
    by (simp add: xDoHookAlloc_def late_ctx_def t GetCallStackInfo_def ic_emplace_def ic_modify_def c
        xFlushLocalCache_def demo_full_range [simplified] Let_def alloc_Add_def with_alloc_def one_more_def
        add_record_def new_BasicMappedStorage_def new_MappedContainer_def bms_tbl_def ic.view_def)
      (simp add: fun_eq_iff frames_of_def)
qed

theorem full_storage_terminates_witness:
  "\<exists>s. engine_inv bms_tbl bms_inv demo_full \<and> run_ok [EvAlloc late_ctx 12288 64] (etable bms_tbl demo_full) \<and>
     xengine_run True bms_ops (alloc_Add one_more) [EvAlloc late_ctx 12288 64] 0 demo_full = Some (HookTerminates (Some s)) \<and>
     bms_tbl s = [4096 \<mapsto> (16, 5, [])] \<and> bms_tbl s \<subseteq>\<^sub>m spec_alloc late_ctx 12288 64 (etable bms_tbl demo_full)"
proof -
  have ok: "run_ok [EvAlloc late_ctx 12288 64] (etable bms_tbl demo_full)" using demo_full_inv(3) by simp
  from demo_full_alloc obtain e' s where e':
    "xDoHookAlloc bms_ops (alloc_Add one_more) late_ctx 12288 64 0 demo_full = Some (Threw (2, e'))"
    "m_storage e' = Some s" "bms_tbl s = [4096 \<mapsto> (16, 5, [])]" by blast
  then have r: "xengine_run True bms_ops (alloc_Add one_more) [EvAlloc late_ctx 12288 64] 0 demo_full =
      Some (HookTerminates (Some s))"
    by (simp add: MEMHOOK_NOEXCEPT_def)
  from full_storage_terminates [OF demo_full_inv(1) ok, of one_more 0]
  have "bms_tbl s \<subseteq>\<^sub>m spec_alloc late_ctx 12288 64 (etable bms_tbl demo_full)"
    unfolding r by (auto simp: Cons_eq_append_conv)
  with r e'(3) ok demo_full_inv(1) show ?thesis by blast
qed

subsection \<open>After an exception\<close>

text \<open>
  Where the hooks may throw, the engine is used again after a flush that was cut short. A
  flush that has space then completes it: destroying the engine leaves in the storage exactly
  the live blocks, each record once, although some were added by the flush before.
\<close>

text \<open>
  C26. No record is lost or doubled by an exception: on a build without \<^verbatim>\<open>noexcept\<close>, when an alloc
  hook throws because the segment is full, the new block is recorded all the same, and destroying
  the engine when the segment has space again leaves in the storage exactly the live blocks with
  the new one among them.
\<close>

theorem interrupted_flush_completes:
  assumes "engine_inv bms_tbl bms_inv e" and "mem = 0 \<or> etable bms_tbl e mem = None"
    and "xHookAlloc False bms_ops (alloc_Add grants) ctx mem n k (Some e) = Some (HookThrows k' inst)"
  shows "\<exists>e' s e''. inst = Some e' \<and> etable bms_tbl e' = spec_alloc ctx mem n (etable bms_tbl e) \<and>
           OnDestroy bms_ops env now e' = Some (Some s, e'') \<and> m_cache e'' = [] \<and>
           bms_tbl s = spec_alloc ctx mem n (etable bms_tbl e)"
proof -
  from hook_threw [OF assms] obtain e' e1 where e': "inst = Some e'" "cut_short bms_tbl bms_inv e1 e'"
    "engine_inv bms_tbl bms_inv e1" "etable bms_tbl e1 = spec_alloc ctx mem n (etable bms_tbl e)" by blast
  with cut_short_table(1) [OF e'(2,3)] alloc.cut_short_OnDestroy [OF e'(2,3), of env now] show ?thesis by auto
qed

text \<open>
  But a block that is freed after such an exception may be reported for ever: when the
  flush that threw had stored its record, the free erases the record of the cache only, and the
  table of live blocks still has the block.
\<close>

theorem interrupted_flush_leaves_stale_record:
  assumes "engine_inv bms_tbl bms_inv e" and "mem = 0 \<or> etable bms_tbl e mem = None"
    and "xHookAlloc False bms_ops (alloc_Add grants) ctx mem n k (Some e) = Some (HookThrows k' (Some e'))"
    and "m_storage e' = Some s" and "bms_tbl s a \<noteq> None" and "ic_find a (m_cache e') \<noteq> None" and "a \<noteq> 0"
  shows "etable bms_tbl (DoHookFree bms_ops a e') a = spec_alloc ctx mem n (etable bms_tbl e) a \<and>
         etable bms_tbl (DoHookFree bms_ops a e') a \<noteq> None"
proof -
  from hook_threw [OF assms(1-3)] obtain e1 where e1: "cut_short bms_tbl bms_inv e1 e'"
    "engine_inv bms_tbl bms_inv e1" "etable bms_tbl e1 = spec_alloc ctx mem n (etable bms_tbl e)" by blast
  have "etable bms_tbl (DoHookFree bms_ops a e') a = bms_tbl s a"
    using assms(4,6,7) by (auto simp: DoHookFree_def etable_def cache_tbl_erase map_add_def)
  moreover have "bms_tbl s \<subseteq>\<^sub>m spec_alloc ctx mem n (etable bms_tbl e)"
    using cut_short_table(3) [OF e1(1,2)] e1(3) assms(4) by (simp add: stable_def)
  ultimately show ?thesis using assms(5) by (auto simp: map_le_def)
qed

lemma demo_full_throws:
  "\<exists>e' s'. xHookAlloc False bms_ops (alloc_Add one_more) late_ctx 12288 64 0 (Some demo_full) =
       Some (HookThrows 2 (Some e')) \<and>
     ic_find 4096 (m_cache e') = Some (new_EngineTraceInfo 4096 16 5) \<and> m_storage e' = Some s' \<and>
     bms_tbl s' = [4096 \<mapsto> (16, 5, [])]"
  using demo_full_alloc by (auto simp: xHookAlloc_def MEMHOOK_NOEXCEPT_def)

theorem interrupted_flush_completes_witness:
  "\<exists>e' s e''. engine_inv bms_tbl bms_inv demo_full \<and>
     xHookAlloc False bms_ops (alloc_Add one_more) late_ctx 12288 64 0 (Some demo_full) =
       Some (HookThrows 2 (Some e')) \<and>
     OnDestroy bms_ops demo_unw (21 * 10 ^ 9) e' = Some (Some s, e'') \<and>
     bms_tbl s = spec_alloc late_ctx 12288 64 (etable bms_tbl demo_full)"
proof -
  obtain e' where e': "xHookAlloc False bms_ops (alloc_Add one_more) late_ctx 12288 64 0 (Some demo_full) =
      Some (HookThrows 2 (Some e'))" using demo_full_throws by blast
  from interrupted_flush_completes [OF demo_full_inv(1) _ this, of demo_unw "21 * 10 ^ 9"] e' demo_full_inv(1,3)
  show ?thesis by auto
qed

theorem interrupted_flush_leaves_stale_record_witness:
  "\<exists>e'. xHookAlloc False bms_ops (alloc_Add one_more) late_ctx 12288 64 0 (Some demo_full) =
       Some (HookThrows 2 (Some e')) \<and>
     etable bms_tbl (DoHookFree bms_ops 4096 e') 4096 \<noteq> None"
proof -
  obtain e' s' where e': "xHookAlloc False bms_ops (alloc_Add one_more) late_ctx 12288 64 0 (Some demo_full) =
      Some (HookThrows 2 (Some e'))" "m_storage e' = Some s'" "bms_tbl s' = [4096 \<mapsto> (16, 5, [])]"
      "ic_find 4096 (m_cache e') = Some (new_EngineTraceInfo 4096 16 5)"
    using demo_full_throws by blast
  have "(12288 :: addr) = 0 \<or> etable bms_tbl demo_full 12288 = None" "(4096 :: addr) \<noteq> 0"
    "bms_tbl s' 4096 \<noteq> None" "ic_find 4096 (m_cache e') \<noteq> None"
    using demo_full_inv(3) by (simp_all add: e')
  with interrupted_flush_leaves_stale_record [OF demo_full_inv(1) _ e'(1,2), of 4096]
  have "etable bms_tbl (DoHookFree bms_ops 4096 e') 4096 \<noteq> None" by blast
  with e'(1) show ?thesis by blast
qed

end
