(* ===== verification/Memdb_Bounded.thy ===== *)
theory Memdb_Bounded
  imports Memdb_Server Bounded_Storage
begin

text \<open>
  The database server on segments that can run out of space. The exception of a storage's
  \<^verbatim>\<open>Add\<close> passes \<^verbatim>\<open>MemDBSession::OnAdd\<close>, \<^verbatim>\<open>HandleNetRequest\<close>, \<^verbatim>\<open>ParseInbound\<close> and
  \<^verbatim>\<open>OnReadComplete\<close> (\<^verbatim>\<open>src/memdb/memdb_session.cpp\<close>) and leaves \<^verbatim>\<open>io_service::run\<close>, which the
  service threads of \<^verbatim>\<open>src/memdb/memdb.cpp\<close> call directly: the handler of \<^verbatim>\<open>main\<close> is in another
  thread, so the exception ends the server. \<open>Threw\<close> is that end, with the segments as they are then.
\<close>

definition xOnAdd ::
    "(nat \<Rightarrow> bool) \<Rightarrow> TraceInfoBase \<Rightarrow> CallStackInfo \<Rightarrow> nat \<Rightarrow> BasicMappedStorage MemDBSession \<Rightarrow>
     session_error + (nat \<times> BasicMappedStorage MemDBSession) outcome" where
  "xOnAdd grants ti cs k se =
     (case storage se of
        None \<Rightarrow> Inl NullStorage
      | Some st \<Rightarrow> Inr (map_outcome (\<lambda>(k, st). (k, se\<lparr>storage := Some st\<rparr>))
                        (alloc_Add grants (address ti) (memsize ti) cs (timestamp ti) k st)))"

definition serve_add ::
    "(nat \<Rightarrow> bool) \<Rightarrow> nat \<Rightarrow> NetRequest \<Rightarrow> memdb_conn \<Rightarrow> nat \<Rightarrow> memdb_server \<Rightarrow>
     server_error + (nat \<times> memdb_server) outcome" where
  "serve_add grants i r c k s =
     (case xOnAdd grants (r_traceinfo r) (r_callstack r) k (cn_session c) of
        Inl err \<Rightarrow> Inl (Crash err)
      | Inr q \<Rightarrow> Inr (map_outcome (\<lambda>(k, se). (k, put_session i c se s)) q))"

fun xserver_step ::
    "(nat \<Rightarrow> bool) \<Rightarrow> memdb_env \<Rightarrow> server_event \<Rightarrow> nat \<Rightarrow> memdb_server \<Rightarrow>
     server_error + (nat \<times> memdb_server) outcome" where
  "xserver_step grants e (Request i r) k s =
     (case sv_conns s i of
        None \<Rightarrow> Inr (Returned (k, s))
      | Some c \<Rightarrow>
          if r_type r = kNetReqAdd then serve_add grants i r c k s
          else map_sum id (\<lambda>s. Returned (k, s)) (server_step e (Request i r) s))"
| "xserver_step grants e ev k s = map_sum id (\<lambda>s. Returned (k, s)) (server_step e ev s)"

fun xserver_run ::
    "(nat \<Rightarrow> bool) \<Rightarrow> memdb_env \<Rightarrow> server_event list \<Rightarrow> nat \<Rightarrow> memdb_server \<Rightarrow>
     server_error + (nat \<times> memdb_server) outcome" where
  "xserver_run grants e [] k s = Inr (Returned (k, s))"
| "xserver_run grants e (ev # evs) k s =
     (case xserver_step grants e ev k s of
        Inl err \<Rightarrow> Inl err
      | Inr (Returned (k, s)) \<Rightarrow> xserver_run grants e evs k s
      | Inr (Threw ks) \<Rightarrow> Inr (Threw ks))"

text \<open>The records in the segment of a name.\<close>

definition file_tbl :: "memdb_server \<Rightarrow> string \<Rightarrow> table option" where
  "file_tbl s p =
     (case sv_names s p of None \<Rightarrow> None
      | Some g \<Rightarrow> map_option (\<lambda>c. ic.view trace_view_of (indexed_container c)) (sv_content s g))"

lemma put_session_file_tbl:
  assumes "cn_segment c = Some g" "sv_content s g = Some (m_container st)" "storage se = Some st'"
    "bms_tbl st' = bms_tbl st"
  shows "file_tbl (put_session i c se s) = file_tbl s"
  using assms by (auto simp: file_tbl_def put_session_def bms_tbl_def fun_eq_iff split: option.split)

lemma serve_add_cases:
  assumes inv: "server_inv e s" and c: "sv_conns s i = Some c" and r: "r_type r = kNetReqAdd"
  shows "(\<exists>err. serve_add grants i r c k s = Inl err \<and> serve_other e i r c s = Inl err) \<or>
         (\<exists>k' s'. serve_add grants i r c k s = Inr (Returned (k', s')) \<and> serve_other e i r c s = Inr s' \<and> k \<le> k') \<or>
         (\<exists>k' s' j. serve_add grants i r c k s = Inr (Threw (k', s')) \<and> k \<le> j \<and> \<not> grants j \<and> file_tbl s' = file_tbl s)"
proof (cases "storage (cn_session c)")
  case None
  with r show ?thesis
    by (simp add: serve_add_def xOnAdd_def serve_other_def HandleNetRequest_def OnAdd_def)
next
  case (Some st)
  let ?ti = "r_traceinfo r"
  let ?q = "alloc_Add grants (address ?ti) (memsize ?ti) (r_callstack r) (timestamp ?ti) k st"
  have add: "serve_add grants i r c k s =
      Inr (map_outcome (\<lambda>(k, st). (k, put_session i c ((cn_session c)\<lparr>storage := Some st\<rparr>) s)) ?q)"
    using Some by (simp add: serve_add_def xOnAdd_def outcome.map_comp comp_def case_prod_unfold)
  show ?thesis
  proof (cases ?q)
    case (Returned ks)
    obtain k' st' where ks: "ks = (k', st')" by (cases ks)
    from alloc_Add_returned [OF Returned [unfolded ks]] add Returned ks Some r show ?thesis
      by (simp add: serve_other_def HandleNetRequest_def OnAdd_def bms_ops_def)
  next
    case (Threw ks)
    obtain k' st' where ks: "ks = (k', st')" by (cases ks)
    from inv c Some obtain g where g: "cn_segment c = Some g" "sv_content s g = Some (m_container st)"
      unfolding server_inv_def conn_ok_def by (fastforce split: option.splits)
    from alloc_Add_threw [OF Threw [unfolded ks]] have t: "bms_tbl st' = bms_tbl st" "\<exists>j\<ge>k. \<not> grants j"
      by (auto simp: between_def bms_tbl_def)
    from put_session_file_tbl [OF g _ t(1)] add Threw ks t(2) show ?thesis by auto
  qed
qed

lemma xserver_step_cases:
  assumes inv: "server_inv e s"
  shows "(\<exists>err. xserver_step grants e ev k s = Inl err \<and> server_step e ev s = Inl err) \<or>
         (\<exists>k' s'. xserver_step grants e ev k s = Inr (Returned (k', s')) \<and> server_step e ev s = Inr s' \<and> k \<le> k') \<or>
         (\<exists>k' s' i r j. xserver_step grants e ev k s = Inr (Threw (k', s')) \<and> ev = Request i r \<and>
            r_type r = kNetReqAdd \<and> k \<le> j \<and> \<not> grants j \<and> file_tbl s' = file_tbl s)"
proof -
  have other: ?thesis if "xserver_step grants e ev k s = map_sum id (\<lambda>s. Returned (k, s)) (server_step e ev s)"
    using that by (cases "server_step e ev s") auto
  show ?thesis
  proof (cases ev)
    case (Request i r)
    show ?thesis
    proof (cases "sv_conns s i")
      case (Some c)
      show ?thesis
      proof (cases "r_type r = kNetReqAdd")
        case True
        then have "r_type r \<noteq> kNetReqNewStorage" by (simp add: kNetReqAdd_def kNetReqNewStorage_def)
        with True Some Request serve_add_cases [OF inv Some True, of grants k] show ?thesis by auto
      qed (use Some Request other in simp)
    qed (use Request in simp)
  qed (use other in simp_all)
qed

lemma xserver_run_cases:
  assumes "sv_kind e = MMF" "server_inv e s" "finite (other_files e)"
    "card (other_files e) + sv_next_segment s + length evs < 2 ^ 64"
  shows "(\<exists>err. xserver_run grants e evs k s = Inl err \<and> server_run e evs s = Inl err) \<or>
         (\<exists>k' s'. xserver_run grants e evs k s = Inr (Returned (k', s')) \<and> server_run e evs s = Inr s') \<or>
         (\<exists>k' s' past i r rest s0 j. xserver_run grants e evs k s = Inr (Threw (k', s')) \<and>
            evs = past @ Request i r # rest \<and> r_type r = kNetReqAdd \<and> server_run e past s = Inr s0 \<and>
            k \<le> j \<and> \<not> grants j \<and> file_tbl s' = file_tbl s0)"
  using assms
proof (induction evs arbitrary: k s)
  case (Cons ev evs)
  from xserver_step_cases [OF Cons.prems(2), of grants ev k] show ?case
  proof (elim disjE exE conjE)
    fix k' s' i r j
    assume a: "xserver_step grants e ev k s = Inr (Threw (k', s'))" "ev = Request i r" "r_type r = kNetReqAdd"
      "k \<le> j" "\<not> grants j" "file_tbl s' = file_tbl s"
    then have "xserver_run grants e (ev # evs) k s = Inr (Threw (k', s'))" "ev # evs = [] @ Request i r # evs"
      "server_run e [] s = Inr s" by simp_all
    with a(3-6) show ?thesis by blast
  next
    fix k' s'
    assume a: "xserver_step grants e ev k s = Inr (Returned (k', s'))" "server_step e ev s = Inr s'" "k \<le> k'"
    then have run: "xserver_run grants e (ev # evs) k s = xserver_run grants e evs k' s'"
      "\<And>xs. server_run e (ev # xs) s = server_run e xs s'" by simp_all
    from server_step_inv [OF Cons.prems(1-3), of ev] Cons.prems(4) a(2)
    have "server_inv e s'" "sv_next_segment s' \<le> Suc (sv_next_segment s)" by simp_all
    with Cons.IH [OF Cons.prems(1) _ Cons.prems(3), of s' k'] Cons.prems(4) have
      "(\<exists>err. xserver_run grants e evs k' s' = Inl err \<and> server_run e evs s' = Inl err) \<or>
       (\<exists>k'' s''. xserver_run grants e evs k' s' = Inr (Returned (k'', s'')) \<and> server_run e evs s' = Inr s'') \<or>
       (\<exists>k'' s'' past i r rest s0 j. xserver_run grants e evs k' s' = Inr (Threw (k'', s'')) \<and>
            evs = past @ Request i r # rest \<and> r_type r = kNetReqAdd \<and> server_run e past s' = Inr s0 \<and>
            k' \<le> j \<and> \<not> grants j \<and> file_tbl s'' = file_tbl s0)" by simp
    then show ?thesis
    proof (elim disjE exE conjE)
      fix k'' s'' past i r rest s0 j
      assume b: "xserver_run grants e evs k' s' = Inr (Threw (k'', s''))" "evs = past @ Request i r # rest"
        "r_type r = kNetReqAdd" "server_run e past s' = Inr s0" "k' \<le> j" "\<not> grants j" "file_tbl s'' = file_tbl s0"
      then have "ev # evs = (ev # past) @ Request i r # rest" "server_run e (ev # past) s = Inr s0" "k \<le> j"
        using run(2) a(3) by simp_all
      with b(1,3,6,7) run(1) show ?thesis by metis
    qed (use run in simp_all)
  qed simp
qed simp

text \<open>
  C17. One client can end the server, but not the others' records: on mapped files, whatever
  requests the segments refuse, the server either behaves as on unbounded segments, or some client's
  record was refused and the server is gone for all clients; then every file holds the records it held
  before that request. The handlers run one after another, as they do with one service thread.
\<close>

theorem full_segment_ends_server:
  assumes "sv_kind e = MMF" and "finite (other_files e)" and "card (other_files e) + length evs < 2 ^ 64"
  shows "(\<exists>err. xserver_run grants e evs k new_MemDBServer = Inl err \<and> server_run e evs new_MemDBServer = Inl err) \<or>
         (\<exists>k' s. xserver_run grants e evs k new_MemDBServer = Inr (Returned (k', s)) \<and>
            server_run e evs new_MemDBServer = Inr s) \<or>
         (\<exists>k' s past i r rest s0 j. xserver_run grants e evs k new_MemDBServer = Inr (Threw (k', s)) \<and>
            evs = past @ Request i r # rest \<and> r_type r = kNetReqAdd \<and> server_run e past new_MemDBServer = Inr s0 \<and>
            k \<le> j \<and> \<not> grants j \<and> file_tbl s = file_tbl s0)"
  using assms by (intro xserver_run_cases new_server_inv) (simp_all add: new_MemDBServer_def StartAccept_def)

lemma demo_xrun:
  "\<exists>k s. xserver_run (\<lambda>_. False) (demo_memdb MMF) demo_events 0 new_MemDBServer = Inr (Threw (k, s))"
  by (simp add: demo_events_def demo_memdb_def HandleAccept_def StartAccept_def new_MemDBServer_def server_open_def
      choose_name_def create_segment_def destroy_storage_def Let_def GenerateUniquePath_def fs_now_def
      new_BasicMappedStorage_def new_conn_def new_MemDBSession_def new_NetRequest_def serve_add_def put_session_def
      xOnAdd_def alloc_Add_def with_alloc_def new_MappedContainer_def
      unique_path_loop.simps kNetReqAdd_def kNetReqNewStorage_def)

theorem full_segment_ends_server_witness:
  "\<exists>k s past i r rest s0. xserver_run (\<lambda>_. False) (demo_memdb MMF) demo_events 0 new_MemDBServer = Inr (Threw (k, s)) \<and>
     demo_events = past @ Request i r # rest \<and> r_type r = kNetReqAdd \<and>
     server_run (demo_memdb MMF) past new_MemDBServer = Inr s0 \<and> file_tbl s = file_tbl s0"
proof -
  have o: "other_files (demo_memdb MMF) = {''/tmp/old.shm''}" by (simp add: other_files_def demo_memdb_def)
  have h: "sv_kind (demo_memdb MMF) = MMF" "finite (other_files (demo_memdb MMF))"
    "card (other_files (demo_memdb MMF)) + length demo_events < 2 ^ 64"
    by (simp_all add: o demo_events_def) (simp add: demo_memdb_def)
  obtain k s where "xserver_run (\<lambda>_. False) (demo_memdb MMF) demo_events 0 new_MemDBServer = Inr (Threw (k, s))"
    using demo_xrun by blast
  with full_segment_ends_server [OF h, of "\<lambda>_. False" 0] show ?thesis by force
qed

end
