(* ===== verification/Spec2Isabelle.thy ===== *)
theory Spec2Isabelle
  imports Memdb_Main Whole_System Concurrent_Hooks Memory_Order Spin_Lock_Futex Singleton Pthread_Wrappers
    Glibc_Layout Forwarding Exported_Symbols LevelDB_Storage Codec Engine_Exceptions Memdb_Bounded
begin

text \<open>
  memhook is a memory leak tool for programs in C and C++. Three programs share a library of
  storages:

  \<^item> \<^verbatim>\<open>libmemhook\<close> (\<^verbatim>\<open>src/memhook\<close>) is preloaded into the program that is watched. It takes the
    place of the allocation functions, forwards each call to the next library, and reports
    it to the engine. The engine keeps the youngest allocations in a local cache, moves them
    to a storage once they are old enough to be worth keeping, and empties the cache into the
    storage when the process ends.
  \<^item> \<^verbatim>\<open>memdb\<close> (\<^verbatim>\<open>src/memdb\<close>) is a server that receives allocations over TCP and keeps them in a
    storage of its own.
  \<^item> \<^verbatim>\<open>memview\<close> (\<^verbatim>\<open>src/memview\<close>) prints the content of a storage.
  \<^item> \<^verbatim>\<open>memhookcore\<close> (\<^verbatim>\<open>src/memhookcore\<close>, \<^verbatim>\<open>include/memhook\<close>) has the storages: a container in a
    memory-mapped segment, the network client, and the creators that open them.

  \<^bold>\<open>Theories.\<close> Each theory names in its opening text the files it models; definitions carry
  the names of the code.

  \<^item> \<^verbatim>\<open>Memhook_Prelude\<close>: machine types (an address and a \<^verbatim>\<open>size_t\<close> are 64-bit words, a time point is
    an integer whose differences wrap around at 64 bits, \<open>wrap64\<close>), the configuration of the build
    and the shared lemmas.
  \<^item> \<^verbatim>\<open>Traceinfo\<close>: the records of an allocation, \<^verbatim>\<open>traceinfo.h\<close> and \<^verbatim>\<open>callstack.h\<close>.
  \<^item> \<^verbatim>\<open>Byteswap\<close>, \<^verbatim>\<open>Serialization\<close>, \<^verbatim>\<open>Network\<close>: byte order, the size, write and read visitors over
    buffers, and the messages of the protocol. Shown: what one host writes any host reads
    back, the size computed beforehand is the size written, and the bytes do not depend on the
    host.
  \<^item> \<^verbatim>\<open>Codec\<close>: the same visitors for every type the templates have an overload for, over a type of
    wire types and one of values. Shown: writing fills the buffer for all of them, and the round
    trip for those that can be read; an enumeration that is not as wide as an \<^verbatim>\<open>int\<close> does not come
    back, and the reader of a hash map does not compile (so that a response is written only).
  \<^item> \<^verbatim>\<open>Indexed_Container\<close>, \<^verbatim>\<open>Mapped_Storage\<close>: the multi-index container and the storage in a segment.
    The interface of all storages is the record \<open>storage_ops\<close> and the locale
    \<open>mapped_storage\<close>, whose laws say that a storage is a map from addresses to allocations;
    the segment storage interprets it. \<^verbatim>\<open>LevelDB_Storage\<close>: the constructor of the unfinished
    storage, which succeeds completely or leaves nothing open.
  \<^item> \<^verbatim>\<open>Bounded_Storage\<close>, \<^verbatim>\<open>Engine_Exceptions\<close>, \<^verbatim>\<open>Memdb_Bounded\<close>: the storage, the engine and the
    server when the segment refuses memory and \<^verbatim>\<open>Add\<close> throws. The locale \<open>throwing_storage\<close> extends
    \<open>mapped_storage\<close> by the ways an \<^verbatim>\<open>Add\<close> can end. Shown: an \<^verbatim>\<open>Add\<close> is all or nothing; a full segment
    ends the watched program, or the server with all its clients, and what the storages hold then is
    true; a flush that was cut short is completed by the next one, except for what was freed in between.
  \<^item> \<^verbatim>\<open>Environment\<close>: environment variables and the number formats the code reads and prints.
  \<^item> \<^verbatim>\<open>Callstack_Unwinder\<close>: frames and the symbol cache. Shown: the cache is transparent and
    bounded.
  \<^item> \<^verbatim>\<open>Engine\<close>: the engine, with its lemmas proved once for every storage that meets the
    locale. Shown: cache and storage together are the table of live allocations, whatever is
    flushed when; a flush takes the oldest records only; the end of the session persists them.
  \<^item> \<^verbatim>\<open>Network_Storage\<close>, \<^verbatim>\<open>Memdb_Session\<close>, \<^verbatim>\<open>Network_Engine\<close>: the client, the session of the server,
    and the engine on a network storage. Shown: the bytes of any sequence of operations,
    however they are chunked, give at the server the storage that the operations give
    directly; \<^verbatim>\<open>Clear\<close> is the operation for which this fails.
  \<^item> \<^verbatim>\<open>Storage_Creator\<close>: the search for a file name that is not in use.
  \<^item> \<^verbatim>\<open>Memdb_Server\<close>, \<^verbatim>\<open>Memdb_Main\<close>: the accept loop with the sessions of all clients, and the command
    line of the server. Shown: clients on mapped files have files of their own, and what a
    client stores depends on its own requests only; where this fails (shared memory, several
    service threads).
  \<^item> \<^verbatim>\<open>Memhook_Hooks\<close>, \<^verbatim>\<open>Leak_Report\<close>: the hooked functions over an arbitrary library, and a process
    from start to end. \<open>call\<close> has the allocation and mapping functions, operator new and delete,
    the loader and the resolver; \<^verbatim>\<open>dlsym\<close> and \<^verbatim>\<open>dlvsym\<close> stand apart. Shown: these calls give what the
    library gives, nothing recurses into the tool (\<^verbatim>\<open>dlclose\<close> flushes a cache of the engine, whatever
    the depth), and under \<open>prog_ok\<close> the storage at the end has exactly the blocks that leaked; a
    failing \<^verbatim>\<open>realloc\<close> is outside \<open>prog_ok\<close> and loses a record.
  \<^item> \<^verbatim>\<open>Concurrent_Hooks\<close>: the hooks of several threads, cut where another thread can come in. Shown:
    whatever the interleaving, allocating and freeing threads keep the table exact; a
    \<^verbatim>\<open>realloc\<close> that moves a block can lose the record of another one.
  \<^item> \<^verbatim>\<open>Whole_System\<close>: a process, the server among other clients, and the viewer put together. Shown:
    the viewer on the server's file lists exactly the blocks that the process leaked.
  \<^item> \<^verbatim>\<open>Atomic\<close>, \<^verbatim>\<open>Spin_Lock\<close>: the atomics and the spin lock as a step relation over any number of
    threads. Shown: mutual exclusion, progress at a free lock, bounded delays.
  \<^item> \<^verbatim>\<open>Spin_Lock_Futex\<close>: the probe of the kernel and sleeping by futex calls, with the kernel's queue.
    Shown: it implements the lock of \<^verbatim>\<open>Spin_Lock\<close>, and no wake-up is lost.
  \<^item> \<^verbatim>\<open>Memory_Order\<close>: the memory orders of the atomics on a memory with store buffers. Shown: what a
    release publishes an acquire sees, the lock protects data, and the assembly is as strong as
    the orders the other header asks for.
  \<^item> \<^verbatim>\<open>Singleton\<close>, \<^verbatim>\<open>Interruptible_Thread\<close>: the reference-counted engine and the interruptible sleep
    as step relations, with the steps of the code. Shown: one destruction and no use after it in
    the runs in which the singleton does not give up its reference while a thread is between
    reading the pointer and counting itself in (\<open>sg_orderly\<close>), and that without this there is a
    use after the destruction; no interrupt is lost, because of the mutex.
  \<^item> \<^verbatim>\<open>Bootstrap\<close>: the allocator used before the library functions are known, and the order in
    which they are looked up, for every configuration of the build.
  \<^item> \<^verbatim>\<open>Elf_Hash\<close>, \<^verbatim>\<open>Glibc_Lookup\<close>: the search for a symbol in the tables of the dynamic linker
    (\<^verbatim>\<open>glibc.cpp\<close>), which finds the next \<^verbatim>\<open>dlsym\<close>. Shown: the hash functions are those of the
    formats, and on tables laid out by them (\<open>table_ok\<close>) the search ends and gives the first
    definition after the caller, where \<open>defines_sym\<close> and \<open>table_ok\<close> are stated in terms of the ELF
    format on integers, not of the code. \<^verbatim>\<open>Glibc_Layout\<close>: the offsets of the declared structures.
  \<^item> \<^verbatim>\<open>Forwarding\<close>: the functions that call the next library through the table, and the hook of
    \<^verbatim>\<open>dlsym\<close> on the tables of the linker. Shown: each reaches the function it replaces, with its
    own arguments.
  \<^item> \<^verbatim>\<open>Elf_Injection\<close>: the patching of jump slots (\<^verbatim>\<open>elf_injection.cpp\<close>) and the protection of the
    pages they are in. Shown: the slots of the wrapped functions, and no others, point to the
    library afterwards, the pages of changed slots have lost their execute permission, and
    patching again changes nothing. The jump relocations of the objects are specified by
    \<open>jump_relocs\<close>, apart from the loops that read them.
  \<^item> \<^verbatim>\<open>Exported_Symbols\<close>: the names under which the hooks are exported. Shown: the aliases, the
    list of the injection and the list of the start-up agree.
  \<^item> \<^verbatim>\<open>Segments\<close>: creating, removing and opening mapped files and shared memory objects by name.
  \<^item> \<^verbatim>\<open>Mapped_View\<close>, \<^verbatim>\<open>View_Printer\<close>, \<^verbatim>\<open>Memview_Main\<close>: the viewer: options and flags, the simple and
    the aggregated view, the command line. Shown: what is printed for which records (\<open>satisfies\<close>,
    \<open>resolve\<close>) and in which order, also when it is interrupted; and, through hooks, engine, storage, segment and
    viewer, that the report lists exactly the blocks that leaked.
  \<^item> \<^verbatim>\<open>Signals\<close>, \<^verbatim>\<open>Process_Support\<close>: scoped signal masks and handlers, scoped locks, time
    arithmetic, sleeping, and the error log. \<^verbatim>\<open>Pthread_Wrappers\<close>: the mutex, the condition variable,
    the bound member functions and the check macros over the state of the thread library. Shown:
    threads that keep to the rules never make a check end the process.

  \<^bold>\<open>Choices.\<close> State is passed explicitly; the result \<open>None\<close> of an engine operation is a use of
  memory the language leaves undefined. Loops that need not end (the new-handler loop, the
  search for a path, the sleeping loops) are partial functions into \<open>option\<close>, and that they
  return is proved under the conditions that make them return; the parsing functions of the
  session have termination proofs. No fuel is used. Code outside the repository (the C
  library, libunwind, boost, the file system, the clock) is an argument of the definitions
  that call it; what a theorem needs of it is a named hypothesis, such as \<open>allocator_ok\<close>.

  What the segment manager grants is a parameter, one answer for each expression that may
  allocate, so that the theorems hold wherever a segment runs out of space. The theories that do not
  speak of exceptions are those of a segment that grants everything; a call that returns does the
  same in both.

  An ordered index may hold equal keys in any order: the order of an index is a parameter
  that sorts by the key (\<open>ordered_by\<close>), so the theorems hold for every choice of it. The link
  map has the fields the search reads; its tables have less than \<open>2 ^ 32\<close> entries, as their
  indices are 32-bit numbers.

  \<^bold>\<open>Not modelled.\<close> The stream operators that read and print dates are those of boost. The
  operations of the LevelDB storage are empty in the code. A process with several threads is
  modelled in \<^verbatim>\<open>Concurrent_Hooks\<close> with the engine's critical sections as single steps, since the
  engine takes a mutex around each; the other theories take the calls of a process as a
  sequence. The handlers of the server are single steps, as they are with one service thread;
  \<^verbatim>\<open>Memdb_Server\<close> has what two threads can do to a file name. What the engine itself allocates,
  with the hooks switched off, comes from the same heap as the program's blocks and is left out
  of it: \<open>heap\<close> counts the blocks of the program, and the engine leaves the library's state as
  it is. The calls that constructors and destructors of a loaded object make are calls before
  and after the one of \<^verbatim>\<open>dlopen\<close> or \<^verbatim>\<open>dlclose\<close>, which is a single step. The relaxed orders of the compiler builtins are checked against the assembly, not
  against the memory model of the language. An exception for want of memory is modelled where
  the segment is full, not where the process itself has no memory left. The capacity a reader reserves does not change what
  it reads and is left out. Declarations, macros and template plumbing without behaviour of
  their own have no counterpart, nor have the build scripts.
\<close>

end
